(* ===== verification/Prelude.thy ===== *)
theory Prelude
  imports Main "HOL-Library.Word"
begin

unbundle bit_operations_syntax

text \<open>
  Shared vocabulary of the kernel model.

  \<^item> \<open>u8\<close>, \<open>u16\<close>, \<open>u32\<close>, \<open>u64\<close> are the fixed-width C integers; \<open>+\<close>, \<open>-\<close> and \<open>*\<close> wrap around
    as on the machine.
  \<^item> \<open>fault\<close> lists the ways a kernel routine fails to return: a dereferenced null pointer (the
    page at address 0 is never mapped, so the access traps), an access outside an object, and
    \<open>kernel_panic\<close> with its message. A fallible routine has type \<open>'a res\<close>, an error on the left.
  \<^item> the macros of \<open>kernel/layout.h\<close> and \<open>lib/utils.h\<close>, and the compiler builtin
    \<open>__builtin_clz\<close> on which the size-class computations rest, with the arithmetic facts the
    other theories use.
\<close>

section \<open>Types\<close>

type_synonym u8 = "8 word"
type_synonym u16 = "16 word"
type_synonym u32 = "32 word"
type_synonym u64 = "64 word"

datatype fault = NullDeref | OutOfBounds | Panic string

type_synonym 'a res = "fault + 'a"

named_theorems layout_defs "macros of layout.h and utils.h"

section \<open>Sequencing of fallible routines\<close>

definition bnd :: "'e + 'a \<Rightarrow> ('a \<Rightarrow> 'e + 'b) \<Rightarrow> 'e + 'b" where
  "bnd m f = (case m of Inl e \<Rightarrow> Inl e | Inr x \<Rightarrow> f x)"

text \<open>A pointer is an optional location: \<open>None\<close> is NULL, and dereferencing it traps.\<close>

definition deref :: "'p option \<Rightarrow> 'p res" where
  "deref p = (case p of None \<Rightarrow> Inl NullDeref | Some x \<Rightarrow> Inr x)"

section \<open>The macros of layout.h and utils.h\<close>

definition KERNEL_VIRTUAL_BASE :: u32 where
  "KERNEL_VIRTUAL_BASE = 0xC0000000"

definition PD_INDEX :: "u32 \<Rightarrow> u32" where
  "PD_INDEX vaddr = drop_bit 22 vaddr"

definition P2V :: "u32 \<Rightarrow> u32" where
  "P2V addr = addr + KERNEL_VIRTUAL_BASE"

definition V2P :: "u32 \<Rightarrow> u32" where
  "V2P addr = addr - KERNEL_VIRTUAL_BASE"

definition IS_ALIGNED :: "u32 \<Rightarrow> u32 \<Rightarrow> bool" where
  "IS_ALIGNED x align \<longleftrightarrow> x AND (align - 1) = 0"

definition ALIGN_UP :: "u32 \<Rightarrow> u32 \<Rightarrow> u32" where
  "ALIGN_UP x align = (x + align - 1) AND NOT (align - 1)"

text \<open>
  \<open>__builtin_clz\<close> counts the leading zero bits of a 32-bit value (its result for 0 is not
  specified by the compiler; the kernel never relies on it, and the model returns 32).
\<close>

definition builtin_clz :: "u32 \<Rightarrow> nat" where
  "builtin_clz w = length (takeWhile (\<lambda>i. \<not> bit w i) (rev [0..<32]))"

declare KERNEL_VIRTUAL_BASE_def [layout_defs] PD_INDEX_def [layout_defs]
  P2V_def [layout_defs] V2P_def [layout_defs]

section \<open>Facts on results\<close>

lemma bnd_simps [simp]: "bnd (Inr x) f = f x" "bnd (Inl e) f = Inl e"
  by (simp_all add: bnd_def)

lemma bnd_Inr [simp]: "bnd m Inr = m"
  by (simp add: bnd_def split: sum.splits)

lemma bnd_assoc: "bnd (bnd m f) g = bnd m (\<lambda>x. bnd (f x) g)"
  by (simp add: bnd_def split: sum.splits)

lemma bnd_eq_Inr_iff: "bnd m f = Inr y \<longleftrightarrow> (\<exists>x. m = Inr x \<and> f x = Inr y)"
  by (auto simp: bnd_def split: sum.splits)

lemma bnd_eq_Inl_iff: "bnd m f = Inl e \<longleftrightarrow> m = Inl e \<or> (\<exists>x. m = Inr x \<and> f x = Inl e)"
  by (auto simp: bnd_def split: sum.splits)

lemma bnd_InrE [elim]:
  assumes "bnd m f = Inr y"
  obtains x where "m = Inr x" and "f x = Inr y"
  using assms by (auto simp: bnd_eq_Inr_iff)

lemma deref_simps [simp]: "deref (Some x) = Inr x" "deref None = Inl NullDeref"
  by (simp_all add: deref_def)

lemma deref_eq_Inr_iff: "deref p = Inr x \<longleftrightarrow> p = Some x"
  by (cases p) auto

section \<open>Facts on the address macros\<close>

lemma V2P_P2V [simp]: "V2P (P2V a) = a"
  by (simp add: layout_defs)

lemma P2V_V2P [simp]: "P2V (V2P a) = a"
  by (simp add: layout_defs)

lemma P2V_inject [simp]: "P2V a = P2V b \<longleftrightarrow> a = b"
  by (metis V2P_P2V)

lemma pow2_word_eq: "k < 32 \<Longrightarrow> unat (2 ^ k :: u32) = 2 ^ k"
  using unsigned_of_nat [where 'a = nat and 'b = 32, of "2 ^ k"]
  by (simp add: take_bit_nat_eq_self)

lemma IS_ALIGNED_mask: "IS_ALIGNED x (2 ^ k) \<longleftrightarrow> take_bit k x = 0"
  by (simp add: IS_ALIGNED_def take_bit_eq_mask mask_eq_exp_minus_1)

lemma IS_ALIGNED_dvd: "IS_ALIGNED x (2 ^ k) \<longleftrightarrow> 2 ^ k dvd unat x"
proof -
  have "take_bit k x = 0 \<longleftrightarrow> unat (take_bit k x) = 0"
    by (simp add: unat_eq_0)
  also have "unat (take_bit k x) = take_bit k (unat x)"
    by (simp add: unsigned_take_bit_eq)
  finally show ?thesis
    by (simp add: IS_ALIGNED_mask take_bit_eq_0_iff)
qed

lemma takeWhile_down_length:
  assumes "P i" and "\<And>j. i < j \<Longrightarrow> j < n \<Longrightarrow> \<not> P j" and "i < n"
  shows "length (takeWhile (\<lambda>j. \<not> P j) (rev [0..<n])) = n - Suc i"
  using assms
proof (induction n)
  case 0
  then show ?case by simp
next
  case (Suc n)
  show ?case
  proof (cases "i = n")
    case True
    with Suc.prems show ?thesis by simp
  next
    case False
    with Suc.prems have "i < n" and "\<not> P n" by auto
    with Suc show ?thesis by (simp add: Suc_diff_Suc)
  qed
qed

lemma word_top_bit:
  fixes w :: u32
  assumes "2 ^ k \<le> unat w" and "unat w < 2 ^ Suc k" and "k < 32"
  shows "bit w k" and "\<And>j. k < j \<Longrightarrow> \<not> bit w j"
proof -
  have eq: "bit w j \<longleftrightarrow> odd (unat w div 2 ^ j)" for j
    using bit_unsigned_iff [where 'a = nat, of w j] bit_imp_le_length [of w j]
    by (auto simp: bit_iff_odd [of "unat w"])
  have "unat w div 2 ^ k = 1"
    using assms(1,2) by (intro div_nat_eqI) auto
  then show "bit w k" by (simp add: eq)
  fix j assume "k < j"
  then have "(2::nat) ^ Suc k \<le> 2 ^ j" by (intro power_increasing) auto
  with assms(2) have "unat w div 2 ^ j = 0" by simp
  then show "\<not> bit w j" by (simp add: eq)
qed

lemma builtin_clz_eq:
  assumes "2 ^ k \<le> unat w" and "unat w < 2 ^ Suc k" and "k < 32"
  shows "builtin_clz w = 31 - k"
  unfolding builtin_clz_def
  using word_top_bit [OF assms] assms(3)
  by (subst takeWhile_down_length [of "bit w" k 32]) auto

lemma ex_pow2_range:
  fixes n :: nat
  assumes "0 < n"
  obtains k where "2 ^ k \<le> n" and "n < 2 ^ Suc k"
  using ex_power_ivl1 [of 2 n] assms by auto

lemma builtin_clz_bounds:
  assumes "w \<noteq> 0"
  shows "2 ^ (31 - builtin_clz w) \<le> unat w" and "unat w < 2 ^ (32 - builtin_clz w)"
    and "builtin_clz w < 32"
proof -
  have "0 < unat w" using assms by (simp add: unat_gt_0)
  then obtain k where k: "2 ^ k \<le> unat w" "unat w < 2 ^ Suc k"
    by (rule ex_pow2_range)
  have "(2::nat) ^ k < 2 ^ 32"
    using k(1) unsigned_less [where 'a = nat, of w] by (simp add: le_less_trans)
  then have "k < 32" by (rule power_less_imp_less_exp [rotated]) simp
  with k builtin_clz_eq [OF k] have "builtin_clz w = 31 - k" "31 - (31 - k) = k" "32 - (31 - k) = Suc k"
    by auto
  with k \<open>k < 32\<close> show "2 ^ (31 - builtin_clz w) \<le> unat w"
    "unat w < 2 ^ (32 - builtin_clz w)" "builtin_clz w < 32"
    by auto
qed

end
