(* ===== verification/Nodes.thy ===== *)
theory Nodes
  imports Prelude
begin

text \<open>
  The intrusive doubly linked list of \<open>mm/node.c\<close>.

  A \<open>Node\<close> is embedded in the object it links, so a node pointer and the pointer to the object
  are interchangeable by a constant offset. The model keeps the two link fields of every node in
  a store \<open>'p nodes\<close> indexed by the location of the node; \<open>None\<close> is NULL. A \<open>Node **head_ref\<close>
  is the current value of the head variable, returned updated. Where the kernel heap passes the
  \<open>next\<close> field of a node as the head reference, \<open>pop_node_field\<close> and \<open>remove_node_field\<close> are the
  same two routines with the head stored in that field.

  \<open>dls\<close> describes a segment of such a list and \<open>dll\<close> a whole null-terminated list. The locale
  \<open>intrusive_list\<close> states what the clients (the buddy allocator's free areas and the kernel
  heap's buckets) rely on, and derives once what push, pop and remove do to an array of disjoint
  lists that share the node store.
\<close>

section \<open>Data\<close>

record 'p node =
  nxt :: "'p option"
  prv :: "'p option"

type_synonym 'p nodes = "'p \<Rightarrow> 'p node"

section \<open>Operations\<close>

definition push_node :: "'p nodes \<Rightarrow> 'p option \<Rightarrow> 'p \<Rightarrow> 'p nodes \<times> 'p option" where
  "push_node h head node =
     (let h = h(node := \<lparr>nxt = head, prv = None\<rparr>);
          h = (case head of None \<Rightarrow> h | Some y \<Rightarrow> h(y := (h y)\<lparr>prv := Some node\<rparr>))
      in (h, Some node))"

definition pop_node :: "'p nodes \<Rightarrow> 'p option \<Rightarrow> ('p nodes \<times> 'p option \<times> 'p) res" where
  "pop_node h head =
     bnd (deref head) (\<lambda>top.
       let head = nxt (h top);
           h = (case head of None \<Rightarrow> h | Some y \<Rightarrow> h(y := (h y)\<lparr>prv := None\<rparr>))
       in Inr (h, head, top))"

definition unlink_node :: "'p nodes \<Rightarrow> 'p \<Rightarrow> 'p nodes" where
  "unlink_node h node =
     (let next = nxt (h node); prev = prv (h node);
          h = (case next of None \<Rightarrow> h | Some y \<Rightarrow> h(y := (h y)\<lparr>prv := prev\<rparr>));
          h = (case prev of None \<Rightarrow> h | Some z \<Rightarrow> h(z := (h z)\<lparr>nxt := next\<rparr>))
      in h(node := \<lparr>nxt = None, prv = None\<rparr>))"

definition remove_node :: "'p nodes \<Rightarrow> 'p option \<Rightarrow> 'p \<Rightarrow> ('p nodes \<times> 'p option) res" where
  "remove_node h head node =
     (if head = Some node
      then bnd (pop_node h head) (\<lambda>(h, head, _). Inr (h, head))
      else Inr (unlink_node h node, head))"

definition pop_node_field :: "'p nodes \<Rightarrow> 'p \<Rightarrow> ('p nodes \<times> 'p) res" where
  "pop_node_field h f =
     bnd (deref (nxt (h f))) (\<lambda>top.
       let h = h(f := (h f)\<lparr>nxt := nxt (h top)\<rparr>);
           h = (case nxt (h f) of None \<Rightarrow> h | Some y \<Rightarrow> h(y := (h y)\<lparr>prv := None\<rparr>))
       in Inr (h, top))"

definition remove_node_field :: "'p nodes \<Rightarrow> 'p \<Rightarrow> 'p \<Rightarrow> 'p nodes res" where
  "remove_node_field h f node =
     (if nxt (h f) = Some node
      then bnd (pop_node_field h f) (\<lambda>(h, _). Inr h)
      else Inr (unlink_node h node))"

definition insert_node :: "'p nodes \<Rightarrow> 'p \<Rightarrow> 'p \<Rightarrow> 'p nodes" where
  "insert_node h prev node =
     (let next = nxt (h prev);
          h = h(prev := (h prev)\<lparr>nxt := Some node\<rparr>);
          h = h(node := (h node)\<lparr>prv := Some prev\<rparr>)
      in case next of None \<Rightarrow> h
         | Some y \<Rightarrow>
             let h = h(node := (h node)\<lparr>nxt := Some y\<rparr>)
             in h(y := (h y)\<lparr>prv := Some node\<rparr>))"

section \<open>List segments\<close>

fun dls :: "'p nodes \<Rightarrow> 'p option \<Rightarrow> 'p option \<Rightarrow> 'p list \<Rightarrow> 'p option \<Rightarrow> bool" where
  "dls h pr p [] q \<longleftrightarrow> p = q"
| "dls h pr p (x # xs) q \<longleftrightarrow> p = Some x \<and> prv (h x) = pr \<and> dls h (Some x) (nxt (h x)) xs q"

fun lastp :: "'p option \<Rightarrow> 'p list \<Rightarrow> 'p option" where
  "lastp pr [] = pr"
| "lastp pr (x # xs) = lastp (Some x) xs"

definition dll :: "'p nodes \<Rightarrow> 'p option \<Rightarrow> 'p list \<Rightarrow> bool" where
  "dll h head xs \<longleftrightarrow> dls h None head xs None \<and> distinct xs"

text \<open>
  An array of \<open>n\<close> lists with pairwise disjoint nodes, under a list predicate \<open>lst\<close>.
\<close>

definition bucket_lists ::
  "('h \<Rightarrow> 'p option \<Rightarrow> 'p list \<Rightarrow> bool) \<Rightarrow> nat \<Rightarrow> 'h \<Rightarrow> (nat \<Rightarrow> 'p option) \<Rightarrow> (nat \<Rightarrow> 'p list) \<Rightarrow> bool"
where
  "bucket_lists lst n h heads L \<longleftrightarrow>
     (\<forall>k<n. lst h (heads k) (L k)) \<and>
     (\<forall>j<n. \<forall>k<n. j \<noteq> k \<longrightarrow> set (L j) \<inter> set (L k) = {})"

section \<open>Lemmas on segments\<close>

lemma lastp_snoc [simp]: "lastp pr (xs @ [x]) = Some x"
  by (induction xs arbitrary: pr) auto

lemma lastp_append [simp]: "lastp pr (xs @ ys) = lastp (lastp pr xs) ys"
  by (induction xs arbitrary: pr) auto

lemma lastp_in: "xs \<noteq> [] \<Longrightarrow> lastp pr xs = Some (last xs)"
  by (induction xs arbitrary: pr) auto

lemma dls_append:
  "dls h pr p (xs @ ys) q \<longleftrightarrow> (\<exists>r. dls h pr p xs r \<and> dls h (lastp pr xs) r ys q)"
  by (induction xs arbitrary: pr p) auto

lemma dls_frame:
  "(\<And>y. y \<in> set xs \<Longrightarrow> h' y = h y) \<Longrightarrow> dls h' pr p xs q \<longleftrightarrow> dls h pr p xs q"
  by (induction xs arbitrary: pr p) auto

lemma dls_upd_other [simp]:
  "x \<notin> set xs \<Longrightarrow> dls (h(x := v)) pr p xs q \<longleftrightarrow> dls h pr p xs q"
  by (rule dls_frame) auto

lemma dls_start: "dls h pr p xs q \<Longrightarrow> p = (if xs = [] then q else Some (hd xs))"
  by (cases xs) auto

lemma dls_unique:
  "dls h pr p xs None \<Longrightarrow> dls h pr' p ys None \<Longrightarrow> xs = ys"
proof (induction xs arbitrary: pr pr' p ys)
  case Nil
  then show ?case by (cases ys) auto
next
  case (Cons x xs)
  then show ?case by (cases ys) auto
qed

text \<open>Rewriting the first node's back pointer re-bases a segment.\<close>

lemma dls_rebase:
  assumes "dls h pr p (x # xs) q" and "x \<notin> set xs"
  shows "dls (h(x := (h x)\<lparr>prv := pr'\<rparr>)) pr' p (x # xs) q"
  using assms by simp

lemma dll_frame:
  "(\<And>y. y \<in> set xs \<Longrightarrow> h' y = h y) \<Longrightarrow> dll h' p xs \<longleftrightarrow> dll h p xs"
  using dls_frame [of xs h' h] by (simp add: dll_def)

lemma dll_Nil [simp]: "dll h p [] \<longleftrightarrow> p = None"
  by (simp add: dll_def)

lemma dll_None [simp]: "dll h None xs \<longleftrightarrow> xs = []"
  by (cases xs) (auto simp: dll_def)

lemma dll_Some: "dll h (Some x) xs \<Longrightarrow> \<exists>ys. xs = x # ys"
  by (cases xs) (auto simp: dll_def)

lemma dll_head: "dll h p xs \<Longrightarrow> p = (if xs = [] then None else Some (hd xs))"
  by (cases xs) (auto simp: dll_def)

section \<open>What the operations do to a list\<close>

lemma push_node_dll:
  assumes "dll h p xs" and "x \<notin> set xs" and "push_node h p x = (h', p')"
  shows "dll h' p' (x # xs)" and "p' = Some x" and "\<And>y. y \<notin> set (x # xs) \<Longrightarrow> h' y = h y"
proof -
  show p': "p' = Some x" using assms(3) by (auto simp: push_node_def Let_def)
  show "dll h' p' (x # xs)"
  proof (cases xs)
    case Nil
    with assms p' show ?thesis
      by (auto simp: push_node_def Let_def dll_def)
  next
    case (Cons z zs)
    with assms(1) have "p = Some z" by (simp add: dll_def)
    with assms Cons p' show ?thesis
      by (auto simp: push_node_def Let_def dll_def)
  qed
  fix y assume "y \<notin> set (x # xs)"
  with assms dll_head [OF assms(1)] show "h' y = h y"
    by (cases xs) (auto simp: push_node_def Let_def split: option.splits)
qed

lemma pop_node_dll:
  assumes "dll h p (x # xs)"
  obtains h' p' where "pop_node h p = Inr (h', p', x)" and "dll h' p' xs"
    and "\<And>y. y \<notin> set xs \<Longrightarrow> h' y = h y"
proof (cases xs)
  case Nil
  with assms have "pop_node h p = Inr (h, None, x)"
    by (auto simp: pop_node_def dll_def Let_def)
  with Nil that show ?thesis by simp
next
  case (Cons z zs)
  with assms have "pop_node h p = Inr (h(z := (h z)\<lparr>prv := None\<rparr>), Some z, x)"
    by (auto simp: pop_node_def dll_def Let_def)
  moreover from Cons assms have "dll (h(z := (h z)\<lparr>prv := None\<rparr>)) (Some z) xs"
    by (auto simp: dll_def)
  ultimately show ?thesis using Cons that by auto
qed

lemma pop_node_empty: "pop_node h None = Inl NullDeref"
  by (simp add: pop_node_def)

text \<open>Unlinking a node from the middle of a segment.\<close>

lemma unlink_node_dls:
  assumes "dls h pr p (as @ x # bs) q" and "distinct (as @ x # bs)"
    and "as \<noteq> []" and "bs = [] \<Longrightarrow> q = None"
  shows "dls (unlink_node h x) pr p (as @ bs) q"
    and "\<And>y. y \<notin> set (as @ x # bs) \<Longrightarrow> unlink_node h x y = h y"
proof -
  from assms(3) obtain cs z where as: "as = cs @ [z]"
    by (metis rev_exhaust)
  from assms(1) as have z: "dls h pr p cs (Some z)" "prv (h z) = lastp pr cs"
    and x: "nxt (h z) = Some x" "prv (h x) = Some z"
    and bs: "dls h (Some x) (nxt (h x)) bs q"
    by (auto simp: dls_append)
  show "dls (unlink_node h x) pr p (as @ bs) q"
  proof (cases bs)
    case Nil
    with bs assms(4) have "nxt (h x) = None" by simp
    with Nil z x as assms(2,4) show ?thesis
      by (auto simp: unlink_node_def Let_def dls_append)
  next
    case (Cons y ys)
    with bs have "nxt (h x) = Some y" by simp
    with Cons z x as assms(2) bs show ?thesis
      by (auto simp: unlink_node_def Let_def dls_append)
  qed
  fix y assume "y \<notin> set (as @ x # bs)"
  with x as bs assms(4) show "unlink_node h x y = h y"
    by (cases bs) (auto simp: unlink_node_def Let_def)
qed

lemma remove_node_dll:
  assumes "dll h p xs" and "x \<in> set xs"
  obtains h' p' where "remove_node h p x = Inr (h', p')" and "dll h' p' (remove1 x xs)"
    and "\<And>y. y \<notin> set xs \<Longrightarrow> h' y = h y"
proof (cases "p = Some x")
  case True
  then obtain ys where xs: "xs = x # ys" using assms(1) dll_Some by metis
  with assms(1) obtain h' p' where "pop_node h p = Inr (h', p', x)" "dll h' p' ys"
    "\<And>y. y \<notin> set ys \<Longrightarrow> h' y = h y"
    using pop_node_dll by metis
  with True xs that show ?thesis by (auto simp: remove_node_def)
next
  case False
  from assms(2) obtain as bs where xs: "xs = as @ x # bs" "x \<notin> set as"
    by (metis split_list_first)
  with assms(1) False have "as \<noteq> []" by (auto simp: dll_def)
  moreover from assms(1) xs have "dls h None p (as @ x # bs) None" "distinct (as @ x # bs)"
    by (auto simp: dll_def)
  ultimately have "dll (unlink_node h x) p (as @ bs)"
    "\<And>y. y \<notin> set xs \<Longrightarrow> unlink_node h x y = h y"
    using unlink_node_dls [of h None p as x bs None] xs by (auto simp: dll_def)
  with False xs that show ?thesis
    by (auto simp: remove_node_def remove1_append)
qed

text \<open>Inserting a fresh node after a node of a segment.\<close>

lemma insert_node_dls:
  assumes "dls h pr p (as @ z # bs) q" and "distinct (as @ z # bs)"
    and "x \<notin> set (as @ z # bs)" and "bs \<noteq> []"
  shows "dls (insert_node h z x) pr p (as @ z # x # bs) q"
    and "\<And>y. y \<notin> set (as @ z # x # bs) \<Longrightarrow> insert_node h z x y = h y"
proof -
  from assms(4) obtain b cs where bs: "bs = b # cs" by (cases bs) auto
  from assms(1) bs have nz: "nxt (h z) = Some b" by (auto simp: dls_append)
  from assms bs nz show "dls (insert_node h z x) pr p (as @ z # x # bs) q"
    by (auto simp: insert_node_def Let_def dls_append)
  fix y assume "y \<notin> set (as @ z # x # bs)"
  with nz bs show "insert_node h z x y = h y"
    by (auto simp: insert_node_def Let_def)
qed

text \<open>
  Inserting after the last node leaves the new node's forward pointer as it was: the routine
  relies on the caller having cleared it.
\<close>

lemma insert_node_last:
  assumes "dls h pr p (as @ [z]) None" and "distinct (as @ [z])"
    and "x \<notin> set (as @ [z])" and "nxt (h x) = None"
  shows "dls (insert_node h z x) pr p (as @ [z, x]) None"
    and "\<And>y. y \<notin> set (as @ [z, x]) \<Longrightarrow> insert_node h z x y = h y"
proof -
  from assms(1) have nz: "nxt (h z) = None" by (auto simp: dls_append)
  from assms nz show "dls (insert_node h z x) pr p (as @ [z, x]) None"
    by (auto simp: insert_node_def dls_append)
  fix y assume "y \<notin> set (as @ [z, x])"
  with nz show "insert_node h z x y = h y"
    by (simp add: insert_node_def)
qed

section \<open>The interface the allocators rely on\<close>

locale intrusive_list =
  fixes lst :: "('p \<Rightarrow> 'n) \<Rightarrow> 'p option \<Rightarrow> 'p list \<Rightarrow> bool"
    and push :: "('p \<Rightarrow> 'n) \<Rightarrow> 'p option \<Rightarrow> 'p \<Rightarrow> ('p \<Rightarrow> 'n) \<times> 'p option"
    and pop :: "('p \<Rightarrow> 'n) \<Rightarrow> 'p option \<Rightarrow> (('p \<Rightarrow> 'n) \<times> 'p option \<times> 'p) res"
    and remove :: "('p \<Rightarrow> 'n) \<Rightarrow> 'p option \<Rightarrow> 'p \<Rightarrow> (('p \<Rightarrow> 'n) \<times> 'p option) res"
  assumes lst_frame: "(\<And>y. y \<in> set xs \<Longrightarrow> h' y = h y) \<Longrightarrow> lst h p xs \<Longrightarrow> lst h' p xs"
    and lst_distinct: "lst h p xs \<Longrightarrow> distinct xs"
    and lst_head: "lst h p xs \<Longrightarrow> p = (if xs = [] then None else Some (hd xs))"
    and push_lst: "lst h p xs \<Longrightarrow> x \<notin> set xs \<Longrightarrow> push h p x = (h', p') \<Longrightarrow>
      lst h' p' (x # xs) \<and> (\<forall>y. y \<notin> set (x # xs) \<longrightarrow> h' y = h y)"
    and pop_lst: "lst h p (x # xs) \<Longrightarrow>
      \<exists>h' p'. pop h p = Inr (h', p', x) \<and> lst h' p' xs \<and> (\<forall>y. y \<notin> set xs \<longrightarrow> h' y = h y)"
    and remove_lst: "lst h p xs \<Longrightarrow> x \<in> set xs \<Longrightarrow>
      \<exists>h' p'. remove h p x = Inr (h', p') \<and> lst h' p' (remove1 x xs) \<and>
        (\<forall>y. y \<notin> set xs \<longrightarrow> h' y = h y)"
begin

lemma bucket_head:
  "bucket_lists lst n h heads L \<Longrightarrow> k < n \<Longrightarrow>
    heads k = (if L k = [] then None else Some (hd (L k)))"
  using lst_head [of h "heads k" "L k"] by (simp add: bucket_lists_def)

lemma bucket_distinct: "bucket_lists lst n h heads L \<Longrightarrow> k < n \<Longrightarrow> distinct (L k)"
  using lst_distinct [of h "heads k" "L k"] by (simp add: bucket_lists_def)

lemma bucket_disjoint:
  "bucket_lists lst n h heads L \<Longrightarrow> k < n \<Longrightarrow> j < n \<Longrightarrow> j \<noteq> k \<Longrightarrow> x \<in> set (L k) \<Longrightarrow> x \<notin> set (L j)"
  by (auto simp: bucket_lists_def disjoint_iff)

lemma bucket_frame:
  assumes "bucket_lists lst n h heads L"
    and "\<And>k y. k < n \<Longrightarrow> y \<in> set (L k) \<Longrightarrow> h' y = h y" and "\<And>k. k < n \<Longrightarrow> heads' k = heads k"
  shows "bucket_lists lst n h' heads' L"
  using assms lst_frame [of _ h' h] by (auto simp: bucket_lists_def)

lemma bucket_update:
  assumes "bucket_lists lst n h heads L" and "k < n"
    and "lst h' p' ys" and "\<And>y. y \<notin> insert x (set (L k)) \<Longrightarrow> h' y = h y"
    and "\<And>j. j < n \<Longrightarrow> j \<noteq> k \<Longrightarrow> x \<notin> set (L j)" and "set ys \<subseteq> insert x (set (L k))"
  shows "bucket_lists lst n h' (heads(k := p')) (L(k := ys))"
  unfolding bucket_lists_def
proof (intro conjI allI impI)
  fix j assume "j < n"
  show "lst h' ((heads(k := p')) j) ((L(k := ys)) j)"
  proof (cases "j = k")
    case True
    with assms(3) show ?thesis by simp
  next
    case False
    from assms(1) \<open>j < n\<close> have "lst h (heads j) (L j)" by (simp add: bucket_lists_def)
    moreover have "h' y = h y" if "y \<in> set (L j)" for y
      using that bucket_disjoint [OF assms(1) \<open>j < n\<close> \<open>k < n\<close>] assms(4) assms(5) [OF \<open>j < n\<close> False]
      by (metis False insertE)
    ultimately have "lst h' (heads j) (L j)" by (blast intro: lst_frame)
    with False show ?thesis by simp
  qed
next
  fix i j assume "i < n" "j < n" "i \<noteq> j"
  with assms(1) have "set (L i) \<inter> set (L j) = {}"
    by (simp add: bucket_lists_def)
  moreover have "i < n \<Longrightarrow> i \<noteq> k \<Longrightarrow> set (L i) \<inter> insert x (set (L k)) = {}" for i
    using assms(2,5) bucket_disjoint [OF assms(1)] by blast
  ultimately show "set ((L(k := ys)) i) \<inter> set ((L(k := ys)) j) = {}"
    using assms(6) \<open>i < n\<close> \<open>j < n\<close> \<open>i \<noteq> j\<close> by (cases "i = k"; cases "j = k") (simp_all, blast+)
qed

lemma push_bucket:
  assumes "bucket_lists lst n h heads L" and "k < n" and "\<And>j. j < n \<Longrightarrow> x \<notin> set (L j)"
    and "push h (heads k) x = (h', p')"
  shows "bucket_lists lst n h' (heads(k := p')) (L(k := x # L k))"
proof -
  from assms(1,2) have "lst h (heads k) (L k)" by (simp add: bucket_lists_def)
  from push_lst [OF this assms(3) [OF assms(2)] assms(4)] show ?thesis
    by (intro bucket_update [OF assms(1,2)]) (use assms(3) in auto)
qed

lemma pop_bucket:
  assumes "bucket_lists lst n h heads L" and "k < n" and "L k = x # xs"
  shows "\<exists>h' p'. pop h (heads k) = Inr (h', p', x) \<and>
    bucket_lists lst n h' (heads(k := p')) (L(k := xs))"
proof -
  from assms have "lst h (heads k) (x # xs)" by (metis bucket_lists_def)
  from pop_lst [OF this] obtain h' p' where r: "pop h (heads k) = Inr (h', p', x)" "lst h' p' xs"
    "\<forall>y. y \<notin> set xs \<longrightarrow> h' y = h y" by blast
  have "j < n \<Longrightarrow> j \<noteq> k \<Longrightarrow> x \<notin> set (L j)" for j
    using bucket_disjoint [OF assms(1,2)] assms(3) by simp
  with r assms(3) have "bucket_lists lst n h' (heads(k := p')) (L(k := xs))"
    by (intro bucket_update [OF assms(1,2), where x = x]) auto
  with r show ?thesis by blast
qed

lemma remove_bucket:
  assumes "bucket_lists lst n h heads L" and "k < n" and "x \<in> set (L k)"
  shows "\<exists>h' p'. remove h (heads k) x = Inr (h', p') \<and>
    bucket_lists lst n h' (heads(k := p')) (L(k := remove1 x (L k)))"
proof -
  from assms have "lst h (heads k) (L k)" by (simp add: bucket_lists_def)
  from remove_lst [OF this assms(3)] obtain h' p' where r: "remove h (heads k) x = Inr (h', p')"
    "lst h' p' (remove1 x (L k))" "\<forall>y. y \<notin> set (L k) \<longrightarrow> h' y = h y" by blast
  have "j < n \<Longrightarrow> j \<noteq> k \<Longrightarrow> x \<notin> set (L j)" for j
    using bucket_disjoint [OF assms(1,2) _ _ assms(3)] by simp
  with r have "bucket_lists lst n h' (heads(k := p')) (L(k := remove1 x (L k)))"
    by (intro bucket_update [OF assms(1,2), where x = x]) (auto dest: notin_set_remove1)
  with r show ?thesis by blast
qed

end

interpretation nl: intrusive_list dll push_node pop_node remove_node
proof (unfold_locales, goal_cases)
  case (1 xs h' h p)
  then show ?case using dll_frame [of xs h' h p] by simp
next
  case (2 h p xs)
  then show ?case by (simp add: dll_def)
next
  case (3 h p xs)
  then show ?case by (rule dll_head)
next
  case (4 h p xs x h' p')
  then show ?case using push_node_dll [OF 4] by simp
next
  case (5 h p x xs)
  then show ?case by (rule pop_node_dll) auto
next
  case (6 h p xs x)
  then show ?case by (rule remove_node_dll) auto
qed

end
