(* ===== verification/Buddy.thy ===== *)
theory Buddy
  imports Nodes
begin

text \<open>
  The physical page allocator of \<open>mm/buddy/buddy.c\<close> (and its \<open>pmm_alloc\<close>/\<open>pmm_free\<close> wrappers of
  \<open>mm/pmm.h\<close>): data and operations.

  The array \<open>page_map\<close> is read through an index, as the C code reads it through a pointer: the
  \<open>order\<close> and \<open>flags\<close> bytes of entry \<open>i\<close> are \<open>page_map s i\<close> and its link node is
  \<open>page_nodes s i\<close>. A \<open>Page *\<close> (equally a \<open>Node *\<close>, the node being the first member) is an index.
  The array has \<open>page_n\<close> entries, but the C code computes buddy indices without comparing them
  with \<open>page_n\<close>; the function is therefore total, and what lies beyond the end is whatever the
  memory behind the array holds. The two page counters keep their width and wrap around.
\<close>

section \<open>Data (buddy.h)\<close>

record page =
  p_order :: nat
  p_flags :: u8

definition P_FREE :: u8 where "P_FREE = 0"
definition P_TAIL :: u8 where "P_TAIL = 1"
definition P_USED :: u8 where "P_USED = 2"
definition P_KERNEL :: u8 where "P_KERNEL = 4"

definition MAX_BUDDY_ORDER :: nat where "MAX_BUDDY_ORDER = 10"
definition BASE_SHIFT :: nat where "BASE_SHIFT = 12"
definition BASE_SIZE :: u32 where "BASE_SIZE = push_bit 12 1"

record buddy =
  page_map :: "nat \<Rightarrow> page"
  page_nodes :: "nat nodes"
  page_n :: nat
  free_area :: "nat \<Rightarrow> nat option"
  free_pages_count :: u32
  used_pages_count :: u32

section \<open>Index macros\<close>

definition real_page_index :: "u32 \<Rightarrow> nat" where
  "real_page_index addr = unat (drop_bit BASE_SHIFT addr)"

definition buddy_index :: "buddy \<Rightarrow> nat \<Rightarrow> nat" where
  "buddy_index s idx = idx XOR push_bit (p_order (page_map s idx)) 1"

definition page_map_real :: "nat \<Rightarrow> u32" where
  "page_map_real tp = 0x1000 * of_nat tp"

text \<open>Assignments to the members of a \<open>Page\<close>, and to one free list with the node store.\<close>

definition set_page :: "nat \<Rightarrow> nat \<Rightarrow> u8 \<Rightarrow> buddy \<Rightarrow> buddy" where
  "set_page i k f s = s\<lparr>page_map := (page_map s)(i := \<lparr>p_order = k, p_flags = f\<rparr>)\<rparr>"

definition set_flags :: "nat \<Rightarrow> u8 \<Rightarrow> buddy \<Rightarrow> buddy" where
  "set_flags i f s = s\<lparr>page_map := (page_map s)(i := (page_map s i)\<lparr>p_flags := f\<rparr>)\<rparr>"

definition set_list :: "nat \<Rightarrow> nat nodes \<times> nat option \<Rightarrow> buddy \<Rightarrow> buddy" where
  "set_list k hp s = s\<lparr>page_nodes := fst hp, free_area := (free_area s)(k := snd hp)\<rparr>"

section \<open>Allocation\<close>

definition get_order_addr :: "buddy \<Rightarrow> u32 \<Rightarrow> nat" where
  "get_order_addr s addr = p_order (page_map s (real_page_index addr))"

text \<open>The scan for the first non-empty free list; the C code tests the list before the bound.\<close>

function scan_order :: "(nat \<Rightarrow> nat option) \<Rightarrow> nat \<Rightarrow> nat" where
  "scan_order fa cur_order =
     (if fa cur_order = None \<and> cur_order \<le> MAX_BUDDY_ORDER then scan_order fa (Suc cur_order)
      else cur_order)"
  by pat_completeness auto
termination
  by (relation "measure (\<lambda>(fa, cur). Suc MAX_BUDDY_ORDER - cur)") auto

declare scan_order.simps [simp del]

text \<open>The loop that halves the block until it has the requested order.\<close>

fun split_block :: "nat \<Rightarrow> nat \<Rightarrow> nat \<Rightarrow> buddy \<Rightarrow> nat \<times> buddy" where
  "split_block order tp cur_order s =
     (if order < cur_order then
        let cur_order = cur_order - 1;
            s = set_page tp cur_order P_USED s;
            sibling = buddy_index s tp;
            s = set_page sibling cur_order P_FREE s;
            s = set_list cur_order (push_node (page_nodes s) (free_area s cur_order) sibling) s
        in split_block order tp cur_order s
      else (cur_order, s))"

declare split_block.simps [simp del]

definition buddy_alloc_pages :: "buddy \<Rightarrow> nat \<Rightarrow> (u32 \<times> buddy) res" where
  "buddy_alloc_pages s order =
     (let cur_order = scan_order (free_area s) order
      in if MAX_BUDDY_ORDER < cur_order then Inl (Panic ''PMM Out of memory'')
         else bnd (pop_node (page_nodes s) (free_area s cur_order)) (\<lambda>(h, head, tp).
           let s = set_list cur_order (h, head) s;
               (cur_order, s) = split_block order tp cur_order s;
               s = set_page tp cur_order P_USED s;
               s = s\<lparr>used_pages_count := used_pages_count s + push_bit order 1,
                     free_pages_count := free_pages_count s - push_bit order 1\<rparr>
           in Inr (page_map_real tp, s)))"

section \<open>Release\<close>

text \<open>The loop that merges the block with its free buddy, up to the largest order.\<close>

function merge_block :: "nat \<Rightarrow> nat \<Rightarrow> buddy \<Rightarrow> (nat \<times> nat \<times> buddy) res" where
  "merge_block index cur_order s =
     (if cur_order < MAX_BUDDY_ORDER then
        let b_index = buddy_index s index
        in if p_flags (page_map s b_index) = P_FREE \<and> p_order (page_map s b_index) = cur_order then
             (case remove_node (page_nodes s) (free_area s cur_order) b_index of
                Inl e \<Rightarrow> Inl e
              | Inr hp \<Rightarrow>
                  let s = set_list cur_order hp s;
                      (tp, buddy) = (if b_index < index then (b_index, index) else (index, b_index));
                      s = set_page tp (cur_order + 1) P_FREE s;
                      s = set_flags buddy P_TAIL s
                  in merge_block tp (cur_order + 1) s)
           else Inr (index, cur_order, s)
      else Inr (index, cur_order, s))"
  by pat_completeness auto
termination
  by (relation "measure (\<lambda>(index, cur, s). MAX_BUDDY_ORDER - cur)") auto

declare merge_block.simps [simp del]

definition buddy_free_pages :: "buddy \<Rightarrow> u32 \<Rightarrow> buddy res" where
  "buddy_free_pages s addr =
     (let index = real_page_index addr;
          cur_order = p_order (page_map s index);
          s = s\<lparr>used_pages_count := used_pages_count s - push_bit cur_order 1,
                free_pages_count := free_pages_count s + push_bit cur_order 1\<rparr>
      in bnd (merge_block index cur_order s) (\<lambda>(tp, cur_order, s).
           let s = set_page tp cur_order P_FREE s;
               s = set_list cur_order (push_node (page_nodes s) (free_area s cur_order) tp) s
           in Inr s))"

section \<open>The wrappers of pmm.h\<close>

definition pmm_alloc :: "buddy \<Rightarrow> nat \<Rightarrow> (u32 \<times> buddy) res" where
  "pmm_alloc s order = buddy_alloc_pages s order"

definition pmm_free :: "buddy \<Rightarrow> u32 \<Rightarrow> buddy res" where
  "pmm_free s ptr = buddy_free_pages s ptr"

end
