(* ===== verification/Dyadic.thy ===== *)
theory Dyadic
  imports Prelude
begin

text \<open>
  Arithmetic of aligned power-of-two blocks: \<open>dblock i k\<close> is the set of the \<open>2 ^ k\<close> indices that
  start at \<open>i\<close>. Two aligned blocks are nested or disjoint, and flipping bit \<open>k\<close> of an aligned
  index gives the other half of the block of order \<open>k + 1\<close>.
\<close>

definition dblock :: "nat \<Rightarrow> nat \<Rightarrow> nat set" where
  "dblock i k = {i..<i + 2 ^ k}"

definition buddy_of :: "nat \<Rightarrow> nat \<Rightarrow> nat" where
  "buddy_of i k = i XOR push_bit k 1"

lemma in_dblock [simp]: "j \<in> dblock i k \<longleftrightarrow> i \<le> j \<and> j < i + 2 ^ k"
  by (auto simp: dblock_def)

lemma finite_dblock [simp]: "finite (dblock i k)"
  by (simp add: dblock_def)

lemma card_dblock [simp]: "card (dblock i k) = 2 ^ k"
  by (simp add: dblock_def)

lemma dblock_self: "i \<in> dblock i k"
  by simp

lemma buddy_of_eq:
  assumes "2 ^ k dvd i"
  shows "buddy_of i k = (if 2 ^ Suc k dvd i then i + 2 ^ k else i - 2 ^ k)"
proof -
  from assms obtain m where m: "i = push_bit k m"
    by (auto simp: push_bit_eq_mult mult.commute elim: dvdE)
  have "buddy_of i k = push_bit k (m XOR 1)"
    by (simp add: buddy_of_def m push_bit_xor)
  also have "m XOR 1 = (if even m then m + 1 else m - 1)"
    by (simp add: xor_Suc_0_eq)
  also have "even m \<longleftrightarrow> 2 ^ Suc k dvd i"
    by (simp add: m push_bit_eq_mult mult.commute)
  finally show ?thesis
    by (auto simp: m push_bit_eq_mult algebra_simps diff_mult_distrib)
qed

lemma buddy_of_involution [simp]: "buddy_of (buddy_of i k) k = i"
  by (simp add: buddy_of_def xor.assoc)

lemma buddy_of_ne [simp]: "buddy_of i k \<noteq> i" "i \<noteq> buddy_of i k"
proof -
  have "i \<noteq> i XOR push_bit k 1"
  proof
    assume "i = i XOR push_bit k 1"
    then have "bit i k = bit (i XOR push_bit k 1) k" by (rule arg_cong)
    then show False by (simp add: bit_xor_iff bit_exp_iff)
  qed
  then show "buddy_of i k \<noteq> i" "i \<noteq> buddy_of i k" by (simp_all add: buddy_of_def)
qed

lemma not_dvd_ge: "2 ^ k dvd (i::nat) \<Longrightarrow> \<not> 2 ^ Suc k dvd i \<Longrightarrow> 2 ^ k \<le> i"
  by (metis dvd_0_right dvd_imp_le linorder_not_less zero_less_iff_neq_zero)

lemma dvd_buddy_of: "2 ^ k dvd i \<Longrightarrow> 2 ^ k dvd buddy_of i k"
  by (auto simp: buddy_of_eq dvd_diff_nat)

lemma buddy_of_parent:
  assumes "2 ^ k dvd i"
  shows "2 ^ Suc k dvd min i (buddy_of i k)"
    and "max i (buddy_of i k) = min i (buddy_of i k) + 2 ^ k"
proof -
  show "2 ^ Suc k dvd min i (buddy_of i k)"
  proof (cases "2 ^ Suc k dvd i")
    case True
    with assms show ?thesis by (simp add: buddy_of_eq)
  next
    case False
    from assms obtain m where m: "i = 2 ^ k * m" by (elim dvdE)
    with False have "odd m" by auto
    then obtain l where "m = 2 * l + 1" by (elim oddE)
    with m False assms show ?thesis by (simp add: buddy_of_eq algebra_simps)
  qed
  show "max i (buddy_of i k) = min i (buddy_of i k) + 2 ^ k"
    using assms not_dvd_ge [OF assms] by (auto simp: buddy_of_eq)
qed

lemma dblock_Suc: "dblock i (Suc k) = dblock i k \<union> dblock (i + 2 ^ k) k"
  by (auto simp: dblock_def)

lemma dblock_halves_disjoint: "dblock i k \<inter> dblock (i + 2 ^ k) k = {}"
  by (auto simp: dblock_def)

text \<open>Aligned blocks are nested or disjoint.\<close>

lemma dblock_nested:
  assumes "2 ^ k dvd i" and "2 ^ l dvd j" and "k \<le> l" and "dblock i k \<inter> dblock j l \<noteq> {}"
  shows "dblock i k \<subseteq> dblock j l"
proof -
  have "2 ^ k dvd j" using assms(2,3) power_le_dvd by blast
  then obtain b where j: "j = 2 ^ k * b" by (elim dvdE)
  from assms(1) obtain a where i: "i = 2 ^ k * a" by (elim dvdE)
  obtain c where l: "(2::nat) ^ l = 2 ^ k * c" using assms(3) by (metis dvdE le_imp_power_dvd)
  from assms(4) obtain x where x: "i \<le> x" "x < i + 2 ^ k" "j \<le> x" "x < j + 2 ^ l"
    by auto
  have pos: "0 < (2::nat) ^ k" by simp
  have q: "x div 2 ^ k = a"
    using x(1,2) by (intro div_nat_eqI) (simp_all add: i mult.commute)
  have "2 ^ k * b div 2 ^ k \<le> x div 2 ^ k"
    using x(3) unfolding j by (rule div_le_mono)
  then have "b \<le> a" using q pos by simp
  moreover have "x < (b + c) * 2 ^ k" using x(4) by (simp add: j l algebra_simps)
  then have "a < b + c" using q pos by (simp add: less_mult_imp_div_less flip: q)
  ultimately have "2 ^ k * b \<le> 2 ^ k * a" and "2 ^ k * Suc a \<le> 2 ^ k * (b + c)"
    by (simp, intro mult_le_mono2, simp)
  then show ?thesis by (auto simp: i j l dblock_def algebra_simps)
qed

lemma dblock_eq_iff [simp]: "dblock i k = dblock j l \<longleftrightarrow> i = j \<and> k = l"
proof
  assume eq: "dblock i k = dblock j l"
  then have "card (dblock i k) = card (dblock j l)" by simp
  then have "k = l" by simp
  moreover from eq have "i \<in> dblock j l" "j \<in> dblock i k" by (metis dblock_self)+
  ultimately show "i = j \<and> k = l" by simp
qed simp

lemma dblock_subset_same: "dblock i k \<subseteq> dblock j k \<Longrightarrow> i = j"
  using card_subset_eq [of "dblock j k" "dblock i k"] by simp

end
