(* ===== verification/Buddy_Inv.thy ===== *)
theory Buddy_Inv
  imports Buddy Dyadic
begin

text \<open>
  The invariant of the page allocator and what each elementary change of it preserves.

  A page whose flags say free or used is the head of a block: \<open>free_block s i k\<close> and
  \<open>used_block s i k\<close>. The invariant \<open>buddy_inv\<close> says that blocks are aligned, inside the page
  map and followed by tail pages only (\<open>blocks_ok\<close>); that the free list of order \<open>k\<close> links
  exactly the free blocks of order \<open>k\<close> (\<open>lists_ok\<close>); that no two free buddies of the same order
  coexist (\<open>coalesced\<close>); that the entry right behind the page map does not read as the free buddy
  of the last block (\<open>slack_ok\<close>, the assumption the C code makes by not checking \<open>page_n\<close>); and that the
  two counters count the pages of free and used blocks (\<open>counts_ok\<close>). The page map covers at
  most the 32-bit physical address space.

  The four elementary changes are: taking the first block of a free list, halving a used block,
  absorbing the free buddy of a used block, and releasing a used block that has no free buddy.
\<close>

section \<open>Definitions\<close>

abbreviation flg :: "buddy \<Rightarrow> nat \<Rightarrow> u8" where
  "flg s i \<equiv> p_flags (page_map s i)"

abbreviation ord :: "buddy \<Rightarrow> nat \<Rightarrow> nat" where
  "ord s i \<equiv> p_order (page_map s i)"

definition looks_free :: "buddy \<Rightarrow> nat \<Rightarrow> nat \<Rightarrow> bool" where
  "looks_free s i k \<longleftrightarrow> flg s i = P_FREE \<and> ord s i = k"

definition free_block :: "buddy \<Rightarrow> nat \<Rightarrow> nat \<Rightarrow> bool" where
  "free_block s i k \<longleftrightarrow> i < page_n s \<and> looks_free s i k"

definition used_block :: "buddy \<Rightarrow> nat \<Rightarrow> nat \<Rightarrow> bool" where
  "used_block s i k \<longleftrightarrow> i < page_n s \<and> flg s i = P_USED \<and> ord s i = k"

definition free_pages :: "buddy \<Rightarrow> nat set" where
  "free_pages s = {p. \<exists>i k. free_block s i k \<and> p \<in> dblock i k}"

definition used_pages :: "buddy \<Rightarrow> nat set" where
  "used_pages s = {p. \<exists>i k. used_block s i k \<and> p \<in> dblock i k}"

definition block_ok :: "buddy \<Rightarrow> nat \<Rightarrow> nat \<Rightarrow> bool" where
  "block_ok s i k \<longleftrightarrow> k \<le> MAX_BUDDY_ORDER \<and> 2 ^ k dvd i \<and> i + 2 ^ k \<le> page_n s \<and>
     (\<forall>j. i < j \<and> j < i + 2 ^ k \<longrightarrow> flg s j = P_TAIL)"

definition blocks_ok :: "buddy \<Rightarrow> bool" where
  "blocks_ok s \<longleftrightarrow> (\<forall>i k. free_block s i k \<or> used_block s i k \<longrightarrow> block_ok s i k)"

definition lists_ok :: "buddy \<Rightarrow> bool" where
  "lists_ok s \<longleftrightarrow> (\<exists>L. bucket_lists dll (Suc MAX_BUDDY_ORDER) (page_nodes s) (free_area s) L \<and>
     (\<forall>k\<le>MAX_BUDDY_ORDER. set (L k) = {i. free_block s i k}))"

definition coalesced :: "buddy \<Rightarrow> bool" where
  "coalesced s \<longleftrightarrow> (\<forall>i k. free_block s i k \<and> k < MAX_BUDDY_ORDER \<longrightarrow>
     \<not> looks_free s (buddy_of i k) k)"

definition slack_ok :: "buddy \<Rightarrow> bool" where
  "slack_ok s \<longleftrightarrow> (\<forall>k<MAX_BUDDY_ORDER. 2 ^ k dvd page_n s \<and> \<not> 2 ^ Suc k dvd page_n s \<longrightarrow>
     \<not> looks_free s (page_n s) k)"

definition buddy_wf :: "buddy \<Rightarrow> bool" where
  "buddy_wf s \<longleftrightarrow> blocks_ok s \<and> lists_ok s \<and> coalesced s \<and> slack_ok s"

definition counts_ok :: "buddy \<Rightarrow> bool" where
  "counts_ok s \<longleftrightarrow> free_pages_count s = of_nat (card (free_pages s)) \<and>
     used_pages_count s = of_nat (card (used_pages s))"

definition buddy_inv :: "buddy \<Rightarrow> bool" where
  "buddy_inv s \<longleftrightarrow> buddy_wf s \<and> counts_ok s \<and> page_n s \<le> 2 ^ 20"

lemmas block_defs = looks_free_def free_block_def used_block_def

section \<open>Flags are distinct\<close>

lemma flags_distinct [simp]:
  "P_FREE \<noteq> P_TAIL" "P_FREE \<noteq> P_USED" "P_FREE \<noteq> P_KERNEL" "P_TAIL \<noteq> P_USED" "P_TAIL \<noteq> P_KERNEL"
  "P_USED \<noteq> P_KERNEL" "P_TAIL \<noteq> P_FREE" "P_USED \<noteq> P_FREE" "P_KERNEL \<noteq> P_FREE" "P_USED \<noteq> P_TAIL"
  "P_KERNEL \<noteq> P_TAIL" "P_KERNEL \<noteq> P_USED"
  by (simp_all add: P_FREE_def P_TAIL_def P_USED_def P_KERNEL_def)

section \<open>Projections of the elementary updates\<close>

lemma set_page_simps [simp]:
  "page_map (set_page i k f s) = (page_map s)(i := \<lparr>p_order = k, p_flags = f\<rparr>)"
  "page_nodes (set_page i k f s) = page_nodes s" "page_n (set_page i k f s) = page_n s"
  "free_area (set_page i k f s) = free_area s"
  "free_pages_count (set_page i k f s) = free_pages_count s"
  "used_pages_count (set_page i k f s) = used_pages_count s"
  by (simp_all add: set_page_def)

lemma set_flags_simps [simp]:
  "page_map (set_flags i f s) = (page_map s)(i := (page_map s i)\<lparr>p_flags := f\<rparr>)"
  "page_nodes (set_flags i f s) = page_nodes s" "page_n (set_flags i f s) = page_n s"
  "free_area (set_flags i f s) = free_area s"
  "free_pages_count (set_flags i f s) = free_pages_count s"
  "used_pages_count (set_flags i f s) = used_pages_count s"
  by (simp_all add: set_flags_def)

lemma set_list_simps [simp]:
  "page_map (set_list k hp s) = page_map s" "page_n (set_list k hp s) = page_n s"
  "page_nodes (set_list k hp s) = fst hp" "free_area (set_list k hp s) = (free_area s)(k := snd hp)"
  "free_pages_count (set_list k hp s) = free_pages_count s"
  "used_pages_count (set_list k hp s) = used_pages_count s"
  by (simp_all add: set_list_def)

lemma set_list_set_page: "set_list k hp (set_page i l f s) = set_page i l f (set_list k hp s)"
  by (simp add: set_list_def set_page_def)

lemma buddy_index_eq [simp]: "buddy_index s i = buddy_of i (ord s i)"
  by (simp add: buddy_index_def buddy_of_def)

text \<open>Two states with the same page map, size, lists and nodes satisfy the same invariants.\<close>

lemma block_cong:
  assumes "page_map t = page_map s" and "page_n t = page_n s"
  shows "looks_free t = looks_free s" "free_block t = free_block s" "used_block t = used_block s"
    "free_pages t = free_pages s" "used_pages t = used_pages s" "block_ok t = block_ok s"
  by (rule ext assms | simp add: block_defs block_ok_def free_pages_def used_pages_def assms)+

lemma buddy_wf_cong:
  assumes "page_map t = page_map s" and "page_n t = page_n s"
    and "page_nodes t = page_nodes s" and "free_area t = free_area s"
  shows "buddy_wf t \<longleftrightarrow> buddy_wf s"
  by (simp add: buddy_wf_def blocks_ok_def lists_ok_def coalesced_def slack_ok_def assms
      block_cong [OF assms(1,2)])

section \<open>Consequences of the invariant\<close>

lemma block_okD:
  assumes "buddy_wf s" and "free_block s i k \<or> used_block s i k"
  shows "k \<le> MAX_BUDDY_ORDER" and "2 ^ k dvd i" and "i + 2 ^ k \<le> page_n s"
    and "\<And>j. i < j \<Longrightarrow> j < i + 2 ^ k \<Longrightarrow> flg s j = P_TAIL"
  using assms by (auto simp: buddy_wf_def blocks_ok_def block_ok_def)

lemma head_not_tail: "free_block s i k \<or> used_block s i k \<Longrightarrow> flg s i \<noteq> P_TAIL"
  by (auto simp: block_defs)

lemma free_not_used: "free_block s i k \<Longrightarrow> used_block s j l \<Longrightarrow> i \<noteq> j"
  by (auto simp: block_defs)

text \<open>Heads of different blocks have disjoint blocks.\<close>

lemma blocks_disjoint:
  assumes "buddy_wf s" and "free_block s i k \<or> used_block s i k"
    and "free_block s j l \<or> used_block s j l" and "i \<noteq> j"
  shows "dblock i k \<inter> dblock j l = {}"
proof (rule ccontr)
  assume "dblock i k \<inter> dblock j l \<noteq> {}"
  then obtain p where p: "i \<le> p" "p < i + 2 ^ k" "j \<le> p" "p < j + 2 ^ l" by auto
  show False
  proof (cases "i < j")
    case True
    with p have "flg s j = P_TAIL" by (intro block_okD(4) [OF assms(1,2)]) auto
    with head_not_tail [OF assms(3)] show False by simp
  next
    case False
    with assms(4) p have "flg s i = P_TAIL" by (intro block_okD(4) [OF assms(1,3)]) auto
    with head_not_tail [OF assms(2)] show False by simp
  qed
qed

lemma free_used_disjoint: "buddy_wf s \<Longrightarrow> free_pages s \<inter> used_pages s = {}"
proof (rule ccontr)
  assume wf: "buddy_wf s" and "free_pages s \<inter> used_pages s \<noteq> {}"
  then obtain p where "p \<in> free_pages s" "p \<in> used_pages s" by blast
  then obtain i k j l where p: "free_block s i k" "p \<in> dblock i k" "used_block s j l" "p \<in> dblock j l"
    unfolding free_pages_def used_pages_def by blast
  then have "i \<noteq> j" by (auto simp: block_defs)
  with blocks_disjoint [OF wf, of i k j l] p show False by auto
qed

lemma pages_bounded:
  assumes "buddy_wf s"
  shows "free_pages s \<subseteq> {..<page_n s}" and "used_pages s \<subseteq> {..<page_n s}"
  using block_okD(3) [OF assms] by (fastforce simp: free_pages_def used_pages_def)+

lemma pages_finite:
  assumes "buddy_wf s"
  shows "finite (free_pages s)" and "finite (used_pages s)"
  using pages_bounded [OF assms] finite_subset by blast+

section \<open>Taking the first block of a free list\<close>

lemma lists_okE:
  assumes "lists_ok s"
  obtains L where "bucket_lists dll (Suc MAX_BUDDY_ORDER) (page_nodes s) (free_area s) L"
    and "\<And>k. k \<le> MAX_BUDDY_ORDER \<Longrightarrow> set (L k) = {i. free_block s i k}"
  using assms by (auto simp: lists_ok_def)

lemma free_area_None:
  assumes "buddy_wf s" and "k \<le> MAX_BUDDY_ORDER"
  shows "free_area s k = None \<longleftrightarrow> (\<forall>i. \<not> free_block s i k)"
proof -
  from assms(1) obtain L where "bucket_lists dll (Suc MAX_BUDDY_ORDER) (page_nodes s) (free_area s) L"
    and "set (L k) = {i. free_block s i k}"
    unfolding buddy_wf_def using lists_okE assms(2) by metis
  with nl.bucket_head [of "Suc MAX_BUDDY_ORDER" "page_nodes s" "free_area s" L k] assms(2)
  show ?thesis by (cases "L k") auto
qed

lemma take_block:
  assumes wf: "buddy_wf s" and k: "k \<le> MAX_BUDDY_ORDER" and ne: "free_area s k \<noteq> None"
  obtains h p x t where "pop_node (page_nodes s) (free_area s k) = Inr (h, p, x)"
    and "free_block s x k" and "t = set_page x k P_USED (set_list k (h, p) s)"
    and "buddy_wf t" and "used_block t x k"
    and "\<And>j l. free_block t j l \<longleftrightarrow> free_block s j l \<and> j \<noteq> x"
    and "\<And>j l. used_block t j l \<longleftrightarrow> used_block s j l \<or> j = x \<and> l = k"
proof -
  from wf obtain L where L: "bucket_lists dll (Suc MAX_BUDDY_ORDER) (page_nodes s) (free_area s) L"
    and setL: "\<And>k. k \<le> MAX_BUDDY_ORDER \<Longrightarrow> set (L k) = {i. free_block s i k}"
    unfolding buddy_wf_def using lists_okE by metis
  from ne nl.bucket_head [OF L, of k] k obtain x xs where xs: "L k = x # xs"
    by (cases "L k") auto
  with setL [OF k] have x: "free_block s x k" by auto
  from nl.pop_bucket [OF L _ xs] k obtain h p where pop: "pop_node (page_nodes s) (free_area s k) = Inr (h, p, x)"
    and L': "bucket_lists dll (Suc MAX_BUDDY_ORDER) h ((free_area s)(k := p)) (L(k := xs))"
    by auto
  define t where "t = set_page x k P_USED (set_list k (h, p) s)"
  have fb: "free_block t j l \<longleftrightarrow> free_block s j l \<and> j \<noteq> x" for j l
    by (auto simp: t_def block_defs)
  have ub: "used_block t j l \<longleftrightarrow> used_block s j l \<or> j = x \<and> l = k" for j l
    using x by (auto simp: t_def block_defs)
  have "blocks_ok t"
    unfolding blocks_ok_def
  proof (intro allI impI)
    fix j l assume "free_block t j l \<or> used_block t j l"
    then have "free_block s j l \<or> used_block s j l" using fb ub x by blast
    from block_okD [OF wf this] head_not_tail [of s x k] x show "block_ok t j l"
      by (auto simp: block_ok_def t_def)
  qed
  moreover have "lists_ok t"
    unfolding lists_ok_def
  proof (intro exI conjI allI impI)
    show "bucket_lists dll (Suc MAX_BUDDY_ORDER) (page_nodes t) (free_area t) (L(k := xs))"
      using L' by (simp add: t_def)
    fix l assume l: "l \<le> MAX_BUDDY_ORDER"
    have "x \<notin> set xs" using nl.bucket_distinct [OF L, of k] k xs by simp
    then show "set ((L(k := xs)) l) = {i. free_block t i l}"
      using setL [OF l] setL [OF k] xs x fb by (auto simp: block_defs)
  qed
  moreover have "coalesced t" "slack_ok t"
    using wf x by (auto simp: buddy_wf_def coalesced_def slack_ok_def t_def block_defs)
  ultimately have "buddy_wf t" by (simp add: buddy_wf_def)
  moreover have "used_block t x k" using ub by blast
  ultimately show thesis using that [OF pop x t_def] fb ub by blast
qed

section \<open>Releasing a used block\<close>

text \<open>
  Pushing a page that becomes free: the list part of the invariant, shared by splitting and
  releasing.
\<close>

lemma push_lists_ok:
  assumes "lists_ok s" and "k \<le> MAX_BUDDY_ORDER" and "x < page_n s" and "\<And>l. \<not> free_block s x l"
    and "t = set_list k (push_node (page_nodes s) (free_area s k) x) u"
    and "page_nodes u = page_nodes s" and "free_area u = free_area s"
    and "\<And>j l. free_block t j l \<longleftrightarrow> free_block s j l \<or> j = x \<and> l = k"
  shows "lists_ok t"
proof -
  from assms(1) obtain L where L: "bucket_lists dll (Suc MAX_BUDDY_ORDER) (page_nodes s) (free_area s) L"
    and setL: "\<And>k. k \<le> MAX_BUDDY_ORDER \<Longrightarrow> set (L k) = {i. free_block s i k}"
    using lists_okE by metis
  obtain h p where hp: "push_node (page_nodes s) (free_area s k) x = (h, p)" by fastforce
  have "bucket_lists dll (Suc MAX_BUDDY_ORDER) h ((free_area s)(k := p)) (L(k := x # L k))"
    using assms(2,4) setL by (intro nl.push_bucket [OF L _ _ hp]) auto
  then have "bucket_lists dll (Suc MAX_BUDDY_ORDER) (page_nodes t) (free_area t) (L(k := x # L k))"
    by (simp add: assms(5,7) hp)
  moreover have "set ((L(k := x # L k)) l) = {i. free_block t i l}" if "l \<le> MAX_BUDDY_ORDER" for l
    using setL [OF that] setL [OF assms(2)] assms(8) by auto
  ultimately show ?thesis unfolding lists_ok_def by blast
qed

lemma release_block:
  assumes wf: "buddy_wf s" and x: "used_block s x k"
    and nb: "k < MAX_BUDDY_ORDER \<Longrightarrow> \<not> looks_free s (buddy_of x k) k"
    and t: "t = set_list k (push_node (page_nodes s) (free_area s k) x) (set_page x k P_FREE s)"
  shows "buddy_wf t"
    and "\<And>j l. free_block t j l \<longleftrightarrow> free_block s j l \<or> j = x \<and> l = k"
    and "\<And>j l. used_block t j l \<longleftrightarrow> used_block s j l \<and> j \<noteq> x"
proof -
  show fb: "free_block t j l \<longleftrightarrow> free_block s j l \<or> j = x \<and> l = k" for j l
    using x by (auto simp: t block_defs)
  show ub: "used_block t j l \<longleftrightarrow> used_block s j l \<and> j \<noteq> x" for j l
    by (auto simp: t block_defs)
  have k: "k \<le> MAX_BUDDY_ORDER" using block_okD(1) [OF wf] x by blast
  have "blocks_ok t"
    unfolding blocks_ok_def
  proof (intro allI impI)
    fix j l assume "free_block t j l \<or> used_block t j l"
    then have "free_block s j l \<or> used_block s j l" using fb ub x by blast
    from block_okD [OF wf this] head_not_tail [of s x k] x show "block_ok t j l"
      by (auto simp: block_ok_def t)
  qed
  moreover have "lists_ok t"
    using wf x fb k by (intro push_lists_ok [OF _ _ _ _ t]) (auto simp: buddy_wf_def block_defs)
  moreover have "coalesced t"
    unfolding coalesced_def
  proof (intro allI impI)
    fix j l assume j: "free_block t j l \<and> l < MAX_BUDDY_ORDER"
    have lf: "looks_free t i m \<longleftrightarrow> (if i = x then m = k else looks_free s i m)" for i m
      by (auto simp: t looks_free_def)
    show "\<not> looks_free t (buddy_of j l) l"
    proof (cases "j = x")
      case True
      with j nb show ?thesis by (auto simp: lf free_block_def)
    next
      case False
      with j fb have "free_block s j l" by blast
      with j wf have "\<not> looks_free s (buddy_of j l) l" by (auto simp: buddy_wf_def coalesced_def)
      moreover have "l = k \<Longrightarrow> buddy_of j l \<noteq> x"
        using nb j \<open>free_block s j l\<close> by (metis buddy_of_involution free_block_def)
      ultimately show ?thesis by (auto simp: lf)
    qed
  qed
  moreover have "slack_ok t"
    using wf x by (auto simp: buddy_wf_def slack_ok_def t block_defs)
  ultimately show "buddy_wf t" by (simp add: buddy_wf_def)
qed

section \<open>Halving a used block\<close>

lemma halve_block:
  assumes wf: "buddy_wf s" and x: "used_block s x (Suc k)"
    and t: "t = set_list k (push_node (page_nodes s) (free_area s k) (x + 2 ^ k))
                 (set_page (x + 2 ^ k) k P_FREE (set_page x k P_USED s))"
  shows "buddy_wf t" and "used_block t x k" and "buddy_of x k = x + 2 ^ k"
    and "\<And>j l. free_block t j l \<longleftrightarrow> free_block s j l \<or> j = x + 2 ^ k \<and> l = k"
    and "\<And>j l. used_block t j l \<longleftrightarrow> used_block s j l \<and> j \<noteq> x \<or> j = x \<and> l = k"
proof -
  let ?y = "x + 2 ^ k"
  note ok = block_okD [OF wf disjI2, OF x]
  have tail: "flg s ?y = P_TAIL" by (rule ok(4)) auto
  have yn: "?y < page_n s" using ok(3) zero_less_power [of "2::nat" k] by (simp, linarith)
  have al: "2 ^ k dvd x" using ok(2) by (auto intro: dvd_trans [rotated] simp: le_imp_power_dvd)
  show bud: "buddy_of x k = ?y" using ok(2) al by (simp add: buddy_of_eq)
  show fb: "free_block t j l \<longleftrightarrow> free_block s j l \<or> j = ?y \<and> l = k" for j l
    using x tail yn by (auto simp: t block_defs)
  show ub: "used_block t j l \<longleftrightarrow> used_block s j l \<and> j \<noteq> x \<or> j = x \<and> l = k" for j l
    using x tail yn by (auto simp: t block_defs)
  then show "used_block t x k" by blast
  have fl: "flg t j = (if j = ?y then P_FREE else if j = x then P_USED else flg s j)" for j
    by (simp add: t)
  have k: "k \<le> MAX_BUDDY_ORDER" "k < MAX_BUDDY_ORDER" using ok(1) by auto
  have "blocks_ok t"
    unfolding blocks_ok_def
  proof (intro allI impI)
    fix j l assume jl: "free_block t j l \<or> used_block t j l"
    consider "j = x" "l = k" | "j = ?y" "l = k"
      | "free_block s j l \<or> used_block s j l" "j \<noteq> x"
      using jl fb ub x free_not_used by blast
    then show "block_ok t j l"
    proof cases
      case 1
      then show ?thesis using ok k al fl by (auto simp: block_ok_def t)
    next
      case 2
      then show ?thesis using ok k al fl by (auto simp: block_ok_def t)
    next
      case 3
      have "?y \<in> dblock x (Suc k)" "x \<in> dblock x (Suc k)" by auto
      with blocks_disjoint [OF wf 3(1) disjI2, OF x 3(2)] have "?y \<notin> dblock j l" "x \<notin> dblock j l" by blast+
      with block_okD [OF wf 3(1)] fl show ?thesis by (auto simp: block_ok_def t)
    qed
  qed
  moreover have "lists_ok t"
    using wf tail yn fb k by (intro push_lists_ok [OF _ _ _ _ t]) (auto simp: buddy_wf_def block_defs)
  moreover have "coalesced t"
    unfolding coalesced_def
  proof (intro allI impI)
    fix j l assume j: "free_block t j l \<and> l < MAX_BUDDY_ORDER"
    have lf: "looks_free t i m \<longleftrightarrow> (if i = ?y then m = k else i \<noteq> x \<and> looks_free s i m)" for i m
      by (auto simp: t looks_free_def)
    show "\<not> looks_free t (buddy_of j l) l"
    proof (cases "j = ?y")
      case True
      with j have "l = k" by (simp add: lf free_block_def)
      moreover have "buddy_of ?y k = x" using bud buddy_of_involution by metis
      ultimately show ?thesis using True by (simp add: lf)
    next
      case False
      with j have fj: "free_block s j l" "j \<noteq> x" using fb x free_not_used by blast+
      with j wf have "\<not> looks_free s (buddy_of j l) l" by (auto simp: buddy_wf_def coalesced_def)
      moreover have "l = k \<Longrightarrow> buddy_of j l \<noteq> ?y"
        using fj(2) bud by (metis buddy_of_involution)
      ultimately show ?thesis by (auto simp: lf)
    qed
  qed
  moreover have "slack_ok t"
    using wf x yn by (auto simp: buddy_wf_def slack_ok_def t block_defs)
  ultimately show "buddy_wf t" by (simp add: buddy_wf_def)
qed

section \<open>Absorbing the free buddy of a used block\<close>

lemma absorb_buddy:
  assumes wf: "buddy_wf s" and x: "used_block s x k" and k: "k < MAX_BUDDY_ORDER"
    and b: "looks_free s (buddy_of x k) k"
  obtains hp t where "remove_node (page_nodes s) (free_area s k) (buddy_of x k) = Inr hp"
    and "t = set_flags (max x (buddy_of x k)) P_TAIL
               (set_page (min x (buddy_of x k)) (Suc k) P_USED (set_list k hp s))"
    and "buddy_wf t" and "used_block t (min x (buddy_of x k)) (Suc k)"
    and "free_block s (buddy_of x k) k"
    and "\<And>j l. free_block t j l \<longleftrightarrow> free_block s j l \<and> j \<noteq> buddy_of x k"
    and "\<And>j l. used_block t j l \<longleftrightarrow>
           used_block s j l \<and> j \<noteq> x \<or> j = min x (buddy_of x k) \<and> l = Suc k"
proof -
  let ?b = "buddy_of x k" and ?m = "min x (buddy_of x k)" and ?M = "max x (buddy_of x k)"
  note okx = block_okD [OF wf disjI2, OF x]
  have mM: "2 ^ Suc k dvd ?m" "?M = ?m + 2 ^ k" using buddy_of_parent [OF okx(2)] by auto
  have "?b < page_n s"
  proof (rule ccontr)
    assume "\<not> ?b < page_n s"
    with x mM(2) okx(3) have eq: "?b = page_n s" "?m = x" "?b = x + 2 ^ k"
      by (auto simp: used_block_def min_def max_def split: if_splits)
    then have "\<not> 2 ^ Suc k dvd page_n s"
      using mM(1) by (metis dvd_add_right_iff nat_dvd_not_less power_strict_increasing_iff lessI
          one_less_numeral_iff semiring_norm(76) zero_less_numeral zero_less_power)
    with wf k dvd_buddy_of [OF okx(2)] b eq(1) show False
      by (auto simp: buddy_wf_def slack_ok_def)
  qed
  with b have fbb: "free_block s ?b k" by (simp add: free_block_def)
  note okb = block_okD [OF wf disjI1, OF fbb]
  from wf obtain L where L: "bucket_lists dll (Suc MAX_BUDDY_ORDER) (page_nodes s) (free_area s) L"
    and setL: "\<And>k. k \<le> MAX_BUDDY_ORDER \<Longrightarrow> set (L k) = {i. free_block s i k}"
    unfolding buddy_wf_def using lists_okE by metis
  have "?b \<in> set (L k)" using setL k fbb by simp
  from nl.remove_bucket [OF L _ this] k obtain h p
    where rm: "remove_node (page_nodes s) (free_area s k) ?b = Inr (h, p)"
      and L': "bucket_lists dll (Suc MAX_BUDDY_ORDER) h ((free_area s)(k := p)) (L(k := remove1 ?b (L k)))"
    by auto
  define t where "t = set_flags ?M P_TAIL (set_page ?m (Suc k) P_USED (set_list k (h, p) s))"
  have xb: "x = ?m \<and> ?b = ?M \<or> x = ?M \<and> ?b = ?m" by (auto simp: min_def max_def)
  have ne: "?m \<noteq> ?M" using mM(2) by simp
  have pm: "page_map t j = (if j = ?m then \<lparr>p_order = Suc k, p_flags = P_USED\<rparr>
      else if j = ?M then (page_map s j)\<lparr>p_flags := P_TAIL\<rparr> else page_map s j)" for j
    using ne by (simp add: t_def)
  have pn: "page_n t = page_n s" by (simp add: t_def)
  have mn: "?m < page_n s" using x by (simp add: used_block_def min_def)
  have fb: "free_block t j l \<longleftrightarrow> free_block s j l \<and> j \<noteq> ?b" for j l
    using x xb ne by (auto simp: block_defs pm pn)
  have ub: "used_block t j l \<longleftrightarrow> used_block s j l \<and> j \<noteq> x \<or> j = ?m \<and> l = Suc k" for j l
    using fbb xb ne mn by (auto simp: block_defs pm pn)
  have "blocks_ok t"
    unfolding blocks_ok_def
  proof (intro allI impI)
    fix j l assume "free_block t j l \<or> used_block t j l"
    then consider "j = ?m" "l = Suc k"
      | "free_block s j l \<or> used_block s j l" "j \<noteq> x" "j \<noteq> ?b"
      using fb ub fbb x free_not_used by metis
    then show "block_ok t j l"
    proof cases
      case 1
      have "?M + 2 ^ k \<le> page_n s" using okx(3) okb(3) by (simp add: max_def)
      moreover have "flg t i = P_TAIL" if "?m < i" "i < ?m + 2 ^ Suc k" for i
      proof (cases "i = ?M")
        case True
        with ne show ?thesis by (simp add: pm)
      next
        case False
        with that mM(2) have "?m < i \<and> i < ?m + 2 ^ k \<or> ?M < i \<and> i < ?M + 2 ^ k" by auto
        with xb okx(4) [of i] okb(4) [of i] have "flg s i = P_TAIL" by metis
        with False that show ?thesis by (simp add: pm)
      qed
      ultimately show ?thesis using 1 k mM by (auto simp: block_ok_def pn)
    next
      case 2
      have "x \<in> dblock x k" "?b \<in> dblock ?b k" by auto
      with blocks_disjoint [OF wf 2(1) disjI2, OF x 2(2)] blocks_disjoint [OF wf 2(1) disjI1, OF fbb 2(3)]
      have "x \<notin> dblock j l" "?b \<notin> dblock j l" by blast+
      then have "?m \<notin> dblock j l" "?M \<notin> dblock j l" using xb by metis+
      with block_okD [OF wf 2(1)] show ?thesis by (auto simp: block_ok_def pm pn)
    qed
  qed
  moreover have "lists_ok t"
    unfolding lists_ok_def
  proof (intro exI conjI allI impI)
    show "bucket_lists dll (Suc MAX_BUDDY_ORDER) (page_nodes t) (free_area t) (L(k := remove1 ?b (L k)))"
      using L' by (simp add: t_def)
    fix l assume l: "l \<le> MAX_BUDDY_ORDER"
    have "distinct (L k)" using nl.bucket_distinct [OF L, of k] k by simp
    then show "set ((L(k := remove1 ?b (L k))) l) = {i. free_block t i l}"
      using setL [OF l] fb fbb k by (auto simp: block_defs)
  qed
  moreover have "coalesced t" "slack_ok t"
    using wf mn xb fbb by (auto simp: buddy_wf_def coalesced_def slack_ok_def block_defs pm pn)
  ultimately have "buddy_wf t" by (simp add: buddy_wf_def)
  moreover have "used_block t ?m (Suc k)" using ub by blast
  ultimately show thesis using that [OF rm t_def] fb ub fbb by blast
qed

end
