(* ===== verification/Buddy_Correct.thy ===== *)
theory Buddy_Correct
  imports Buddy_Inv
begin

text \<open>
  Correctness of \<open>buddy_alloc_pages\<close> and \<open>buddy_free_pages\<close> on top of the elementary changes.
\<close>

section \<open>Allocation\<close>

lemma scan_order_spec:
  "order \<le> scan_order fa order \<and>
   (\<forall>j. order \<le> j \<and> j < scan_order fa order \<longrightarrow> fa j = None) \<and>
   (scan_order fa order \<le> MAX_BUDDY_ORDER \<longrightarrow> fa (scan_order fa order) \<noteq> None)"
proof (induction fa order rule: scan_order.induct)
  case (1 fa cur)
  show ?case
  proof (cases "fa cur = None \<and> cur \<le> MAX_BUDDY_ORDER")
    case True
    with 1 have IH: "Suc cur \<le> scan_order fa (Suc cur)"
      "\<forall>j. Suc cur \<le> j \<and> j < scan_order fa (Suc cur) \<longrightarrow> fa j = None"
      "scan_order fa (Suc cur) \<le> MAX_BUDDY_ORDER \<longrightarrow> fa (scan_order fa (Suc cur)) \<noteq> None"
      by blast+
    have eq: "scan_order fa cur = scan_order fa (Suc cur)"
      using True by (simp add: scan_order.simps [of fa cur])
    show ?thesis unfolding eq using IH True by (metis Suc_le_eq Suc_leD le_eq_less_or_eq)
  next
    case False
    then show ?thesis by (auto simp: scan_order.simps [of fa cur])
  qed
qed

text \<open>
  The splitting loop together with the assignment that follows it. What the page of the block
  holds beforehand does not matter, because the loop or the assignment overwrites it.
\<close>

definition split_final :: "nat \<Rightarrow> nat \<Rightarrow> nat \<Rightarrow> buddy \<Rightarrow> buddy" where
  "split_final order tp cur s =
     (case split_block order tp cur s of (c, t) \<Rightarrow> set_page tp c P_USED t)"

lemma set_page_twice [simp]: "set_page i k f (set_page i k' f' s) = set_page i k f s"
  by (simp add: set_page_def)

lemma split_final_step:
  assumes "used_block s tp (Suc k)" and "buddy_wf s" and "order \<le> k"
  shows "split_final order tp (Suc k) s =
    split_final order tp k (set_list k (push_node (page_nodes s) (free_area s k) (tp + 2 ^ k))
      (set_page (tp + 2 ^ k) k P_FREE (set_page tp k P_USED s)))"
  using halve_block(3) [OF assms(2,1) refl] assms(3)
  by (simp add: split_final_def split_block.simps [of order tp "Suc k"] Let_def)

lemma split_final_reset: "split_final order tp cur (set_page tp k f s) = split_final order tp cur s"
  by (simp add: split_final_def split_block.simps [of order tp cur] Let_def)

lemma split_final_same: "used_block s tp k \<Longrightarrow> split_final k tp k s = s"
  by (cases "page_map s tp")
    (simp add: split_final_def split_block.simps [of k tp k] set_page_def used_block_def fun_upd_idem)

lemma free_pages_add:
  assumes "\<And>j l. free_block t j l \<longleftrightarrow> free_block s j l \<or> j = x \<and> l = k"
  shows "free_pages t = free_pages s \<union> dblock x k"
  unfolding free_pages_def assms by blast

lemma split_final_correct:
  assumes "buddy_wf s" and "used_block s tp cur" and "order \<le> cur"
  shows "buddy_wf (split_final order tp cur s)"
    and "used_block (split_final order tp cur s) tp order"
    and "\<And>j l. used_block (split_final order tp cur s) j l \<longleftrightarrow>
           used_block s j l \<and> j \<noteq> tp \<or> j = tp \<and> l = order"
    and "free_pages (split_final order tp cur s) = free_pages s \<union> (dblock tp cur - dblock tp order)"
    and "page_n (split_final order tp cur s) = page_n s"
    and "free_pages_count (split_final order tp cur s) = free_pages_count s"
    and "used_pages_count (split_final order tp cur s) = used_pages_count s"
  using assms
proof (atomize (full), induction cur arbitrary: s)
  case 0
  then have "split_final order tp 0 s = s" by (simp add: split_final_same)
  with 0 show ?case by (auto simp: used_block_def)
next
  case (Suc k)
  show ?case
  proof (cases "order \<le> k")
    case True
    let ?t = "set_list k (push_node (page_nodes s) (free_area s k) (tp + 2 ^ k))
      (set_page (tp + 2 ^ k) k P_FREE (set_page tp k P_USED s))"
    from Suc.prems have wf: "buddy_wf s" and u: "used_block s tp (Suc k)" by auto
    note h = halve_block [OF wf u refl]
    have fp: "free_pages ?t = free_pages s \<union> dblock (tp + 2 ^ k) k"
      by (rule free_pages_add) (use h(4) in blast)
    from Suc.IH [OF h(1,2) True] have IH:
      "buddy_wf (split_final order tp k ?t)" "used_block (split_final order tp k ?t) tp order"
      "\<And>j l. used_block (split_final order tp k ?t) j l \<longleftrightarrow> used_block ?t j l \<and> j \<noteq> tp \<or> j = tp \<and> l = order"
      "free_pages (split_final order tp k ?t) = free_pages ?t \<union> (dblock tp k - dblock tp order)"
      "page_n (split_final order tp k ?t) = page_n ?t"
      "free_pages_count (split_final order tp k ?t) = free_pages_count ?t"
      "used_pages_count (split_final order tp k ?t) = used_pages_count ?t" by blast+
    have sub: "dblock tp order \<subseteq> dblock tp k"
      using True by (auto simp: dblock_def intro: less_le_trans [OF _ add_left_mono [OF power_increasing]])
    have "dblock tp (Suc k) - dblock tp order = dblock (tp + 2 ^ k) k \<union> (dblock tp k - dblock tp order)"
      using sub dblock_halves_disjoint [of tp k] unfolding dblock_Suc by blast
    then show ?thesis
      unfolding split_final_step [OF u wf True]
      using IH fp h(5) by (simp add: Un_assoc) blast
  next
    case False
    with Suc.prems have "order = Suc k" by simp
    moreover from this Suc.prems have "split_final order tp (Suc k) s = s"
      by (simp add: split_final_same)
    ultimately show ?thesis using Suc.prems by (auto simp: used_block_def)
  qed
qed

text \<open>What a successful allocation of order \<open>k\<close> at page \<open>x\<close> does to the blocks.\<close>

definition alloc_effect :: "nat \<Rightarrow> nat \<Rightarrow> buddy \<Rightarrow> buddy \<Rightarrow> bool" where
  "alloc_effect k x s t \<longleftrightarrow> dblock x k \<subseteq> free_pages s \<and>
     free_pages t = free_pages s - dblock x k \<and>
     (\<forall>j l. used_block t j l \<longleftrightarrow> used_block s j l \<or> j = x \<and> l = k) \<and> \<not> (\<exists>l. used_block s x l) \<and>
     page_n t = page_n s \<and>
     free_pages_count t = free_pages_count s - 2 ^ k \<and>
     used_pages_count t = used_pages_count s + 2 ^ k"

lemma buddy_alloc_wf:
  assumes wf: "buddy_wf s" and ex: "\<exists>i l. k \<le> l \<and> free_block s i l"
  obtains x t where "buddy_alloc_pages s k = Inr (page_map_real x, t)" and "buddy_wf t"
    and "alloc_effect k x s t" and "2 ^ k dvd x"
proof -
  let ?cur = "scan_order (free_area s) k"
  note scan = scan_order_spec [of k "free_area s"]
  from ex obtain i l where il: "k \<le> l" "free_block s i l" by blast
  have l: "l \<le> MAX_BUDDY_ORDER" using block_okD(1) [OF wf] il(2) by blast
  have "free_area s l \<noteq> None" using free_area_None [OF wf l] il(2) by blast
  with scan il(1) have cur: "?cur \<le> MAX_BUDDY_ORDER" "free_area s ?cur \<noteq> None" "k \<le> ?cur"
    using l by (meson le_trans not_le_imp_less)+
  from take_block [OF wf cur(1,2)] obtain h p x t where
    pop: "pop_node (page_nodes s) (free_area s ?cur) = Inr (h, p, x)"
    and x: "free_block s x ?cur" and t: "t = set_page x ?cur P_USED (set_list ?cur (h, p) s)"
    and wft: "buddy_wf t" and ux: "used_block t x ?cur"
    and fb: "\<And>j l. free_block t j l \<longleftrightarrow> free_block s j l \<and> j \<noteq> x"
    and ub: "\<And>j l. used_block t j l \<longleftrightarrow> used_block s j l \<or> j = x \<and> l = ?cur" by blast
  define u where "u = split_final k x ?cur t"
  define v where "v = u\<lparr>used_pages_count := used_pages_count u + push_bit k 1,
                free_pages_count := free_pages_count u - push_bit k 1\<rparr>"
  have cong: "page_map v = page_map u" "page_n v = page_n u" "page_nodes v = page_nodes u"
    "free_area v = free_area u" by (simp_all add: v_def)
  have tc: "page_n t = page_n s" "free_pages_count t = free_pages_count s"
    "used_pages_count t = used_pages_count s" by (simp_all add: t)
  note sp = split_final_correct [OF wft ux cur(3), folded u_def]
  have "buddy_alloc_pages s k = Inr (page_map_real x, v)"
    using cur(1) pop split_final_reset [of k x ?cur ?cur P_USED "set_list ?cur (h, p) s"]
    by (simp add: buddy_alloc_pages_def v_def u_def t split_final_def case_prod_beta Let_def)
  moreover have "buddy_wf v" using sp(1) buddy_wf_cong [OF cong] by blast
  moreover have "2 ^ k dvd x"
    using block_okD(2) [OF sp(1) disjI2, OF sp(2)] .
  moreover have "alloc_effect k x s v"
  proof -
    have sub: "dblock x k \<subseteq> dblock x ?cur"
      using cur(3) by (auto simp: dblock_def intro: less_le_trans [OF _ add_left_mono [OF power_increasing]])
    have fs: "free_pages s = free_pages t \<union> dblock x ?cur"
      using x fb unfolding free_pages_def by (auto simp: block_defs)
    have "free_pages t \<inter> dblock x ?cur = {}"
      using blocks_disjoint [OF wft disjI1 disjI2, OF _ ux] free_not_used [OF _ ux]
      unfolding free_pages_def by fastforce
    then have "free_pages u = free_pages s - dblock x k"
      using sp(4) fs sub by blast
    then have "free_pages v = free_pages s - dblock x k" "dblock x k \<subseteq> free_pages s"
      using sub fs block_cong(4) [OF cong(1,2)] by auto
    moreover have "\<not> (\<exists>l. used_block s x l)" using x free_not_used by blast
    moreover have "used_block v j l \<longleftrightarrow> used_block s j l \<or> j = x \<and> l = k" for j l
      using block_cong(3) [OF cong(1,2)] sp(3) ub calculation(3) by metis
    moreover have "page_n v = page_n s" "free_pages_count v = free_pages_count s - 2 ^ k"
      "used_pages_count v = used_pages_count s + 2 ^ k"
      using sp(5,6,7) tc by (simp_all add: v_def)
    ultimately show ?thesis by (simp add: alloc_effect_def)
  qed
  ultimately show thesis using that by blast
qed

lemma buddy_alloc_fail:
  assumes wf: "buddy_wf s" and "\<not> (\<exists>i l. k \<le> l \<and> free_block s i l)"
  shows "buddy_alloc_pages s k = Inl (Panic ''PMM Out of memory'')"
proof -
  let ?cur = "scan_order (free_area s) k"
  note scan = scan_order_spec [of k "free_area s"]
  have "MAX_BUDDY_ORDER < ?cur"
  proof (rule ccontr)
    assume "\<not> MAX_BUDDY_ORDER < ?cur"
    then have c: "?cur \<le> MAX_BUDDY_ORDER" by simp
    with scan have "free_area s ?cur \<noteq> None" by blast
    with free_area_None [OF wf c] assms(2) scan show False by blast
  qed
  then show ?thesis by (simp add: buddy_alloc_pages_def Let_def)
qed

section \<open>Release\<close>

text \<open>
  While the merging loop runs, the block being freed is on no list; the invariant holds for the
  state in which that block counts as used, and the real state differs from it in the flags of
  its head only.
\<close>

lemma absorb_state:
  assumes "used_block t x k" and "M = max x (buddy_of x k)" and "m = min x (buddy_of x k)"
  shows "set_flags M P_TAIL (set_page m (Suc k) P_FREE (set_list k hp (set_page x k f t))) =
    set_page m (Suc k) P_FREE (set_flags M P_TAIL (set_page m (Suc k) P_USED (set_list k hp t)))"
proof -
  have "m \<noteq> M" "x = m \<or> x = M" using assms(2,3) buddy_of_ne [of x k] by (auto simp: min_def max_def)
  with assms(1) show ?thesis
    by (cases "page_map t x") (auto simp: set_flags_def set_page_def set_list_def used_block_def fun_upd_twist)
qed

definition merge_post :: "nat \<Rightarrow> nat \<Rightarrow> buddy \<Rightarrow> nat \<Rightarrow> nat \<Rightarrow> buddy \<Rightarrow> bool" where
  "merge_post x k t y c t' \<longleftrightarrow> buddy_wf t' \<and> used_block t' y c \<and>
     (c < MAX_BUDDY_ORDER \<longrightarrow> \<not> looks_free t' (buddy_of y c) c) \<and>
     dblock x k \<subseteq> dblock y c \<and> free_pages t' \<union> dblock y c = free_pages t \<union> dblock x k \<and>
     (\<forall>j l. used_block t' j l \<longleftrightarrow> used_block t j l \<and> j \<noteq> x \<or> j = y \<and> l = c) \<and>
     page_n t' = page_n t \<and> free_pages_count t' = free_pages_count t \<and>
     used_pages_count t' = used_pages_count t"

lemma merge_block_correct:
  assumes "buddy_wf t" and "used_block t x k"
  shows "\<exists>y c f' t'. merge_block x k (set_page x k f t) = Inr (y, c, set_page y c f' t') \<and>
    merge_post x k t y c t'"
  using assms
proof (induction "MAX_BUDDY_ORDER - k" arbitrary: x k f t)
  case 0
  then have "merge_block x k (set_page x k f t) = Inr (x, k, set_page x k f t)"
    by (simp add: merge_block.simps [of x k])
  moreover have "merge_post x k t x k t" using 0 by (auto simp: merge_post_def used_block_def)
  ultimately show ?case by blast
next
  case (Suc d)
  then have k: "k < MAX_BUDDY_ORDER" by simp
  show ?case
  proof (cases "looks_free t (buddy_of x k) k")
    case False
    then have "merge_block x k (set_page x k f t) = Inr (x, k, set_page x k f t)"
      by (auto simp: merge_block.simps [of x k] looks_free_def Let_def)
    moreover have "merge_post x k t x k t" using Suc.prems False by (auto simp: merge_post_def used_block_def)
    ultimately show ?thesis by blast
  next
    case True
    let ?b = "buddy_of x k" and ?m = "min x (buddy_of x k)"
    from absorb_buddy [OF Suc.prems k True] obtain hp t1 where
      rm: "remove_node (page_nodes t) (free_area t k) ?b = Inr hp"
      and t1: "t1 = set_flags (max x ?b) P_TAIL (set_page ?m (Suc k) P_USED (set_list k hp t))"
      and wf1: "buddy_wf t1" and u1: "used_block t1 ?m (Suc k)" and fbb: "free_block t ?b k"
      and fb: "\<And>j l. free_block t1 j l \<longleftrightarrow> free_block t j l \<and> j \<noteq> ?b"
      and ub: "\<And>j l. used_block t1 j l \<longleftrightarrow> used_block t j l \<and> j \<noteq> x \<or> j = ?m \<and> l = Suc k"
      by blast
    have "merge_block x k (set_page x k f t) = merge_block ?m (Suc k) (set_page ?m (Suc k) P_FREE t1)"
      using k True rm absorb_state [OF Suc.prems(2) refl refl, of hp f]
      by (simp add: merge_block.simps [of x k] looks_free_def Let_def t1 min_def max_def split: if_splits)
    moreover from Suc.hyps(1) [OF _ wf1 u1, of P_FREE] Suc.hyps(2) obtain y c f' t'
      where r: "merge_block ?m (Suc k) (set_page ?m (Suc k) P_FREE t1) = Inr (y, c, set_page y c f' t')"
        and post: "merge_post ?m (Suc k) t1 y c t'" by fastforce
    moreover have "merge_post x k t y c t'"
    proof -
      have mM: "max x ?b = ?m + 2 ^ k" using buddy_of_parent(2) block_okD(2) Suc.prems by blast
      have dm: "dblock ?m (Suc k) = dblock x k \<union> dblock ?b k"
        unfolding dblock_Suc mM [symmetric] by (auto simp: min_def max_def)
      have "free_pages t = free_pages t1 \<union> dblock ?b k"
        using fb fbb unfolding free_pages_def by (auto simp: block_defs)
      then have "free_pages t1 \<union> dblock ?m (Suc k) = free_pages t \<union> dblock x k" using dm by blast
      moreover have "page_n t1 = page_n t" "free_pages_count t1 = free_pages_count t"
        "used_pages_count t1 = used_pages_count t" by (simp_all add: t1)
      moreover have "used_block t ?m l \<Longrightarrow> ?m = x" for l
        using free_not_used [OF fbb, of ?m l] by (auto simp: min_def split: if_splits)
      ultimately show ?thesis
        using post ub dm unfolding merge_post_def by auto
    qed
    ultimately show ?thesis by metis
  qed
qed

definition free_effect :: "nat \<Rightarrow> nat \<Rightarrow> buddy \<Rightarrow> buddy \<Rightarrow> bool" where
  "free_effect k x s t \<longleftrightarrow> free_pages t = free_pages s \<union> dblock x k \<and>
     (\<forall>j l. used_block t j l \<longleftrightarrow> used_block s j l \<and> j \<noteq> x) \<and> page_n t = page_n s \<and>
     free_pages_count t = free_pages_count s + 2 ^ k \<and>
     used_pages_count t = used_pages_count s - 2 ^ k"

lemma buddy_free_wf:
  assumes wf: "buddy_wf s" and x: "used_block s x k" and a: "real_page_index a = x"
  obtains t where "buddy_free_pages s a = Inr t" and "buddy_wf t" and "free_effect k x s t"
proof -
  define s1 where "s1 = s\<lparr>used_pages_count := used_pages_count s - push_bit k 1,
      free_pages_count := free_pages_count s + push_bit k 1\<rparr>"
  have cong: "page_map s1 = page_map s" "page_n s1 = page_n s" "page_nodes s1 = page_nodes s"
    "free_area s1 = free_area s" by (simp_all add: s1_def)
  have ord: "ord s x = k" using x by (simp add: used_block_def)
  have same: "set_page x k P_USED s1 = s1"
    using x by (cases "page_map s x") (auto simp: set_page_def used_block_def s1_def fun_upd_idem)
  have "buddy_wf s1" using wf buddy_wf_cong [OF cong] by blast
  moreover have "used_block s1 x k" using x block_cong(3) [OF cong(1,2)] by metis
  ultimately obtain y c f t where r: "merge_block x k s1 = Inr (y, c, set_page y c f t)"
    and post: "merge_post x k s1 y c t"
    using merge_block_correct [of s1 x k P_USED] same by metis
  define v where "v = set_list c (push_node (page_nodes t) (free_area t c) y) (set_page y c P_FREE t)"
  from post have wft: "buddy_wf t" and uy: "used_block t y c"
    and nb: "c < MAX_BUDDY_ORDER \<Longrightarrow> \<not> looks_free t (buddy_of y c) c"
    by (auto simp: merge_post_def)
  note rel = release_block [OF wft uy nb v_def]
  have "buddy_free_pages s a = Inr v"
    using r by (simp add: buddy_free_pages_def a ord v_def Let_def s1_def)
  moreover have "buddy_wf v" using rel(1) by blast
  moreover have "free_effect k x s v"
  proof -
    have "free_pages v = free_pages t \<union> dblock y c" by (rule free_pages_add) (use rel(2) in blast)
    then have "free_pages v = free_pages s \<union> dblock x k"
      using post block_cong(4) [OF cong(1,2)] by (simp add: merge_post_def)
    moreover have "used_block v j l \<longleftrightarrow> used_block s j l \<and> j \<noteq> x" for j l
    proof -
      have "used_block s j l \<Longrightarrow> j = y \<Longrightarrow> y = x"
      proof (rule ccontr)
        assume u: "used_block s j l" "j = y" and "y \<noteq> x"
        then have "dblock x k \<inter> dblock y l = {}" using blocks_disjoint [OF wf disjI2 disjI2] x by metis
        moreover have "free_pages s \<inter> used_pages s = {}" by (rule free_used_disjoint [OF wf])
        moreover have "y \<in> used_pages s" using u unfolding used_pages_def by (metis (mono_tags) dblock_self mem_Collect_eq)
        moreover have "y \<in> free_pages s \<union> dblock x k"
          using post block_cong(4) [OF cong(1,2)] unfolding merge_post_def by (metis UnCI dblock_self)
        ultimately show False by (metis IntI UnE dblock_self empty_iff)
      qed
      with rel(3) post block_cong(3) [OF cong(1,2)] show ?thesis
        unfolding merge_post_def by metis
    qed
    moreover have "page_n v = page_n s" "free_pages_count v = free_pages_count s + 2 ^ k"
      "used_pages_count v = used_pages_count s - 2 ^ k"
      using post by (simp_all add: merge_post_def v_def s1_def)
    ultimately show ?thesis by (simp add: free_effect_def)
  qed
  ultimately show thesis using that by blast
qed

end
