(* ===== verification/Buddy_Spec.thy ===== *)
theory Buddy_Spec
  imports Buddy_Correct
begin

text \<open>
  What the page allocator promises. The free lists are determined by the set of free pages
  (\<open>free_block_maximal\<close>), so allocation fails exactly when no aligned run of free pages of the
  requested size exists. The locale \<open>page_allocator\<close> is the contract the kernel heap, the paging
  code and the thread code rely on; the buddy allocator is its interpretation.
\<close>

section \<open>Canonical form of the free lists\<close>

text \<open>An aligned run of free pages lies inside a single free block.\<close>

lemma aligned_run_in_block:
  assumes "buddy_wf s" and "k \<le> MAX_BUDDY_ORDER" and "2 ^ k dvd i" and "dblock i k \<subseteq> free_pages s"
  shows "\<exists>j l. free_block s j l \<and> k \<le> l \<and> dblock i k \<subseteq> dblock j l"
  using assms(2-)
proof (induction k arbitrary: i)
  case 0
  then have "i \<in> free_pages s" by auto
  then obtain j l where "free_block s j l" "i \<in> dblock j l" unfolding free_pages_def by blast
  then show ?case by (intro exI [of _ j] exI [of _ l]) auto
next
  case (Suc k)
  have al: "2 ^ k dvd i" "2 ^ k dvd i + 2 ^ k"
    using Suc.prems(2) by (auto intro: dvd_trans [rotated] simp: le_imp_power_dvd)
  have sub: "dblock i k \<subseteq> free_pages s" "dblock (i + 2 ^ k) k \<subseteq> free_pages s"
    using Suc.prems(3) unfolding dblock_Suc by blast+
  from Suc.IH [OF _ al(1) sub(1)] Suc.prems(1) obtain j l where
    jl: "free_block s j l" "k \<le> l" "dblock i k \<subseteq> dblock j l" by auto
  from Suc.IH [OF _ al(2) sub(2)] Suc.prems(1) obtain j' l' where
    jl': "free_block s j' l'" "k \<le> l'" "dblock (i + 2 ^ k) k \<subseteq> dblock j' l'" by auto
  have grow: "Suc k \<le> m \<Longrightarrow> free_block s q m \<Longrightarrow> dblock q m \<inter> dblock i (Suc k) \<noteq> {} \<Longrightarrow>
      dblock i (Suc k) \<subseteq> dblock q m" for q m
    using dblock_nested [OF Suc.prems(2) block_okD(2) [OF assms(1) disjI1]] by (metis Int_commute)
  have meet: "dblock j l \<inter> dblock i (Suc k) \<noteq> {}" "dblock j' l' \<inter> dblock i (Suc k) \<noteq> {}"
    using jl(3) jl'(3) dblock_self [of i k] dblock_self [of "i + 2 ^ k" k] unfolding dblock_Suc by blast+
  show ?case
  proof (cases "l = k \<and> l' = k")
    case True
    then have "i = j" "i + 2 ^ k = j'"
      using jl(3) jl'(3) dblock_subset_same by blast+
    with True jl(1) jl'(1) have "free_block s i k" "free_block s (i + 2 ^ k) k" by auto
    moreover have "buddy_of i k = i + 2 ^ k" using Suc.prems(2) al(1) by (simp add: buddy_of_eq)
    ultimately have False
      using assms(1) Suc.prems(1) unfolding buddy_wf_def coalesced_def free_block_def
      by (metis Suc_le_eq)
    then show ?thesis ..
  next
    case False
    with jl(2) jl'(2) have "Suc k \<le> l \<or> Suc k \<le> l'" by auto
    then show ?thesis using grow jl(1) jl'(1) meet by blast
  qed
qed

text \<open>The free blocks are the maximal aligned runs of free pages.\<close>

lemma free_block_maximal:
  assumes "buddy_wf s"
  shows "free_block s i k \<longleftrightarrow>
    k \<le> MAX_BUDDY_ORDER \<and> 2 ^ k dvd i \<and> dblock i k \<subseteq> free_pages s \<and>
    \<not> (\<exists>j l. k < l \<and> l \<le> MAX_BUDDY_ORDER \<and> 2 ^ l dvd j \<and> dblock i k \<subseteq> dblock j l \<and>
          dblock j l \<subseteq> free_pages s)"
    (is "_ \<longleftrightarrow> ?R")
proof
  assume f: "free_block s i k"
  note ok = block_okD [OF assms disjI1, OF f]
  have "dblock i k \<subseteq> free_pages s" using f unfolding free_pages_def by blast
  moreover have False if j: "k < l" "l \<le> MAX_BUDDY_ORDER" "2 ^ l dvd j" "dblock i k \<subseteq> dblock j l"
    "dblock j l \<subseteq> free_pages s" for j l
  proof -
    from aligned_run_in_block [OF assms j(2,3,5)] obtain q m where
      q: "free_block s q m" "l \<le> m" "dblock j l \<subseteq> dblock q m" by blast
    have "dblock i k \<inter> dblock q m \<noteq> {}" using q(3) j(4) dblock_self by blast
    with blocks_disjoint [OF assms disjI1 disjI1, OF f q(1)] have "i = q" by blast
    with f q(1) have "k = m" by (auto simp: block_defs)
    with q(2) j(1) show False by simp
  qed
  ultimately show ?R using ok by blast
next
  assume R: ?R
  then obtain j l where j: "free_block s j l" "k \<le> l" "dblock i k \<subseteq> dblock j l"
    using aligned_run_in_block [OF assms, of k i] by metis
  have "dblock j l \<subseteq> free_pages s" using j(1) unfolding free_pages_def by blast
  with R j block_okD(1,2) [OF assms disjI1, OF j(1)] have "l = k" by (metis le_neq_implies_less)
  then have "i = j" using j(3) dblock_subset_same by blast
  with j(1) \<open>l = k\<close> show "free_block s i k" by auto
qed

lemma free_blocks_determined:
  assumes "buddy_wf s" and "buddy_wf t" and "free_pages s = free_pages t"
  shows "free_block s i k \<longleftrightarrow> free_block t i k"
  using free_block_maximal [OF assms(1), of i k] free_block_maximal [OF assms(2), of i k] assms(3)
  by simp

section \<open>Preservation of the invariant\<close>

lemma used_pages_add:
  assumes "\<And>j l. used_block t j l \<longleftrightarrow> used_block s j l \<or> j = x \<and> l = k"
  shows "used_pages t = used_pages s \<union> dblock x k"
  unfolding used_pages_def assms by blast

lemma used_pages_remove:
  assumes "buddy_wf s" and "used_block s x k"
    and "\<And>j l. used_block t j l \<longleftrightarrow> used_block s j l \<and> j \<noteq> x"
  shows "used_pages t = used_pages s - dblock x k"
proof -
  have "used_pages s = used_pages t \<union> dblock x k"
    using assms(2,3) unfolding used_pages_def by (auto simp: block_defs)
  moreover have "used_pages t \<inter> dblock x k = {}"
    using blocks_disjoint [OF assms(1) disjI2 disjI2, OF _ assms(2)] assms(3)
    unfolding used_pages_def by blast
  ultimately show ?thesis by blast
qed

lemma of_nat_card_Diff:
  "finite A \<Longrightarrow> dblock x k \<subseteq> A \<Longrightarrow> (of_nat (card (A - dblock x k)) :: u32) = of_nat (card A) - 2 ^ k"
  using card_mono [of A "dblock x k"] by (simp add: card_Diff_subset of_nat_diff)

lemma of_nat_card_Un:
  "finite A \<Longrightarrow> A \<inter> dblock x k = {} \<Longrightarrow> (of_nat (card (A \<union> dblock x k)) :: u32) = of_nat (card A) + 2 ^ k"
  by (simp add: card_Un_disjoint)

lemma alloc_effect_inv:
  assumes "buddy_inv s" and "buddy_wf t" and "alloc_effect k x s t"
  shows "buddy_inv t" and "used_pages t = used_pages s \<union> dblock x k"
proof -
  from assms(1) have wf: "buddy_wf s" by (simp add: buddy_inv_def)
  from assms(3) have sub: "dblock x k \<subseteq> free_pages s" by (simp add: alloc_effect_def)
  show up: "used_pages t = used_pages s \<union> dblock x k"
    by (rule used_pages_add) (use assms(3) in \<open>auto simp: alloc_effect_def\<close>)
  have "used_pages s \<inter> dblock x k = {}" using free_used_disjoint [OF wf] sub by blast
  with up sub assms pages_finite [OF wf] show "buddy_inv t"
    by (simp add: buddy_inv_def counts_ok_def alloc_effect_def of_nat_card_Diff of_nat_card_Un)
qed

lemma free_effect_inv:
  assumes "buddy_inv s" and "buddy_wf t" and "free_effect k x s t" and "used_block s x k"
  shows "buddy_inv t" and "used_pages t = used_pages s - dblock x k"
proof -
  from assms(1) have wf: "buddy_wf s" by (simp add: buddy_inv_def)
  show up: "used_pages t = used_pages s - dblock x k"
    by (rule used_pages_remove [OF wf assms(4)]) (use assms(3) in \<open>auto simp: free_effect_def\<close>)
  have "dblock x k \<subseteq> used_pages s" using assms(4) unfolding used_pages_def by blast
  moreover from this have "free_pages s \<inter> dblock x k = {}" using free_used_disjoint [OF wf] by blast
  ultimately show "buddy_inv t"
    using up assms pages_finite [OF wf]
    by (simp add: buddy_inv_def counts_ok_def free_effect_def of_nat_card_Diff of_nat_card_Un)
qed

section \<open>Addresses and page indices\<close>

lemma unat_page_map_real:
  assumes "x < 2 ^ 20"
  shows "unat (page_map_real x) = 0x1000 * x"
  using assms by (simp add: page_map_real_def unat_word_ariths unsigned_of_nat take_bit_nat_def)

lemma real_page_index_real: "x < 2 ^ 20 \<Longrightarrow> real_page_index (page_map_real x) = x"
  using unat_page_map_real [of x]
  by (simp add: real_page_index_def BASE_SHIFT_def drop_bit_eq_div unat_div)

section \<open>The contract\<close>

locale page_allocator =
  fixes inv :: "'s \<Rightarrow> bool"
    and avail :: "'s \<Rightarrow> nat set"
    and live :: "'s \<Rightarrow> nat \<Rightarrow> nat \<Rightarrow> bool"
    and alloc :: "'s \<Rightarrow> nat \<Rightarrow> (u32 \<times> 's) res"
    and release :: "'s \<Rightarrow> u32 \<Rightarrow> 's res"
  assumes alloc_ok: "inv s \<Longrightarrow> alloc s k = Inr (a, s') \<Longrightarrow>
      inv s' \<and> (\<exists>x. a = page_map_real x \<and> x < 2 ^ 20 \<and> 2 ^ k dvd x \<and> dblock x k \<subseteq> avail s \<and>
        avail s' = avail s - dblock x k \<and> (\<forall>j l. live s' j l \<longleftrightarrow> live s j l \<or> j = x \<and> l = k))"
    and alloc_total: "inv s \<Longrightarrow> k \<le> MAX_BUDDY_ORDER \<Longrightarrow> 2 ^ k dvd x \<Longrightarrow> dblock x k \<subseteq> avail s \<Longrightarrow>
      \<exists>a s'. alloc s k = Inr (a, s')"
    and release_ok: "inv s \<Longrightarrow> live s x k \<Longrightarrow>
      \<exists>s'. release s (page_map_real x) = Inr s' \<and> inv s' \<and> avail s' = avail s \<union> dblock x k \<and>
        (\<forall>j l. live s' j l \<longleftrightarrow> live s j l \<and> j \<noteq> x)"
    and live_ok: "inv s \<Longrightarrow> live s x k \<Longrightarrow> x < 2 ^ 20 \<and> 2 ^ k dvd x \<and> dblock x k \<inter> avail s = {}"
    and live_apart: "inv s \<Longrightarrow> live s x k \<Longrightarrow> live s y l \<Longrightarrow> x \<noteq> y \<Longrightarrow> dblock x k \<inter> dblock y l = {}"
begin

text \<open>A fresh block overlaps no block handed out before.\<close>

lemma alloc_fresh:
  assumes "inv s" and "alloc s k = Inr (a, s')" and "live s y l"
  obtains x where "a = page_map_real x" and "live s' x k" and "live s' y l"
    and "dblock x k \<inter> dblock y l = {}"
proof -
  from alloc_ok [OF assms(1,2)] obtain x where x: "a = page_map_real x" "dblock x k \<subseteq> avail s"
    "\<forall>j l. live s' j l \<longleftrightarrow> live s j l \<or> j = x \<and> l = k" by blast
  from live_ok [OF assms(1,3)] x(2) have "dblock x k \<inter> dblock y l = {}" by blast
  with x assms(3) that show thesis by blast
qed

text \<open>Allocation followed by release of the block makes the same pages available again.\<close>

lemma alloc_release:
  assumes "inv s" and "alloc s k = Inr (a, s')"
  shows "\<exists>s''. release s' a = Inr s'' \<and> inv s'' \<and> avail s'' = avail s"
proof -
  from alloc_ok [OF assms] obtain x where x: "inv s'" "a = page_map_real x" "dblock x k \<subseteq> avail s"
    "avail s' = avail s - dblock x k" "live s' x k" by blast
  from release_ok [OF x(1,5)] x(2-4) show ?thesis by auto
qed

end

lemma buddy_alloc_inv:
  assumes "buddy_inv s" and "buddy_alloc_pages s k = Inr (a, t)"
  obtains x where "a = page_map_real x" and "x < 2 ^ 20" and "2 ^ k dvd x" and "buddy_inv t"
    and "alloc_effect k x s t"
proof -
  from assms(1) have wf: "buddy_wf s" and n: "page_n s \<le> 2 ^ 20" by (auto simp: buddy_inv_def)
  have "\<exists>i l. k \<le> l \<and> free_block s i l"
    using buddy_alloc_fail [OF wf, of k] assms(2) by (metis Inl_Inr_False)
  from buddy_alloc_wf [OF wf this] obtain x u where
    u: "buddy_alloc_pages s k = Inr (page_map_real x, u)" "buddy_wf u" "alloc_effect k x s u" "2 ^ k dvd x" .
  with assms(2) have eq: "a = page_map_real x" "u = t" by auto
  moreover have "x \<in> free_pages s" using u(3) dblock_self unfolding alloc_effect_def by blast
  then have "x < 2 ^ 20" using pages_bounded(1) [OF wf] n by auto
  ultimately show thesis using that u alloc_effect_inv(1) [OF assms(1)] by metis
qed

interpretation pmm: page_allocator buddy_inv free_pages used_block buddy_alloc_pages buddy_free_pages
proof (unfold_locales, goal_cases)
  case (1 s k a s')
  from buddy_alloc_inv [OF 1] obtain x where
    "a = page_map_real x" "x < 2 ^ 20" "2 ^ k dvd x" "buddy_inv s'" "alloc_effect k x s s'" .
  then show ?case unfolding alloc_effect_def by blast
next
  case (2 s k x)
  then have wf: "buddy_wf s" by (simp add: buddy_inv_def)
  from aligned_run_in_block [OF wf 2(2-4)] have "\<exists>i l. k \<le> l \<and> free_block s i l" by blast
  from buddy_alloc_wf [OF wf this] obtain y t where "buddy_alloc_pages s k = Inr (page_map_real y, t)" .
  then show ?case by blast
next
  case (3 s x k)
  then have wf: "buddy_wf s" and n: "page_n s \<le> 2 ^ 20" by (auto simp: buddy_inv_def)
  have "x < 2 ^ 20" using 3(2) n by (simp add: used_block_def)
  from buddy_free_wf [OF wf 3(2) real_page_index_real [OF this]] obtain t where
    t: "buddy_free_pages s (page_map_real x) = Inr t" "buddy_wf t" "free_effect k x s t" .
  with free_effect_inv(1) [OF 3(1) t(2,3) 3(2)] show ?case unfolding free_effect_def by blast
next
  case (4 s x k)
  then have wf: "buddy_wf s" and n: "page_n s \<le> 2 ^ 20" by (auto simp: buddy_inv_def)
  have "dblock x k \<subseteq> used_pages s" using 4(2) unfolding used_pages_def by blast
  with free_used_disjoint [OF wf] block_okD(2) [OF wf disjI2, OF 4(2)] 4(2) n show ?case
    by (auto simp: used_block_def)
next
  case (5 s x k y l)
  then have wf: "buddy_wf s" by (simp add: buddy_inv_def)
  from blocks_disjoint [OF wf disjI2 disjI2, OF 5(2,3,4)] show ?case .
qed

end
