(* ===== verification/Memory.thy ===== *)
theory Memory
  imports Prelude
begin

text \<open>
  Byte memory and the memory routines of \<open>lib/string.c\<close>.

  Memory is a function from 32-bit kernel addresses to bytes; addresses wrap around like the
  registers that hold them. The routines of \<open>string.c\<close> are inline assembly: a \<open>rep stosl\<close> or
  \<open>rep movsl\<close> over the whole double words followed by a \<open>rep stosb\<close>, \<open>stosw\<close> or \<open>movsb\<close> over the
  rest. Each string instruction is a recursion on the count register that advances \<open>edi\<close> (and
  \<open>esi\<close>); the direction flag is clear.
\<close>

section \<open>Loads and stores\<close>

type_synonym mem = "u32 \<Rightarrow> u8"

definition store8 :: "mem \<Rightarrow> u32 \<Rightarrow> u8 \<Rightarrow> mem" where
  "store8 m a v = m(a := v)"

definition store16 :: "mem \<Rightarrow> u32 \<Rightarrow> u16 \<Rightarrow> mem" where
  "store16 m a v = (\<lambda>x. if unat (x - a) < 2 then ucast (drop_bit (8 * unat (x - a)) v) else m x)"

definition store32 :: "mem \<Rightarrow> u32 \<Rightarrow> u32 \<Rightarrow> mem" where
  "store32 m a v = (\<lambda>x. if unat (x - a) < 4 then ucast (drop_bit (8 * unat (x - a)) v) else m x)"

definition load16 :: "mem \<Rightarrow> u32 \<Rightarrow> u16" where
  "load16 m a = ucast (m a) OR push_bit 8 (ucast (m (a + 1)))"

definition load32 :: "mem \<Rightarrow> u32 \<Rightarrow> u32" where
  "load32 m a = ucast (m a) OR push_bit 8 (ucast (m (a + 1))) OR
     push_bit 16 (ucast (m (a + 2))) OR push_bit 24 (ucast (m (a + 3)))"

section \<open>String instructions\<close>

fun rep_stosb :: "nat \<Rightarrow> u32 \<Rightarrow> u8 \<Rightarrow> mem \<Rightarrow> u32 \<times> mem" where
  "rep_stosb 0 edi al m = (edi, m)"
| "rep_stosb (Suc ecx) edi al m = rep_stosb ecx (edi + 1) al (store8 m edi al)"

fun rep_stosw :: "nat \<Rightarrow> u32 \<Rightarrow> u16 \<Rightarrow> mem \<Rightarrow> u32 \<times> mem" where
  "rep_stosw 0 edi ax m = (edi, m)"
| "rep_stosw (Suc ecx) edi ax m = rep_stosw ecx (edi + 2) ax (store16 m edi ax)"

fun rep_stosl :: "nat \<Rightarrow> u32 \<Rightarrow> u32 \<Rightarrow> mem \<Rightarrow> u32 \<times> mem" where
  "rep_stosl 0 edi eax m = (edi, m)"
| "rep_stosl (Suc ecx) edi eax m = rep_stosl ecx (edi + 4) eax (store32 m edi eax)"

fun rep_movsb :: "nat \<Rightarrow> u32 \<Rightarrow> u32 \<Rightarrow> mem \<Rightarrow> u32 \<times> u32 \<times> mem" where
  "rep_movsb 0 edi esi m = (edi, esi, m)"
| "rep_movsb (Suc ecx) edi esi m = rep_movsb ecx (edi + 1) (esi + 1) (store8 m edi (m esi))"

fun rep_movsl :: "nat \<Rightarrow> u32 \<Rightarrow> u32 \<Rightarrow> mem \<Rightarrow> u32 \<times> u32 \<times> mem" where
  "rep_movsl 0 edi esi m = (edi, esi, m)"
| "rep_movsl (Suc ecx) edi esi m = rep_movsl ecx (edi + 4) (esi + 4) (store32 m edi (load32 m esi))"

section \<open>The routines of string.c\<close>

definition kmemcpy :: "mem \<Rightarrow> u32 \<Rightarrow> u32 \<Rightarrow> u32 \<Rightarrow> mem" where
  "kmemcpy m dest src count =
     (let dwords = count div 4; bytes = count mod 4;
          (edi, esi, m) = rep_movsl (unat dwords) dest src m;
          (edi, esi, m) = rep_movsb (unat bytes) edi esi m
      in m)"

definition kmemset :: "mem \<Rightarrow> u32 \<Rightarrow> u8 \<Rightarrow> u32 \<Rightarrow> mem" where
  "kmemset m dest value count =
     (let dwords = count div 4; bytes = count mod 4;
          val32 = ucast value;
          val32 = val32 OR push_bit 8 val32;
          val32 = val32 OR push_bit 16 val32;
          (edi, m) = rep_stosl (unat dwords) dest val32 m;
          (edi, m) = rep_stosb (unat bytes) edi (ucast val32) m
      in m)"

definition kwmemset :: "mem \<Rightarrow> u32 \<Rightarrow> u16 \<Rightarrow> u32 \<Rightarrow> mem" where
  "kwmemset m dest value count =
     (let dwords = count div 2; bytes = count mod 2;
          val32 = ucast value;
          val32 = val32 OR push_bit 16 val32;
          (edi, m) = rep_stosl (unat dwords) dest val32 m;
          (edi, m) = rep_stosw (unat bytes) edi (ucast val32) m
      in m)"

section \<open>Address offsets\<close>

lemma unat_diff_shift:
  fixes x e c :: u32
  shows "unat (x - (e + c)) =
    (if unat c \<le> unat (x - e) then unat (x - e) - unat c else 2 ^ 32 + unat (x - e) - unat c)"
proof -
  have "x - (e + c) = (x - e) - c"
    by (rule diff_diff_add [symmetric])
  then show ?thesis
    by (simp only: unat_sub_if' [of "x - e" c] add.commute [of "unat (x - e)"]) simp
qed

lemma unat_diff_add:
  fixes x e :: u32
  assumes "n < 2 ^ 32"
  shows "unat (x - (e + of_nat n)) =
    (if n \<le> unat (x - e) then unat (x - e) - n else 2 ^ 32 + unat (x - e) - n)"
  using unat_diff_shift [of x e "of_nat n"] assms
  by (simp add: unsigned_of_nat take_bit_nat_eq_self)

section \<open>What the string instructions do\<close>

lemma store8_at: "store8 m a v x = (if x = a then v else m x)"
  by (simp add: store8_def)

lemma rep_stosb_spec:
  assumes "n < 2 ^ 32"
  shows "rep_stosb n edi al m =
    (edi + of_nat n, \<lambda>x. if unat (x - edi) < n then al else m x)"
  using assms
proof (induction n arbitrary: edi m)
  case (Suc n)
  have "(if unat (x - (edi + 1)) < n then al else store8 m edi al x) =
        (if unat (x - edi) < Suc n then al else m x)" for x
    using Suc.prems unat_diff_shift [of x edi 1] unat_eq_zero [of "x - edi"]
    by (auto simp: store8_at)
  then show ?case
    using Suc by (simp add: algebra_simps)
qed simp

lemma rep_stosw_spec:
  assumes "2 * n < 2 ^ 32"
  shows "rep_stosw n edi ax m = (edi + 2 * of_nat n,
    \<lambda>x. if unat (x - edi) < 2 * n then ucast (drop_bit (8 * (unat (x - edi) mod 2)) ax) else m x)"
  using assms
proof (induction n arbitrary: edi m)
  case (Suc n)
  have "(if unat (x - (edi + 2)) < 2 * n then ucast (drop_bit (8 * (unat (x - (edi + 2)) mod 2)) ax)
         else store16 m edi ax x) =
        (if unat (x - edi) < 2 * Suc n then ucast (drop_bit (8 * (unat (x - edi) mod 2)) ax) else m x)"
    for x :: u32
    using Suc.prems unat_diff_shift [of x edi 2]
    le_mod_geq [of 2 "unat (x - edi)"]
    by (auto simp: store16_def)
  then show ?case
    using Suc by (simp add: algebra_simps)
qed simp

lemma rep_stosl_spec:
  assumes "4 * n < 2 ^ 32"
  shows "rep_stosl n edi eax m = (edi + 4 * of_nat n,
    \<lambda>x. if unat (x - edi) < 4 * n then ucast (drop_bit (8 * (unat (x - edi) mod 4)) eax) else m x)"
  using assms
proof (induction n arbitrary: edi m)
  case (Suc n)
  have "(if unat (x - (edi + 4)) < 4 * n then ucast (drop_bit (8 * (unat (x - (edi + 4)) mod 4)) eax)
         else store32 m edi eax x) =
        (if unat (x - edi) < 4 * Suc n then ucast (drop_bit (8 * (unat (x - edi) mod 4)) eax) else m x)"
    for x :: u32
    using Suc.prems unat_diff_shift [of x edi 4]
    le_mod_geq [of 4 "unat (x - edi)"]
    by (auto simp: store32_def)
  then show ?case
    using Suc by (simp add: algebra_simps)
qed simp

definition copies :: "nat \<Rightarrow> u32 \<Rightarrow> u32 \<Rightarrow> mem \<Rightarrow> mem" where
  "copies n dest src m = (\<lambda>x. if unat (x - dest) < n then m (src + (x - dest)) else m x)"

definition copy_safe :: "nat \<Rightarrow> u32 \<Rightarrow> u32 \<Rightarrow> bool" where
  "copy_safe n dest src \<longleftrightarrow> dest = src \<or> n \<le> unat (dest - src)"

lemma bit_u8_high: "8 \<le> n \<Longrightarrow> \<not> bit (v :: u8) n"
  by (auto dest: bit_imp_le_length)

lemma bit_u16_high: "16 \<le> n \<Longrightarrow> \<not> bit (v :: u16) n"
  by (auto dest: bit_imp_le_length)

lemma load32_byte:
  assumes "i < 4"
  shows "ucast (drop_bit (8 * i) (load32 m a)) = m (a + of_nat i)"
proof -
  from assms consider "i = 0" | "i = 1" | "i = 2" | "i = 3" by linarith
  then show ?thesis
    by cases (auto intro!: bit_word_eqI simp: load32_def bit_simps bit_u8_high)
qed

lemma store32_load32:
  "store32 m a (load32 m b) = copies 4 a b m"
  by (rule ext) (simp add: store32_def copies_def load32_byte)

lemma copies_step:
  assumes safe: "copy_safe (k + n) dest src" and k: "k + n < 2 ^ 32"
  shows "copies n (dest + of_nat k) (src + of_nat k) (copies k dest src m) = copies (k + n) dest src m"
    (is "?l = ?r")
proof
  fix x
  let ?o = "unat (x - dest)"
  have shift: "src + of_nat k + (x - (dest + of_nat k)) = src + (x - dest)"
    by simp
  have off: "unat (x - (dest + of_nat k)) = (if k \<le> ?o then ?o - k else 2 ^ 32 + ?o - k)"
    using k by (intro unat_diff_add) simp
  have keep: "copies k dest src m (src + (x - dest)) = m (src + (x - dest))"
    if o: "k \<le> ?o" "?o < k + n"
  proof (cases "dest = src")
    case False
    have eq: "src + (x - dest) - dest = (x - dest) - (dest - src)" by simp
    have "k + n \<le> unat (dest - src)" using safe False by (simp add: copy_safe_def)
    with o have "?o < unat (dest - src)" by simp
    then have "unat (src + (x - dest) - dest) = 2 ^ 32 + ?o - unat (dest - src)"
      using unat_diff_shift [of "x - dest" 0 "dest - src"] unfolding eq by simp
    moreover have "unat (dest - src) < 2 ^ 32" using unsigned_less [of "dest - src"] by simp
    ultimately have "\<not> unat (src + (x - dest) - dest) < k" using o by linarith
    then show ?thesis by (simp only: copies_def if_False)
  qed (simp add: copies_def)
  show "?l x = ?r x"
  proof (cases "k \<le> ?o \<and> ?o < k + n")
    case True
    then have "unat (x - (dest + of_nat k)) < n" using off by auto
    with True show ?thesis using keep shift
      by (simp only: copies_def [of n] copies_def [of "k + n"] if_True)
  next
    case False
    moreover have "?o < 2 ^ 32" using unsigned_less [of "x - dest"] by simp
    ultimately have "\<not> unat (x - (dest + of_nat k)) < n" "?o < k + n \<longleftrightarrow> ?o < k"
      using off k by (simp_all split: if_splits)
    then show ?thesis by (simp only: copies_def if_False)
  qed
qed

lemma rep_movsb_spec:
  assumes "copy_safe n edi esi" "n < 2 ^ 32"
  shows "rep_movsb n edi esi m = (edi + of_nat n, esi + of_nat n, copies n edi esi m)"
  using assms
proof (induction n arbitrary: edi esi m)
  case (Suc n)
  have "store8 m edi (m esi) = copies 1 edi esi m"
    by (rule ext) (auto simp: store8_def copies_def unat_eq_zero)
  moreover have "copy_safe n (edi + 1) (esi + 1)"
    using Suc.prems by (auto simp: copy_safe_def)
  ultimately show ?case
    using Suc copies_step [of 1 n edi esi m] by (simp add: algebra_simps)
qed (auto simp: copies_def)

lemma rep_movsl_spec:
  assumes "copy_safe (4 * n) edi esi" "4 * n < 2 ^ 32"
  shows "rep_movsl n edi esi m = (edi + 4 * of_nat n, esi + 4 * of_nat n, copies (4 * n) edi esi m)"
  using assms
proof (induction n arbitrary: edi esi m)
  case (Suc n)
  have "copy_safe (4 * n) (edi + 4) (esi + 4)"
    using Suc.prems by (auto simp: copy_safe_def)
  then show ?case
    using Suc copies_step [of 4 "4 * n" edi esi m] by (simp add: algebra_simps store32_load32)
qed (auto simp: copies_def)

section \<open>The routines are correct\<close>

lemma u32_parts:
  fixes c :: u32
  shows "4 * unat (c div 4) + unat (c mod 4) = unat c" "2 * unat (c div 2) + unat (c mod 2) = unat c"
  by (simp_all add: unat_div unat_mod)

definition splat8 :: "u8 \<Rightarrow> u32" where
  "splat8 v = (let w = ucast v; w = w OR push_bit 8 w in w OR push_bit 16 w)"

definition splat16 :: "u16 \<Rightarrow> u32" where
  "splat16 v = (let w = ucast v in w OR push_bit 16 w)"

lemma splat8_byte:
  assumes "i < 4"
  shows "ucast (drop_bit (8 * i) (splat8 v)) = v"
proof -
  from assms consider "i = 0" | "i = 1" | "i = 2" | "i = 3" by linarith
  then show ?thesis
    by cases (auto intro!: bit_word_eqI simp: splat8_def Let_def bit_simps bit_u8_high)
qed

lemma splat16_byte:
  assumes "i < 4"
  shows "(ucast (drop_bit (8 * i) (splat16 v)) :: u8) = ucast (drop_bit (8 * (i mod 2)) v)"
proof -
  from assms consider "i = 0" | "i = 1" | "i = 2" | "i = 3" by linarith
  then show ?thesis
    by cases (auto intro!: bit_word_eqI simp: splat16_def Let_def bit_simps bit_u16_high)
qed

lemma splat16_half: "(ucast (splat16 v) :: u16) = v"
  by (auto intro!: bit_word_eqI simp: splat16_def Let_def bit_simps)

lemma kmemset_splat:
  "kmemset m dest v c =
    snd (let (edi, m) = rep_stosl (unat (c div 4)) dest (splat8 v) m
         in rep_stosb (unat (c mod 4)) edi (ucast (splat8 v)) m)"
  by (simp add: kmemset_def splat8_def Let_def split_def)

lemma kwmemset_splat:
  "kwmemset m dest v c =
    snd (let (edi, m) = rep_stosl (unat (c div 2)) dest (splat16 v) m
         in rep_stosw (unat (c mod 2)) edi (ucast (splat16 v)) m)"
  by (simp add: kwmemset_def splat16_def Let_def split_def)

lemma unat_diff_times4:
  fixes x e q :: u32
  assumes "4 * unat q < 2 ^ 32"
  shows "unat (x - (e + 4 * q)) =
    (if 4 * unat q \<le> unat (x - e) then unat (x - e) - 4 * unat q
     else 2 ^ 32 + unat (x - e) - 4 * unat q)"
  using unat_diff_add [OF assms, of x e] by simp

lemma kmemset_at:
  "kmemset m dest v c x = (if unat (x - dest) < unat c then v else m x)"
proof -
  let ?q = "c div 4" and ?r = "c mod 4"
  have parts: "4 * unat ?q + unat ?r = unat c" and c: "unat c < 2 ^ 32"
    using u32_parts [of c] unsigned_less [of c] by simp_all
  have v: "(ucast (splat8 v) :: u8) = v" using splat8_byte [of 0 v] by simp
  have byte: "(ucast (drop_bit (8 * (i mod 4)) (splat8 v)) :: u8) = v" for i
    by (rule splat8_byte) simp
  have "kmemset m dest v c x =
     (if unat (x - (dest + 4 * ?q)) < unat ?r then v
      else if unat (x - dest) < 4 * unat ?q then v else m x)"
    using parts c by (simp add: kmemset_splat rep_stosl_spec rep_stosb_spec v byte)
  then show ?thesis
    using parts c unat_diff_times4 [of ?q x dest] unsigned_less [of "x - dest"]
    by (auto split: if_splits)
qed

lemma kwmemset_at:
  assumes "unat c < 2 ^ 31"
  shows "kwmemset m dest v c x =
    (if unat (x - dest) < 2 * unat c then ucast (drop_bit (8 * (unat (x - dest) mod 2)) v) else m x)"
proof -
  let ?q = "c div 2" and ?r = "c mod 2"
  let ?b = "\<lambda>i. ucast (drop_bit (8 * (i mod 2)) v) :: u8"
  have parts: "2 * unat ?q + unat ?r = unat c"
    using u32_parts [of c] by simp
  have byte: "(ucast (drop_bit (8 * (i mod 4)) (splat16 v)) :: u8) = ?b i" for i
    by (subst splat16_byte) (simp_all add: mod_mod_cancel)
  have m2: "(y - 4 * k) mod 2 = y mod 2" if "4 * k \<le> y" for y k :: nat
  proof -
    from that obtain d where "y = 4 * k + d" using le_Suc_ex by blast
    moreover have "(4 * k + d) mod 2 = d mod 2" by presburger
    ultimately show ?thesis by simp
  qed
  have "kwmemset m dest v c x =
     (if unat (x - (dest + 4 * ?q)) < 2 * unat ?r then ?b (unat (x - (dest + 4 * ?q)))
      else if unat (x - dest) < 4 * unat ?q then ?b (unat (x - dest)) else m x)"
    using parts assms by (simp add: kwmemset_splat rep_stosl_spec rep_stosw_spec splat16_half byte)
  moreover have "unat (x - (dest + 4 * ?q)) = (if 4 * unat ?q \<le> unat (x - dest)
      then unat (x - dest) - 4 * unat ?q else 2 ^ 32 + unat (x - dest) - 4 * unat ?q)"
    using parts assms by (intro unat_diff_times4) simp
  moreover have "unat (x - dest) - 4 * unat ?q < 2 * unat ?r \<longleftrightarrow> unat (x - dest) < 2 * unat c"
    if "4 * unat ?q \<le> unat (x - dest)"
    using parts that by linarith
  ultimately show ?thesis
    using parts assms m2 [of "unat ?q" "unat (x - dest)"]
    by (cases "4 * unat ?q \<le> unat (x - dest)") simp_all
qed

lemma kmemcpy_at:
  assumes "copy_safe (unat c) dest src"
  shows "kmemcpy m dest src c = copies (unat c) dest src m"
proof -
  let ?q = "c div 4" and ?r = "c mod 4"
  have parts: "4 * unat ?q + unat ?r = unat c" and c: "unat c < 2 ^ 32"
    using u32_parts [of c] unsigned_less [of c] by simp_all
  have "copy_safe (4 * unat ?q) dest src" "copy_safe (unat ?r) (dest + 4 * ?q) (src + 4 * ?q)"
    using assms parts by (auto simp: copy_safe_def)
  then have "kmemcpy m dest src c =
     copies (unat ?r) (dest + 4 * ?q) (src + 4 * ?q) (copies (4 * unat ?q) dest src m)"
    using parts c by (simp add: kmemcpy_def rep_movsl_spec rep_movsb_spec)
  also have "\<dots> = copies (unat c) dest src m"
    using copies_step [of "4 * unat ?q" "unat ?r" dest src m] parts c assms by simp
  finally show ?thesis .
qed

end
