(* ===== verification/Bump.thy ===== *)
theory Bump
  imports Memory
begin

text \<open>
  The boot-time page allocator of \<open>mm/bump.c\<close>.

  The static variable \<open>placement_addr\<close> and the memory the allocator clears form the boot state
  \<open>boot\<close>. A page is handed out by its physical address and cleared through its kernel-virtual
  alias \<open>P2V\<close>.
\<close>

record boot =
  placement_addr :: u32
  bmem :: mem

definition init_bump :: "u32 \<Rightarrow> boot \<Rightarrow> boot" where
  "init_bump end_addr s = s\<lparr>placement_addr := ALIGN_UP end_addr 0x1000\<rparr>"

definition bump_alloc :: "u32 \<Rightarrow> boot \<Rightarrow> u32 \<times> boot" where
  "bump_alloc num_pages s =
     (let page = placement_addr s;
          s = s\<lparr>placement_addr := placement_addr s + 0x1000 * num_pages\<rparr>;
          s = s\<lparr>bmem := kmemset (bmem s) (P2V page) 0 (0x1000 * num_pages)\<rparr>
      in (page, s))"

definition get_placement_addr :: "boot \<Rightarrow> u32" where
  "get_placement_addr s = placement_addr s"

section \<open>Alignment\<close>

lemma unat_add_small:
  fixes x y :: u32
  assumes "unat x + unat y < 2 ^ 32"
  shows "unat (x + y) = unat x + unat y"
  using assms unat_add_lem [of x y] by simp

lemma unat_page_round:
  fixes y :: u32
  shows "unat (y AND - 0x1000) = unat y div 0x1000 * 0x1000"
proof -
  have "y AND - 0x1000 = y AND NOT (mask 12)" by (simp add: mask_eq_exp_minus_1)
  also have "\<dots> = push_bit 12 (drop_bit 12 y)"
    by (rule bit_word_eqI) (auto simp: bit_simps)
  finally have "unat (y AND - 0x1000) = unat (push_bit 12 (drop_bit 12 y))" by simp
  also have "\<dots> = push_bit 12 (drop_bit 12 (unat y))"
    by (rule bit_eqI) (auto simp: bit_simps unsigned_push_bit_eq dest: bit_imp_le_length)
  finally show ?thesis by (simp add: push_bit_eq_mult drop_bit_eq_div)
qed

lemma ALIGN_UP_page:
  assumes "unat x + 0xFFF < 2 ^ 32"
  shows "unat (ALIGN_UP x 0x1000) = (unat x + 0xFFF) div 0x1000 * 0x1000"
  using assms unat_add_small [of x "0xFFF"]
  by (simp add: ALIGN_UP_def unat_page_round add_diff_eq [symmetric])

lemma init_bump_page:
  assumes "unat e + 0xFFF < 2 ^ 32"
  shows "unat e \<le> unat (placement_addr (init_bump e s))"
    and "unat (placement_addr (init_bump e s)) < unat e + 0x1000"
    and "0x1000 dvd unat (placement_addr (init_bump e s))"
  using ALIGN_UP_page [OF assms] by (simp_all add: init_bump_def)

section \<open>What an allocation does\<close>

text \<open>
  The pages handed out are those between the old and the new value of \<open>placement_addr\<close>, they
  read as zero through the kernel mapping, and no other byte changes.
\<close>

lemma bump_alloc_simps [simp]:
  "fst (bump_alloc n s) = placement_addr s"
  "placement_addr (snd (bump_alloc n s)) = placement_addr s + 0x1000 * n"
  by (simp_all add: bump_alloc_def Let_def)

lemma bump_alloc_mem:
  "bmem (snd (bump_alloc n s)) x =
    (if unat (x - P2V (placement_addr s)) < unat (0x1000 * n) then 0 else bmem s x)"
  by (simp add: bump_alloc_def Let_def kmemset_at)

text \<open>A loop of single-page allocations.\<close>

fun bump_pages :: "nat \<Rightarrow> boot \<Rightarrow> boot" where
  "bump_pages 0 s = s"
| "bump_pages (Suc n) s = bump_pages n (snd (bump_alloc 1 s))"

lemma bump_pages_placement: "placement_addr (bump_pages n s) = placement_addr s + 0x1000 * of_nat n"
  by (induction n arbitrary: s) (simp_all add: algebra_simps)

lemma P2V_add: "P2V (a + b) = P2V a + b"
  by (simp add: P2V_def)

lemma bump_pages_mem:
  assumes "n < 2 ^ 20"
  shows "bmem (bump_pages n s) x =
    (if unat (x - P2V (placement_addr s)) < 0x1000 * n then 0 else bmem s x)"
  using assms
proof (induction n arbitrary: s)
  case (Suc n)
  have "unat (x - P2V (placement_addr s + 0x1000)) =
      (if 0x1000 \<le> unat (x - P2V (placement_addr s)) then unat (x - P2V (placement_addr s)) - 0x1000
       else 2 ^ 32 + unat (x - P2V (placement_addr s)) - 0x1000)"
    using unat_diff_shift [of x "P2V (placement_addr s)" "0x1000"] by (simp add: P2V_add)
  then show ?case using Suc by (auto simp: bump_alloc_mem)
qed simp

end
