(* ===== verification/Buddy_Init.thy ===== *)
theory Buddy_Init
  imports Buddy_Spec Bump
begin

text \<open>
  Initialisation of the page allocator (\<open>make_pages\<close>, \<open>add_pages\<close>, \<open>init_buddy\<close> of
  \<open>mm/buddy/buddy.c\<close> and \<open>pmm_init\<close> of \<open>mm/pmm.c\<close>).

  The page map is placed in pages taken from the bump allocator; before the loop of \<open>make_pages\<close>
  fills it, its entries are what those pages hold (\<open>page_at\<close>), including the entries behind
  the last one. \<open>add_pages\<close> may loop for ever when the address computations wrap around at the
  end of the address space, so its loop is a \<open>partial_function\<close> with value \<open>None\<close> for a run
  that does not end.
\<close>

section \<open>Definitions\<close>

record memory_map_t =
  mm_addr :: u64
  mm_size :: u64
  mm_type :: u32
  mm_reserved :: u32

definition sizeof_Page :: nat where "sizeof_Page = 12"

text \<open>The \<open>order\<close> and \<open>flags\<close> members of the \<open>i\<close>-th entry of a page map at address \<open>base\<close>.\<close>

definition page_at :: "mem \<Rightarrow> u32 \<Rightarrow> nat \<Rightarrow> page" where
  "page_at m base i = \<lparr>p_order = unat (m (base + of_nat (sizeof_Page * i + 8))),
                       p_flags = m (base + of_nat (sizeof_Page * i + 9))\<rparr>"

text \<open>Static storage is zero at boot.\<close>

definition buddy_bss :: buddy where
  "buddy_bss = \<lparr>page_map = (\<lambda>_. \<lparr>p_order = 0, p_flags = 0\<rparr>), page_nodes = (\<lambda>_. \<lparr>nxt = None, prv = None\<rparr>),
     page_n = 0, free_area = (\<lambda>_. None), free_pages_count = 0, used_pages_count = 0\<rparr>"

definition clear_entry :: "nat \<Rightarrow> buddy \<Rightarrow> buddy" where
  "clear_entry i s = (set_page i 0 P_KERNEL s)
     \<lparr>page_nodes := (page_nodes s)(i := \<lparr>nxt = None, prv = None\<rparr>)\<rparr>"

definition make_pages :: "(nat \<Rightarrow> memory_map_t) \<Rightarrow> boot \<Rightarrow> buddy \<Rightarrow> boot \<times> buddy" where
  "make_pages memory_map b s =
     (let total_size = (ucast (ucast (ucast (mm_addr (memory_map 3)) :: u32) + mm_size (memory_map 3)) :: u32);
          n = drop_bit 12 (total_size + (0x1000 - 1));
          map_size = n * of_nat sizeof_Page;
          pages_needed = drop_bit 12 (map_size + (0x1000 - 1));
          (page, b) = bump_alloc 1 b;
          pages_needed = pages_needed - 1;
          b = bump_pages (unat pages_needed) b;
          s = s\<lparr>page_n := unat n, page_map := page_at (bmem b) (P2V page)\<rparr>
      in (b, fold clear_entry [0..<unat n] s))"

text \<open>The \<open>for\<close> loop of \<open>add_pages\<close> that looks for the largest block fitting at \<open>start\<close>.\<close>

fun find_order :: "u32 \<Rightarrow> u32 \<Rightarrow> nat \<Rightarrow> nat option" where
  "find_order start end_addr 0 =
     (if IS_ALIGNED start BASE_SIZE \<and> start + BASE_SIZE \<le> end_addr then Some 0 else None)"
| "find_order start end_addr (Suc i) =
     (let size = push_bit (Suc i) BASE_SIZE
      in if IS_ALIGNED start size \<and> start + size \<le> end_addr then Some (Suc i)
         else find_order start end_addr i)"

definition add_block :: "nat \<Rightarrow> u32 \<Rightarrow> buddy \<Rightarrow> buddy" where
  "add_block i start s =
     (let idx = real_page_index start;
          s = s\<lparr>free_pages_count := free_pages_count s + push_bit i 1\<rparr>;
          s = set_page idx i P_FREE s;
          s = fold (\<lambda>tail. set_flags (idx + tail) P_TAIL) [1..<2 ^ i] s
      in set_list i (push_node (page_nodes s) (free_area s i) idx) s)"

text \<open>The outer loop; the message printed when no block fits is left out.\<close>

partial_function (option) add_pages_loop :: "u32 \<Rightarrow> u32 \<Rightarrow> buddy \<Rightarrow> buddy option" where
  "add_pages_loop start end_addr s =
     (if start < end_addr then
        (case find_order start end_addr MAX_BUDDY_ORDER of
           None \<Rightarrow> Some s
         | Some i \<Rightarrow> add_pages_loop (start + push_bit i BASE_SIZE) end_addr (add_block i start s))
      else Some s)"

definition add_pages :: "(nat \<Rightarrow> memory_map_t) \<Rightarrow> boot \<Rightarrow> buddy \<Rightarrow> buddy option" where
  "add_pages memory_map b s =
     add_pages_loop (get_placement_addr b) (ucast (mm_addr (memory_map 3) + mm_size (memory_map 3))) s"

definition init_buddy :: "(nat \<Rightarrow> memory_map_t) \<Rightarrow> boot \<Rightarrow> buddy \<Rightarrow> (boot \<times> buddy) option" where
  "init_buddy memory_map b s =
     (let s = s\<lparr>free_pages_count := 0, used_pages_count := 0\<rparr>;
          (b, s) = make_pages memory_map b s
      in map_option (Pair b) (add_pages memory_map b s))"

definition pmm_init :: "(nat \<Rightarrow> memory_map_t) \<Rightarrow> boot \<Rightarrow> buddy \<Rightarrow> (boot \<times> buddy) option" where
  "pmm_init = init_buddy"

section \<open>The loop of make_pages\<close>

lemma clear_entry_simps [simp]:
  "page_map (clear_entry i s) = (page_map s)(i := \<lparr>p_order = 0, p_flags = P_KERNEL\<rparr>)"
  "page_n (clear_entry i s) = page_n s" "free_area (clear_entry i s) = free_area s"
  "free_pages_count (clear_entry i s) = free_pages_count s"
  "used_pages_count (clear_entry i s) = used_pages_count s"
  by (simp_all add: clear_entry_def)

lemma fold_clear_entry:
  "page_map (fold clear_entry [0..<n] s) i = (if i < n then \<lparr>p_order = 0, p_flags = P_KERNEL\<rparr> else page_map s i)"
  "page_n (fold clear_entry [0..<n] s) = page_n s"
  "free_area (fold clear_entry [0..<n] s) = free_area s"
  "free_pages_count (fold clear_entry [0..<n] s) = free_pages_count s"
  "used_pages_count (fold clear_entry [0..<n] s) = used_pages_count s"
  by (induction n) auto

text \<open>The total size is the end of the region, whatever the intermediate widths.\<close>

lemma ucast_low_add: "ucast (ucast (ucast (a :: u64) :: u32) + b :: u64) = (ucast (a + b) :: u32)"
proof -
  have low: "unat (ucast x :: u32) = unat x mod 2 ^ 32" for x :: u64
    by (simp add: unsigned_ucast_eq take_bit_eq_mod)
  have up: "unat (ucast y :: u64) = unat y" for y :: u32
    using unsigned_less [of y, where 'a = nat] by (simp add: unsigned_ucast_eq take_bit_eq_mod)
  have cancel: "n mod 2 ^ 64 mod 2 ^ 32 = n mod 2 ^ 32" for n :: nat
    by (rule mod_mod_cancel) (simp add: le_imp_power_dvd)
  have "unat (ucast (ucast (ucast a :: u32) + b :: u64) :: u32) = unat (ucast (a + b) :: u32)"
    by (simp only: low up unat_word_ariths(1) len_num0 len_bit0 len_num1) (simp add: cancel [simplified] mod_add_left_eq)
  then show ?thesis by (simp only: unsigned_word_eqI)
qed

section \<open>The search for the largest fitting block\<close>

definition fits :: "nat \<Rightarrow> nat \<Rightarrow> nat \<Rightarrow> bool" where
  "fits pe p k \<longleftrightarrow> 2 ^ k dvd p \<and> p + 2 ^ k \<le> pe"

lemma block_size_eq: "push_bit k BASE_SIZE = 2 ^ (12 + k)"
  by (simp add: BASE_SIZE_def push_bit_eq_mult power_add)

lemma unat_block_size: "k \<le> MAX_BUDDY_ORDER \<Longrightarrow> unat (push_bit k BASE_SIZE) = 0x1000 * 2 ^ k"
  by (simp only: block_size_eq, subst pow2_word_eq) (simp_all add: MAX_BUDDY_ORDER_def power_add)

lemma fits_iff:
  assumes "unat start = 0x1000 * p" and "unat start \<le> 0xFFC00000 - 1" and "k \<le> MAX_BUDDY_ORDER"
  shows "IS_ALIGNED start (push_bit k BASE_SIZE) \<and> start + push_bit k BASE_SIZE \<le> e \<longleftrightarrow>
    fits (unat e div 0x1000) p k"
proof -
  have "(2::nat) ^ k \<le> 2 ^ 10"
    using assms(3) by (intro power_increasing) (auto simp: MAX_BUDDY_ORDER_def)
  then have "unat (start + push_bit k BASE_SIZE) = 0x1000 * (p + 2 ^ k)"
    using assms unat_block_size [OF assms(3)] by (subst unat_add_small) auto
  then have "start + push_bit k BASE_SIZE \<le> e \<longleftrightarrow> p + 2 ^ k \<le> unat e div 0x1000"
    by (simp add: word_le_nat_alt less_eq_div_iff_mult_less_eq mult.commute)
  moreover have "IS_ALIGNED start (push_bit k BASE_SIZE) \<longleftrightarrow> 2 ^ k dvd p"
    by (simp only: block_size_eq IS_ALIGNED_dvd assms(1)) (simp add: power_add)
  ultimately show ?thesis by (simp add: fits_def)
qed

lemma find_order_spec:
  assumes "unat start = 0x1000 * p" and "unat start \<le> 0xFFC00000 - 1" and "m \<le> MAX_BUDDY_ORDER"
  shows "case find_order start e m of
      Some k \<Rightarrow> k \<le> m \<and> fits (unat e div 0x1000) p k \<and>
        (\<forall>l. k < l \<and> l \<le> m \<longrightarrow> \<not> fits (unat e div 0x1000) p l)
    | None \<Rightarrow> \<forall>l\<le>m. \<not> fits (unat e div 0x1000) p l"
  using assms(3)
proof (induction m)
  case 0
  then show ?case using fits_iff [OF assms(1,2), of 0 e] by (auto simp: push_bit_eq_mult)
next
  case (Suc m)
  show ?case
  proof (cases "fits (unat e div 0x1000) p (Suc m)")
    case True
    then have "find_order start e (Suc m) = Some (Suc m)"
      using fits_iff [OF assms(1,2) Suc.prems, of e] by (simp add: Let_def del: push_bit_Suc)
    with True show ?thesis by auto
  next
    case False
    then have "find_order start e (Suc m) = find_order start e m"
      using fits_iff [OF assms(1,2) Suc.prems, of e] by (auto simp: Let_def simp del: push_bit_Suc)
    with False Suc show ?thesis by (auto split: option.splits simp: le_Suc_eq)
  qed
qed

section \<open>Adding a block of kernel pages\<close>

lemma fold_tail:
  "page_map (fold (\<lambda>tail. set_flags (x + tail) P_TAIL) [1..<m] s) j =
     (if x < j \<and> j < x + m then (page_map s j)\<lparr>p_flags := P_TAIL\<rparr> else page_map s j)"
  "page_nodes (fold (\<lambda>tail. set_flags (x + tail) P_TAIL) [1..<m] s) = page_nodes s"
  "page_n (fold (\<lambda>tail. set_flags (x + tail) P_TAIL) [1..<m] s) = page_n s"
  "free_area (fold (\<lambda>tail. set_flags (x + tail) P_TAIL) [1..<m] s) = free_area s"
  "free_pages_count (fold (\<lambda>tail. set_flags (x + tail) P_TAIL) [1..<m] s) = free_pages_count s"
  "used_pages_count (fold (\<lambda>tail. set_flags (x + tail) P_TAIL) [1..<m] s) = used_pages_count s"
  by (induction m) auto

lemmas fold_tail_simps = fold_tail [unfolded One_nat_def]

text \<open>Marking kernel pages as a used block keeps the invariant.\<close>

lemma claim_block:
  assumes wf: "buddy_wf s" and k: "k \<le> MAX_BUDDY_ORDER" and x: "2 ^ k dvd x" "x + 2 ^ k \<le> page_n s"
    and ker: "\<And>j. j \<in> dblock x k \<Longrightarrow> flg s j = P_KERNEL"
    and u: "u = set_page x k P_USED (fold (\<lambda>tail. set_flags (x + tail) P_TAIL) [1..<2 ^ k] s)"
  shows "buddy_wf u" and "\<And>j l. free_block u j l \<longleftrightarrow> free_block s j l"
    and "\<And>j l. used_block u j l \<longleftrightarrow> used_block s j l \<or> j = x \<and> l = k"
    and "\<And>j l. looks_free u j l \<longleftrightarrow> looks_free s j l"
proof -
  have xn: "x < page_n s" using x(2) by (simp add: less_le_trans [of x "x + 2 ^ k"])
  have pm: "page_map u j = (if j = x then \<lparr>p_order = k, p_flags = P_USED\<rparr>
      else if x < j \<and> j < x + 2 ^ k then (page_map s j)\<lparr>p_flags := P_TAIL\<rparr> else page_map s j)" for j
    by (simp add: u fold_tail_simps)
  have flds: "page_n u = page_n s" "page_nodes u = page_nodes s" "free_area u = free_area s"
    by (simp_all add: u fold_tail_simps)
  have kx: "flg s x = P_KERNEL" and kt: "\<And>j. x < j \<Longrightarrow> j < x + 2 ^ k \<Longrightarrow> flg s j = P_KERNEL"
    using ker by auto
  show lf: "looks_free u j l \<longleftrightarrow> looks_free s j l" for j l
    using kx kt by (auto simp: looks_free_def pm)
  show fb: "free_block u j l \<longleftrightarrow> free_block s j l" for j l
    by (simp add: free_block_def lf flds)
  show ub: "used_block u j l \<longleftrightarrow> used_block s j l \<or> j = x \<and> l = k" for j l
    using kx kt xn by (auto simp: used_block_def pm flds)
  have "blocks_ok u"
    unfolding blocks_ok_def
  proof (intro allI impI)
    fix j l assume "free_block u j l \<or> used_block u j l"
    then consider "free_block s j l \<or> used_block s j l" | "j = x" "l = k" using fb ub by blast
    then show "block_ok u j l"
    proof cases
      case 1
      note ok = block_okD [OF wf this]
      then show ?thesis using kx by (auto simp: block_ok_def pm flds)
    qed (use k x in \<open>auto simp: block_ok_def pm flds\<close>)
  qed
  with wf show "buddy_wf u"
    by (simp add: buddy_wf_def lists_ok_def coalesced_def slack_ok_def fb lf flds)
qed

lemma add_block_wf:
  assumes wf: "buddy_wf s" and k: "k \<le> MAX_BUDDY_ORDER" and x: "2 ^ k dvd x" "x + 2 ^ k \<le> page_n s"
    and ker: "\<And>j. j \<in> dblock x k \<Longrightarrow> flg s j = P_KERNEL"
    and nb: "k < MAX_BUDDY_ORDER \<Longrightarrow> \<not> looks_free s (buddy_of x k) k"
    and start: "real_page_index start = x"
  shows "buddy_wf (add_block k start s)"
    and "\<And>j l. free_block (add_block k start s) j l \<longleftrightarrow> free_block s j l \<or> j = x \<and> l = k"
    and "\<And>j l. used_block (add_block k start s) j l \<longleftrightarrow> used_block s j l"
proof -
  define u where u: "u = set_page x k P_USED (fold (\<lambda>tail. set_flags (x + tail) P_TAIL) [1..<2 ^ k] s)"
  define t where t: "t = set_list k (push_node (page_nodes u) (free_area u k) x) (set_page x k P_FREE u)"
  let ?v = "add_block k start s"
  note cb = claim_block [OF wf k x ker u]
  have xu: "used_block u x k" using cb(3) by blast
  note rb = release_block [OF cb(1) xu _ t]
  have not_x: "\<not> used_block s x l" for l using ker [OF dblock_self] by (simp add: used_block_def)
  have eq: "page_map ?v = page_map t" "page_n ?v = page_n t" "page_nodes ?v = page_nodes t"
    "free_area ?v = free_area t"
    by (rule ext, simp add: add_block_def Let_def start t u fold_tail_simps)
       (simp_all add: add_block_def Let_def start t u fold_tail_simps)
  show "buddy_wf ?v" using rb(1) nb cb(4) buddy_wf_cong [OF eq] by blast
  show "free_block ?v j l \<longleftrightarrow> free_block s j l \<or> j = x \<and> l = k" for j l
    using rb(2) nb cb(2,4) block_cong(2) [OF eq(1,2)] by metis
  show "used_block ?v j l \<longleftrightarrow> used_block s j l" for j l
    using rb(3) nb cb(3,4) block_cong(3) [OF eq(1,2)] not_x by metis
qed

section \<open>The loop of add_pages\<close>

definition boot_pages :: "nat \<Rightarrow> nat \<Rightarrow> nat \<Rightarrow> buddy \<Rightarrow> bool" where
  "boot_pages ps pe p s \<longleftrightarrow> buddy_wf s \<and> ps \<le> p \<and> (p \<le> pe \<or> p = ps) \<and> pe \<le> page_n s \<and>
     free_pages s = {ps..<p} \<and> (\<forall>i k. \<not> used_block s i k) \<and>
     (\<forall>i. p \<le> i \<and> i < page_n s \<longrightarrow> flg s i = P_KERNEL) \<and>
     (\<forall>i k. free_block s i k \<and> k < MAX_BUDDY_ORDER \<and> 2 ^ Suc k dvd i \<longrightarrow> pe < i + 2 ^ Suc k) \<and>
     free_pages_count s = of_nat (card {ps..<p}) \<and> used_pages_count s = 0"

text \<open>The greedy choice never leaves two free buddies.\<close>

lemma greedy_no_buddy:
  assumes b: "boot_pages ps pe p s" and f: "fits pe p k" and k: "k < MAX_BUDDY_ORDER"
    and mx: "\<not> fits pe p (Suc k)"
  shows "\<not> looks_free s (buddy_of p k) k"
proof (cases "2 ^ Suc k dvd p")
  case True
  have p: "2 ^ k dvd p" "p + 2 ^ k \<le> pe" using f by (auto simp: fits_def)
  with True have eq: "buddy_of p k = p + 2 ^ k" by (simp add: buddy_of_eq)
  show ?thesis
  proof (cases "p + 2 ^ k < page_n s")
    case True
    then have "flg s (p + 2 ^ k) = P_KERNEL" using b by (simp add: boot_pages_def)
    then show ?thesis by (simp add: eq looks_free_def)
  next
    case False
    then have n: "page_n s = p + 2 ^ k" using p(2) b by (simp add: boot_pages_def)
    have "\<not> 2 ^ Suc k dvd p + 2 ^ k"
      using True by (metis dvd_add_right_iff dvd_power_iff_le le_refl not_less_eq_eq)
    moreover have "2 ^ k dvd p + 2 ^ k" using p(1) by simp
    moreover have "slack_ok s" using b by (simp add: boot_pages_def buddy_wf_def)
    ultimately show ?thesis using k n by (simp add: eq slack_ok_def)
  qed
next
  case False
  have p: "2 ^ k dvd p" "p + 2 ^ k \<le> pe" using f by (auto simp: fits_def)
  with False have eq: "buddy_of p k = p - 2 ^ k" "2 ^ k \<le> p"
    by (auto simp: buddy_of_eq not_dvd_ge)
  have up: "2 ^ Suc k dvd p - 2 ^ k"
    using buddy_of_parent(1) [OF p(1)] unfolding eq(1) by (simp add: min_absorb2)
  show ?thesis
  proof
    assume "looks_free s (buddy_of p k) k"
    moreover have "pe \<le> page_n s" using b by (simp add: boot_pages_def)
    then have "p - 2 ^ k < page_n s" using p(2) zero_less_power [of "2::nat" k] by linarith
    ultimately have "free_block s (p - 2 ^ k) k" by (simp add: free_block_def eq)
    with b k up have "pe < p - 2 ^ k + 2 ^ Suc k" by (simp add: boot_pages_def)
    with p(2) eq(2) show False by simp
  qed
qed

lemma boot_pages_step:
  assumes b: "boot_pages ps pe p s" and f: "fits pe p k" and k: "k \<le> MAX_BUDDY_ORDER"
    and mx: "\<And>l. k < l \<Longrightarrow> l \<le> MAX_BUDDY_ORDER \<Longrightarrow> \<not> fits pe p l"
    and start: "real_page_index start = p"
  shows "boot_pages ps pe (p + 2 ^ k) (add_block k start s)"
proof -
  let ?t = "add_block k start s"
  have p: "2 ^ k dvd p" "p + 2 ^ k \<le> pe" using f by (auto simp: fits_def)
  from b have wf: "buddy_wf s" and pn: "pe \<le> page_n s" and ps: "ps \<le> p"
    and nu: "\<And>i k. \<not> used_block s i k"
    and fp: "free_pages s = {ps..<p}"
    and ker: "\<And>i. p \<le> i \<Longrightarrow> i < page_n s \<Longrightarrow> flg s i = P_KERNEL"
    and gr: "\<And>i k. free_block s i k \<Longrightarrow> k < MAX_BUDDY_ORDER \<Longrightarrow> 2 ^ Suc k dvd i \<Longrightarrow> pe < i + 2 ^ Suc k"
    by (auto simp: boot_pages_def)
  have kd: "flg s j = P_KERNEL" if "j \<in> dblock p k" for j using that ker p(2) pn by simp
  have nb: "k < MAX_BUDDY_ORDER \<Longrightarrow> \<not> looks_free s (buddy_of p k) k"
    using greedy_no_buddy [OF b f] mx [of "Suc k"] by simp
  have pk: "p + 2 ^ k \<le> page_n s" using p(2) pn by simp
  have ab: "buddy_wf ?t" "\<And>j l. free_block ?t j l \<longleftrightarrow> free_block s j l \<or> j = p \<and> l = k"
    "\<And>j l. used_block ?t j l \<longleftrightarrow> used_block s j l"
    by (rule add_block_wf [OF wf k p(1) pk _ _ start]; use kd nb in blast)+
  have flds: "page_n ?t = page_n s" "used_pages_count ?t = used_pages_count s"
    "free_pages_count ?t = free_pages_count s + 2 ^ k"
    by (simp_all add: add_block_def Let_def fold_tail_simps)
  have "flg ?t i = P_KERNEL" if "p + 2 ^ k \<le> i" "i < page_n s" for i
    using that ker [of i] by (auto simp: add_block_def Let_def fold_tail_simps start)
  moreover have "free_pages ?t = free_pages s \<union> dblock p k"
    unfolding free_pages_def ab(2) by blast
  then have "free_pages ?t = {ps..<p + 2 ^ k}" using fp ps by (auto simp: dblock_def)
  moreover have "pe < i + 2 ^ Suc l"
    if "free_block ?t i l" "l < MAX_BUDDY_ORDER" "2 ^ Suc l dvd i" for i l
    using that gr [of i l] mx [of "Suc l"] unfolding ab(2) by (auto simp: fits_def)
  moreover have "card {ps..<p + 2 ^ k} = card {ps..<p} + 2 ^ k" using ps by simp
  then have "(of_nat (card {ps..<p + 2 ^ k}) :: u32) = of_nat (card {ps..<p}) + 2 ^ k"
    by (simp only: of_nat_add of_nat_power of_nat_numeral)
  ultimately show ?thesis
    using b ab(1,3) nu p(2) ps pn unfolding boot_pages_def flds by simp
qed

lemma real_page_index_div: "real_page_index a = unat a div 0x1000"
  by (simp add: real_page_index_def BASE_SHIFT_def drop_bit_eq_div unat_div)

lemma add_pages_loop_correct:
  assumes "boot_pages ps (unat e div 0x1000) p s" and "unat start = 0x1000 * p" and "unat e \<le> 0xFFC00000"
  shows "\<exists>t q. add_pages_loop start e s = Some t \<and> boot_pages ps (unat e div 0x1000) q t \<and>
    page_n t = page_n s \<and> unat e div 0x1000 \<le> q"
  using assms(1,2)
proof (induction "unat e div 0x1000 - p" arbitrary: p s start rule: less_induct)
  case less
  show ?case
  proof (cases "start < e")
    case False
    then have "unat e \<le> 0x1000 * p" using less.prems(2) by (simp add: word_le_nat_alt not_less)
    then have "unat e div 0x1000 \<le> p" using div_le_mono [of "unat e" "0x1000 * p" "0x1000"] by simp
    with False less.prems show ?thesis by (subst add_pages_loop.simps) auto
  next
    case True
    then have lim: "unat start \<le> 0xFFC00000 - 1" using assms(3) by (simp add: word_less_nat_alt)
    note fo = find_order_spec [OF less.prems(2) lim order_refl, of e]
    show ?thesis
    proof (cases "find_order start e MAX_BUDDY_ORDER")
      case None
      with fo have "\<not> fits (unat e div 0x1000) p 0" by simp
      then have "unat e div 0x1000 \<le> p" by (simp add: fits_def)
      with None True less.prems show ?thesis by (subst add_pages_loop.simps) auto
    next
      case (Some k)
      with fo have k: "k \<le> MAX_BUDDY_ORDER" "fits (unat e div 0x1000) p k"
        "\<And>l. k < l \<Longrightarrow> l \<le> MAX_BUDDY_ORDER \<Longrightarrow> \<not> fits (unat e div 0x1000) p l" by auto
      let ?t = "add_block k start s" and ?start = "start + push_bit k BASE_SIZE"
      have "boot_pages ps (unat e div 0x1000) (p + 2 ^ k) ?t"
        using boot_pages_step [OF less.prems(1) k(2,1,3)] less.prems(2) by (simp add: real_page_index_div)
      moreover have "unat ?start = 0x1000 * (p + 2 ^ k)"
        using less.prems(2) k(2) unat_block_size [OF k(1)] assms(3)
        by (subst unat_add_small) (auto simp: fits_def)
      moreover have "unat e div 0x1000 - (p + 2 ^ k) < unat e div 0x1000 - p"
        using k(2) zero_less_power [of "2::nat" k] unfolding fits_def by linarith
      moreover have "add_pages_loop start e s = add_pages_loop ?start e ?t"
        using True Some by (subst add_pages_loop.simps) simp
      moreover have "page_n ?t = page_n s"
        by (simp add: add_block_def Let_def fold_tail_simps)
      ultimately show ?thesis using less.hyps by metis
    qed
  qed
qed

section \<open>The state make_pages leaves\<close>

text \<open>
  The entry behind the last one lies in the last cleared page of the map, unless the map fills
  that page or leaves less than an entry free.
\<close>

lemma slack_entry_cleared:
  fixes n :: nat
  assumes "even n" and "\<not> 1024 dvd n" and "n mod 1024 \<noteq> 682"
  shows "12 * n + 8 < 0x1000 * ((12 * n + 0xFFF) div 0x1000)"
proof -
  define q r where "q = n div 1024" and "r = n mod 1024"
  have n: "n = 1024 * q + r" by (simp add: q_def r_def)
  with assms(1) have "even r" by simp
  then have r: "r < 1024" "r \<noteq> 0" "r \<noteq> 682" "r \<noteq> 341"
    using assms(2,3) by (auto simp: r_def mod_eq_0_iff_dvd)
  have "(12 * n + 0xFFF) div 0x1000 = 3 * q + (12 * r + 0xFFF) div 0x1000"
    by (simp add: n)
  moreover have "12 * r + 8 < 0x1000 * ((12 * r + 0xFFF) div 0x1000)"
  proof -
    consider "r < 341" | "341 < r" "r < 682" | "682 < r" using r by linarith
    then show ?thesis
    proof cases
      case 1
      then have "(12 * r + 0xFFF) div 0x1000 = 1" using r by (intro div_nat_eqI) auto
      with 1 show ?thesis by simp
    next
      case 2
      then have "(12 * r + 0xFFF) div 0x1000 = 2" using r by (intro div_nat_eqI) auto
      with 2 show ?thesis by simp
    next
      case 3
      then have "(12 * r + 0xFFF) div 0x1000 = 3" using r by (intro div_nat_eqI) auto
      with r show ?thesis by simp
    qed
  qed
  ultimately show ?thesis by (simp add: n)
qed

definition map_pages :: "nat \<Rightarrow> nat" where
  "map_pages n = (sizeof_Page * n + 0xFFF) div 0x1000"

text \<open>What the region and the boot allocator must satisfy for the page map to be sound.\<close>

definition region_ok :: "boot \<Rightarrow> u32 \<Rightarrow> bool" where
  "region_ok b e \<longleftrightarrow> 0 < unat e \<and> unat e \<le> 0xFFC00000 \<and> 0x1000 dvd unat (placement_addr b) \<and>
     unat (placement_addr b) + 0x1000 * map_pages ((unat e + 0xFFF) div 0x1000) < 2 ^ 32 \<and>
     even ((unat e + 0xFFF) div 0x1000) \<and> ((unat e + 0xFFF) div 0x1000) mod 1024 \<noteq> 682"

lemma make_pages_eq:
  assumes e: "e = ucast (mm_addr (mm 3) + mm_size (mm 3))" and r: "region_ok b e"
    and n: "n = (unat e + 0xFFF) div 0x1000"
  shows "make_pages mm b s = (bump_pages (map_pages n) b, fold clear_entry [0..<n]
    (s\<lparr>page_n := n, page_map := page_at (bmem (bump_pages (map_pages n) b)) (P2V (placement_addr b))\<rparr>))"
proof -
  have n1: "0 < n" "n \<le> 2 ^ 20" using r n by (auto simp: region_ok_def div_greater_zero_iff)
  define w where "w = drop_bit 12 (e + 0xFFF)"
  have "unat (e + 0xFFF) = unat e + 0xFFF"
    using r by (subst unat_add_small) (auto simp: region_ok_def)
  then have w: "unat w = n" by (simp add: w_def n drop_bit_eq_div unat_div)
  define q where "q = drop_bit 12 (w * of_nat sizeof_Page + 0xFFF)"
  have "unat (w * of_nat sizeof_Page) = 12 * n"
    using n1 w by (simp add: unat_word_ariths sizeof_Page_def)
  then have "unat (w * of_nat sizeof_Page + 0xFFF) = 12 * n + 0xFFF"
    using n1 by (subst unat_add_small) auto
  then have q: "unat q = map_pages n"
    by (simp add: q_def drop_bit_eq_div unat_div map_pages_def sizeof_Page_def)
  have m1: "0 < map_pages n" using n1 by (simp add: map_pages_def sizeof_Page_def div_greater_zero_iff)
  then have "q \<noteq> 0" using q by auto
  then have "unat (q - 1) = map_pages n - 1" using q by (simp add: unat_minus_one)
  then have "bump_pages (unat (q - 1)) (snd (bump_alloc 1 b)) = bump_pages (map_pages n) b"
    using m1 by (cases "map_pages n") auto
  then show ?thesis
    by (simp add: make_pages_def Let_def ucast_low_add split_def w_def [symmetric] q_def [symmetric] w
        flip: e) 
qed

text \<open>A page map of kernel pages with empty free lists satisfies the invariant.\<close>

lemma kernel_pages_wf:
  assumes ker: "\<And>i. i < page_n s \<Longrightarrow> flg s i = P_KERNEL" and fa: "free_area s = (\<lambda>_. None)"
    and "slack_ok s"
  shows "buddy_wf s" and "free_pages s = {}" and "used_pages s = {}"
proof -
  have nb: "\<not> free_block s i k" "\<not> used_block s i k" for i k
    using ker [of i] by (auto simp: block_defs)
  then show "free_pages s = {}" "used_pages s = {}" by (simp_all add: free_pages_def used_pages_def)
  have "bucket_lists dll (Suc MAX_BUDDY_ORDER) (page_nodes s) (free_area s) (\<lambda>_. [])"
    by (simp add: bucket_lists_def fa dll_def)
  with nb have "lists_ok s" unfolding lists_ok_def by (intro exI [of _ "\<lambda>_. []"]) simp
  with nb assms(3) show "buddy_wf s" by (simp add: buddy_wf_def blocks_ok_def coalesced_def)
qed

lemma make_pages_boot:
  assumes e: "e = ucast (mm_addr (mm 3) + mm_size (mm 3))" and r: "region_ok b e"
    and n: "n = (unat e + 0xFFF) div 0x1000"
    and s: "free_area s = (\<lambda>_. None)" "free_pages_count s = 0" "used_pages_count s = 0"
  shows "\<exists>t. make_pages mm b s = (bump_pages (map_pages n) b, t) \<and> page_n t = n \<and>
    boot_pages ps (unat e div 0x1000) ps t"
proof -
  let ?b = "bump_pages (map_pages n) b"
  let ?m = "page_at (bmem ?b) (P2V (placement_addr b))"
  let ?t = "fold clear_entry [0..<n] (s\<lparr>page_n := n, page_map := ?m\<rparr>)"
  have n1: "n \<le> 2 ^ 20" "even n" "n mod 1024 \<noteq> 682" using r n by (auto simp: region_ok_def)
  have "slack_ok ?t"
    unfolding slack_ok_def
  proof (intro allI impI, elim conjE)
    fix k assume k: "k < MAX_BUDDY_ORDER" and nk: "\<not> 2 ^ Suc k dvd page_n ?t" "2 ^ k dvd page_n ?t"
    have "(2::nat) ^ Suc k dvd 2 ^ 10" using k by (intro le_imp_power_dvd) (simp add: MAX_BUDDY_ORDER_def)
    then have "\<not> 1024 dvd n" using nk(1) dvd_trans [of "2 ^ Suc k" 1024 n] by (auto simp: fold_clear_entry)
    note sl = slack_entry_cleared [OF n1(2) this n1(3)]
    have m20: "map_pages n < 2 ^ 20" using n1(1) by (simp add: map_pages_def sizeof_Page_def less_mult_imp_div_less)
    have "unat (of_nat (sizeof_Page * n + 8) :: u32) = sizeof_Page * n + 8"
      using n1(1) by (simp only: unsigned_of_nat) (simp add: take_bit_nat_eq_self sizeof_Page_def)
    moreover have "sizeof_Page * n + 8 < 0x1000 * map_pages n"
      using sl by (simp only: map_pages_def sizeof_Page_def)
    ultimately have "p_order (?m n) = 0"
      by (simp only: page_at_def page.select_convs bump_pages_mem [OF m20] add_diff_cancel_left' if_True unsigned_0)
    moreover have "k \<noteq> 0" using nk(1) n1(2) by (intro notI) (simp add: fold_clear_entry)
    ultimately show "\<not> looks_free ?t (page_n ?t) k" by (simp add: looks_free_def fold_clear_entry)
  qed
  moreover have "flg ?t i = P_KERNEL" if "i < page_n ?t" for i using that by (simp add: fold_clear_entry)
  moreover have "free_area ?t = (\<lambda>_. None)" by (simp add: fold_clear_entry s)
  ultimately have "buddy_wf ?t" "free_pages ?t = {}" "used_pages ?t = {}"
    using kernel_pages_wf [of ?t] by blast+
  moreover have "\<not> used_block ?t i k" "\<not> free_block ?t i k" for i k by (simp_all add: block_defs fold_clear_entry)
  moreover have "unat e div 0x1000 \<le> n" by (simp add: n div_le_mono)
  ultimately have "boot_pages ps (unat e div 0x1000) ps ?t"
    by (simp add: boot_pages_def fold_clear_entry s)
  then show ?thesis using make_pages_eq [where mm = mm, OF e r n] by (simp add: fold_clear_entry)
qed

lemma init_buddy_inv:
  assumes e: "e = ucast (mm_addr (mm 3) + mm_size (mm 3))" and r: "region_ok b e"
    and n: "n = (unat e + 0xFFF) div 0x1000"
  shows "\<exists>b' s'. init_buddy mm b buddy_bss = Some (b', s') \<and> buddy_inv s' \<and> page_n s' = n \<and>
    unat (placement_addr b') = unat (placement_addr b) + 0x1000 * map_pages n \<and>
    free_pages s' = {unat (placement_addr b') div 0x1000 ..< unat e div 0x1000} \<and> used_pages s' = {}"
proof -
  let ?b = "bump_pages (map_pages n) b"
  define ps where "ps = unat (placement_addr ?b) div 0x1000"
  have lim: "unat (placement_addr b) + 0x1000 * map_pages n < 2 ^ 32" and al: "0x1000 dvd unat (placement_addr b)"
    and e_lim: "unat e \<le> 0xFFC00000"
    using r n by (auto simp: region_ok_def)
  then have m20: "map_pages n < 2 ^ 20" by simp
  have "unat (0x1000 * of_nat (map_pages n) :: u32) = 0x1000 * map_pages n"
    using m20 by (simp add: unat_word_ariths unsigned_of_nat take_bit_nat_def)
  then have pl: "unat (placement_addr ?b) = unat (placement_addr b) + 0x1000 * map_pages n"
    using lim unfolding bump_pages_placement by (subst unat_add_small) auto
  then have "unat (placement_addr ?b) = 0x1000 * ps" using al by (simp add: ps_def)
  moreover obtain s where s: "make_pages mm b (buddy_bss\<lparr>free_pages_count := 0, used_pages_count := 0\<rparr>) = (?b, s)"
    "page_n s = n" "boot_pages ps (unat e div 0x1000) ps s"
    using make_pages_boot [where mm = mm, OF e r n, of "buddy_bss\<lparr>free_pages_count := 0, used_pages_count := 0\<rparr>" ps]
    by (auto simp: buddy_bss_def)
  ultimately obtain t q where t: "add_pages_loop (placement_addr ?b) e s = Some t"
    "boot_pages ps (unat e div 0x1000) q t" "page_n t = n" "unat e div 0x1000 \<le> q"
    using add_pages_loop_correct [OF _ _ e_lim] by metis
  have n20: "n \<le> 2 ^ 20" using r n by (auto simp: region_ok_def)
  from t(2,4) have fp: "free_pages t = {ps..<unat e div 0x1000}" "buddy_wf t" "used_pages t = {}"
    by (auto simp: boot_pages_def used_pages_def)
  moreover have "counts_ok t" using t(2) fp(3) by (simp add: counts_ok_def boot_pages_def)
  ultimately show ?thesis
    using t s n20 pl by (simp add: init_buddy_def add_pages_def get_placement_addr_def e [symmetric] buddy_inv_def ps_def)
qed

end
