(* ===== verification/Pmm.thy ===== *)
theory Pmm
  imports Buddy_Init
begin

text \<open>
  The physical memory manager as its callers see it (\<open>mm/pmm.h\<close>): the properties of
  \<open>pmm_alloc\<close>, \<open>pmm_free\<close> and \<open>pmm_init\<close>, and of every history of calls.

  \<open>pmm_step\<close> is one call of the manager by a client that frees only blocks it was handed; its
  reflexive-transitive closure gives the reachable allocator states.
\<close>

section \<open>Histories of calls\<close>

inductive pmm_step :: "buddy \<Rightarrow> buddy \<Rightarrow> bool" where
  step_alloc: "pmm_alloc s k = Inr (a, t) \<Longrightarrow> pmm_step s t"
| step_free: "used_block s x k \<Longrightarrow> pmm_free s (page_map_real x) = Inr t \<Longrightarrow> pmm_step s t"

abbreviation pmm_reach :: "buddy \<Rightarrow> buddy \<Rightarrow> bool" where
  "pmm_reach \<equiv> pmm_step\<^sup>*\<^sup>*"

lemmas pmm_wrappers = pmm_alloc_def pmm_free_def

text \<open>Every call keeps the invariant and the set of managed pages.\<close>

lemma alloc_managed:
  assumes "buddy_inv s" and "buddy_alloc_pages s k = Inr (a, t)"
  shows "buddy_inv t" and "free_pages t \<union> used_pages t = free_pages s \<union> used_pages s" and "page_n t = page_n s"
proof -
  from buddy_alloc_inv [OF assms] obtain x where t: "buddy_inv t" "alloc_effect k x s t" .
  then have "used_pages t = used_pages s \<union> dblock x k"
    using alloc_effect_inv(2) [OF assms(1) _ t(2)] by (simp add: buddy_inv_def)
  with t show "buddy_inv t" "free_pages t \<union> used_pages t = free_pages s \<union> used_pages s" "page_n t = page_n s"
    by (auto simp: alloc_effect_def)
qed

lemma free_managed:
  assumes "buddy_inv s" and "used_block s x k" and "buddy_free_pages s (page_map_real x) = Inr t"
  shows "buddy_inv t" and "free_pages t = free_pages s \<union> dblock x k"
    and "used_pages t = used_pages s - dblock x k" and "page_n t = page_n s"
    and "\<forall>j l. used_block t j l \<longleftrightarrow> used_block s j l \<and> j \<noteq> x"
proof -
  from assms(1,2) have wf: "buddy_wf s" and "x < 2 ^ 20" by (auto simp: buddy_inv_def used_block_def)
  from buddy_free_wf [OF wf assms(2) real_page_index_real [OF this(2)]] obtain u where
    u: "buddy_free_pages s (page_map_real x) = Inr u" "buddy_wf u" "free_effect k x s u" .
  then have t: "buddy_wf t" "free_effect k x s t" using assms(3) by auto
  from t(2) show "free_pages t = free_pages s \<union> dblock x k" "page_n t = page_n s"
    "\<forall>j l. used_block t j l \<longleftrightarrow> used_block s j l \<and> j \<noteq> x" by (auto simp: free_effect_def)
  show "buddy_inv t" "used_pages t = used_pages s - dblock x k"
    using free_effect_inv [OF assms(1) t assms(2)] by auto
qed

lemma step_managed:
  assumes "pmm_step s t" and "buddy_inv s"
  shows "buddy_inv t \<and> free_pages t \<union> used_pages t = free_pages s \<union> used_pages s \<and> page_n t = page_n s"
  using assms(1)
proof cases
  case (step_alloc k a)
  then show ?thesis using alloc_managed [OF assms(2), of k a t] by (simp add: pmm_wrappers)
next
  case (step_free x k)
  note f = free_managed [OF assms(2) step_free(1) step_free(2) [unfolded pmm_wrappers]]
  moreover have "dblock x k \<subseteq> used_pages s" using step_free(1) unfolding used_pages_def by blast
  ultimately show ?thesis by auto
qed

lemma reach_managed:
  assumes "pmm_reach s t" and "buddy_inv s"
  shows "buddy_inv t \<and> free_pages t \<union> used_pages t = free_pages s \<union> used_pages s \<and> page_n t = page_n s"
  using assms by induction (use step_managed in \<open>auto 0 3\<close>)

lemma of_nat_counts:
  assumes "buddy_inv s"
  shows "free_pages_count s + used_pages_count s = of_nat (card (free_pages s \<union> used_pages s))"
proof -
  from assms have wf: "buddy_wf s" by (simp add: buddy_inv_def)
  have "card (free_pages s \<union> used_pages s) = card (free_pages s) + card (used_pages s)"
    using pages_finite [OF wf] free_used_disjoint [OF wf] by (intro card_Un_disjoint)
  then show ?thesis using assms by (simp add: buddy_inv_def counts_ok_def)
qed

lemma dblock_mono: "k \<le> l \<Longrightarrow> dblock i k \<subseteq> dblock i l"
  using power_increasing [of k l "2::nat"] by (auto simp: dblock_def)

section \<open>Merging without the invariant\<close>

text \<open>The merge loop always ends normally, in a block that contains the one it started from.\<close>

lemma remove_node_total: "\<exists>hp. remove_node h head node = Inr hp"
  by (auto simp: remove_node_def pop_node_def Let_def)

lemma merge_block_grows:
  assumes "2 ^ k dvd i" and "ord s i = k"
  shows "\<exists>tp c t. merge_block i k s = Inr (tp, c, t) \<and> k \<le> c \<and> dblock i k \<subseteq> dblock tp c \<and>
    (k < MAX_BUDDY_ORDER \<and> looks_free s (buddy_of i k) k \<longrightarrow> dblock (buddy_of i k) k \<subseteq> dblock tp c)"
  using assms
proof (induction i k s rule: merge_block.induct)
  case (1 i k s)
  let ?b = "buddy_of i k" and ?m = "min i (buddy_of i k)" and ?M = "max i (buddy_of i k)"
  have par: "2 ^ Suc k dvd ?m" "?M = ?m + 2 ^ k" using buddy_of_parent [OF 1(2)] by auto
  show ?case
  proof (cases "k < MAX_BUDDY_ORDER \<and> looks_free s ?b k")
    case False
    with 1(3) show ?thesis by (subst merge_block.simps) (auto simp: looks_free_def Let_def)
  next
    case True
    then have flg: "flg s ?b = P_FREE" "ord s ?b = k" by (auto simp: looks_free_def)
    from remove_node_total [of "page_nodes s" "free_area s k" ?b] obtain hp where
      hp: "remove_node (page_nodes s) (free_area s k) ?b = Inr hp" ..
    define u where "u = set_flags ?M P_TAIL (set_page ?m (Suc k) P_FREE (set_list k hp s))"
    have sw: "(if ?b < i then (?b, i) else (i, ?b)) = (?m, ?M)" by (auto simp: min_def max_def)
    have eq: "merge_block i k s = merge_block ?m (Suc k) u"
      using True flg 1(3) hp by (subst merge_block.simps) (simp add: Let_def sw u_def)
    have "ord u ?m = Suc k" using par(2) by (simp add: u_def)
    then have "\<exists>tp c t. merge_block ?m (Suc k) u = Inr (tp, c, t) \<and> Suc k \<le> c \<and> dblock ?m (Suc k) \<subseteq> dblock tp c"
      using "1.IH" True flg 1(3) hp par(1) sw by (fastforce simp: u_def)
    moreover have "dblock i k \<subseteq> dblock ?m (Suc k)" "dblock ?b k \<subseteq> dblock ?m (Suc k)"
      using par(2) by (auto simp: dblock_Suc min_def max_def split: if_splits)
    ultimately show ?thesis unfolding eq by (meson Suc_leD subset_trans)
  qed
qed

section \<open>A small memory\<close>

text \<open>Four free pages in one block of order 2; the entries behind the map are kernel pages.\<close>

definition four_pages :: buddy where
  "four_pages = \<lparr>page_map = (\<lambda>i. if i = 0 then \<lparr>p_order = 2, p_flags = P_FREE\<rparr>
       else if i < 4 then \<lparr>p_order = 0, p_flags = P_TAIL\<rparr> else \<lparr>p_order = 0, p_flags = P_KERNEL\<rparr>),
     page_nodes = (\<lambda>_. \<lparr>nxt = None, prv = None\<rparr>), page_n = 4,
     free_area = (\<lambda>k. if k = 2 then Some 0 else None), free_pages_count = 4, used_pages_count = 0\<rparr>"

lemma four_pages_blocks:
  "free_block four_pages i k \<longleftrightarrow> i = 0 \<and> k = 2" "\<not> used_block four_pages i k"
  by (auto simp: four_pages_def block_defs)

lemma four_pages_sets: "free_pages four_pages = {0..<4}" "used_pages four_pages = {}"
  by (auto simp: free_pages_def used_pages_def four_pages_blocks)

lemma four_pages_inv: "buddy_inv four_pages"
proof -
  have "blocks_ok four_pages"
    by (simp add: blocks_ok_def four_pages_blocks block_ok_def) (simp add: four_pages_def MAX_BUDDY_ORDER_def)
  moreover have "lists_ok four_pages"
    unfolding lists_ok_def
    by (intro exI [of _ "\<lambda>k. if k = 2 then [0] else []"])
       (auto simp: four_pages_blocks bucket_lists_def, auto simp: four_pages_def dll_def)
  moreover have "coalesced four_pages"
    by (simp add: coalesced_def four_pages_blocks buddy_of_def) (simp add: looks_free_def four_pages_def)
  moreover have "slack_ok four_pages"
    by (simp add: slack_ok_def looks_free_def four_pages_def)
  ultimately show ?thesis
    by (simp add: buddy_inv_def buddy_wf_def counts_ok_def four_pages_sets) (simp add: four_pages_def)
qed

text \<open>The state after an allocation of two pages.\<close>

definition four_alloc :: buddy where
  "four_alloc = (case pmm_alloc four_pages 1 of Inl _ \<Rightarrow> four_pages | Inr (a, t) \<Rightarrow> t)"

lemma four_alloc_eq: "pmm_alloc four_pages 1 = Inr (0, four_alloc)"
proof -
  have "map_sum id fst (pmm_alloc four_pages 1) = Inr 0" by code_simp
  then show ?thesis by (cases "pmm_alloc four_pages 1") (auto simp: four_alloc_def)
qed

lemma four_alloc_used: "used_block four_alloc 0 1"
proof -
  have "page_n four_alloc = 4 \<and> p_flags (page_map four_alloc 0) = P_USED \<and> p_order (page_map four_alloc 0) = 1"
    by code_simp
  then show ?thesis by (simp add: used_block_def)
qed

lemma four_alloc_inv: "buddy_inv four_alloc"
  using alloc_managed(1) [OF four_pages_inv] four_alloc_eq by (simp add: pmm_wrappers)

section \<open>Initialisation and the free lists\<close>

lemma pmm_init_ok:
  assumes "e = ucast (mm_addr (mm 3) + mm_size (mm 3))" and "region_ok b e"
  shows "\<exists>b' s'. pmm_init mm b buddy_bss = Some (b', s') \<and> buddy_inv s' \<and>
    page_n s' = (unat e + 0xFFF) div 0x1000 \<and>
    unat (placement_addr b') = unat (placement_addr b) + 0x1000 * map_pages (page_n s') \<and>
    free_pages s' = {unat (placement_addr b') div 0x1000 ..< unat e div 0x1000} \<and> used_pages s' = {}"
proof -
  obtain b' s' where "init_buddy mm b buddy_bss = Some (b', s')" "buddy_inv s'"
    "page_n s' = (unat e + 0xFFF) div 0x1000"
    "unat (placement_addr b') = unat (placement_addr b) + 0x1000 * map_pages (page_n s')"
    "free_pages s' = {unat (placement_addr b') div 0x1000 ..< unat e div 0x1000}" "used_pages s' = {}"
    using init_buddy_inv [where mm = mm, OF assms refl] by auto
  then show ?thesis unfolding pmm_init_def by blast
qed

lemma free_list_maximal:
  assumes "buddy_inv s" and "k \<le> MAX_BUDDY_ORDER"
  shows "\<exists>xs. dll (page_nodes s) (free_area s k) xs \<and> distinct xs \<and>
    set xs = {i. 2 ^ k dvd i \<and> dblock i k \<subseteq> free_pages s \<and>
      \<not> (\<exists>j l. k < l \<and> l \<le> MAX_BUDDY_ORDER \<and> 2 ^ l dvd j \<and> dblock i k \<subseteq> dblock j l \<and>
            dblock j l \<subseteq> free_pages s)}"
proof -
  from assms(1) have wf: "buddy_wf s" by (simp add: buddy_inv_def)
  then obtain L where L: "bucket_lists dll (Suc MAX_BUDDY_ORDER) (page_nodes s) (free_area s) L"
    "set (L k) = {i. free_block s i k}"
    unfolding buddy_wf_def using lists_okE assms(2) by metis
  have "dll (page_nodes s) (free_area s k) (L k)" using L(1) assms(2) by (simp add: bucket_lists_def)
  moreover from this have "distinct (L k)" by (simp add: dll_def)
  ultimately show ?thesis
    using L(2) assms(2) free_block_maximal [OF wf, of _ k] by (intro exI [of _ "L k"]) auto
qed

text \<open>A machine with 128 MB whose usable region starts at one megabyte.\<close>

definition ram_128m :: "nat \<Rightarrow> memory_map_t" where
  "ram_128m i = \<lparr>mm_addr = 0x100000, mm_size = 0x7EE0000, mm_type = 1, mm_reserved = 0\<rparr>"

definition boot_2m :: boot where
  "boot_2m = \<lparr>placement_addr = 0x200000, bmem = (\<lambda>_. 0)\<rparr>"

lemma region_128m:
  "(0x7FE0000 :: u32) = ucast (mm_addr (ram_128m 3) + mm_size (ram_128m 3))" "region_ok boot_2m 0x7FE0000"
  by (simp_all add: ram_128m_def boot_2m_def region_ok_def map_pages_def sizeof_Page_def)

section \<open>Properties\<close>

text \<open>
  C1: an allocation of order \<open>k\<close> that returns hands out the address of a naturally aligned run of
  \<open>2 ^ k\<close> pages that were all free, removes exactly those pages from the free set, adds exactly
  that block to the used ones, keeps the allocator invariant, and overlaps no block in use.
\<close>

theorem pmm_alloc_correct:
  assumes "buddy_inv s" and "pmm_alloc s k = Inr (a, t)"
  shows "buddy_inv t \<and> (\<exists>x. unat a = 0x1000 * x \<and> 2 ^ k dvd x \<and> dblock x k \<subseteq> free_pages s \<and>
    free_pages t = free_pages s - dblock x k \<and>
    (\<forall>j l. used_block t j l \<longleftrightarrow> used_block s j l \<or> j = x \<and> l = k) \<and>
    (\<forall>j l. used_block s j l \<longrightarrow> dblock x k \<inter> dblock j l = {}))"
proof -
  note a = assms(2) [unfolded pmm_wrappers]
  from pmm.alloc_ok [OF assms(1) a] obtain x where
    x: "buddy_inv t" "a = page_map_real x" "x < 2 ^ 20" "2 ^ k dvd x" "dblock x k \<subseteq> free_pages s"
    "free_pages t = free_pages s - dblock x k"
    "\<forall>j l. used_block t j l \<longleftrightarrow> used_block s j l \<or> j = x \<and> l = k" by blast
  have "\<forall>j l. used_block s j l \<longrightarrow> dblock x k \<inter> dblock j l = {}"
    using pmm.live_ok [OF assms(1)] x(5) by blast
  with x show ?thesis using unat_page_map_real [OF x(3)] by blast
qed

theorem pmm_alloc_correct_witness:
  "buddy_inv four_pages \<and> pmm_alloc four_pages 1 = Inr (0, four_alloc) \<and> buddy_inv four_alloc"
  using pmm_alloc_correct [OF four_pages_inv four_alloc_eq] four_pages_inv four_alloc_eq by simp

text \<open>
  C2: an allocation of an order the allocator supports panics with the out-of-memory message
  exactly when no aligned run of \<open>2 ^ k\<close> free pages exists, and otherwise returns a block:
  fragmentation never makes it miss a run that could be handed out.
\<close>

theorem pmm_alloc_fails_iff:
  assumes "buddy_inv s" and "k \<le> MAX_BUDDY_ORDER"
  shows "if \<exists>x. 2 ^ k dvd x \<and> dblock x k \<subseteq> free_pages s then \<exists>a t. pmm_alloc s k = Inr (a, t)
    else pmm_alloc s k = Inl (Panic ''PMM Out of memory'')"
proof -
  from assms(1) have wf: "buddy_wf s" by (simp add: buddy_inv_def)
  have "\<exists>x. 2 ^ k dvd x \<and> dblock x k \<subseteq> free_pages s" if f: "k \<le> l" "free_block s i l" for i l
  proof (intro exI conjI)
    show "2 ^ k dvd i" using block_okD(2) [OF wf disjI1, OF f(2)] f(1) power_le_dvd by blast
    show "dblock i k \<subseteq> free_pages s" using dblock_mono [OF f(1)] f(2) unfolding free_pages_def by blast
  qed
  then have "pmm_alloc s k = Inl (Panic ''PMM Out of memory'')"
    if "\<not> (\<exists>x. 2 ^ k dvd x \<and> dblock x k \<subseteq> free_pages s)"
    using that buddy_alloc_fail [OF wf, of k] unfolding pmm_wrappers by blast
  moreover have "\<exists>a t. pmm_alloc s k = Inr (a, t)" if "\<exists>x. 2 ^ k dvd x \<and> dblock x k \<subseteq> free_pages s"
    using that pmm.alloc_total [OF assms] unfolding pmm_wrappers by blast
  ultimately show ?thesis by presburger
qed

theorem pmm_alloc_fails_iff_witness:
  "buddy_inv four_pages \<and> (2::nat) \<le> MAX_BUDDY_ORDER \<and> (\<exists>a t. pmm_alloc four_pages 2 = Inr (a, t))"
proof -
  have k: "(2::nat) \<le> MAX_BUDDY_ORDER" by (simp add: MAX_BUDDY_ORDER_def)
  have "\<exists>x. 2 ^ 2 dvd x \<and> dblock x 2 \<subseteq> free_pages four_pages"
    by (rule exI [of _ 0]) (auto simp: four_pages_sets)
  with pmm_alloc_fails_iff [OF four_pages_inv k] k four_pages_inv show ?thesis by presburger
qed

text \<open>
  C3: releasing a block that is in use never fails, makes exactly its pages free, leaves every
  other used block as it was, and keeps the invariant (so all merging with free buddies is done).
\<close>

theorem pmm_free_correct:
  assumes "buddy_inv s" and "used_block s x k"
  shows "\<exists>t. pmm_free s (page_map_real x) = Inr t \<and> buddy_inv t \<and>
    free_pages t = free_pages s \<union> dblock x k \<and> used_pages t = used_pages s - dblock x k \<and>
    (\<forall>j l. used_block t j l \<longleftrightarrow> used_block s j l \<and> j \<noteq> x)"
proof -
  from pmm.release_ok [OF assms] obtain t where t: "buddy_free_pages s (page_map_real x) = Inr t" by blast
  note f = free_managed [OF assms t]
  show ?thesis
    by (intro exI [of _ t] conjI) (simp_all add: f t pmm_wrappers)
qed

theorem pmm_free_correct_witness:
  "buddy_inv four_alloc \<and> used_block four_alloc 0 1 \<and>
   (\<exists>t. pmm_free four_alloc (page_map_real 0) = Inr t \<and> buddy_inv t)"
  using pmm_free_correct [OF four_alloc_inv four_alloc_used] four_alloc_inv four_alloc_used by blast

text \<open>
  C4: after initialisation and any history of calls of \<open>pmm_alloc\<close> and \<open>pmm_free\<close> in which clients
  free only blocks they hold, the free list of each order is a well-linked doubly linked list
  without repetition of exactly the maximal naturally aligned runs of that order among the initial
  pages that are not in use. The free lists are thus a function of the pages in use: no history
  leaves memory more fragmented than another. The conditions on the usable region are those under
  which initialisation is shown to work.
\<close>

theorem pmm_lists_canonical:
  assumes "e = ucast (mm_addr (mm 3) + mm_size (mm 3))" and "region_ok b e"
    and "pmm_init mm b buddy_bss = Some (b', s)" and "pmm_reach s t" and "k \<le> MAX_BUDDY_ORDER"
    and "F = {unat (placement_addr b') div 0x1000 ..< unat e div 0x1000} - used_pages t"
  shows "\<exists>xs. dll (page_nodes t) (free_area t k) xs \<and> distinct xs \<and>
    set xs = {i. 2 ^ k dvd i \<and> dblock i k \<subseteq> F \<and>
      \<not> (\<exists>j l. k < l \<and> l \<le> MAX_BUDDY_ORDER \<and> 2 ^ l dvd j \<and> dblock i k \<subseteq> dblock j l \<and> dblock j l \<subseteq> F)}"
proof -
  from pmm_init_ok [where mm = mm, OF assms(1,2)] assms(3) have s: "buddy_inv s" "used_pages s = {}"
    "free_pages s = {unat (placement_addr b') div 0x1000 ..< unat e div 0x1000}" by auto
  note m = reach_managed [OF assms(4) s(1)]
  then have "free_pages t \<inter> used_pages t = {}" using free_used_disjoint by (simp add: buddy_inv_def)
  with m s assms(6) have "free_pages t = F" by auto
  with free_list_maximal [of t k] m assms(5) show ?thesis by simp
qed

theorem pmm_lists_canonical_witness:
  "\<exists>b' s t a. region_ok boot_2m 0x7FE0000 \<and> pmm_init ram_128m boot_2m buddy_bss = Some (b', s) \<and>
     pmm_alloc s 0 = Inr (a, t) \<and> (\<exists>xs. dll (page_nodes t) (free_area t 1) xs \<and> distinct xs)"
proof -
  from pmm_init_ok [where mm = ram_128m, OF region_128m] obtain b' s where
    s: "pmm_init ram_128m boot_2m buddy_bss = Some (b', s)" "buddy_inv s"
    "unat (placement_addr b') = 0x200000 + 0x1000 * map_pages 0x7FE0"
    "free_pages s = {unat (placement_addr b') div 0x1000 ..< 0x7FE0}" by (auto simp: boot_2m_def)
  have "0x7FDF \<in> free_pages s" using s(3,4) by (simp add: map_pages_def sizeof_Page_def)
  moreover have "dblock 0x7FDF 0 = {0x7FDF}" by (auto simp: dblock_def)
  ultimately have "\<exists>x. 2 ^ 0 dvd x \<and> dblock x 0 \<subseteq> free_pages s" by (intro exI [of _ "0x7FDF"]) simp
  then obtain a t where a: "pmm_alloc s 0 = Inr (a, t)"
    using pmm.alloc_total [OF s(2), of 0] unfolding pmm_wrappers by blast
  have r: "pmm_reach s t" using step_alloc [OF a] by blast
  have k: "(1::nat) \<le> MAX_BUDDY_ORDER" by (simp add: MAX_BUDDY_ORDER_def)
  from pmm_lists_canonical [where mm = ram_128m, OF region_128m s(1) r k refl]
  obtain xs where "dll (page_nodes t) (free_area t 1) xs" "distinct xs" by blast
  with s(1) a region_128m(2) show ?thesis by blast
qed

text \<open>
  C5: over any history of calls in which clients free only blocks they hold, the managed pages
  are conserved: each is either free or in use and never both, and the two counters always add up
  to the same number.
\<close>

theorem pmm_conservation:
  assumes "buddy_inv s" and "pmm_reach s t"
  shows "buddy_inv t \<and> free_pages t \<union> used_pages t = free_pages s \<union> used_pages s \<and>
    free_pages t \<inter> used_pages t = {} \<and>
    free_pages_count t + used_pages_count t = free_pages_count s + used_pages_count s"
proof -
  note m = reach_managed [OF assms(2,1)]
  then have "free_pages t \<inter> used_pages t = {}" using free_used_disjoint by (simp add: buddy_inv_def)
  with m show ?thesis using of_nat_counts [of s] of_nat_counts [of t] assms(1) by simp
qed

theorem pmm_conservation_witness:
  "buddy_inv four_pages \<and> pmm_reach four_pages four_alloc \<and>
   free_pages four_alloc \<union> used_pages four_alloc = {0..<4}"
proof -
  have r: "pmm_reach four_pages four_alloc" using step_alloc [OF four_alloc_eq] by blast
  from pmm_conservation [OF four_pages_inv r] r four_pages_inv show ?thesis
    by (simp add: four_pages_sets)
qed

text \<open>
  C6: once everything that was allocated has been freed, in whatever order, every free list holds
  the same blocks as at the start.
\<close>

theorem pmm_all_freed:
  assumes "buddy_inv s" and "used_pages s = {}" and "pmm_reach s t" and "used_pages t = {}"
  shows "free_block t i k \<longleftrightarrow> free_block s i k"
proof -
  note m = reach_managed [OF assms(3,1)]
  with assms have "free_pages t = free_pages s" by simp
  with m assms(1) show ?thesis by (intro free_blocks_determined) (simp_all add: buddy_inv_def)
qed


definition four_freed :: buddy where
  "four_freed = (case pmm_free four_alloc 0 of Inl _ \<Rightarrow> four_alloc | Inr t \<Rightarrow> t)"

lemma four_freed_step: "pmm_step four_alloc four_freed"
proof -
  have "isl (pmm_free four_alloc 0) = False" by code_simp
  then have "pmm_free four_alloc (page_map_real 0) = Inr four_freed"
    by (cases "pmm_free four_alloc 0") (auto simp: four_freed_def page_map_real_def)
  then show ?thesis by (rule step_free [OF four_alloc_used])
qed

lemma four_freed_used: "used_pages four_freed = {}"
proof -
  have n: "page_n four_freed = 4 \<and> list_all (\<lambda>i. p_flags (page_map four_freed i) \<noteq> P_USED) [0, 1, 2, 3]"
    by code_simp
  have "\<not> used_block four_freed i k" for i k
  proof
    assume u: "used_block four_freed i k"
    then have "i = 0 \<or> i = 1 \<or> i = 2 \<or> i = 3" using n by (auto simp: used_block_def)
    with u n show False by (auto simp: used_block_def)
  qed
  then show ?thesis by (simp add: used_pages_def)
qed

theorem pmm_all_freed_witness:
  "buddy_inv four_pages \<and> used_pages four_pages = {} \<and> pmm_reach four_pages four_freed \<and>
   used_pages four_freed = {} \<and> free_block four_freed 0 2"
proof -
  have r: "pmm_reach four_pages four_freed"
    using step_alloc [OF four_alloc_eq] four_freed_step by (meson converse_rtranclp_into_rtranclp r_into_rtranclp)
  from pmm_all_freed [OF four_pages_inv four_pages_sets(2) r four_freed_used, of 0 2] r
  show ?thesis by (simp add: four_pages_inv four_pages_sets four_freed_used four_pages_blocks)
qed

text \<open>
  C7: initialisation works on regions like those of common machines. Let the usable region end above 0
  and at most at 0xFFC00000 (the last four megabytes of the address space stay free), let the number of
  pages up to its end be even and not 682 modulo 1024 (so that the entry behind the page map is a
  cleared one), and let the page map fit below 4 GB from the placement address on, which is page aligned.
  Then the initialisation ends and establishes the invariant with no page in use and exactly the
  pages between the end of the page map and the end of the region free.
\<close>

theorem pmm_init_correct:
  assumes "e = ucast (mm_addr (mm 3) + mm_size (mm 3))" and "region_ok b e"
  shows "\<exists>b' s'. pmm_init mm b buddy_bss = Some (b', s') \<and> buddy_inv s' \<and>
    page_n s' = (unat e + 0xFFF) div 0x1000 \<and>
    unat (placement_addr b') = unat (placement_addr b) + 0x1000 * map_pages (page_n s') \<and>
    free_pages s' = {unat (placement_addr b') div 0x1000 ..< unat e div 0x1000} \<and> used_pages s' = {}"
  using assms by (rule pmm_init_ok)

theorem pmm_init_correct_witness:
  "region_ok boot_2m 0x7FE0000 \<and>
   (\<exists>b' s'. pmm_init ram_128m boot_2m buddy_bss = Some (b', s') \<and> buddy_inv s' \<and> page_n s' = 0x7FE0)"
  using pmm_init_correct [where mm = ram_128m, OF region_128m] region_128m(2) by auto

text \<open>
  C8: the release of a block does not compare the index of its buddy with the size of the page
  map. When the number of pages is odd and the entry behind the map is zero (as \<open>make_pages\<close>
  leaves it), freeing the last page merges it with that entry: the free list then offers a block
  that reaches past the last page.
\<close>

theorem pmm_free_phantom_merge:
  assumes "odd (page_n s)" and "page_n s \<le> 2 ^ 20" and "looks_free s (page_n s) 0"
    and "used_block s (page_n s - 1) 0"
  shows "\<exists>t i k. pmm_free s (page_map_real (page_n s - 1)) = Inr t \<and> free_area t k = Some i \<and>
    looks_free t i k \<and> i < page_n s \<and> page_n s < i + 2 ^ k"
proof -
  define x where "x = page_n s - 1"
  have n: "page_n s = Suc x" using assms(1) by (cases "page_n s") (auto simp: x_def)
  have bud: "buddy_of x 0 = Suc x" using buddy_of_eq [of 0 x] assms(1) n by simp
  have x20: "x < 2 ^ 20" using assms(2) n by simp
  have x: "flg s x = P_USED" "ord s x = 0" using assms(4) by (auto simp: used_block_def x_def)
  let ?s = "s\<lparr>used_pages_count := used_pages_count s - 1, free_pages_count := free_pages_count s + 1\<rparr>"
  have "looks_free ?s (buddy_of x 0) 0" using assms(3) bud n by (simp add: looks_free_def)
  then obtain tp c t where m: "merge_block x 0 ?s = Inr (tp, c, t)"
    and sub: "dblock x 0 \<subseteq> dblock tp c" "dblock (Suc x) 0 \<subseteq> dblock tp c"
    using merge_block_grows [of 0 x ?s] x(2) bud by (auto simp: MAX_BUDDY_ORDER_def)
  let ?t = "set_list c (push_node (page_nodes t) (free_area t c) tp) (set_page tp c P_FREE t)"
  have "pmm_free s (page_map_real x) = Inr ?t"
    using m x(2) by (simp add: pmm_wrappers buddy_free_pages_def real_page_index_real [OF x20] Let_def)
  moreover have "free_area ?t c = Some tp" by (simp add: push_node_def Let_def)
  moreover have "looks_free ?t tp c" by (simp add: looks_free_def)
  moreover have "x \<in> dblock tp c" "Suc x \<in> dblock tp c" using sub dblock_self by blast+
  then have "tp < page_n s" "page_n s < tp + 2 ^ c" using n by simp_all
  ultimately show ?thesis unfolding x_def by blast
qed

text \<open>Three pages, the last one in use, and a zero entry behind them.\<close>

definition three_pages :: buddy where
  "three_pages = \<lparr>page_map = (\<lambda>i. if i = 2 then \<lparr>p_order = 0, p_flags = P_USED\<rparr>
       else if i < 2 then \<lparr>p_order = 0, p_flags = P_KERNEL\<rparr> else \<lparr>p_order = 0, p_flags = P_FREE\<rparr>),
     page_nodes = (\<lambda>_. \<lparr>nxt = None, prv = None\<rparr>), page_n = 3,
     free_area = (\<lambda>_. None), free_pages_count = 0, used_pages_count = 1\<rparr>"

theorem pmm_free_phantom_merge_witness:
  "odd (page_n three_pages) \<and> looks_free three_pages (page_n three_pages) 0 \<and>
   used_block three_pages (page_n three_pages - 1) 0 \<and>
   (\<exists>t i k. pmm_free three_pages (page_map_real 2) = Inr t \<and> free_area t k = Some i \<and>
      looks_free t i k \<and> 3 < i + 2 ^ k)"
proof -
  have h: "odd (page_n three_pages)" "page_n three_pages \<le> 2 ^ 20"
    "looks_free three_pages (page_n three_pages) 0" "used_block three_pages (page_n three_pages - 1) 0"
    "page_n three_pages = 3"
    by (simp_all add: three_pages_def looks_free_def used_block_def)
  from pmm_free_phantom_merge [OF h(1-4)] h show ?thesis by auto
qed

end
