(* ===== verification/Queue.thy ===== *)
theory Queue
  imports Nodes
begin

text \<open>
  The thread queues of \<open>sched/queue.c\<close>: a doubly linked list with head, tail and size, whose
  nodes are the first member of the threads they link.

  \<open>list_sorted_push\<close> walks the list comparing a key of the linked objects (\<open>wake_at\<close>); the walk is
  a \<open>partial_function\<close>, since on a cyclic list it does not end. The interface \<open>fifo\<close> states what
  the scheduler relies on, with the list contents as the abstraction.
\<close>

section \<open>Definitions\<close>

record 'p dllist =
  dl_head :: "'p option"
  dl_tail :: "'p option"
  dl_size :: u32

definition empty_dllist :: "'p dllist" where
  "empty_dllist = \<lparr>dl_head = None, dl_tail = None, dl_size = 0\<rparr>"

definition list_push_back :: "'p nodes \<Rightarrow> 'p dllist \<Rightarrow> 'p \<Rightarrow> 'p nodes \<times> 'p dllist" where
  "list_push_back h l node =
     (let h = h(node := \<lparr>nxt = None, prv = dl_tail l\<rparr>);
          (h, l) = (case dl_tail l of
              Some t \<Rightarrow> (h(t := (h t)\<lparr>nxt := Some node\<rparr>), l)
            | None \<Rightarrow> (h, l\<lparr>dl_head := Some node\<rparr>))
      in (h, l\<lparr>dl_tail := Some node, dl_size := dl_size l + 1\<rparr>))"

definition list_pop_front :: "'p nodes \<Rightarrow> 'p dllist \<Rightarrow> ('p nodes \<times> 'p dllist \<times> 'p) res" where
  "list_pop_front h l =
     (case dl_head l of
        None \<Rightarrow> Inl (Panic (''Underflow'' @ [CHR 0x0A]))
      | Some node \<Rightarrow>
          bnd (if dl_head l \<noteq> dl_tail l
               then bnd (deref (nxt (h node))) (\<lambda>n. Inr (h(n := (h n)\<lparr>prv := None\<rparr>), l))
               else Inr (h, l\<lparr>dl_tail := None\<rparr>)) (\<lambda>(h, l).
            let l = l\<lparr>dl_head := nxt (h node)\<rparr>;
                h = h(node := (h node)\<lparr>nxt := None\<rparr>)
            in Inr (h, l\<lparr>dl_size := dl_size l - 1\<rparr>, node)))"

definition list_push_front :: "'p nodes \<Rightarrow> 'p dllist \<Rightarrow> 'p \<Rightarrow> 'p nodes \<times> 'p dllist" where
  "list_push_front h l node =
     (let h = h(node := \<lparr>nxt = dl_head l, prv = None\<rparr>);
          (h, l) = (case dl_head l of
              Some y \<Rightarrow> (h(y := (h y)\<lparr>prv := Some node\<rparr>), l)
            | None \<Rightarrow> (h, l\<lparr>dl_tail := Some node\<rparr>))
      in (h, l\<lparr>dl_head := Some node, dl_size := dl_size l + 1\<rparr>))"

partial_function (option) skip_le ::
  "('p \<Rightarrow> 'k::linorder) \<Rightarrow> 'p nodes \<Rightarrow> 'k \<Rightarrow> 'p option \<Rightarrow> 'p option option" where
  "skip_le key h k cur =
     (case cur of
        None \<Rightarrow> Some None
      | Some c \<Rightarrow> if key c \<le> k then skip_le key h k (nxt (h c)) else Some (Some c))"

definition list_sorted_push ::
  "('p \<Rightarrow> 'k::linorder) \<Rightarrow> 'p nodes \<Rightarrow> 'p dllist \<Rightarrow> 'p \<Rightarrow> ('p nodes \<times> 'p dllist) res option" where
  "list_sorted_push key h l node =
     map_option (\<lambda>cur. case cur of
         None \<Rightarrow> Inr (list_push_back h l node)
       | Some c \<Rightarrow>
           if dl_head l = Some c then Inr (list_push_front h l node)
           else
             let h = h(node := \<lparr>nxt = Some c, prv = prv (h c)\<rparr>)
             in bnd (deref (prv (h c))) (\<lambda>p.
                  let h = h(p := (h p)\<lparr>nxt := Some node\<rparr>);
                      h = h(c := (h c)\<lparr>prv := Some node\<rparr>)
                  in Inr (h, l\<lparr>dl_size := dl_size l + 1\<rparr>)))
       (skip_le key h (key node) (dl_head l))"

section \<open>The abstraction\<close>

definition dlq :: "'p nodes \<Rightarrow> 'p dllist \<Rightarrow> 'p list \<Rightarrow> bool" where
  "dlq h l xs \<longleftrightarrow> dls h None (dl_head l) xs None \<and> distinct xs \<and> dl_tail l = lastp None xs \<and>
     dl_size l = of_nat (length xs)"

text \<open>A sorted push places the node behind every node with a key that is not larger.\<close>

definition insert_le :: "('a \<Rightarrow> 'k::linorder) \<Rightarrow> 'a \<Rightarrow> 'a list \<Rightarrow> 'a list" where
  "insert_le key x xs = takeWhile (\<lambda>y. key y \<le> key x) xs @ x # dropWhile (\<lambda>y. key y \<le> key x) xs"

lemma set_insert_le [simp]: "set (insert_le key x xs) = insert x (set xs)"
proof -
  have "set xs = set (takeWhile (\<lambda>y. key y \<le> key x) xs @ dropWhile (\<lambda>y. key y \<le> key x) xs)"
    by simp
  then show ?thesis unfolding insert_le_def set_append by auto
qed

lemma sorted_insert_between:
  assumes "sorted (map key (as @ bs))" and "\<And>y. y \<in> set as \<Longrightarrow> key y \<le> key x"
    and "\<And>b cs. bs = b # cs \<Longrightarrow> key x \<le> key b"
  shows "sorted (map key (as @ x # bs))"
  using assms by (cases bs) (auto simp: sorted_append intro: order_trans)

lemma sorted_insert_le:
  assumes "sorted (map key xs)"
  shows "sorted (map key (insert_le key x xs))"
  unfolding insert_le_def
proof (rule sorted_insert_between)
  let ?P = "\<lambda>y. key y \<le> key x"
  show "sorted (map key (takeWhile ?P xs @ dropWhile ?P xs))" using assms by simp
  show "key y \<le> key x" if "y \<in> set (takeWhile ?P xs)" for y using that set_takeWhileD by metis
  show "key x \<le> key b" if "dropWhile ?P xs = b # cs" for b cs
    using that hd_dropWhile [of ?P xs] by simp
qed

lemma dlq_empty [simp]: "dlq h empty_dllist xs \<longleftrightarrow> xs = []"
  by (cases xs) (auto simp: dlq_def empty_dllist_def)

lemma dlq_frame: "(\<And>y. y \<in> set xs \<Longrightarrow> h' y = h y) \<Longrightarrow> dlq h l xs \<Longrightarrow> dlq h' l xs"
  using dls_frame [of xs h' h] by (simp add: dlq_def)

lemma dlq_head: "dlq h l xs \<Longrightarrow> dl_head l = (if xs = [] then None else Some (hd xs))"
  by (cases xs) (auto simp: dlq_def)

section \<open>What the operations do\<close>

lemma push_back_dlq:
  assumes q: "dlq h l xs" and x: "x \<notin> set xs" and r: "list_push_back h l x = (h', l')"
  shows "dlq h' l' (xs @ [x])" and "\<And>y. y \<notin> set (x # xs) \<Longrightarrow> h' y = h y"
proof -
  have "dlq h' l' (xs @ [x]) \<and> (\<forall>y. y \<notin> set (x # xs) \<longrightarrow> h' y = h y)"
  proof (cases xs rule: rev_cases)
    case Nil
    with q r show ?thesis by (auto simp: dlq_def list_push_back_def Let_def)
  next
    case (snoc ys z)
    with q have t: "dl_tail l = Some z" by (simp add: dlq_def)
    with r have h': "h' = h(x := \<lparr>nxt = None, prv = Some z\<rparr>,
        z := ((h(x := \<lparr>nxt = None, prv = Some z\<rparr>)) z)\<lparr>nxt := Some x\<rparr>)"
      and l': "l' = l\<lparr>dl_tail := Some x, dl_size := dl_size l + 1\<rparr>"
      by (auto simp: list_push_back_def Let_def)
    show ?thesis
      using q x snoc by (auto simp: dlq_def h' l' dls_append)
  qed
  then show "dlq h' l' (xs @ [x])" and "\<And>y. y \<notin> set (x # xs) \<Longrightarrow> h' y = h y" by auto
qed

lemma push_front_dlq:
  assumes q: "dlq h l xs" and x: "x \<notin> set xs" and r: "list_push_front h l x = (h', l')"
  shows "dlq h' l' (x # xs)" and "\<And>y. y \<notin> set (x # xs) \<Longrightarrow> h' y = h y"
proof -
  show "dlq h' l' (x # xs)"
  proof (cases xs)
    case Nil
    with q r show ?thesis by (auto simp: dlq_def list_push_front_def Let_def)
  next
    case (Cons z zs)
    with q x r show ?thesis by (auto simp: dlq_def list_push_front_def Let_def)
  qed
  fix y assume "y \<notin> set (x # xs)"
  with q r show "h' y = h y"
    by (cases xs) (auto simp: dlq_def list_push_front_def Let_def)
qed

lemma pop_front_dlq:
  assumes q: "dlq h l (x # xs)"
  obtains h' l' where "list_pop_front h l = Inr (h', l', x)" and "dlq h' l' xs"
    and "\<And>y. y \<notin> set (x # xs) \<Longrightarrow> h' y = h y"
proof (cases xs)
  case Nil
  with q have "list_pop_front h l = Inr (h(x := (h x)\<lparr>nxt := None\<rparr>),
      l\<lparr>dl_tail := None, dl_head := None, dl_size := dl_size l - 1\<rparr>, x)"
    by (simp add: list_pop_front_def dlq_def Let_def)
  then show ?thesis by (rule that) (use q Nil in \<open>auto simp: dlq_def\<close>)
next
  case (Cons z zs)
  have "lastp (Some z) zs \<noteq> Some x"
    using q Cons lastp_in [of zs "Some z"] last_in_set [of zs] by (cases zs) (auto simp: dlq_def)
  with q Cons have "list_pop_front h l = Inr (h(z := (h z)\<lparr>prv := None\<rparr>, x := (h x)\<lparr>nxt := None\<rparr>),
      l\<lparr>dl_head := Some z, dl_size := dl_size l - 1\<rparr>, x)"
    by (auto simp: list_pop_front_def dlq_def Let_def)
  moreover have "dlq (h(z := (h z)\<lparr>prv := None\<rparr>, x := (h x)\<lparr>nxt := None\<rparr>))
      (l\<lparr>dl_head := Some z, dl_size := dl_size l - 1\<rparr>) xs"
    using q Cons by (auto simp: dlq_def)
  ultimately show ?thesis using that Cons by auto
qed

lemma pop_front_empty: "dlq h l [] \<Longrightarrow> list_pop_front h l = Inl (Panic (''Underflow'' @ [CHR 0x0A]))"
  by (simp add: list_pop_front_def dlq_def)

lemma skip_le_dls:
  "dls h pr p xs None \<Longrightarrow>
    skip_le key h k p = Some (case dropWhile (\<lambda>y. key y \<le> k) xs of [] \<Rightarrow> None | c # _ \<Rightarrow> Some c)"
  by (induction xs arbitrary: pr p) (auto simp: skip_le.simps)

lemma sorted_push_dlq:
  assumes q: "dlq h l xs" and x: "x \<notin> set xs"
  obtains h' l' where "list_sorted_push key h l x = Some (Inr (h', l'))" and "dlq h' l' (insert_le key x xs)"
    and "\<And>y. y \<notin> set (x # xs) \<Longrightarrow> h' y = h y"
proof -
  let ?as = "takeWhile (\<lambda>y. key y \<le> key x) xs" and ?bs = "dropWhile (\<lambda>y. key y \<le> key x) xs"
  have sk: "skip_le key h (key x) (dl_head l) = Some (case ?bs of [] \<Rightarrow> None | c # _ \<Rightarrow> Some c)"
    using q skip_le_dls by (auto simp: dlq_def)
  consider (last) "?bs = []" | (front) c cs where "?bs = c # cs" "?as = []"
    | (mid) c cs as z where "?bs = c # cs" "?as = as @ [z]"
    by (metis neq_Nil_conv rev_exhaust)
  then show thesis
  proof cases
    case last
    then have "insert_le key x xs = xs @ [x]" using takeWhile_dropWhile_id [of "\<lambda>y. key y \<le> key x" xs]
      by (simp add: insert_le_def)
    moreover obtain h' l' where r: "list_push_back h l x = (h', l')" by fastforce
    ultimately show thesis using that push_back_dlq [OF q x r] sk last by (simp add: list_sorted_push_def)
  next
    case front
    then have xs: "xs = c # cs" using takeWhile_dropWhile_id [of "\<lambda>y. key y \<le> key x" xs] by simp
    then have hd: "dl_head l = Some c" using dlq_head [OF q] by simp
    obtain h' l' where r: "list_push_front h l x = (h', l')" by fastforce
    have "insert_le key x xs = x # xs" using front xs by (simp add: insert_le_def)
    then show thesis using that push_front_dlq [OF q x r] sk front hd r by (simp add: list_sorted_push_def)
  next
    case mid
    then have xs: "xs = as @ z # c # cs" using takeWhile_dropWhile_id [of "\<lambda>y. key y \<le> key x" xs] by simp
    have hd: "dl_head l \<noteq> Some c" using dlq_head [OF q] q xs by (cases as) (auto simp: dlq_def)
    have pc: "prv (h c) = Some z" using q xs by (auto simp: dlq_def dls_append)
    let ?h = "h(x := \<lparr>nxt = Some c, prv = Some z\<rparr>, z := (h z)\<lparr>nxt := Some x\<rparr>, c := (h c)\<lparr>prv := Some x\<rparr>)"
    have "list_sorted_push key h l x = Some (Inr (?h, l\<lparr>dl_size := dl_size l + 1\<rparr>))"
      using sk mid hd pc x xs q by (auto simp: list_sorted_push_def Let_def dlq_def fun_upd_twist)
    moreover have "dlq ?h (l\<lparr>dl_size := dl_size l + 1\<rparr>) (insert_le key x xs)"
      using q x xs mid by (auto simp: dlq_def dls_append insert_le_def)
    ultimately show thesis using that xs by auto
  qed
qed

section \<open>The interface the scheduler relies on\<close>

locale fifo =
  fixes lq :: "('p \<Rightarrow> 'n) \<Rightarrow> 'l \<Rightarrow> 'p list \<Rightarrow> bool"
    and push :: "('p \<Rightarrow> 'n) \<Rightarrow> 'l \<Rightarrow> 'p \<Rightarrow> ('p \<Rightarrow> 'n) \<times> 'l"
    and pop :: "('p \<Rightarrow> 'n) \<Rightarrow> 'l \<Rightarrow> (('p \<Rightarrow> 'n) \<times> 'l \<times> 'p) res"
    and first :: "'l \<Rightarrow> 'p option"
  assumes lq_frame: "(\<And>y. y \<in> set xs \<Longrightarrow> h' y = h y) \<Longrightarrow> lq h l xs \<Longrightarrow> lq h' l xs"
    and lq_distinct: "lq h l xs \<Longrightarrow> distinct xs"
    and lq_first: "lq h l xs \<Longrightarrow> first l = (if xs = [] then None else Some (hd xs))"
    and push_lq: "lq h l xs \<Longrightarrow> x \<notin> set xs \<Longrightarrow> push h l x = (h', l') \<Longrightarrow>
      lq h' l' (xs @ [x]) \<and> (\<forall>y. y \<notin> set (x # xs) \<longrightarrow> h' y = h y)"
    and pop_lq: "lq h l (x # xs) \<Longrightarrow>
      \<exists>h' l'. pop h l = Inr (h', l', x) \<and> lq h' l' xs \<and> (\<forall>y. y \<notin> set (x # xs) \<longrightarrow> h' y = h y)"
    and pop_lq_empty: "lq h l [] \<Longrightarrow> \<exists>e. pop h l = Inl e"
begin

text \<open>Queues that share the node store but no node do not disturb each other.\<close>

lemma push_apart:
  assumes "lq h l xs" and "x \<notin> set xs" and "push h l x = (h', l')" and "lq h m ys"
    and "set ys \<inter> set (x # xs) = {}"
  shows "lq h' m ys"
proof (rule lq_frame [OF _ assms(4)])
  fix y assume "y \<in> set ys"
  then show "h' y = h y" using push_lq [OF assms(1-3)] assms(5) by blast
qed

lemma pop_apart:
  assumes "lq h l (x # xs)" and "pop h l = Inr (h', l', z)" and "lq h m ys"
    and "set ys \<inter> set (x # xs) = {}"
  shows "lq h' m ys \<and> lq h' l' xs \<and> z = x"
proof -
  from pop_lq [OF assms(1)] assms(2) have r: "lq h' l' xs" "z = x" "\<forall>y. y \<notin> set (x # xs) \<longrightarrow> h' y = h y"
    by auto
  have "lq h' m ys"
    by (rule lq_frame [OF _ assms(3)]) (use r(3) assms(4) in blast)
  with r show ?thesis by blast
qed

text \<open>Taking everything out returns the objects in the order they were put in.\<close>

fun take_all :: "nat \<Rightarrow> ('p \<Rightarrow> 'n) \<Rightarrow> 'l \<Rightarrow> 'p list res" where
  "take_all 0 h l = Inr []"
| "take_all (Suc n) h l = bnd (pop h l) (\<lambda>(h, l, x). bnd (take_all n h l) (\<lambda>xs. Inr (x # xs)))"

lemma take_all_lq: "lq h l (xs @ ys) \<Longrightarrow> take_all (length xs) h l = Inr xs"
proof (induction xs arbitrary: h l)
  case (Cons x xs)
  then obtain h' l' where "pop h l = Inr (h', l', x)" "lq h' l' (xs @ ys)"
    using pop_lq [of h l x "xs @ ys"] by auto
  with Cons.IH show ?case by simp
qed simp

end

interpretation tq: fifo dlq list_push_back list_pop_front dl_head
proof (unfold_locales, goal_cases)
  case (1 xs h' h l)
  then show ?case using dlq_frame by metis
next
  case (4 h l xs x h' l')
  then show ?case using push_back_dlq [OF 4] by blast
next
  case (5 h l x xs)
  then show ?case using pop_front_dlq [OF 5] by metis
next
  case (3 h l xs)
  then show ?case by (rule dlq_head)
next
  case (6 h l)
  then show ?case using pop_front_empty by blast
qed (simp add: dlq_def)

section \<open>Properties\<close>

text \<open>
  C15: a sorted push into a well-formed queue always ends without a fault, keeps the queue well
  formed (links, tail and size), and places the thread behind every thread that wakes no later,
  so a queue sorted by wake-up time stays sorted and threads with equal times keep their order.
\<close>

theorem list_sorted_push_correct:
  assumes "dlq h l xs" and "x \<notin> set xs"
  shows "\<exists>h' l'. list_sorted_push key h l x = Some (Inr (h', l')) \<and>
    dlq h' l' (takeWhile (\<lambda>y. key y \<le> key x) xs @ x # dropWhile (\<lambda>y. key y \<le> key x) xs) \<and>
    (sorted (map key xs) \<longrightarrow> (\<exists>ys. dlq h' l' ys \<and> sorted (map key ys))) \<and>
    (\<forall>y. y \<notin> set (x # xs) \<longrightarrow> h' y = h y)"
proof -
  from sorted_push_dlq [OF assms, of key] obtain h' l' where
    r: "list_sorted_push key h l x = Some (Inr (h', l'))" "dlq h' l' (insert_le key x xs)"
    "\<And>y. y \<notin> set (x # xs) \<Longrightarrow> h' y = h y" by blast
  with sorted_insert_le [of key xs x] show ?thesis unfolding insert_le_def by blast
qed

definition two_nodes :: "nat nodes" where
  "two_nodes = (\<lambda>_. \<lparr>nxt = None, prv = None\<rparr>)(1 := \<lparr>nxt = Some 2, prv = None\<rparr>, 2 := \<lparr>nxt = None, prv = Some 1\<rparr>)"

theorem list_sorted_push_correct_witness:
  "dlq two_nodes \<lparr>dl_head = Some 1, dl_tail = Some 2, dl_size = 2\<rparr> [1, 2] \<and>
   (\<exists>h' l'. list_sorted_push (\<lambda>n. n mod 3) two_nodes \<lparr>dl_head = Some 1, dl_tail = Some 2, dl_size = 2\<rparr> 4 =
      Some (Inr (h', l')) \<and> dlq h' l' [1, 4, 2])"
proof -
  have q: "dlq two_nodes \<lparr>dl_head = Some 1, dl_tail = Some 2, dl_size = 2\<rparr> [1, 2]"
    by (simp add: dlq_def two_nodes_def)
  from list_sorted_push_correct [OF q, of 4 "\<lambda>n. n mod 3"] q show ?thesis by auto
qed

text \<open>
  The queue is first in, first out: popping a well-formed queue returns its oldest element
  and never faults, popping an empty one panics, and pushing then appends at the end; the
  head, tail, size and all links stay consistent and no node outside the queue changes.
\<close>

theorem list_push_pop_fifo:
  assumes "dlq h l xs" and "x \<notin> set xs" and "list_push_back h l x = (h1, l1)"
  shows "\<exists>h2 l2. list_pop_front h1 l1 = Inr (h2, l2, hd (xs @ [x])) \<and> dlq h2 l2 (tl (xs @ [x])) \<and>
    (\<forall>y. y \<notin> set (x # xs) \<longrightarrow> h2 y = h y)"
proof -
  from tq.push_lq [OF assms] have p: "dlq h1 l1 (xs @ [x])" "\<forall>y. y \<notin> set (x # xs) \<longrightarrow> h1 y = h y" by auto
  obtain z zs where z: "xs @ [x] = z # zs" by (cases xs) auto
  then have "set (z # zs) = set (x # xs)" by (metis set_append list.set insert_is_Un Un_commute)
  moreover from tq.pop_lq [of h1 l1 z zs] p z obtain h2 l2 where
    "list_pop_front h1 l1 = Inr (h2, l2, z)" "dlq h2 l2 zs" "\<forall>y. y \<notin> set (z # zs) \<longrightarrow> h2 y = h1 y" by auto
  ultimately show ?thesis using p(2) z by (intro exI [of _ h2] exI [of _ l2]) simp
qed

theorem list_push_pop_fifo_witness:
  "dlq two_nodes \<lparr>dl_head = Some 1, dl_tail = Some 2, dl_size = 2\<rparr> [1, 2] \<and>
   (\<exists>h1 l1 h2 l2. list_push_back two_nodes \<lparr>dl_head = Some 1, dl_tail = Some 2, dl_size = 2\<rparr> 7 = (h1, l1) \<and>
      list_pop_front h1 l1 = Inr (h2, l2, 1) \<and> dlq h2 l2 [2, 7])"
proof -
  let ?l = "\<lparr>dl_head = Some 1, dl_tail = Some 2, dl_size = 2\<rparr>"
  have q: "dlq two_nodes ?l [1, 2]" by (simp add: dlq_def two_nodes_def)
  obtain h1 l1 where r: "list_push_back two_nodes ?l 7 = (h1, l1)" by fastforce
  from list_push_pop_fifo [OF q _ r] q r show ?thesis by auto
qed

end
