(* ===== verification/Sched.thy ===== *)
theory Sched
  imports Queue
begin

text \<open>
  The scheduler (\<open>sched/sched.c\<close>), the reaper's queue handling (\<open>kernel/reaper.c\<close>) and the
  system calls (\<open>process/syscall.c\<close>).

  The state holds the threads (\<open>sched/thread.h\<close>) by address, the link nodes that are their first
  member, the three queues, and the registers the scheduler loads; \<open>sp\<close> is the stack pointer. Every
  operation below but the removal of a zombie runs with interrupts masked in the code, so it is one
  step. \<open>context_switch\<close> stores the stack pointer of the thread it leaves and loads that of the thread
  it enters (its instructions are in \<open>Switch\<close>): the scheduler takes the value it stores, which depends
  on the interrupted code, as its argument \<open>esp\<close>. A thread resumes behind its own call of
  \<open>context_switch\<close>.
\<close>

section \<open>Data\<close>

datatype thread_status = RUNNING | RUNNABLE | IDLE | ZOMBIE | SLEEPING

record thread =
  t_esp :: u32
  t_stack :: u32
  t_status :: thread_status
  t_id :: u32
  t_wake_at :: u64
  t_pd :: u32

record sched =
  threads :: "u32 \<Rightarrow> thread"
  tnodes :: "u32 nodes"
  que :: "u32 dllist"
  sleep_que :: "u32 dllist"
  zombie_que :: "u32 dllist"
  cur_thread :: u32
  idle_thread :: u32
  reaper :: u32
  ticks :: u64
  tick_rate :: u16
  cr3 :: u32
  tss_esp0 :: u32
  sp :: u32

definition PIT_CRYSTAL :: u64 where "PIT_CRYSTAL = 1193182"

abbreviation status :: "sched \<Rightarrow> u32 \<Rightarrow> thread_status" where
  "status s t \<equiv> t_status (threads s t)"

definition set_status :: "u32 \<Rightarrow> thread_status \<Rightarrow> sched \<Rightarrow> sched" where
  "set_status t st s = s\<lparr>threads := (threads s)(t := (threads s t)\<lparr>t_status := st\<rparr>)\<rparr>"

section \<open>The scheduler\<close>

definition u_thread_ready :: "u32 \<Rightarrow> sched \<Rightarrow> sched" where
  "u_thread_ready thread s =
     (let s = set_status thread RUNNABLE s;
          (h, l) = list_push_back (tnodes s) (que s) thread
      in s\<lparr>tnodes := h, que := l\<rparr>)"

text \<open>The loop over the sleeping threads; it ends on every well-formed queue.\<close>

partial_function (option) wake_up_threads :: "sched \<Rightarrow> sched res option" where
  "wake_up_threads s =
     (case dl_head (sleep_que s) of
        None \<Rightarrow> Some (Inr s)
      | Some t \<Rightarrow>
          if t_wake_at (threads s t) \<le> ticks s then
            (case list_pop_front (tnodes s) (sleep_que s) of
               Inl e \<Rightarrow> Some (Inl e)
             | Inr (h, l, thread) \<Rightarrow>
                 wake_up_threads (u_thread_ready thread (s\<lparr>tnodes := h, sleep_que := l\<rparr>)))
          else Some (Inr s))"

definition get_next_thread :: "sched \<Rightarrow> (u32 option \<times> sched) res" where
  "get_next_thread s =
     (if dl_head (que s) \<noteq> None
      then bnd (list_pop_front (tnodes s) (que s)) (\<lambda>(h, l, thread).
             Inr (Some thread, s\<lparr>tnodes := h, que := l\<rparr>))
      else Inr (None, s))"

definition refresh_cr3 :: "u32 \<Rightarrow> sched \<Rightarrow> sched" where
  "refresh_cr3 pd s = s\<lparr>cr3 := V2P pd\<rparr>"

definition save_esp :: "u32 \<Rightarrow> u32 \<Rightarrow> sched \<Rightarrow> sched" where
  "save_esp t esp s = s\<lparr>threads := (threads s)(t := (threads s t)\<lparr>t_esp := esp\<rparr>)\<rparr>"

text \<open>\<open>context_switch(&old->esp, &new->esp)\<close>: store, then load.\<close>

definition switch_stacks :: "u32 \<Rightarrow> u32 \<Rightarrow> u32 \<Rightarrow> sched \<Rightarrow> sched" where
  "switch_stacks old new esp s = (let s = save_esp old esp s in s\<lparr>sp := t_esp (threads s new)\<rparr>)"

definition scheduler :: "u32 \<Rightarrow> sched \<Rightarrow> sched res" where
  "scheduler esp s =
     (let s = (if status s (cur_thread s) = RUNNING then u_thread_ready (cur_thread s) s else s);
          prev_thread = cur_thread s
      in bnd (get_next_thread s) (\<lambda>(next, s).
           let s = s\<lparr>cur_thread := (case next of None \<Rightarrow> idle_thread s | Some t \<Rightarrow> t)\<rparr>;
               s = (if cur_thread s \<noteq> idle_thread s then set_status (cur_thread s) RUNNING s else s);
               s = (if t_pd (threads s (cur_thread s)) \<noteq> t_pd (threads s prev_thread)
                    then refresh_cr3 (t_pd (threads s (cur_thread s))) s else s);
               s = s\<lparr>tss_esp0 := t_stack (threads s (cur_thread s)) + 0x1000\<rparr>
           in Inr (switch_stacks prev_thread (cur_thread s) esp s)))"

definition timer :: "u32 \<Rightarrow> sched \<Rightarrow> sched res option" where
  "timer esp s =
     (let s = s\<lparr>ticks := ticks s + ucast (tick_rate s)\<rparr>
      in map_option (\<lambda>r. bnd r (scheduler esp)) (wake_up_threads s))"

text \<open>The part of \<open>thread_sleep\<close> before it calls \<open>scheduler\<close>.\<close>

definition thread_sleep_begin :: "u32 \<Rightarrow> sched \<Rightarrow> sched res option" where
  "thread_sleep_begin time s =
     (let wake_at = ticks s + ucast time * PIT_CRYSTAL;
          s = s\<lparr>threads := (threads s)(cur_thread s := (threads s (cur_thread s))\<lparr>t_wake_at := wake_at\<rparr>)\<rparr>;
          s = set_status (cur_thread s) SLEEPING s
      in map_option (\<lambda>r. bnd r (\<lambda>(h, l). Inr (s\<lparr>tnodes := h, sleep_que := l\<rparr>)))
           (list_sorted_push (\<lambda>t. t_wake_at (threads s t)) (tnodes s) (sleep_que s) (cur_thread s)))"

definition thread_sleep :: "u32 \<Rightarrow> u32 \<Rightarrow> sched \<Rightarrow> sched res option" where
  "thread_sleep esp time s = map_option (\<lambda>r. bnd r (scheduler esp)) (thread_sleep_begin time s)"

definition thread_ready :: "u32 \<Rightarrow> sched \<Rightarrow> sched" where
  "thread_ready thread s =
     (let s = set_status thread RUNNABLE s;
          (h, l) = list_push_back (tnodes s) (que s) thread
      in s\<lparr>tnodes := h, que := l\<rparr>)"

section \<open>The reaper\<close>

definition reaper_add :: "u32 \<Rightarrow> sched \<Rightarrow> sched" where
  "reaper_add zombie s =
     (let s = set_status zombie ZOMBIE s;
          (h, l) = list_push_back (tnodes s) (zombie_que s) zombie;
          s = s\<lparr>tnodes := h, zombie_que := l\<rparr>
      in if status s (reaper s) \<noteq> RUNNABLE then thread_ready (reaper s) s else s)"

text \<open>
  One undisturbed iteration of \<open>reaper_main\<close>: either a zombie is taken for destruction, or the
  reaper goes to sleep (and then calls \<open>scheduler\<close>). The code tests the queue in a critical section
  but takes the zombie out behind it; \<open>Sched_Split\<close> has the two as separate steps and relates them.
\<close>

definition reaper_iter :: "sched \<Rightarrow> (u32 option \<times> sched) res" where
  "reaper_iter s =
     (if dl_head (zombie_que s) \<noteq> None
      then bnd (list_pop_front (tnodes s) (zombie_que s)) (\<lambda>(h, l, zombie).
             Inr (Some zombie, s\<lparr>tnodes := h, zombie_que := l\<rparr>))
      else Inr (None, set_status (reaper s) SLEEPING s))"

section \<open>System calls\<close>

definition SYS_EXIT :: u32 where "SYS_EXIT = 0"
definition SYS_SLEEP :: u32 where "SYS_SLEEP = 1"

definition do_exit :: "u32 \<Rightarrow> sched \<Rightarrow> sched res option" where
  "do_exit esp s = Some (scheduler esp (reaper_add (cur_thread s) s))"

definition do_sleep :: "u32 \<Rightarrow> u32 \<Rightarrow> sched \<Rightarrow> sched res option" where
  "do_sleep esp time s = thread_sleep esp time s"

definition syscall_handler :: "u32 \<Rightarrow> u32 \<Rightarrow> u32 \<Rightarrow> sched \<Rightarrow> sched res option" where
  "syscall_handler esp eax ebx s =
     (if eax = SYS_EXIT then do_exit esp s
      else if eax = SYS_SLEEP then do_sleep esp ebx s
      else Some (Inr s))"

end
