(* ===== verification/Sched_Inv.thy ===== *)
theory Sched_Inv
  imports Sched
begin

text \<open>
  The invariant of the scheduler. \<open>queues_ok T s Q S Z\<close> says that the three queues of state \<open>s\<close>
  hold the lists \<open>Q\<close>, \<open>S\<close>, \<open>Z\<close> and that, among the worker threads \<open>T\<close> (all live threads but
  the idle one), exactly the runnable ones are in the ready queue, exactly the zombies in the
  zombie queue, and exactly the sleeping ones in the sleep queue, ordered by wake-up time. The
  reaper sleeps outside every queue. \<open>sched_inv T s\<close> adds the roles of the current, the idle
  and the reaper thread.
\<close>

section \<open>Definitions\<close>

abbreviation wake :: "sched \<Rightarrow> u32 \<Rightarrow> u64" where
  "wake s t \<equiv> t_wake_at (threads s t)"

definition queues_ok :: "u32 set \<Rightarrow> sched \<Rightarrow> u32 list \<Rightarrow> u32 list \<Rightarrow> u32 list \<Rightarrow> bool" where
  "queues_ok T s Q S Z \<longleftrightarrow>
     dlq (tnodes s) (que s) Q \<and> dlq (tnodes s) (sleep_que s) S \<and> dlq (tnodes s) (zombie_que s) Z \<and>
     set Q = {t \<in> T. status s t = RUNNABLE} \<and>
     set S = {t \<in> T. status s t = SLEEPING \<and> t \<noteq> reaper s} \<and>
     set Z = {t \<in> T. status s t = ZOMBIE} \<and>
     sorted (map (wake s) S)"

definition sched_inv :: "u32 set \<Rightarrow> sched \<Rightarrow> bool" where
  "sched_inv T s \<longleftrightarrow> idle_thread s \<notin> T \<and> status s (idle_thread s) = IDLE \<and>
     reaper s \<in> T \<and> status s (reaper s) \<noteq> ZOMBIE \<and>
     (cur_thread s \<in> T \<or> cur_thread s = idle_thread s) \<and>
     (\<forall>t\<in>T. status s t \<noteq> IDLE \<and> (status s t = RUNNING \<longrightarrow> t = cur_thread s)) \<and>
     (\<exists>Q S Z. queues_ok T s Q S Z)"

lemma sched_invI:
  assumes "idle_thread s \<notin> T" and "status s (idle_thread s) = IDLE" and "reaper s \<in> T"
    and "status s (reaper s) \<noteq> ZOMBIE" and "cur_thread s \<in> T \<or> cur_thread s = idle_thread s"
    and "\<And>t. t \<in> T \<Longrightarrow> status s t \<noteq> IDLE"
    and "\<And>t. t \<in> T \<Longrightarrow> status s t = RUNNING \<Longrightarrow> t = cur_thread s"
    and "queues_ok T s Q S Z"
  shows "sched_inv T s"
  using assms unfolding sched_inv_def by blast

lemma sched_invD:
  assumes "sched_inv T s"
  shows "idle_thread s \<notin> T" and "status s (idle_thread s) = IDLE" and "reaper s \<in> T"
    and "status s (reaper s) \<noteq> ZOMBIE" and "cur_thread s \<in> T \<or> cur_thread s = idle_thread s"
    and "t \<in> T \<Longrightarrow> status s t \<noteq> IDLE"
    and "t \<in> T \<Longrightarrow> status s t = RUNNING \<Longrightarrow> t = cur_thread s"
    and "\<exists>Q S Z. queues_ok T s Q S Z"
  using assms unfolding sched_inv_def by blast+

section \<open>Projections\<close>

lemma set_status_simps [simp]:
  "threads (set_status t st s) = (threads s)(t := (threads s t)\<lparr>t_status := st\<rparr>)"
  "tnodes (set_status t st s) = tnodes s" "que (set_status t st s) = que s"
  "sleep_que (set_status t st s) = sleep_que s" "zombie_que (set_status t st s) = zombie_que s"
  "cur_thread (set_status t st s) = cur_thread s" "idle_thread (set_status t st s) = idle_thread s"
  "reaper (set_status t st s) = reaper s" "ticks (set_status t st s) = ticks s"
  "tick_rate (set_status t st s) = tick_rate s" "cr3 (set_status t st s) = cr3 s"
  "tss_esp0 (set_status t st s) = tss_esp0 s" "sp (set_status t st s) = sp s"
  by (simp_all add: set_status_def)

lemma save_esp_simps [simp]:
  "threads (save_esp t e s) = (threads s)(t := (threads s t)\<lparr>t_esp := e\<rparr>)"
  "tnodes (save_esp t e s) = tnodes s" "que (save_esp t e s) = que s"
  "sleep_que (save_esp t e s) = sleep_que s" "zombie_que (save_esp t e s) = zombie_que s"
  "cur_thread (save_esp t e s) = cur_thread s" "idle_thread (save_esp t e s) = idle_thread s"
  "reaper (save_esp t e s) = reaper s" "ticks (save_esp t e s) = ticks s"
  "tick_rate (save_esp t e s) = tick_rate s" "cr3 (save_esp t e s) = cr3 s"
  "tss_esp0 (save_esp t e s) = tss_esp0 s"
  by (simp_all add: save_esp_def)

lemma switch_stacks_simps [simp]:
  "threads (switch_stacks t t' e s) = (threads s)(t := (threads s t)\<lparr>t_esp := e\<rparr>)"
  "tnodes (switch_stacks t t' e s) = tnodes s" "que (switch_stacks t t' e s) = que s"
  "sleep_que (switch_stacks t t' e s) = sleep_que s" "zombie_que (switch_stacks t t' e s) = zombie_que s"
  "cur_thread (switch_stacks t t' e s) = cur_thread s" "idle_thread (switch_stacks t t' e s) = idle_thread s"
  "reaper (switch_stacks t t' e s) = reaper s" "ticks (switch_stacks t t' e s) = ticks s"
  "tick_rate (switch_stacks t t' e s) = tick_rate s" "cr3 (switch_stacks t t' e s) = cr3 s"
  "tss_esp0 (switch_stacks t t' e s) = tss_esp0 s"
  "sp (switch_stacks t t' e s) = (if t' = t then e else t_esp (threads s t'))"
  by (simp_all add: switch_stacks_def Let_def)

lemma u_thread_ready_eq: "u_thread_ready = thread_ready"
  by (rule ext)+ (simp add: u_thread_ready_def thread_ready_def)

lemma thread_ready_simps [simp]:
  "threads (thread_ready t s) = (threads s)(t := (threads s t)\<lparr>t_status := RUNNABLE\<rparr>)"
  "sleep_que (thread_ready t s) = sleep_que s" "zombie_que (thread_ready t s) = zombie_que s"
  "cur_thread (thread_ready t s) = cur_thread s" "idle_thread (thread_ready t s) = idle_thread s"
  "reaper (thread_ready t s) = reaper s" "ticks (thread_ready t s) = ticks s"
  "tick_rate (thread_ready t s) = tick_rate s" "cr3 (thread_ready t s) = cr3 s"
  "tss_esp0 (thread_ready t s) = tss_esp0 s" "sp (thread_ready t s) = sp s"
  by (simp_all add: thread_ready_def Let_def split_def)

section \<open>Introduction and elimination\<close>

lemma queues_okI:
  assumes "dlq (tnodes s) (que s) Q" "dlq (tnodes s) (sleep_que s) S" "dlq (tnodes s) (zombie_que s) Z"
    and "\<And>t. t \<in> set Q \<longleftrightarrow> t \<in> T \<and> status s t = RUNNABLE"
    and "\<And>t. t \<in> set S \<longleftrightarrow> t \<in> T \<and> status s t = SLEEPING \<and> t \<noteq> reaper s"
    and "\<And>t. t \<in> set Z \<longleftrightarrow> t \<in> T \<and> status s t = ZOMBIE"
    and "sorted (map (wake r) S)" and "\<And>t. t \<in> set S \<Longrightarrow> wake s t = wake r t"
  shows "queues_ok T s Q S Z"
proof -
  have eq: "map (wake s) S = map (wake r) S" using assms(8) by simp
  show ?thesis unfolding queues_ok_def eq set_eq_iff using assms(1-7) by simp
qed

lemma queues_okD:
  assumes "queues_ok T s Q S Z"
  shows "dlq (tnodes s) (que s) Q" "dlq (tnodes s) (sleep_que s) S" "dlq (tnodes s) (zombie_que s) Z"
    and "t \<in> set Q \<longleftrightarrow> t \<in> T \<and> status s t = RUNNABLE"
    and "t \<in> set S \<longleftrightarrow> t \<in> T \<and> status s t = SLEEPING \<and> t \<noteq> reaper s"
    and "t \<in> set Z \<longleftrightarrow> t \<in> T \<and> status s t = ZOMBIE"
    and "sorted (map (wake s) S)"
  using assms by (simp_all add: queues_ok_def set_eq_iff)

text \<open>Only the statuses, wake-up times, queues, nodes and the reaper matter.\<close>

lemma queues_ok_cong:
  assumes q: "queues_ok T s Q S Z" and "\<And>t. t \<in> T \<Longrightarrow> status s' t = status s t \<and> wake s' t = wake s t"
    and "tnodes s' = tnodes s" and "que s' = que s" and "sleep_que s' = sleep_que s"
    and "zombie_que s' = zombie_que s" and "reaper s' = reaper s"
  shows "queues_ok T s' Q S Z"
  by (rule queues_okI [where r = s]) (use assms(2) queues_okD [OF q] in \<open>auto simp: assms(3-)\<close>)

lemma queues_ok_disjoint:
  assumes "queues_ok T s Q S Z"
  shows "set Q \<inter> set S = {}" "set Q \<inter> set Z = {}" "set S \<inter> set Z = {}" "set Q \<union> set S \<union> set Z \<subseteq> T"
  using assms by (auto simp: queues_ok_def)

lemma queues_ok_unique:
  assumes "queues_ok T s Q S Z" and "queues_ok T' s Q' S' Z'"
  shows "Q' = Q" "S' = S" "Z' = Z"
  using assms dls_unique unfolding queues_ok_def dlq_def by metis+

text \<open>Leaving out a thread that is in no queue.\<close>

lemma queues_ok_drop:
  assumes "queues_ok T s Q S Z" and "t \<notin> set Q" "t \<notin> set S" "t \<notin> set Z"
  shows "queues_ok (T - {t}) s Q S Z"
  by (rule queues_okI [where r = s]) (use queues_okD [OF assms(1)] assms(2-) in auto)

text \<open>Adding a running thread.\<close>

lemma queues_ok_running:
  assumes "queues_ok (T - {t}) s Q S Z" and "status s t = RUNNING"
  shows "queues_ok T s Q S Z"
proof (rule queues_okI [where r = s])
  note q = queues_okD [OF assms(1)]
  show "x \<in> set Q \<longleftrightarrow> x \<in> T \<and> status s x = RUNNABLE" for x using assms(2) by (auto simp: q(4))
  show "x \<in> set S \<longleftrightarrow> x \<in> T \<and> status s x = SLEEPING \<and> x \<noteq> reaper s" for x
    using assms(2) by (auto simp: q(5))
  show "x \<in> set Z \<longleftrightarrow> x \<in> T \<and> status s x = ZOMBIE" for x using assms(2) by (auto simp: q(6))
qed (simp_all add: queues_okD [OF assms(1)])

text \<open>Adding the sleeping reaper, which is in no queue.\<close>

lemma queues_ok_dozing:
  assumes "queues_ok (T - {t}) s Q S Z" and "status s t = SLEEPING" and "t = reaper s"
  shows "queues_ok T s Q S Z"
proof (rule queues_okI [where r = s])
  note q = queues_okD [OF assms(1)]
  show "x \<in> set Q \<longleftrightarrow> x \<in> T \<and> status s x = RUNNABLE" for x using assms(2) by (auto simp: q(4))
  show "x \<in> set S \<longleftrightarrow> x \<in> T \<and> status s x = SLEEPING \<and> x \<noteq> reaper s" for x
    using assms(3) by (auto simp: q(5))
  show "x \<in> set Z \<longleftrightarrow> x \<in> T \<and> status s x = ZOMBIE" for x using assms(2) by (auto simp: q(6))
qed (simp_all add: queues_okD [OF assms(1)])

section \<open>The elementary queue changes\<close>

lemma ready_queues:
  assumes q: "queues_ok T s Q S Z" and t: "t \<notin> T"
  shows "queues_ok (insert t T) (thread_ready t s) (Q @ [t]) S Z"
proof -
  obtain h l where r: "list_push_back (tnodes s) (que s) t = (h, l)" by fastforce
  have eq: "tnodes (thread_ready t s) = h" "que (thread_ready t s) = l"
    by (simp_all add: thread_ready_def r)
  note Q = queues_okD(1) [OF q] and S = queues_okD(2) [OF q] and Z = queues_okD(3) [OF q]
  have nin: "t \<notin> set Q" "t \<notin> set S" "t \<notin> set Z" using queues_okD(4-6) [OF q] t by auto
  show ?thesis
  proof (rule queues_okI [where r = s], unfold eq thread_ready_simps)
    show "dlq h l (Q @ [t])" using tq.push_lq [OF Q nin(1) r] by blast
    show "dlq h (sleep_que s) S" "dlq h (zombie_que s) Z"
      using tq.push_apart [OF Q nin(1) r S] tq.push_apart [OF Q nin(1) r Z] queues_ok_disjoint [OF q] nin
      by auto
  qed (use queues_okD(4-7) [OF q] t nin in auto)
qed

lemma zombie_queues:
  assumes q: "queues_ok T s Q S Z" and t: "t \<notin> T"
    and r: "list_push_back (tnodes s) (zombie_que s) t = (h, l)"
  shows "queues_ok (insert t T) ((set_status t ZOMBIE s)\<lparr>tnodes := h, zombie_que := l\<rparr>) Q S (Z @ [t])"
proof -
  note Q = queues_okD(1) [OF q] and S = queues_okD(2) [OF q] and Z = queues_okD(3) [OF q]
  have nin: "t \<notin> set Q" "t \<notin> set S" "t \<notin> set Z" using queues_okD(4-6) [OF q] t by auto
  show ?thesis
  proof (rule queues_okI [where r = s], simp_all)
    show "dlq h l (Z @ [t])" using tq.push_lq [OF Z nin(3) r] by blast
    show "dlq h (que s) Q" "dlq h (sleep_que s) S"
      using tq.push_apart [OF Z nin(3) r S] tq.push_apart [OF Z nin(3) r Q] queues_ok_disjoint [OF q] nin
      by auto
  qed (use queues_okD(4-7) [OF q] t nin in auto)
qed

lemma sleep_queues:
  assumes q: "queues_ok T s Q S Z" and t: "t \<notin> T" "t \<noteq> reaper s" and st: "status s t = SLEEPING"
  obtains h l where "list_sorted_push (wake s) (tnodes s) (sleep_que s) t = Some (Inr (h, l))"
    and "queues_ok (insert t T) (s\<lparr>tnodes := h, sleep_que := l\<rparr>) Q (insert_le (wake s) t S) Z"
proof -
  note Q = queues_okD(1) [OF q] and S = queues_okD(2) [OF q] and Z = queues_okD(3) [OF q]
  have nin: "t \<notin> set Q" "t \<notin> set S" "t \<notin> set Z" using queues_okD(4-6) [OF q] t by auto
  from sorted_push_dlq [OF S nin(2), of "wake s"] obtain h l where
    r: "list_sorted_push (wake s) (tnodes s) (sleep_que s) t = Some (Inr (h, l))"
    "dlq h l (insert_le (wake s) t S)" "\<And>y. y \<notin> set (t # S) \<Longrightarrow> h y = tnodes s y" by blast
  have "queues_ok (insert t T) (s\<lparr>tnodes := h, sleep_que := l\<rparr>) Q (insert_le (wake s) t S) Z"
  proof (rule queues_okI [where r = s], simp_all)
    show "dlq h l (insert_le (wake s) t S)" by fact
    have "y \<notin> set (t # S)" if "y \<in> set Q \<union> set Z" for y
      using that nin queues_ok_disjoint [OF q] by auto
    then show "dlq h (que s) Q" "dlq h (zombie_que s) Z"
      using r(3) by (auto intro!: dlq_frame [OF _ Q] dlq_frame [OF _ Z])
    show "sorted (map (wake s) (insert_le (wake s) t S))"
      using queues_okD(7) [OF q] by (rule sorted_insert_le)
  qed (use queues_okD(4-7) [OF q] t st nin in auto)
  with that r(1) show thesis by blast
qed

lemma pop_ready_queues:
  assumes q: "queues_ok T s (t # Q) S Z"
  obtains h l where "list_pop_front (tnodes s) (que s) = Inr (h, l, t)" and "t \<in> T"
    and "queues_ok (T - {t}) (s\<lparr>tnodes := h, que := l\<rparr>) Q S Z"
proof -
  note Q = queues_okD(1) [OF q] and S = queues_okD(2) [OF q] and Z = queues_okD(3) [OF q]
  from tq.pop_lq [OF Q] obtain h l where r: "list_pop_front (tnodes s) (que s) = Inr (h, l, t)" by blast
  have d: "dlq h (sleep_que s) S" "dlq h (zombie_que s) Z" "dlq h l Q"
    using tq.pop_apart [OF Q r S] tq.pop_apart [OF Q r Z] queues_ok_disjoint [OF q] by auto
  have st: "t \<in> T" "status s t = RUNNABLE" using queues_okD(4) [OF q, of t] by simp_all
  have "t \<notin> set Q" using tq.lq_distinct [OF Q] by simp
  then have "queues_ok (T - {t}) (s\<lparr>tnodes := h, que := l\<rparr>) Q S Z"
    by (intro queues_okI [where r = s]) (use d st queues_okD(4-7) [OF q] in auto)
  with st(1) that r show thesis by blast
qed

lemma pop_sleep_queues:
  assumes q: "queues_ok T s Q (t # S) Z"
  obtains h l where "list_pop_front (tnodes s) (sleep_que s) = Inr (h, l, t)" and "t \<in> T"
    and "queues_ok (T - {t}) (s\<lparr>tnodes := h, sleep_que := l\<rparr>) Q S Z"
proof -
  note Q = queues_okD(1) [OF q] and S = queues_okD(2) [OF q] and Z = queues_okD(3) [OF q]
  from tq.pop_lq [OF S] obtain h l where r: "list_pop_front (tnodes s) (sleep_que s) = Inr (h, l, t)" by blast
  have d: "dlq h (que s) Q" "dlq h (zombie_que s) Z" "dlq h l S"
    using tq.pop_apart [OF S r Q] tq.pop_apart [OF S r Z] queues_ok_disjoint [OF q] by auto
  have st: "t \<in> T" "status s t = SLEEPING" using queues_okD(5) [OF q, of t] by simp_all
  have "t \<notin> set S" using tq.lq_distinct [OF S] by simp
  then have "queues_ok (T - {t}) (s\<lparr>tnodes := h, sleep_que := l\<rparr>) Q S Z"
    by (intro queues_okI [where r = s]) (use d st queues_okD(4-7) [OF q] in auto)
  with st(1) that r show thesis by blast
qed

lemma pop_zombie_queues:
  assumes q: "queues_ok T s Q S (t # Z)"
  obtains h l where "list_pop_front (tnodes s) (zombie_que s) = Inr (h, l, t)" and "t \<in> T"
    and "queues_ok (T - {t}) (s\<lparr>tnodes := h, zombie_que := l\<rparr>) Q S Z"
proof -
  note Q = queues_okD(1) [OF q] and S = queues_okD(2) [OF q] and Z = queues_okD(3) [OF q]
  from tq.pop_lq [OF Z] obtain h l where r: "list_pop_front (tnodes s) (zombie_que s) = Inr (h, l, t)" by blast
  have d: "dlq h (que s) Q" "dlq h (sleep_que s) S" "dlq h l Z"
    using tq.pop_apart [OF Z r Q] tq.pop_apart [OF Z r S] queues_ok_disjoint [OF q] by auto
  have st: "t \<in> T" "status s t = ZOMBIE" using queues_okD(6) [OF q, of t] by simp_all
  have "t \<notin> set Z" using tq.lq_distinct [OF Z] by simp
  then have "queues_ok (T - {t}) (s\<lparr>tnodes := h, zombie_que := l\<rparr>) Q S Z"
    by (intro queues_okI [where r = s]) (use d st queues_okD(4-7) [OF q] in auto)
  with st(1) that r show thesis by blast
qed

end
