(* ===== verification/Sched_Correct.thy ===== *)
theory Sched_Correct
  imports Sched_Inv
begin

text \<open>
  Every operation of the scheduler, the reaper and the system calls ends without a fault in a
  state that satisfies the invariant, and keeps it; with the exact effect on the three queues.
\<close>

section \<open>Waking threads up\<close>

text \<open>What an operation that only moves threads between queues leaves alone.\<close>

definition same_roles :: "sched \<Rightarrow> sched \<Rightarrow> bool" where
  "same_roles s s' \<longleftrightarrow> cur_thread s' = cur_thread s \<and> idle_thread s' = idle_thread s \<and>
     reaper s' = reaper s \<and> ticks s' = ticks s \<and> tick_rate s' = tick_rate s \<and> cr3 s' = cr3 s \<and>
     (\<forall>t. wake s' t = wake s t \<and> t_stack (threads s' t) = t_stack (threads s t) \<and>
          t_pd (threads s' t) = t_pd (threads s t) \<and> t_esp (threads s' t) = t_esp (threads s t))"

lemma wake_up_threads_spec:
  assumes "queues_ok T s Q S Z"
  shows "\<exists>s'. wake_up_threads s = Some (Inr s') \<and> same_roles s s' \<and>
    queues_ok T s' (Q @ takeWhile (\<lambda>t. wake s t \<le> ticks s) S) (dropWhile (\<lambda>t. wake s t \<le> ticks s) S) Z \<and>
    (\<forall>t. status s' t = (if t \<in> set (takeWhile (\<lambda>t. wake s t \<le> ticks s) S) then RUNNABLE else status s t))"
  using assms
proof (induction S arbitrary: s Q)
  case Nil
  then have "dl_head (sleep_que s) = None" using tq.lq_first [OF queues_okD(2)] by simp
  with Nil show ?case by (subst wake_up_threads.simps) (simp add: same_roles_def)
next
  case (Cons t S)
  have hd: "dl_head (sleep_que s) = Some t" using tq.lq_first [OF queues_okD(2) [OF Cons.prems]] by simp
  show ?case
  proof (cases "wake s t \<le> ticks s")
    case False
    with hd Cons.prems show ?thesis by (subst wake_up_threads.simps) (simp add: same_roles_def)
  next
    case True
    from pop_sleep_queues [OF Cons.prems] obtain h l where
      r: "list_pop_front (tnodes s) (sleep_que s) = Inr (h, l, t)" and "t \<in> T"
      and q: "queues_ok (T - {t}) (s\<lparr>tnodes := h, sleep_que := l\<rparr>) Q S Z" by blast
    let ?u = "thread_ready t (s\<lparr>tnodes := h, sleep_que := l\<rparr>)"
    have ui: "insert t (T - {t}) = T" using \<open>t \<in> T\<close> by blast
    have "queues_ok T ?u (Q @ [t]) S Z" using ready_queues [OF q, of t] ui by simp
    from Cons.IH [OF this] obtain s' where s': "wake_up_threads ?u = Some (Inr s')" "same_roles ?u s'"
      "queues_ok T s' ((Q @ [t]) @ takeWhile (\<lambda>t. wake ?u t \<le> ticks ?u) S)
         (dropWhile (\<lambda>t. wake ?u t \<le> ticks ?u) S) Z"
      "\<forall>x. status s' x = (if x \<in> set (takeWhile (\<lambda>t. wake ?u t \<le> ticks ?u) S) then RUNNABLE else status ?u x)"
      by blast
    have w: "(\<lambda>t. wake ?u t \<le> ticks ?u) = (\<lambda>t. wake s t \<le> ticks s)" by (rule ext) simp
    have "wake_up_threads s = Some (Inr s')"
      using hd True r s'(1) by (subst wake_up_threads.simps) (simp add: u_thread_ready_eq)
    moreover have "same_roles s s'" using s'(2) by (auto simp: same_roles_def)
    ultimately show ?thesis using s'(3,4) True unfolding w by auto
  qed
qed

section \<open>Switching to the next thread\<close>

definition ready_after :: "sched \<Rightarrow> u32 list \<Rightarrow> u32 list" where
  "ready_after s Q = (if status s (cur_thread s) = RUNNING then Q @ [cur_thread s] else Q)"

definition next_of :: "sched \<Rightarrow> u32 list \<Rightarrow> u32" where
  "next_of s R = (if R = [] then idle_thread s else hd R)"

lemma requeue_current:
  assumes inv: "sched_inv T s" and q: "queues_ok T s Q S Z"
  defines "u \<equiv> (if status s (cur_thread s) = RUNNING then u_thread_ready (cur_thread s) s else s)"
  shows "queues_ok T u (ready_after s Q) S Z" and "same_roles s u"
    and "\<And>t. status u t = (if t = cur_thread s \<and> status s t = RUNNING then RUNNABLE else status s t)"
proof -
  show "same_roles s u" by (simp add: u_def u_thread_ready_eq same_roles_def)
  show "\<And>t. status u t = (if t = cur_thread s \<and> status s t = RUNNING then RUNNABLE else status s t)"
    by (auto simp: u_def u_thread_ready_eq)
  show "queues_ok T u (ready_after s Q) S Z"
  proof (cases "status s (cur_thread s) = RUNNING")
    case True
    then have c: "cur_thread s \<in> T" using inv by (auto simp: sched_inv_def)
    have "queues_ok (T - {cur_thread s}) s Q S Z"
      by (rule queues_ok_drop [OF q]) (use True queues_okD(4-6) [OF q] in auto)
    from ready_queues [OF this, of "cur_thread s"] True c show ?thesis
      by (simp add: u_def u_thread_ready_eq ready_after_def insert_absorb)
  qed (simp add: u_def ready_after_def q)
qed

lemma get_next_thread_spec:
  assumes "queues_ok T u R S Z"
  shows "\<exists>v. get_next_thread u = Inr (if R = [] then None else Some (hd R), v) \<and>
    threads v = threads u \<and> same_roles u v \<and>
    queues_ok (if R = [] then T else T - {hd R}) v (tl R) S Z \<and> (R \<noteq> [] \<longrightarrow> hd R \<in> T)"
proof (cases R)
  case Nil
  then have "dl_head (que u) = None" using tq.lq_first [OF queues_okD(1) [OF assms]] by simp
  with Nil assms show ?thesis by (simp add: get_next_thread_def same_roles_def)
next
  case (Cons t R')
  then have "dl_head (que u) = Some t" using tq.lq_first [OF queues_okD(1) [OF assms]] by simp
  moreover from pop_ready_queues [OF assms [unfolded Cons]] obtain h l where
    "list_pop_front (tnodes u) (que u) = Inr (h, l, t)" "t \<in> T"
    "queues_ok (T - {t}) (u\<lparr>tnodes := h, que := l\<rparr>) R' S Z" by blast
  ultimately show ?thesis using Cons by (simp add: get_next_thread_def same_roles_def)
qed

lemma scheduler_spec:
  assumes inv: "sched_inv T s" and q: "queues_ok T s Q S Z"
  shows "\<exists>s'. scheduler esp s = Inr s' \<and> sched_inv T s' \<and> queues_ok T s' (tl (ready_after s Q)) S Z \<and>
    cur_thread s' = next_of s (ready_after s Q) \<and> idle_thread s' = idle_thread s \<and> reaper s' = reaper s \<and>
    ticks s' = ticks s \<and> (\<forall>t. wake s' t = wake s t) \<and>
    (\<forall>t. status s' t = (if t = cur_thread s' \<and> t \<noteq> idle_thread s then RUNNING
       else if t = cur_thread s \<and> status s t = RUNNING then RUNNABLE else status s t)) \<and>
    tss_esp0 s' = t_stack (threads s (cur_thread s')) + 0x1000 \<and>
    t_esp (threads s' (cur_thread s)) = esp \<and>
    sp s' = (if cur_thread s' = cur_thread s then esp else t_esp (threads s (cur_thread s'))) \<and>
    (cr3 s = V2P (t_pd (threads s (cur_thread s))) \<longrightarrow> cr3 s' = V2P (t_pd (threads s' (cur_thread s'))))"
proof -
  let ?R = "ready_after s Q"
  define u where "u = (if status s (cur_thread s) = RUNNING then u_thread_ready (cur_thread s) s else s)"
  note ru = requeue_current [OF inv q, folded u_def]
  from get_next_thread_spec [OF ru(1)] obtain v where
    v: "get_next_thread u = Inr (if ?R = [] then None else Some (hd ?R), v)" "threads v = threads u"
    "same_roles u v" "queues_ok (if ?R = [] then T else T - {hd ?R}) v (tl ?R) S Z" "?R \<noteq> [] \<Longrightarrow> hd ?R \<in> T"
    by blast
  let ?c = "next_of s ?R"
  have roles: "cur_thread u = cur_thread s" "idle_thread v = idle_thread s" "reaper v = reaper s"
    "ticks v = ticks s" "\<And>t. wake u t = wake s t" "\<And>t. t_stack (threads u t) = t_stack (threads s t)"
    "\<And>t. t_pd (threads u t) = t_pd (threads s t)" "cr3 v = cr3 s" "\<And>t. t_esp (threads u t) = t_esp (threads s t)"
    using ru(2) v(3) by (auto simp: same_roles_def)
  obtain s' where s': "scheduler esp s = Inr s'" by (simp add: scheduler_def Let_def u_def [symmetric] v(1))
  have cur: "(case if ?R = [] then None else Some (hd ?R) of None \<Rightarrow> idle_thread v | Some t \<Rightarrow> t) = ?c"
    by (simp add: next_of_def roles)
  have flds: "tnodes s' = tnodes v" "que s' = que v" "sleep_que s' = sleep_que v" "zombie_que s' = zombie_que v"
    "cur_thread s' = ?c" "idle_thread s' = idle_thread s" "reaper s' = reaper s" "ticks s' = ticks s"
    "\<And>t. wake s' t = wake s t" "tss_esp0 s' = t_stack (threads s ?c) + 0x1000"
    "t_esp (threads s' (cur_thread s)) = esp"
    "sp s' = (if ?c = cur_thread s then esp else t_esp (threads s ?c))"
    "cr3 s = V2P (t_pd (threads s (cur_thread s))) \<longrightarrow> cr3 s' = V2P (t_pd (threads s' ?c))"
    and st: "\<And>t. status s' t = (if t = ?c \<and> t \<noteq> idle_thread s then RUNNING else status u t)"
    using s' cur by (auto simp: scheduler_def Let_def u_def [symmetric] v(1,2) roles refresh_cr3_def)
  have T: "?c = idle_thread s \<or> ?c \<in> T" using v(5) by (auto simp: next_of_def)
  have idle: "idle_thread s \<notin> T" using inv by (simp add: sched_inv_def)
  have st': "status s' t = (if t = ?c \<and> t \<noteq> idle_thread s then RUNNING
      else if t = cur_thread s \<and> status s t = RUNNING then RUNNABLE else status s t)" for t
    by (simp only: st ru(3))
  have q': "queues_ok T s' (tl ?R) S Z"
  proof (cases "?R = []")
    case True
    then have "?c = idle_thread s" by (simp add: next_of_def)
    then have "status s' x = status v x \<and> wake s' x = wake v x" if "x \<in> T" for x
      using that idle by (auto simp: st v(2) flds(9) roles)
    moreover have "queues_ok T v (tl ?R) S Z" using v(4) True by simp
    ultimately show ?thesis using flds(1-4,7) roles(3) queues_ok_cong [of T v "tl ?R" S Z s'] by simp
  next
    case False
    then have c: "?c = hd ?R" "?c \<in> T" using v(5) by (auto simp: next_of_def)
    have "status s' x = status v x \<and> wake s' x = wake v x" if "x \<in> T - {?c}" for x
      using that by (auto simp: st v(2) flds(9) roles)
    moreover have "queues_ok (T - {?c}) v (tl ?R) S Z" using v(4) False c by simp
    ultimately have "queues_ok (T - {?c}) s' (tl ?R) S Z"
      using flds(1-4,7) roles(3) queues_ok_cong [of "T - {?c}" v "tl ?R" S Z s'] by simp
    moreover have "status s' ?c = RUNNING" using c idle by (auto simp: st)
    ultimately show ?thesis by (rule queues_ok_running)
  qed
  note i = sched_invD [OF inv]
  have "sched_inv T s'"
  proof (rule sched_invI [OF _ _ _ _ _ _ _ q'], unfold flds)
    show "status s' (idle_thread s) = IDLE" "status s' (reaper s) \<noteq> ZOMBIE"
      using i(1-4) by (auto simp: st')
    show "status s' t \<noteq> IDLE" if "t \<in> T" for t using i(6) [OF that] by (simp add: st')
    show "t = ?c" if "t \<in> T" "status s' t = RUNNING" for t
      using that i(7) [OF that(1)] by (auto simp: st' split: if_splits)
  qed (use T i(1,3) in auto)
  with s' q' show ?thesis using st' flds by (intro exI [of _ s'] conjI) simp_all
qed

end
