(* ===== verification/Sched_Run.thy ===== *)
theory Sched_Run
  imports Sched_Correct
begin

text \<open>
  The running kernel as a transition system over the scheduler state: timer interrupts, voluntary
  calls of the scheduler, sleeping, exiting, creating and reaping threads, in any order. Each
  transition is one section of the code with interrupts masked, except that taking a zombie out of
  its queue, which the code does with interrupts enabled, is one transition here; \<open>Sched_Split\<close> cuts
  it up and shows which runs of the code this stands for.
\<close>

section \<open>The remaining operations\<close>

text \<open>Changing the status of threads other than to running or idle keeps the roles.\<close>

lemma sched_inv_keep:
  assumes inv: "sched_inv T s" and q: "queues_ok T' s' Q S Z"
    and roles: "cur_thread s' = cur_thread s" "idle_thread s' = idle_thread s" "reaper s' = reaper s"
    and T': "idle_thread s \<notin> T'" "reaper s \<in> T'" "cur_thread s \<in> T \<Longrightarrow> cur_thread s \<in> T'"
    and st: "status s' (idle_thread s) = status s (idle_thread s)" "status s' (reaper s) \<noteq> ZOMBIE"
    and ch: "\<And>t. t \<in> T' \<Longrightarrow> t \<in> T \<and> status s' t = status s t \<or> status s' t \<in> {RUNNABLE, SLEEPING, ZOMBIE}"
  shows "sched_inv T' s'"
proof (rule sched_invI [OF _ _ _ _ _ _ _ q], unfold roles)
  note i = sched_invD [OF inv]
  show "status s' (idle_thread s) = IDLE" using st(1) i(2) by simp
  show "cur_thread s \<in> T' \<or> cur_thread s = idle_thread s" using i(5) T'(3) by blast
  show "status s' t \<noteq> IDLE" if "t \<in> T'" for t using ch [OF that] i(6) [of t] by auto
  show "t = cur_thread s" if "t \<in> T'" "status s' t = RUNNING" for t using ch [OF that(1)] that(2) i(7) [of t] by auto
qed (rule T'(1) T'(2) st(2))+

lemma thread_sleep_spec:
  assumes inv: "sched_inv T s" and q: "queues_ok T s Q S Z"
    and run: "status s (cur_thread s) = RUNNING" and nr: "cur_thread s \<noteq> reaper s"
  shows "\<exists>s'. thread_sleep_begin time s = Some (Inr s') \<and> sched_inv T s' \<and>
    queues_ok T s' Q (insert_le (wake s') (cur_thread s) S) Z \<and>
    cur_thread s' = cur_thread s \<and> idle_thread s' = idle_thread s \<and> reaper s' = reaper s \<and> ticks s' = ticks s \<and>
    tick_rate s' = tick_rate s \<and>
    (\<forall>t. status s' t = (if t = cur_thread s then SLEEPING else status s t)) \<and>
    (\<forall>t. wake s' t = (if t = cur_thread s then ticks s + ucast time * PIT_CRYSTAL else wake s t))"
proof -
  let ?c = "cur_thread s"
  define v where
    "v = s\<lparr>threads := (threads s)(?c := (threads s ?c)\<lparr>t_wake_at := ticks s + ucast time * PIT_CRYSTAL\<rparr>)\<rparr>"
  have vc: "cur_thread v = ?c" by (simp add: v_def)
  define u where "u = set_status ?c SLEEPING v"
  note i = sched_invD [OF inv]
  have c: "?c \<in> T" using i(2,5) run by auto
  have u: "status u t = (if t = ?c then SLEEPING else status s t)"
    "wake u t = (if t = ?c then ticks s + ucast time * PIT_CRYSTAL else wake s t)"
    "cur_thread u = ?c" "idle_thread u = idle_thread s" "reaper u = reaper s" "ticks u = ticks s"
    "tnodes u = tnodes s" "que u = que s" "sleep_que u = sleep_que s" "zombie_que u = zombie_que s"
    "tick_rate u = tick_rate s" for t
    by (simp_all add: u_def v_def)
  have "queues_ok (T - {?c}) s Q S Z"
    by (rule queues_ok_drop [OF q]) (simp_all add: queues_okD(4-6) [OF q] run)
  then have "queues_ok (T - {?c}) u Q S Z"
    by (rule queues_ok_cong) (simp_all add: u)
  from sleep_queues [OF this, of ?c] nr obtain h l where
    r: "list_sorted_push (wake u) (tnodes u) (sleep_que u) ?c = Some (Inr (h, l))"
    and q': "queues_ok (insert ?c (T - {?c})) (u\<lparr>tnodes := h, sleep_que := l\<rparr>) Q (insert_le (wake u) ?c S) Z"
    by (auto simp: u)
  let ?s = "u\<lparr>tnodes := h, sleep_que := l\<rparr>"
  have "thread_sleep_begin time s = map_option (\<lambda>r. bnd r (\<lambda>(h, l). Inr (u\<lparr>tnodes := h, sleep_que := l\<rparr>)))
      (list_sorted_push (wake u) (tnodes u) (sleep_que u) ?c)"
    by (simp only: thread_sleep_begin_def Let_def v_def [symmetric] vc u_def [symmetric] u(3))
  then have eq: "thread_sleep_begin time s = Some (Inr ?s)" using r by simp
  have q'': "queues_ok T ?s Q (insert_le (wake u) ?c S) Z" using q' c by (simp add: insert_absorb)
  have "sched_inv T ?s"
    by (rule sched_inv_keep [OF inv q'']) (use i(1-4) c nr in \<open>auto simp: u\<close>)
  then show ?thesis using q'' eq by (intro exI [of _ ?s]) (simp add: u)
qed

lemma reaper_add_spec:
  assumes inv: "sched_inv T s" and q: "queues_ok T s Q S Z"
    and run: "status s (cur_thread s) = RUNNING" and nr: "cur_thread s \<noteq> reaper s"
  defines "s' \<equiv> reaper_add (cur_thread s) s"
  shows "sched_inv T s'"
    and "queues_ok T s' (if status s (reaper s) = RUNNABLE then Q else Q @ [reaper s]) S (Z @ [cur_thread s])"
    and "cur_thread s' = cur_thread s" "idle_thread s' = idle_thread s" "reaper s' = reaper s" "ticks s' = ticks s"
    and "\<And>t. wake s' t = wake s t"
    and "\<And>t. status s' t = (if t = cur_thread s then ZOMBIE else if t = reaper s then RUNNABLE else status s t)"
proof -
  let ?c = "cur_thread s" and ?r = "reaper s"
  note i = sched_invD [OF inv]
  have c: "?c \<in> T" using i(2,5) run by auto
  have nrun: "status s ?r \<noteq> RUNNING" using i(3,7) nr by auto
  obtain h l where hl: "list_push_back (tnodes s) (zombie_que s) ?c = (h, l)" by fastforce
  define u where "u = (set_status ?c ZOMBIE s)\<lparr>tnodes := h, zombie_que := l\<rparr>"
  have u: "status u t = (if t = ?c then ZOMBIE else status s t)" "wake u t = wake s t"
    "cur_thread u = ?c" "idle_thread u = idle_thread s" "reaper u = ?r" "ticks u = ticks s" for t
    by (simp_all add: u_def)
  have s': "s' = (if status s ?r \<noteq> RUNNABLE then thread_ready ?r u else u)"
    using nr by (simp add: s'_def reaper_add_def Let_def hl u_def)
  show flds: "cur_thread s' = cur_thread s" "idle_thread s' = idle_thread s" "reaper s' = reaper s"
    "ticks s' = ticks s" "\<And>t. wake s' t = wake s t"
    by (simp_all add: s' u)
  show st: "status s' t = (if t = ?c then ZOMBIE else if t = ?r then RUNNABLE else status s t)" for t
    using nr by (auto simp: s' u)
  have "queues_ok (T - {?c}) s Q S Z"
    by (rule queues_ok_drop [OF q]) (simp_all add: queues_okD(4-6) [OF q] run)
  from zombie_queues [OF this _ hl] have qu: "queues_ok T u Q S (Z @ [?c])"
    using c by (simp add: u_def insert_absorb)
  show q': "queues_ok T s' (if status s ?r = RUNNABLE then Q else Q @ [?r]) S (Z @ [?c])"
  proof (cases "status s ?r = RUNNABLE")
    case False
    have "queues_ok (T - {?r}) u Q S (Z @ [?c])"
      using False i(3,4) nr by (intro queues_ok_drop [OF qu]) (simp_all only: queues_okD(4-6) [OF qu] u, auto)
    from ready_queues [OF this, of ?r] False i(3) show ?thesis by (simp add: s' insert_absorb)
  qed (simp add: s' qu)
  show "sched_inv T s'"
    by (rule sched_inv_keep [OF inv q']) (use i(1-4) c nr in \<open>auto simp: st flds\<close>)
qed

lemma spawn_spec:
  assumes inv: "sched_inv T s" and q: "queues_ok T s Q S Z" and t: "t \<notin> T" "t \<noteq> idle_thread s"
  shows "sched_inv (insert t T) (thread_ready t s)" and "queues_ok (insert t T) (thread_ready t s) (Q @ [t]) S Z"
proof -
  note i = sched_invD [OF inv]
  show q': "queues_ok (insert t T) (thread_ready t s) (Q @ [t]) S Z" by (rule ready_queues [OF q t(1)])
  show "sched_inv (insert t T) (thread_ready t s)"
    by (rule sched_inv_keep [OF inv q']) (use i(1-4) t in auto)
qed

lemma reaper_iter_spec:
  assumes inv: "sched_inv T s" and q: "queues_ok T s Q S Z"
    and run: "cur_thread s = reaper s" "status s (reaper s) = RUNNING"
  shows "case Z of
      [] \<Rightarrow> \<exists>s'. reaper_iter s = Inr (None, s') \<and> sched_inv T s' \<and> queues_ok T s' Q S [] \<and>
              status s' (reaper s) = SLEEPING \<and> cur_thread s' = cur_thread s
    | z # Z' \<Rightarrow> \<exists>s'. reaper_iter s = Inr (Some z, s') \<and> z \<in> T \<and> status s z = ZOMBIE \<and>
              sched_inv (T - {z}) s' \<and> queues_ok (T - {z}) s' Q S Z' \<and> cur_thread s' = cur_thread s"
proof (cases Z)
  case Nil
  then have "dl_head (zombie_que s) = None" using tq.lq_first [OF queues_okD(3) [OF q]] by simp
  then have eq: "reaper_iter s = Inr (None, set_status (reaper s) SLEEPING s)" by (simp add: reaper_iter_def)
  note i = sched_invD [OF inv]
  have "queues_ok (T - {reaper s}) s Q S []"
    using q Nil run by (intro queues_ok_drop) (simp_all add: queues_okD(4-6) [OF q])
  then have "queues_ok (T - {reaper s}) (set_status (reaper s) SLEEPING s) Q S []"
    by (rule queues_ok_cong) simp_all
  then have q': "queues_ok T (set_status (reaper s) SLEEPING s) Q S []"
    by (rule queues_ok_dozing) simp_all
  have "sched_inv T (set_status (reaper s) SLEEPING s)"
    by (rule sched_inv_keep [OF inv q']) (use i(1-4) run in auto)
  with Nil eq q' show ?thesis by simp
next
  case (Cons z Z')
  then have hd: "dl_head (zombie_que s) = Some z" using tq.lq_first [OF queues_okD(3) [OF q]] by simp
  from pop_zombie_queues [OF q [unfolded Cons]] obtain h l where
    r: "list_pop_front (tnodes s) (zombie_que s) = Inr (h, l, z)" "z \<in> T"
    "queues_ok (T - {z}) (s\<lparr>tnodes := h, zombie_que := l\<rparr>) Q S Z'" by blast
  note i = sched_invD [OF inv]
  have z: "status s z = ZOMBIE" using queues_okD(6) [OF q, of z] Cons by simp
  let ?s = "s\<lparr>tnodes := h, zombie_que := l\<rparr>"
  have "sched_inv (T - {z}) ?s"
    by (rule sched_inv_keep [OF inv r(3)]) (use i(1-4) run z in auto)
  with r z Cons hd show ?thesis by (simp add: reaper_iter_def)
qed

lemma ticked_spec:
  assumes inv: "sched_inv T s" and q: "queues_ok T s Q S Z"
  defines "now \<equiv> ticks s + ucast (tick_rate s)"
  defines "W \<equiv> takeWhile (\<lambda>t. wake s t \<le> now) S"
  shows "\<exists>v. wake_up_threads (s\<lparr>ticks := now\<rparr>) = Some (Inr v) \<and> sched_inv T v \<and>
    queues_ok T v (Q @ W) (dropWhile (\<lambda>t. wake s t \<le> now) S) Z \<and>
    cur_thread v = cur_thread s \<and> idle_thread v = idle_thread s \<and> reaper v = reaper s \<and> ticks v = now \<and>
    (\<forall>t. wake v t = wake s t) \<and> ready_after v (Q @ W) = ready_after s (Q @ W)"
proof -
  note i = sched_invD [OF inv]
  let ?u = "s\<lparr>ticks := now\<rparr>"
  have qu: "queues_ok T ?u Q S Z" by (rule queues_ok_cong [OF q]) simp_all
  from wake_up_threads_spec [OF qu] obtain v where
    v: "wake_up_threads ?u = Some (Inr v)" "same_roles ?u v"
    "queues_ok T v (Q @ W) (dropWhile (\<lambda>t. wake s t \<le> now) S) Z"
    "\<And>t. status v t = (if t \<in> set W then RUNNABLE else status s t)"
    by (auto simp: W_def)
  have roles: "cur_thread v = cur_thread s" "idle_thread v = idle_thread s" "reaper v = reaper s" "ticks v = now"
    "\<And>t. wake v t = wake s t" using v(2) by (auto simp: same_roles_def)
  have slp: "t \<in> T \<and> status s t = SLEEPING \<and> t \<noteq> reaper s" if "t \<in> set W" for t
    using set_takeWhileD [OF that [unfolded W_def]] queues_okD(5) [OF q, of t] by simp
  have "sched_inv T v"
  proof (rule sched_invI [OF _ _ _ _ _ _ _ v(3)], unfold roles)
    show "status v (idle_thread s) = IDLE" "status v (reaper s) \<noteq> ZOMBIE"
      using i(1,2,4) slp by (auto simp: v(4))
    show "status v t \<noteq> IDLE" if "t \<in> T" for t using i(6) [OF that] by (simp add: v(4))
    show "t = cur_thread s" if "t \<in> T" "status v t = RUNNING" for t
      using that i(7) [OF that(1)] by (auto simp: v(4) split: if_splits)
  qed (use i in auto)
  moreover have "ready_after v (Q @ W) = ready_after s (Q @ W)"
    using slp [of "cur_thread s"] by (auto simp: ready_after_def roles v(4))
  ultimately show ?thesis using v(1,3) roles by blast
qed

lemma timer_spec:
  assumes inv: "sched_inv T s" and q: "queues_ok T s Q S Z"
  defines "now \<equiv> ticks s + ucast (tick_rate s)"
  defines "R \<equiv> Q @ takeWhile (\<lambda>t. wake s t \<le> now) S"
  shows "\<exists>s'. timer esp s = Some (Inr s') \<and> sched_inv T s' \<and>
    queues_ok T s' (tl (ready_after s R)) (dropWhile (\<lambda>t. wake s t \<le> now) S) Z \<and>
    cur_thread s' = next_of s (ready_after s R) \<and> ticks s' = now \<and> (\<forall>t. wake s' t = wake s t) \<and>
    (cur_thread s' = idle_thread s \<or> status s' (cur_thread s') = RUNNING) \<and> reaper s' = reaper s \<and>
    idle_thread s' = idle_thread s"
proof -
  from ticked_spec [OF inv q, folded now_def, folded R_def] obtain v where
    v: "wake_up_threads (s\<lparr>ticks := now\<rparr>) = Some (Inr v)" "sched_inv T v"
    "queues_ok T v R (dropWhile (\<lambda>t. wake s t \<le> now) S) Z" "ready_after v R = ready_after s R"
    and roles: "cur_thread v = cur_thread s" "idle_thread v = idle_thread s" "reaper v = reaper s" "ticks v = now"
    "\<And>t. wake v t = wake s t" by blast
  from scheduler_spec [OF v(2,3), of esp] obtain s' where
    s': "scheduler esp v = Inr s'" "sched_inv T s'"
    "queues_ok T s' (tl (ready_after v R)) (dropWhile (\<lambda>t. wake s t \<le> now) S) Z"
    "cur_thread s' = next_of v (ready_after v R)" "ticks s' = now" "\<forall>t. wake s' t = wake s t"
    "cur_thread s' = idle_thread s \<or> status s' (cur_thread s') = RUNNING" "reaper s' = reaper s"
    "idle_thread s' = idle_thread s"
    using roles by auto
  with v(1,4) show ?thesis by (simp add: timer_def now_def [symmetric] next_of_def roles)
qed

section \<open>Transitions\<close>

text \<open>
  \<open>kstep d (T, s) (T', s')\<close>: one atomic section takes the kernel from worker threads \<open>T\<close> and state
  \<open>s\<close> to \<open>T'\<close> and \<open>s'\<close>; the flag says whether it dispatched, that is, ran \<open>scheduler\<close>. Sleeping
  and exiting apply to the current thread while it runs and is neither the idle thread nor
  the reaper; the iterations of \<open>reaper_main\<close> run as the reaper.
\<close>

inductive kstep :: "bool \<Rightarrow> u32 set \<times> sched \<Rightarrow> u32 set \<times> sched \<Rightarrow> bool" where
  tick: "timer esp s = Some (Inr s') \<Longrightarrow> kstep True (T, s) (T, s')"
| dispatch: "scheduler esp s = Inr s' \<Longrightarrow> kstep True (T, s) (T, s')"
| sleep: "status s (cur_thread s) = RUNNING \<Longrightarrow> cur_thread s \<noteq> reaper s \<Longrightarrow>
    thread_sleep_begin time s = Some (Inr s') \<Longrightarrow> kstep False (T, s) (T, s')"
| exit: "status s (cur_thread s) = RUNNING \<Longrightarrow> cur_thread s \<noteq> reaper s \<Longrightarrow>
    kstep False (T, s) (T, reaper_add (cur_thread s) s)"
| spawn: "t \<notin> T \<Longrightarrow> t \<noteq> idle_thread s \<Longrightarrow> kstep False (T, s) (insert t T, thread_ready t s)"
| reap: "cur_thread s = reaper s \<Longrightarrow> status s (reaper s) = RUNNING \<Longrightarrow>
    reaper_iter s = Inr (Some z, s') \<Longrightarrow> kstep False (T, s) (T - {z}, s')"
| doze: "cur_thread s = reaper s \<Longrightarrow> status s (reaper s) = RUNNING \<Longrightarrow>
    reaper_iter s = Inr (None, s') \<Longrightarrow> kstep False (T, s) (T, s')"

inductive krun :: "nat \<Rightarrow> u32 set \<times> sched \<Rightarrow> u32 set \<times> sched \<Rightarrow> bool" where
  none: "krun 0 c c"
| more: "krun n c c' \<Longrightarrow> kstep d c' c'' \<Longrightarrow> krun (n + (if d then 1 else 0)) c c''"

text \<open>
  What a step does to the ready queue: a dispatch removes its first thread and runs it, and
  threads are only ever added at the end.
\<close>

lemma kstep_spec:
  assumes "kstep d (T, s) (T', s')" and inv: "sched_inv T s" and q: "queues_ok T s Q S Z"
  shows "sched_inv T' s' \<and> (\<exists>A S' Z'. queues_ok T' s' (if d then tl (Q @ A) else Q @ A) S' Z' \<and>
    (d \<longrightarrow> cur_thread s' = next_of s (Q @ A) \<and>
          (cur_thread s' = idle_thread s \<or> status s' (cur_thread s') = RUNNING)) \<and>
    (\<forall>z\<in>set Z. z \<in> set Z' \<or> T' = T - {z}))"
proof -
  have keep: ?thesis if "\<not> d" "sched_inv T' s'" "queues_ok T' s' (Q @ A) S' Z'"
    "\<forall>z\<in>set Z. z \<in> set Z' \<or> T' = T - {z}" for A S' Z'
    using that by auto
  from assms(1) show ?thesis
  proof (cases rule: kstep.cases)
  case (tick esp)
  let ?W = "takeWhile (\<lambda>t. wake s t \<le> ticks s + ucast (tick_rate s)) S"
  define A where "A = ?W @ (if status s (cur_thread s) = RUNNING then [cur_thread s] else [])"
  have eq: "ready_after s (Q @ ?W) = Q @ A" by (simp add: ready_after_def A_def)
  obtain S' where "sched_inv T s'" "queues_ok T s' (tl (Q @ A)) S' Z" "cur_thread s' = next_of s (Q @ A)"
    "cur_thread s' = idle_thread s \<or> status s' (cur_thread s') = RUNNING"
    using timer_spec [OF inv q, of esp] tick(3) unfolding eq by auto
  with tick(1,2) show ?thesis by auto
next
  case (dispatch esp)
  define A where "A = (if status s (cur_thread s) = RUNNING then [cur_thread s] else [])"
  have eq: "ready_after s Q = Q @ A" by (simp add: ready_after_def A_def)
  have "sched_inv T s'" "queues_ok T s' (tl (Q @ A)) S Z" "cur_thread s' = next_of s (Q @ A)"
    "cur_thread s' = idle_thread s \<or> status s' (cur_thread s') = RUNNING"
    using scheduler_spec [OF inv q, of esp] dispatch(3) unfolding eq by auto
  with dispatch(1,2) show ?thesis by auto
next
  case (sleep time)
  with thread_sleep_spec [OF inv q, of time] have "sched_inv T s'" "queues_ok T s' Q (insert_le (wake s') (cur_thread s) S) Z"
    by auto
  with sleep(1,2) keep [of "[]"] show ?thesis by simp
next
  case exit
  define A where "A = (if status s (reaper s) = RUNNABLE then [] else [reaper s])"
  have eq: "(if status s (reaper s) = RUNNABLE then Q else Q @ [reaper s]) = Q @ A" by (simp add: A_def)
  note r = reaper_add_spec(1,2) [OF inv q exit(4,5), unfolded eq, folded exit(3)]
  show ?thesis by (rule keep [of A S "Z @ [cur_thread s]"]) (use r exit(1,2) in simp_all)
next
  case (spawn t)
  with spawn_spec [OF inv q spawn(4,5)] keep [of "[t]"] show ?thesis by simp
next
  case (reap z)
  note rs = reaper_iter_spec [OF inv q reap(3,4)]
  show ?thesis
  proof (cases Z)
    case Nil
    with rs reap(5) show ?thesis by simp
  next
    case (Cons y Z')
    with rs reap(5) have r: "y = z" "sched_inv (T - {z}) s'" "queues_ok (T - {z}) s' Q S Z'" by auto
    show ?thesis by (rule keep [of "[]" S Z']) (simp_all add: reap(1,2) r Cons)
  qed
next
  case doze
  from reaper_iter_spec [OF inv q doze(3,4)] have "sched_inv T s'" "queues_ok T s' Q S []" "Z = []"
    by (cases Z; simp add: doze(5))+
  with doze(1,2) keep [of "[]"] show ?thesis by simp
  qed
qed

lemma krun_inv:
  assumes "krun n c c'" and "sched_inv (fst c) (snd c)"
  shows "sched_inv (fst c') (snd c')"
  using assms
proof induction
  case (more n c c' d c'')
  then have i: "sched_inv (fst c') (snd c')" by simp
  then obtain Q S Z where "queues_ok (fst c') (snd c') Q S Z" using sched_invD(8) by blast
  with kstep_spec [of d "fst c'" "snd c'" "fst c''" "snd c''"] more.hyps(2) i show ?case by simp
qed

text \<open>The ready queue is served in order.\<close>

lemma krun_ready:
  assumes "krun n c c'" and "sched_inv (fst c) (snd c)" and "queues_ok (fst c) (snd c) (as @ t # bs) S Z"
    and "n \<le> length as"
  shows "\<exists>bs' S' Z'. queues_ok (fst c') (snd c') (drop n as @ t # bs') S' Z'"
  using assms
proof (induction arbitrary: S Z)
  case (none c)
  then show ?case by auto
next
  case (more n c c' d c'')
  then obtain bs' S' Z' where q: "queues_ok (fst c') (snd c') (drop n as @ t # bs') S' Z'" by fastforce
  have i: "sched_inv (fst c') (snd c')" using krun_inv [OF more.hyps(1) more.prems(1)] .
  from kstep_spec [of d "fst c'" "snd c'" "fst c''" "snd c''", OF _ i q] more.hyps(2) obtain A S'' Z'' where
    q': "queues_ok (fst c'') (snd c'') (if d then tl ((drop n as @ t # bs') @ A) else (drop n as @ t # bs') @ A) S'' Z''"
    by auto
  show ?case
  proof (cases d)
    case False
    with q' show ?thesis by auto
  next
    case True
    then have "n < length as" using more.prems(3) by simp
    then have "drop n as = as ! n # drop (Suc n) as" by (simp add: Cons_nth_drop_Suc)
    with q' True show ?thesis by auto
  qed
qed

end
