(* ===== verification/Reaper_Race.thy ===== *)
theory Reaper_Race
  imports Queue
begin

text \<open>
  \<open>reaper_main\<close> leaves its critical section before it calls \<open>list_pop_front\<close> on the zombie queue,
  so a timer interrupt can switch to another thread in the middle of that call. This theory cuts
  \<open>list_pop_front\<close> in two at the point behind its conditional (\<open>sched/queue.c\<close>, line 27) and
  shows what an exit of another thread at that point does.
\<close>

definition list_pop_front_begin :: "'p nodes \<Rightarrow> 'p dllist \<Rightarrow> ('p nodes \<times> 'p dllist \<times> 'p) res" where
  "list_pop_front_begin h l =
     (case dl_head l of
        None \<Rightarrow> Inl (Panic (''Underflow'' @ [CHR 0x0A]))
      | Some node \<Rightarrow>
          if dl_head l \<noteq> dl_tail l
          then bnd (deref (nxt (h node))) (\<lambda>n. Inr (h(n := (h n)\<lparr>prv := None\<rparr>), l, node))
          else Inr (h, l\<lparr>dl_tail := None\<rparr>, node))"

definition list_pop_front_end :: "'p nodes \<Rightarrow> 'p dllist \<Rightarrow> 'p \<Rightarrow> 'p nodes \<times> 'p dllist \<times> 'p" where
  "list_pop_front_end h l node =
     (let l = l\<lparr>dl_head := nxt (h node)\<rparr>;
          h = h(node := (h node)\<lparr>nxt := None\<rparr>)
      in (h, l\<lparr>dl_size := dl_size l - 1\<rparr>, node))"

text \<open>The two halves in sequence are the routine.\<close>

lemma list_pop_front_split:
  "list_pop_front h l = bnd (list_pop_front_begin h l) (\<lambda>(h, l, node). Inr (list_pop_front_end h l node))"
  by (simp add: list_pop_front_def list_pop_front_begin_def list_pop_front_end_def Let_def bnd_assoc
      split: option.splits)

text \<open>A queue with a tail but no head stays without a head under every further push.\<close>

lemma headless_push:
  assumes "dl_head l = None" and "dl_tail l \<noteq> None" and "list_push_back h l x = (h', l')"
  shows "dl_head l' = None" and "dl_tail l' \<noteq> None"
  using assms by (auto simp: list_push_back_def Let_def)

fun push_all :: "'p nodes \<Rightarrow> 'p dllist \<Rightarrow> 'p list \<Rightarrow> 'p nodes \<times> 'p dllist" where
  "push_all h l [] = (h, l)"
| "push_all h l (x # xs) = (let (h, l) = list_push_back h l x in push_all h l xs)"

lemma headless_push_all:
  "dl_head l = None \<Longrightarrow> dl_tail l \<noteq> None \<Longrightarrow> dl_head (snd (push_all h l xs)) = None"
proof (induction xs arbitrary: h l)
  case (Cons x xs)
  obtain h' l' where r: "list_push_back h l x = (h', l')" by fastforce
  from headless_push [OF Cons.prems r] Cons.IH [of l' h'] r show ?case by simp
qed simp

text \<open>
  C16: the unprotected pop of the reaper loses threads. If the zombie queue holds one thread, the
  reaper is interrupted in the middle of taking it out, and another thread exits meanwhile, the
  queue is left with a tail but no head: the second thread, and every thread that exits later,
  is never seen by the reaper again.
\<close>

theorem reaper_pop_race:
  assumes "dlq h l [z]" and "y \<noteq> z"
    and "list_pop_front_begin h l = Inr (h1, l1, z)" and "list_push_back h1 l1 y = (h2, l2)"
    and "list_pop_front_end h2 l2 z = (h3, l3, z)"
  shows "dl_head l3 = None \<and> dl_tail l3 = Some y \<and> dl_size l3 = 1 \<and>
    dl_head (snd (push_all h3 l3 xs)) = None"
proof -
  have l1: "h1 = h" "l1 = l\<lparr>dl_tail := None\<rparr>" "nxt (h z) = None" "dl_size l = 1"
    using assms(1,3) by (auto simp: dlq_def list_pop_front_begin_def)
  then have l2: "nxt (h2 z) = None" "dl_tail l2 = Some y" "dl_size l2 = 2"
    using assms(2,4) by (auto simp: list_push_back_def)
  then have "dl_head l3 = None" "dl_tail l3 = Some y" "dl_size l3 = 1"
    using assms(5) by (auto simp: list_pop_front_end_def Let_def)
  with headless_push_all [of l3 h3 xs] show ?thesis by simp
qed

definition one_zombie :: "nat dllist" where
  "one_zombie = \<lparr>dl_head = Some 1, dl_tail = Some 1, dl_size = 1\<rparr>"

theorem reaper_pop_race_witness:
  "\<exists>h1 l1 h2 l2 h3 l3. dlq (\<lambda>_. \<lparr>nxt = None, prv = None\<rparr>) one_zombie [1] \<and>
     list_pop_front_begin (\<lambda>_. \<lparr>nxt = None, prv = None\<rparr>) one_zombie = Inr (h1, l1, 1) \<and>
     list_push_back h1 l1 2 = (h2, l2) \<and> list_pop_front_end h2 l2 1 = (h3, l3, 1) \<and>
     dl_head (snd (push_all h3 l3 [3, 4])) = None"
proof -
  let ?h = "\<lambda>_. \<lparr>nxt = None, prv = None\<rparr>"
  have q: "dlq ?h one_zombie [1]" by (simp add: dlq_def one_zombie_def)
  have b: "list_pop_front_begin ?h one_zombie = Inr (?h, one_zombie\<lparr>dl_tail := None\<rparr>, 1)"
    by (simp add: list_pop_front_begin_def one_zombie_def)
  obtain h2 l2 where p: "list_push_back ?h (one_zombie\<lparr>dl_tail := None\<rparr>) 2 = (h2, l2)" by fastforce
  obtain h3 l3 where e: "list_pop_front_end h2 l2 1 = (h3, l3, 1)"
    by (simp add: list_pop_front_end_def Let_def)
  from reaper_pop_race [OF q _ b p e, of "[3, 4]"] q b p e show ?thesis by auto
qed

end
