(* ===== verification/Sched_Split.thy ===== *)
theory Sched_Split
  imports Sched_Run Reaper_Race
begin

text \<open>
  The reaper as it is written. \<open>reaper_main\<close> tests the zombie queue in a critical section and calls
  \<open>list_pop_front\<close> behind it, with interrupts enabled, so other threads can run between the two and in
  the middle of the removal. Here the three are separate steps. When a thread exits in the middle of
  the removal the zombie queue is corrupted (\<open>Reaper_Race\<close>), so the runs considered here are those in
  which none does; all other interleavings are allowed. Such a run refines one of \<open>Sched_Run\<close>, where the
  removal is a single step: the state seen with the removal completed goes through a run of that
  system (\<open>rstep_refines\<close>).
\<close>

section \<open>Steps\<close>

datatype reap_phase = Outside | Tested | Popping u32

text \<open>The critical section of \<open>reaper_main\<close>.\<close>

definition reaper_test :: "sched \<Rightarrow> bool \<times> sched" where
  "reaper_test s = (if dl_head (zombie_que s) \<noteq> None then (True, s) else (False, set_status (reaper s) SLEEPING s))"

text \<open>\<open>list_pop_front(&zombie_que)\<close> up to the end of its conditional, and the rest.\<close>

definition reaper_pop_begin :: "sched \<Rightarrow> (u32 \<times> sched) res" where
  "reaper_pop_begin s = bnd (list_pop_front_begin (tnodes s) (zombie_que s)) (\<lambda>(h, l, z). Inr (z, s\<lparr>tnodes := h, zombie_que := l\<rparr>))"

definition reaper_pop_end :: "u32 \<Rightarrow> sched \<Rightarrow> sched" where
  "reaper_pop_end z s = (let (h, l, _) = list_pop_front_end (tnodes s) (zombie_que s) z in s\<lparr>tnodes := h, zombie_que := l\<rparr>)"

inductive rstep :: "u32 set \<times> sched \<times> reap_phase \<Rightarrow> u32 set \<times> sched \<times> reap_phase \<Rightarrow> bool" where
  tick: "timer esp s = Some (Inr s') \<Longrightarrow> rstep (T, s, p) (T, s', p)"
| dispatch: "scheduler esp s = Inr s' \<Longrightarrow> rstep (T, s, p) (T, s', p)"
| sleep: "status s (cur_thread s) = RUNNING \<Longrightarrow> cur_thread s \<noteq> reaper s \<Longrightarrow>
    thread_sleep_begin time s = Some (Inr s') \<Longrightarrow> rstep (T, s, p) (T, s', p)"
| exit: "status s (cur_thread s) = RUNNING \<Longrightarrow> cur_thread s \<noteq> reaper s \<Longrightarrow> \<forall>z. p \<noteq> Popping z \<Longrightarrow>
    rstep (T, s, p) (T, reaper_add (cur_thread s) s, p)"
| spawn: "t \<notin> T \<Longrightarrow> t \<noteq> idle_thread s \<Longrightarrow> rstep (T, s, p) (insert t T, thread_ready t s, p)"
| test: "cur_thread s = reaper s \<Longrightarrow> status s (reaper s) = RUNNING \<Longrightarrow> reaper_test s = (True, s') \<Longrightarrow>
    rstep (T, s, Outside) (T, s', Tested)"
| doze: "cur_thread s = reaper s \<Longrightarrow> status s (reaper s) = RUNNING \<Longrightarrow> reaper_test s = (False, s') \<Longrightarrow>
    rstep (T, s, Outside) (T, s', Outside)"
| pop_begin: "cur_thread s = reaper s \<Longrightarrow> status s (reaper s) = RUNNING \<Longrightarrow> reaper_pop_begin s = Inr (z, s') \<Longrightarrow>
    rstep (T, s, Tested) (T, s', Popping z)"
| pop_end: "cur_thread s = reaper s \<Longrightarrow> status s (reaper s) = RUNNING \<Longrightarrow>
    rstep (T, s, Popping z) (T - {z}, reaper_pop_end z s, Outside)"

text \<open>The state with the removal completed, and the invariant.\<close>

fun completed :: "u32 set \<times> sched \<times> reap_phase \<Rightarrow> u32 set \<times> sched" where
  "completed (T, s, Popping z) = (T - {z}, reaper_pop_end z s)"
| "completed (T, s, _) = (T, s)"

definition split_inv :: "u32 set \<times> sched \<times> reap_phase \<Rightarrow> bool" where
  "split_inv c \<longleftrightarrow> sched_inv (fst (completed c)) (snd (completed c)) \<and>
     (case c of (T, s, p) \<Rightarrow> (p = Tested \<longrightarrow> dl_head (zombie_que s) \<noteq> None) \<and>
        (\<forall>z. p = Popping z \<longrightarrow> z \<in> T \<and> z \<noteq> idle_thread s))"

section \<open>Operations that do not touch a node\<close>

text \<open>The scheduler's operations neither read nor write the node of a thread outside their queues and
  the zombie queue.\<close>

lemma push_back_patch:
  assumes "dlq h l xs" and "z \<notin> set xs" and "x \<noteq> z"
  shows "list_push_back (h(z := n)) l x = (case list_push_back h l x of (h', l') \<Rightarrow> (h'(z := n), l'))"
proof (cases xs rule: rev_cases)
  case Nil
  with assms show ?thesis by (simp add: dlq_def list_push_back_def Let_def fun_upd_twist)
next
  case (snoc ys y)
  with assms have "dl_tail l = Some y" "y \<noteq> z" by (auto simp: dlq_def)
  with assms(3) show ?thesis by (auto simp: list_push_back_def Let_def)
qed

lemma push_front_patch:
  assumes "dlq h l xs" and "z \<notin> set xs" and "x \<noteq> z"
  shows "list_push_front (h(z := n)) l x = (case list_push_front h l x of (h', l') \<Rightarrow> (h'(z := n), l'))"
proof (cases xs)
  case Nil
  with assms show ?thesis by (simp add: dlq_def list_push_front_def Let_def fun_upd_twist)
next
  case (Cons y ys)
  with assms have "dl_head l = Some y" "y \<noteq> z" by (auto simp: dlq_def)
  with assms(3) show ?thesis by (auto simp: list_push_front_def Let_def)
qed

lemma pop_front_patch:
  assumes "dlq h l (x # xs)" and "z \<notin> set (x # xs)"
  shows "list_pop_front (h(z := n)) l = bnd (list_pop_front h l) (\<lambda>(h', l', y). Inr (h'(z := n), l', y))"
proof (cases xs)
  case Nil
  with assms show ?thesis by (auto simp: dlq_def list_pop_front_def Let_def fun_upd_twist)
next
  case (Cons y ys)
  with assms have "dl_head l = Some x" "nxt (h x) = Some y" "x \<noteq> z" "y \<noteq> z" "x \<noteq> y" by (auto simp: dlq_def)
  then show ?thesis by (auto simp: list_pop_front_def Let_def)
qed

lemma sorted_push_patch:
  assumes "dlq h l xs" and "z \<notin> set xs" and "x \<noteq> z" and "x \<notin> set xs"
  shows "list_sorted_push key (h(z := n)) l x =
    map_option (\<lambda>r. bnd r (\<lambda>(h', l'). Inr (h'(z := n), l'))) (list_sorted_push key h l x)"
proof -
  have q: "dlq (h(z := n)) l xs" by (rule dlq_frame [OF _ assms(1)]) (use assms(2) in auto)
  have sk: "skip_le key h (key x) (dl_head l) = Some (case dropWhile (\<lambda>y. key y \<le> key x) xs of [] \<Rightarrow> None | c # _ \<Rightarrow> Some c)"
    "skip_le key (h(z := n)) (key x) (dl_head l) = Some (case dropWhile (\<lambda>y. key y \<le> key x) xs of [] \<Rightarrow> None | c # _ \<Rightarrow> Some c)"
    using assms(1) q skip_le_dls by (auto simp: dlq_def)
  show ?thesis
  proof (cases "dropWhile (\<lambda>y. key y \<le> key x) xs")
    case Nil
    with sk push_back_patch [OF assms(1-3), of n] show ?thesis by (simp add: list_sorted_push_def split_def)
  next
    case (Cons c cs)
    obtain as where xs: "xs = as @ c # cs" using Cons takeWhile_dropWhile_id [of "\<lambda>y. key y \<le> key x" xs] by metis
    show ?thesis
    proof (cases "dl_head l = Some c")
      case True
      with sk Cons push_front_patch [OF assms(1-3), of n] show ?thesis by (simp add: list_sorted_push_def split_def)
    next
      case False
      then obtain bs y where as: "as = bs @ [y]" using assms(1) xs by (cases as rule: rev_cases) (auto simp: dlq_def)
      have n: "prv (h c) = Some y" "c \<noteq> z" "y \<noteq> z" "c \<noteq> x" "y \<noteq> x" using assms xs as by (auto simp: dlq_def dls_append)
      with sk Cons False assms(3) show ?thesis by (auto simp: list_sorted_push_def Let_def fun_upd_twist)
    qed
  qed
qed

definition patch :: "u32 \<Rightarrow> u32 node \<Rightarrow> u32 dllist \<Rightarrow> sched \<Rightarrow> sched" where
  "patch z n l s = s\<lparr>tnodes := (tnodes s)(z := n), zombie_que := l\<rparr>"

lemma patch_simps [simp]:
  "threads (patch z n l s) = threads s" "tnodes (patch z n l s) = (tnodes s)(z := n)" "que (patch z n l s) = que s"
  "sleep_que (patch z n l s) = sleep_que s" "zombie_que (patch z n l s) = l" "cur_thread (patch z n l s) = cur_thread s"
  "idle_thread (patch z n l s) = idle_thread s" "reaper (patch z n l s) = reaper s" "ticks (patch z n l s) = ticks s"
  "tick_rate (patch z n l s) = tick_rate s" "cr3 (patch z n l s) = cr3 s" "tss_esp0 (patch z n l s) = tss_esp0 s"
  "sp (patch z n l s) = sp s"
  by (simp_all add: patch_def)

lemma patch_same: "patch z (tnodes s z) (zombie_que s) s = s"
  by (simp add: patch_def)

lemma thread_ready_patch:
  assumes "dlq (tnodes s) (que s) Q" and "z \<notin> set Q" and "t \<noteq> z"
  shows "thread_ready t (patch z n l s) = patch z n l (thread_ready t s)"
  using push_back_patch [OF assms, of n]
  by (simp add: thread_ready_def Let_def set_status_def patch_def split_def)

lemma get_next_patch:
  assumes "dlq (tnodes s) (que s) Q" and "z \<notin> set Q"
  shows "get_next_thread (patch z n l s) = bnd (get_next_thread s) (\<lambda>(t, s). Inr (t, patch z n l s))"
proof (cases Q)
  case Nil
  then have "dl_head (que s) = None" using assms(1) by (simp add: dlq_def)
  then show ?thesis by (simp add: get_next_thread_def)
next
  case (Cons x xs)
  then have "dl_head (que s) = Some x" using assms(1) by (simp add: dlq_def)
  moreover obtain h' l' where "list_pop_front (tnodes s) (que s) = Inr (h', l', x)"
    using pop_front_dlq [OF assms(1) [unfolded Cons]] by metis
  ultimately show ?thesis using pop_front_patch [OF assms(1) [unfolded Cons], of z n] assms(2) Cons
    by (simp add: get_next_thread_def patch_def)
qed

lemma wake_up_patch:
  assumes "queues_ok T s Q S Z" and "z \<notin> T"
  shows "wake_up_threads (patch z n l s) = map_option (\<lambda>r. bnd r (\<lambda>s. Inr (patch z n l s))) (wake_up_threads s)"
  using assms
proof (induction S arbitrary: s Q T)
  case Nil
  then have "dl_head (sleep_que s) = None" using tq.lq_first [OF queues_okD(2)] by simp
  then show ?case by (simp add: wake_up_threads.simps)
next
  case (Cons t S)
  note d = queues_okD(2) [OF Cons.prems(1)]
  have hd: "dl_head (sleep_que s) = Some t" using tq.lq_first [OF d] by simp
  show ?case
  proof (cases "wake s t \<le> ticks s")
    case False
    with hd show ?thesis by (simp add: wake_up_threads.simps)
  next
    case True
    from pop_sleep_queues [OF Cons.prems(1)] obtain h k where
      r: "list_pop_front (tnodes s) (sleep_que s) = Inr (h, k, t)" and t: "t \<in> T"
      and q: "queues_ok (T - {t}) (s\<lparr>tnodes := h, sleep_que := k\<rparr>) Q S Z" by blast
    let ?u = "s\<lparr>tnodes := h, sleep_que := k\<rparr>"
    have z: "z \<notin> set (t # S)" "z \<notin> set Q" "t \<noteq> z"
      using Cons.prems t queues_ok_disjoint(4) [OF Cons.prems(1)] by auto
    have pop: "list_pop_front ((tnodes s)(z := n)) (sleep_que s) = Inr (h(z := n), k, t)"
      using pop_front_patch [OF d z(1), of n] r by simp
    have pu: "(patch z n l s)\<lparr>tnodes := h(z := n), sleep_que := k\<rparr> = patch z n l ?u" by (simp add: patch_def)
    have rd: "thread_ready t (patch z n l ?u) = patch z n l (thread_ready t ?u)"
      by (rule thread_ready_patch [OF queues_okD(1) [OF q] z(2,3)])
    have "queues_ok T (thread_ready t ?u) (Q @ [t]) S Z" using ready_queues [OF q, of t] t by (simp add: insert_absorb)
    from Cons.IH [OF this Cons.prems(2)] hd True r pop show ?thesis
      by (subst (1 2) wake_up_threads.simps) (simp add: u_thread_ready_eq pu rd)
  qed
qed

lemma switch_patch:
  "switch_stacks a b e (patch z n l s) = patch z n l (switch_stacks a b e s)"
  "set_status t st (patch z n l s) = patch z n l (set_status t st s)"
  "refresh_cr3 d (patch z n l s) = patch z n l (refresh_cr3 d s)"
  "(patch z n l s)\<lparr>cur_thread := c\<rparr> = patch z n l (s\<lparr>cur_thread := c\<rparr>)"
  "(patch z n l s)\<lparr>tss_esp0 := w\<rparr> = patch z n l (s\<lparr>tss_esp0 := w\<rparr>)"
  "(patch z n l s)\<lparr>ticks := k\<rparr> = patch z n l (s\<lparr>ticks := k\<rparr>)"
  by (simp_all add: patch_def switch_stacks_def save_esp_def set_status_def refresh_cr3_def Let_def)

lemma if_patch: "(if b then patch z n l s else patch z n l s') = patch z n l (if b then s else s')"
  by simp

lemma scheduler_patch:
  assumes inv: "sched_inv T s" and "z \<notin> T" and "z \<noteq> idle_thread s"
  shows "scheduler e (patch z n l s) = bnd (scheduler e s) (\<lambda>s. Inr (patch z n l s))"
proof -
  from sched_invD(8) [OF inv] obtain Q S Z where q: "queues_ok T s Q S Z" by blast
  define u where "u = (if status s (cur_thread s) = RUNNING then u_thread_ready (cur_thread s) s else s)"
  have qu: "queues_ok T u (ready_after s Q) S Z" using requeue_current(1) [OF inv q] by (simp add: u_def)
  have z: "z \<notin> set (ready_after s Q)" "z \<notin> set Q" "cur_thread s \<noteq> z"
    using assms(2,3) queues_ok_disjoint(4) [OF qu] queues_ok_disjoint(4) [OF q] sched_invD(5) [OF inv] by auto
  have pu: "(if status (patch z n l s) (cur_thread (patch z n l s)) = RUNNING
      then u_thread_ready (cur_thread (patch z n l s)) (patch z n l s) else patch z n l s) = patch z n l u"
    using thread_ready_patch [OF queues_okD(1) [OF q] z(2,3)] by (simp add: u_def u_thread_ready_eq)
  obtain x v where g: "get_next_thread u = Inr (x, v)" using get_next_thread_spec [OF qu] by blast
  then have gp: "get_next_thread (patch z n l u) = Inr (x, patch z n l v)"
    using get_next_patch [OF queues_okD(1) [OF qu] z(1)] by simp
  show ?thesis
    unfolding scheduler_def [of e "patch z n l s"] pu scheduler_def [of e s] u_def [symmetric] Let_def
    by (simp add: g gp switch_patch if_patch cong: if_cong option.case_cong)
qed

lemma timer_patch:
  assumes inv: "sched_inv T s" and z: "z \<notin> T" "z \<noteq> idle_thread s"
  shows "timer e (patch z n l s) = map_option (\<lambda>r. bnd r (\<lambda>s. Inr (patch z n l s))) (timer e s)"
proof -
  from sched_invD(8) [OF inv] obtain Q S Z where q: "queues_ok T s Q S Z" by blast
  let ?u = "s\<lparr>ticks := ticks s + ucast (tick_rate s)\<rparr>"
  have qu: "queues_ok T ?u Q S Z" by (rule queues_ok_cong [OF q]) simp_all
  from ticked_spec [OF inv q] obtain v where v: "wake_up_threads ?u = Some (Inr v)" "sched_inv T v"
    "idle_thread v = idle_thread s" by blast
  show ?thesis
    using wake_up_patch [OF qu z(1), of n l] scheduler_patch [OF v(2) z(1), of e n l] v z(2)
    by (simp add: timer_def switch_patch)
qed

definition asleep :: "u32 \<Rightarrow> sched \<Rightarrow> sched" where
  "asleep time s = set_status (cur_thread s) SLEEPING (s\<lparr>threads := (threads s)(cur_thread s :=
     (threads s (cur_thread s))\<lparr>t_wake_at := ticks s + ucast time * PIT_CRYSTAL\<rparr>)\<rparr>)"

lemma asleep_simps:
  "tnodes (asleep time s) = tnodes s" "sleep_que (asleep time s) = sleep_que s"
  "cur_thread (asleep time s) = cur_thread s" "asleep time (patch z n l s) = patch z n l (asleep time s)"
  by (simp_all add: asleep_def patch_def set_status_def)

lemma sleep_begin_asleep:
  "thread_sleep_begin time s = map_option (\<lambda>r. bnd r (\<lambda>(h, l). Inr ((asleep time s)\<lparr>tnodes := h, sleep_que := l\<rparr>)))
     (list_sorted_push (wake (asleep time s)) (tnodes s) (sleep_que s) (cur_thread s))"
proof -
  let ?v = "s\<lparr>threads := (threads s)(cur_thread s :=
     (threads s (cur_thread s))\<lparr>t_wake_at := ticks s + ucast time * PIT_CRYSTAL\<rparr>)\<rparr>"
  have "cur_thread ?v = cur_thread s" by simp
  then show ?thesis
    by (simp only: thread_sleep_begin_def Let_def asleep_def [symmetric] asleep_simps(1-3))
qed

lemma sleep_patch:
  assumes inv: "sched_inv T s" and z: "z \<notin> T" and run: "status s (cur_thread s) = RUNNING"
  shows "thread_sleep_begin time (patch z n l s) =
    map_option (\<lambda>r. bnd r (\<lambda>s. Inr (patch z n l s))) (thread_sleep_begin time s)"
proof -
  from sched_invD(8) [OF inv] obtain Q S Z where q: "queues_ok T s Q S Z" by blast
  let ?c = "cur_thread s" and ?w = "wake (asleep time s)"
  have c: "?c \<noteq> z" "?c \<notin> set S" "z \<notin> set S"
    using sched_invD(2,5) [OF inv] run z queues_okD(5) [OF q, of z] queues_okD(5) [OF q, of ?c] by auto
  from sorted_push_dlq [OF queues_okD(2) [OF q] c(2), of ?w] obtain h k where
    r: "list_sorted_push ?w (tnodes s) (sleep_que s) ?c = Some (Inr (h, k))" by blast
  then have rp: "list_sorted_push ?w ((tnodes s)(z := n)) (sleep_que s) ?c = Some (Inr (h(z := n), k))"
    using sorted_push_patch [OF queues_okD(2) [OF q] c(3,1,2), of ?w n] by simp
  show ?thesis unfolding sleep_begin_asleep asleep_simps patch_simps r rp by (simp add: patch_def)
qed

section \<open>Refinement\<close>

lemma pop_end_patch:
  "reaper_pop_end z s = patch z ((tnodes s z)\<lparr>nxt := None\<rparr>)
     ((zombie_que s)\<lparr>dl_head := nxt (tnodes s z), dl_size := dl_size (zombie_que s) - 1\<rparr>) s"
  by (simp add: reaper_pop_end_def list_pop_front_end_def patch_def Let_def)

lemma patch_patch: "patch z n l (patch z n' l' s) = patch z n l s"
  by (simp add: patch_def)

lemma pop_end_simps [simp]:
  "threads (reaper_pop_end z s) = threads s" "que (reaper_pop_end z s) = que s"
  "sleep_que (reaper_pop_end z s) = sleep_que s" "cur_thread (reaper_pop_end z s) = cur_thread s"
  "idle_thread (reaper_pop_end z s) = idle_thread s" "reaper (reaper_pop_end z s) = reaper s"
  "y \<noteq> z \<Longrightarrow> tnodes (reaper_pop_end z s) y = tnodes s y"
  by (simp_all add: pop_end_patch)

text \<open>An operation that leaves the node alone does the same before and behind the second half.\<close>

lemma pop_end_commute:
  assumes f: "\<And>n l. f (patch z n l (reaper_pop_end z s)) =
      map_option (\<lambda>r. bnd r (\<lambda>s. Inr (patch z n l s))) (f (reaper_pop_end z s))"
  shows "f s = Some (Inr s') \<Longrightarrow> f (reaper_pop_end z s) = Some (Inr (reaper_pop_end z s'))"
    and "f (reaper_pop_end z s) = Some (Inr v') \<Longrightarrow> \<exists>s'. f s = Some (Inr s')"
proof -
  let ?v = "reaper_pop_end z s" and ?n = "tnodes s z" and ?l = "zombie_que s"
  have s: "patch z ?n ?l ?v = s" by (simp add: pop_end_patch patch_patch patch_same)
  show "\<exists>s'. f s = Some (Inr s')" if "f ?v = Some (Inr v')" using f [of ?n ?l] that by (simp add: s)
  assume "f s = Some (Inr s')"
  with f [of ?n ?l] obtain v' where v: "f ?v = Some (Inr v')" and s': "s' = patch z ?n ?l v'"
    unfolding s by (cases "f ?v"; cases "the (f ?v)") auto
  from f [of "tnodes ?v z" "zombie_que ?v"] have "patch z (tnodes ?v z) (zombie_que ?v) v' = v'"
    by (simp add: patch_same v)
  then have "reaper_pop_end z s' = v'" by (simp add: s' pop_end_patch patch_patch)
  with v show "f ?v = Some (Inr (reaper_pop_end z s'))" by simp
qed

text \<open>While the reaper is in the middle of a removal, every step is one of the system in which the
  removal is complete.\<close>

lemma popping_refines:
  assumes step: "rstep (T, s, Popping z) (T', s', p')" and inv: "split_inv (T, s, Popping z)"
  shows "(\<exists>d. kstep d (T - {z}, reaper_pop_end z s) (completed (T', s', p'))) \<and> p' = Popping z \<and> idle_thread s' = idle_thread s
    \<or> T' = T - {z} \<and> s' = reaper_pop_end z s \<and> p' = Outside"
proof -
  let ?v = "reaper_pop_end z s"
  have i: "sched_inv (T - {z}) ?v" "z \<noteq> idle_thread ?v" "z \<in> T" using inv by (simp_all add: split_inv_def)
  from sched_invD(8) [OF i(1)] obtain Q S Z where q: "queues_ok (T - {z}) ?v Q S Z" by blast
  show ?thesis using step
  proof (cases rule: rstep.cases)
    case (tick esp)
    have "timer esp ?v = Some (Inr (reaper_pop_end z s'))"
      by (rule pop_end_commute(1) [of "timer esp", OF timer_patch [OF i(1) _ i(2)] tick(3)]) simp
    moreover from this timer_spec [OF i(1) q, of esp] have "idle_thread s' = idle_thread s" by auto
    ultimately show ?thesis using tick(1,2) kstep.tick [of esp ?v] by auto
  next
    case (dispatch esp)
    have "Some (scheduler esp ?v) = Some (Inr (reaper_pop_end z s'))"
      by (rule pop_end_commute(1) [of "\<lambda>s. Some (scheduler esp s)"])
        (simp_all add: scheduler_patch [OF i(1) _ i(2)] dispatch(3))
    moreover from this scheduler_spec [OF i(1) q, of esp] have "idle_thread s' = idle_thread s" by auto
    ultimately show ?thesis using dispatch(1,2) kstep.dispatch [of esp ?v] by auto
  next
    case (sleep time)
    have run: "status ?v (cur_thread ?v) = RUNNING" "cur_thread ?v \<noteq> reaper ?v" using sleep(3,4) by simp_all
    have r: "thread_sleep_begin time ?v = Some (Inr (reaper_pop_end z s'))"
      by (rule pop_end_commute(1) [of "thread_sleep_begin time", OF sleep_patch [OF i(1) _ run(1)] sleep(5)]) simp
    moreover from this thread_sleep_spec [OF i(1) q run, of time] have "idle_thread s' = idle_thread s" by auto
    ultimately show ?thesis using sleep(1,2) kstep.sleep [OF run r] by auto
  next
    case (spawn t)
    have t: "t \<noteq> z" "t \<notin> T - {z}" "t \<noteq> idle_thread ?v" "z \<notin> set Q"
      using spawn(4,5) i(3) queues_ok_disjoint(4) [OF q] by auto
    have "Some (Inr (thread_ready t ?v)) = Some (Inr (reaper_pop_end z (thread_ready t s)))"
      by (rule pop_end_commute(1) [of "\<lambda>s. Some (Inr (thread_ready t s))"])
        (simp_all add: thread_ready_patch [OF queues_okD(1) [OF q] t(4,1)])
    then have "kstep False (T - {z}, ?v) (insert t (T - {z}), reaper_pop_end z (thread_ready t s))"
      using kstep.spawn [OF t(2,3)] by simp
    moreover have "insert t (T - {z}) = insert t T - {z}" using t(1) by blast
    ultimately show ?thesis using spawn(1-3) by auto
  qed simp_all
qed

text \<open>Outside a removal the steps are those of the other system; the first half of a removal counts as
  the whole of it.\<close>

lemma zombie_head:
  assumes "queues_ok T s Q S Z"
  shows "dl_head (zombie_que s) \<noteq> None \<longleftrightarrow> Z \<noteq> []"
  using tq.lq_first [OF queues_okD(3) [OF assms]] by (cases Z) auto

lemma kept_zombies:
  assumes "kstep d (T, s) (T', s')" and "sched_inv T s" and "dl_head (zombie_que s) \<noteq> None" and "T \<subseteq> T'"
  shows "dl_head (zombie_que s') \<noteq> None"
proof -
  from sched_invD(8) [OF assms(2)] obtain Q S Z where q: "queues_ok T s Q S Z" by blast
  then obtain z Z1 where Z: "Z = z # Z1" using zombie_head assms(3) by (cases Z) auto
  then have z: "z \<in> T" using queues_ok_disjoint(4) [OF q] by auto
  from kstep_spec [OF assms(1,2) q] obtain Q' S' Z' where
    k: "queues_ok T' s' Q' S' Z'" "z \<in> set Z' \<or> T' = T - {z}" unfolding Z by auto
  with z assms(4) have "Z' \<noteq> []" by auto
  with zombie_head [OF k(1)] show ?thesis by simp
qed

lemma pop_halves:
  assumes "reaper_pop_begin s = Inr (z, s')"
  shows "reaper_iter s = Inr (Some z, reaper_pop_end z s')" and "idle_thread s' = idle_thread s"
proof -
  from assms obtain h l where b: "list_pop_front_begin (tnodes s) (zombie_que s) = Inr (h, l, z)"
    and s': "s' = s\<lparr>tnodes := h, zombie_que := l\<rparr>"
    by (cases "list_pop_front_begin (tnodes s) (zombie_que s)") (auto simp: reaper_pop_begin_def)
  from b have "dl_head (zombie_que s) \<noteq> None" by (auto simp: list_pop_front_begin_def split: option.splits)
  with b s' show "reaper_iter s = Inr (Some z, reaper_pop_end z s')" "idle_thread s' = idle_thread s"
    by (simp_all add: reaper_iter_def list_pop_front_split reaper_pop_end_def list_pop_front_end_def Let_def)
qed

lemma pop_begin_returns:
  assumes "sched_inv T s" and "dl_head (zombie_que s) \<noteq> None"
  shows "\<exists>z s'. reaper_pop_begin s = Inr (z, s') \<and> z \<in> T"
proof -
  from sched_invD(8) [OF assms(1)] obtain Q S Z where q: "queues_ok T s Q S Z" by blast
  then obtain z Z1 where Z: "Z = z # Z1" using zombie_head assms(2) by (cases Z) auto
  from pop_zombie_queues [OF q [unfolded Z]] obtain h l where
    r: "list_pop_front (tnodes s) (zombie_que s) = Inr (h, l, z)" "z \<in> T" by blast
  then show ?thesis
    by (cases "list_pop_front_begin (tnodes s) (zombie_que s)")
      (auto simp: list_pop_front_split reaper_pop_begin_def list_pop_front_end_def Let_def)
qed

lemma whole_refines:
  assumes step: "rstep (T, s, p) (T', s', p')" and inv: "split_inv (T, s, p)" and p: "p = Outside \<or> p = Tested"
  shows "split_inv (T', s', p') \<and>
    ((\<exists>d. kstep d (T, s) (completed (T', s', p'))) \<or> completed (T', s', p') = (T, s))"
proof -
  have i: "sched_inv T s" "p = Tested \<Longrightarrow> dl_head (zombie_que s) \<noteq> None"
    using inv p by (auto simp: split_inv_def)
  have same: ?thesis if k: "kstep d (T, s) (T', s')" and "p' = p" "T \<subseteq> T'" for d
  proof -
    from sched_invD(8) [OF i(1)] obtain Q S Z where "queues_ok T s Q S Z" by blast
    from kstep_spec [OF k i(1) this] have "sched_inv T' s'" by blast
    moreover have "dl_head (zombie_que s') \<noteq> None" if "p = Tested"
      using kept_zombies [OF k i(1) i(2) [OF that] \<open>T \<subseteq> T'\<close>] .
    ultimately show ?thesis using p k \<open>p' = p\<close> by (auto simp: split_inv_def)
  qed
  show ?thesis using step
  proof (cases rule: rstep.cases)
    case (tick esp)
    then have "kstep True (T, s) (T', s')" by (auto intro: kstep.tick)
    then show ?thesis by (rule same) (use tick in auto)
  next
    case (dispatch esp)
    then have "kstep True (T, s) (T', s')" by (auto intro: kstep.dispatch)
    then show ?thesis by (rule same) (use dispatch in auto)
  next
    case (sleep time)
    then have "kstep False (T, s) (T', s')" by (auto intro: kstep.sleep)
    then show ?thesis by (rule same) (use sleep in auto)
  next
    case exit
    then have "kstep False (T, s) (T', s')" by (auto intro: kstep.exit)
    then show ?thesis by (rule same) (use exit in auto)
  next
    case (spawn t)
    then have "kstep False (T, s) (T', s')" by (auto intro: kstep.spawn)
    then show ?thesis by (rule same) (use spawn in auto)
  next
    case test
    then show ?thesis using i(1) by (auto simp: split_inv_def reaper_test_def split: if_splits)
  next
    case doze
    then have "reaper_iter s = Inr (None, s')" by (auto simp: reaper_test_def reaper_iter_def split: if_splits)
    with doze have "kstep False (T, s) (T', s')" by (auto intro: kstep.doze)
    then show ?thesis by (rule same) (use doze in auto)
  next
    case (pop_begin z)
    note r = pop_halves [OF pop_begin(6)]
    have k: "kstep False (T, s) (T - {z}, reaper_pop_end z s')" by (rule kstep.reap [OF pop_begin(4,5) r(1)])
    from sched_invD(8) [OF i(1)] obtain Q S Z where "queues_ok T s Q S Z" by blast
    from kstep_spec [OF k i(1) this] have "sched_inv (T - {z}) (reaper_pop_end z s')" by blast
    moreover have "z \<in> T" using pop_begin_returns [OF i(1) i(2)] pop_begin by auto
    moreover have "z \<noteq> idle_thread s'" using \<open>z \<in> T\<close> sched_invD(1) [OF i(1)] r(2) by auto
    ultimately show ?thesis using k pop_begin(1-3) by (auto simp: split_inv_def)
  qed (use p in auto)
qed

lemma rstep_refines:
  assumes "rstep c c'" and "split_inv c"
  shows "split_inv c' \<and> ((\<exists>d. kstep d (completed c) (completed c')) \<or> completed c' = completed c)"
proof -
  obtain T s p T' s' p' where c: "c = (T, s, p)" "c' = (T', s', p')" by (cases c, cases c')
  show ?thesis
  proof (cases "p = Outside \<or> p = Tested")
    case True
    with whole_refines [of T s p T' s' p'] assms c show ?thesis by auto
  next
    case False
    then obtain z where z: "p = Popping z" by (cases p) auto
    have i: "sched_inv (T - {z}) (reaper_pop_end z s)" "z \<in> T" "z \<noteq> idle_thread s"
      using assms(2) by (auto simp: split_inv_def c z)
    have zT: "p' = Popping z \<Longrightarrow> z \<in> T'" using assms(1) i(2) unfolding c z by (cases rule: rstep.cases) auto
    from sched_invD(8) [OF i(1)] obtain Q S Z where q: "queues_ok (T - {z}) (reaper_pop_end z s) Q S Z" by blast
    from popping_refines [of T s z T' s' p'] assms
    consider d where "kstep d (T - {z}, reaper_pop_end z s) (T' - {z}, reaper_pop_end z s')" "p' = Popping z"
        "idle_thread s' = idle_thread s"
      | "T' = T - {z}" "s' = reaper_pop_end z s" "p' = Outside"
      unfolding c z by auto
    then show ?thesis
    proof cases
      case 1
      from kstep_spec [OF 1(1) i(1) q] have "sched_inv (T' - {z}) (reaper_pop_end z s')" by blast
      then have "split_inv c'" using 1(2,3) i(3) zT by (simp add: split_inv_def c)
      moreover have "\<exists>d. kstep d (completed c) (completed c')" using 1 by (auto simp: c z)
      ultimately show ?thesis by blast
    next
      case 2
      then have "split_inv c'" using i by (simp add: split_inv_def c)
      then show ?thesis using 2 by (simp add: c z)
    qed
  qed
qed

lemma rsteps_inv:
  assumes "rstep\<^sup>*\<^sup>* c c'" and "split_inv c"
  shows "split_inv c'"
  using assms by (induction rule: rtranclp_induct) (auto dest: rstep_refines)

lemma rsteps_refine:
  assumes "rstep\<^sup>*\<^sup>* c c'" and "split_inv c"
  shows "\<exists>n. krun n (completed c) (completed c')"
  using assms
proof (induction rule: rtranclp_induct)
  case base
  show ?case using krun.none by blast
next
  case (step c' c'')
  then obtain n where n: "krun n (completed c) (completed c')" by blast
  from rstep_refines [OF step(2) rsteps_inv [OF step(1) step.prems]] krun.more [OF n] n show ?case by metis
qed

lemma split_inv_start: "sched_inv T s \<Longrightarrow> split_inv (T, s, Outside)"
  by (simp add: split_inv_def)

lemma split_invD:
  assumes "split_inv (T, s, p)" and "completed (T, s, p) = (U, u)"
  shows "sched_inv U u" and "threads u = threads s" and "cur_thread u = cur_thread s" and "reaper u = reaper s"
    and "que u = que s" and "sleep_que u = sleep_que s" and "\<And>t. t \<in> U \<Longrightarrow> tnodes u t = tnodes s t"
proof -
  have "sched_inv U u" using assms by (simp add: split_inv_def)
  moreover have "threads u = threads s \<and> cur_thread u = cur_thread s \<and> reaper u = reaper s \<and>
      que u = que s \<and> sleep_que u = sleep_que s \<and> (\<forall>t\<in>U. tnodes u t = tnodes s t)"
    using assms(2) by (cases p) auto
  ultimately show "sched_inv U u" "threads u = threads s" "cur_thread u = cur_thread s" "reaper u = reaper s"
    "que u = que s" "sleep_que u = sleep_que s" "\<And>t. t \<in> U \<Longrightarrow> tnodes u t = tnodes s t" by blast+
qed

lemma split_queues:
  assumes i: "split_inv (T, s, p)" and c: "completed (T, s, p) = (U, u)" and q: "queues_ok U u Q S Z"
  shows "dlq (tnodes s) (que s) Q" and "dlq (tnodes s) (sleep_que s) S"
proof -
  note d = split_invD [OF i c]
  have n: "tnodes s t = tnodes u t" if "t \<in> set Q \<union> set S" for t
    using that queues_ok_disjoint(4) [OF q] d(7) [of t] by auto
  show "dlq (tnodes s) (que s) Q"
    using dlq_frame [of Q "tnodes s" "tnodes u" "que u"] queues_okD(1) [OF q] n d(5) by simp
  show "dlq (tnodes s) (sleep_que s) S"
    using dlq_frame [of S "tnodes s" "tnodes u" "sleep_que u"] queues_okD(2) [OF q] n d(6) by simp
qed

text \<open>No operation faults or loops, in the middle of a removal either.\<close>

lemma completed_returns:
  assumes c: "completed (T, s, p) = (U, u)" and r: "f u = Some (Inr u')"
    and f: "\<And>z n l. p = Popping z \<Longrightarrow> f (patch z n l u) = map_option (\<lambda>r. bnd r (\<lambda>s. Inr (patch z n l s))) (f u)"
  shows "\<exists>s'. f s = Some (Inr s')"
proof (cases p)
  case (Popping z)
  with c have v: "reaper_pop_end z s = u" by simp
  show ?thesis by (rule pop_end_commute(2) [of f z s u']) (simp_all add: v r f [OF Popping])
qed (use c r in auto)

lemma popping_apart:
  assumes "split_inv (T, s, p)" and "completed (T, s, p) = (U, u)" and "p = Popping z"
  shows "z \<notin> U" and "z \<noteq> idle_thread u"
  using assms by (auto simp: split_inv_def)

lemma scheduler_returns:
  assumes i: "split_inv (T, s, p)"
  shows "\<exists>s'. scheduler esp s = Inr s'"
proof -
  obtain U u where c: "completed (T, s, p) = (U, u)" by fastforce
  note d = split_invD [OF i c]
  obtain u' where "scheduler esp u = Inr u'" using sched_invD(8) [OF d(1)] scheduler_spec [OF d(1)] by blast
  then have "\<exists>s'. Some (scheduler esp s) = Some (Inr s')"
    by (intro completed_returns [OF c]) (auto simp: scheduler_patch [OF d(1)] popping_apart [OF i c])
  then show ?thesis by simp
qed

lemma timer_returns:
  assumes i: "split_inv (T, s, p)"
  shows "\<exists>s'. timer esp s = Some (Inr s')"
proof -
  obtain U u where c: "completed (T, s, p) = (U, u)" by fastforce
  note d = split_invD [OF i c]
  obtain u' where "timer esp u = Some (Inr u')" using sched_invD(8) [OF d(1)] timer_spec [OF d(1)] by blast
  then show ?thesis
    by (intro completed_returns [OF c]) (auto simp: timer_patch [OF d(1)] popping_apart [OF i c])
qed

lemma sleep_returns:
  assumes i: "split_inv (T, s, p)" and run: "status s (cur_thread s) = RUNNING" "cur_thread s \<noteq> reaper s"
  shows "\<exists>s'. do_sleep esp time s = Some (Inr s')"
proof -
  obtain U u where c: "completed (T, s, p) = (U, u)" by fastforce
  note d = split_invD [OF i c]
  have run': "status u (cur_thread u) = RUNNING" "cur_thread u \<noteq> reaper u" using run d(2-4) by simp_all
  obtain u' where "thread_sleep_begin time u = Some (Inr u')"
    using sched_invD(8) [OF d(1)] thread_sleep_spec [OF d(1) _ run'] by blast
  then have "\<exists>s'. thread_sleep_begin time s = Some (Inr s')"
    by (intro completed_returns [OF c]) (auto simp: sleep_patch [OF d(1) _ run'(1)] popping_apart [OF i c])
  then obtain v where v: "thread_sleep_begin time s = Some (Inr v)" by blast
  have "split_inv (T, v, p)" using rstep_refines [OF rstep.sleep [OF run v] i] by blast
  from scheduler_returns [OF this] v show ?thesis by (auto simp: do_sleep_def thread_sleep_def)
qed

lemma exit_returns:
  assumes i: "split_inv (T, s, p)" and run: "status s (cur_thread s) = RUNNING" "cur_thread s \<noteq> reaper s"
    and p: "\<forall>z. p \<noteq> Popping z"
  shows "\<exists>s'. do_exit esp s = Some (Inr s')"
proof -
  have "split_inv (T, reaper_add (cur_thread s) s, p)" using rstep_refines [OF rstep.exit [OF run p] i] by blast
  from scheduler_returns [OF this] show ?thesis by (auto simp: do_exit_def)
qed

end
