(* ===== verification/Sched_Props.thy ===== *)
theory Sched_Props
  imports Sched_Split
begin

text \<open>
  The properties of the scheduler, the reaper queue and the system calls, with a small kernel
  (an idle thread, a dozing reaper and one more thread) as the concrete instance.
\<close>

section \<open>A small kernel\<close>

definition fresh_thread :: thread where
  "fresh_thread = \<lparr>t_esp = 0, t_stack = 0, t_status = IDLE, t_id = 0, t_wake_at = 0, t_pd = 0\<rparr>"

definition small0 :: sched where
  "small0 = \<lparr>threads = (\<lambda>_. fresh_thread)(2 := fresh_thread\<lparr>t_status := SLEEPING\<rparr>),
     tnodes = (\<lambda>_. \<lparr>nxt = None, prv = None\<rparr>), que = empty_dllist, sleep_que = empty_dllist,
     zombie_que = empty_dllist, cur_thread = 1, idle_thread = 1, reaper = 2, ticks = 0,
     tick_rate = 11931, cr3 = V2P 0, tss_esp0 = 0, sp = 0\<rparr>"

definition small1 :: sched where
  "small1 = thread_ready 3 small0"

definition small2 :: sched where
  "small2 = (case scheduler 0 small1 of Inl _ \<Rightarrow> small1 | Inr s \<Rightarrow> s)"

lemma small0_inv: "sched_inv {2} small0" "queues_ok {2} small0 [] [] []"
proof -
  show q: "queues_ok {2} small0 [] [] []"
    by (rule queues_okI [where r = small0]) (auto simp: small0_def)
  show "sched_inv {2} small0"
    by (rule sched_invI [OF _ _ _ _ _ _ _ q]) (auto simp: small0_def fresh_thread_def)
qed

lemma small1_inv: "sched_inv {3, 2} small1" "queues_ok {3, 2} small1 [3] [] []"
  using spawn_spec [OF small0_inv, of 3] by (simp_all add: small1_def small0_def [THEN arg_cong, of idle_thread])

lemma small2_inv:
  "scheduler 0 small1 = Inr small2" "sched_inv {3, 2} small2" "queues_ok {3, 2} small2 [] [] []"
  "cur_thread small2 = 3" "status small2 3 = RUNNING" "reaper small2 = 2"
proof -
  have f: "cur_thread small1 = 1" "idle_thread small1 = 1" "reaper small1 = 2" "status small1 1 = IDLE"
    by (simp_all add: small1_def small0_def fresh_thread_def)
  have ra: "ready_after small1 [3] = [3]" by (simp add: ready_after_def f)
  from scheduler_spec [OF small1_inv, of 0] obtain s where
    s: "scheduler 0 small1 = Inr s" "sched_inv {3, 2} s" "queues_ok {3, 2} s [] [] []"
    "cur_thread s = 3" "status s 3 = RUNNING" "reaper s = 2"
    unfolding ra by (auto simp: next_of_def f)
  then have "small2 = s" by (simp add: small2_def)
  with s show "scheduler 0 small1 = Inr small2" "sched_inv {3, 2} small2" "queues_ok {3, 2} small2 [] [] []"
    "cur_thread small2 = 3" "status small2 3 = RUNNING" "reaper small2 = 2" by simp_all
qed

lemma sorted_dropWhile_iff:
  "sorted (map f xs) \<Longrightarrow> x \<in> set xs \<Longrightarrow> x \<in> set (dropWhile (\<lambda>y. f y \<le> k) xs) \<longleftrightarrow> k < f x"
  for f :: "'a \<Rightarrow> 'b::linorder"
proof (induction xs)
  case (Cons y xs)
  show ?case
  proof (cases "f y \<le> k")
    case True
    with Cons show ?thesis using set_dropWhileD [of x "\<lambda>y. f y \<le> k" xs] by (cases "x \<in> set xs") auto
  next
    case False
    with Cons.prems show ?thesis by auto
  qed
qed simp

section \<open>Properties\<close>

text \<open>
  C9: in every state reachable by timer interrupts, system calls, thread creation, scheduling
  and the reaper's steps, each live worker thread is exactly where its status says: the runnable
  threads in the ready queue, the sleeping ones in the sleep queue ordered by wake-up time, the
  zombies in the zombie queue, and at most the current thread running. No thread is lost and none is in
  two places. The reaper tests the zombie queue in a critical section but removes a zombie behind it,
  so other threads run between the two and in the middle of the removal, when the zombie queue is
  well formed only once the removal is completed. The runs are those in which no thread exits in the
  middle of a removal.
\<close>

theorem sched_run_invariant:
  assumes "sched_inv T s" and "rstep\<^sup>*\<^sup>* (T, s, Outside) (T', s', p)" and "completed (T', s', p) = (U, u)"
  shows "\<exists>Q S Z. dlq (tnodes s') (que s') Q \<and> dlq (tnodes s') (sleep_que s') S \<and>
      dlq (tnodes u) (zombie_que u) Z \<and>
      set Q = {t \<in> U. status s' t = RUNNABLE} \<and>
      set S = {t \<in> U. status s' t = SLEEPING \<and> t \<noteq> reaper s'} \<and> sorted (map (wake s') S) \<and>
      set Z = {t \<in> U. status s' t = ZOMBIE} \<and>
      (\<forall>t\<in>U. status s' t = RUNNING \<longrightarrow> t = cur_thread s') \<and>
      (case p of Popping z \<Rightarrow> U = T' - {z} \<and> u = reaper_pop_end z s' \<and> cur_thread s' \<noteq> z | _ \<Rightarrow> U = T' \<and> u = s')"
proof -
  have i: "split_inv (T', s', p)" by (rule rsteps_inv [OF assms(2) split_inv_start [OF assms(1)]])
  note d = split_invD [OF i assms(3)]
  from sched_invD(8) [OF d(1)] obtain Q S Z where q: "queues_ok U u Q S Z" by blast
  have r: "\<forall>t\<in>U. status s' t = RUNNING \<longrightarrow> t = cur_thread s'" using sched_invD(7) [OF d(1)] d(2,3) by simp
  have cur: "cur_thread s' \<noteq> z" if "p = Popping z" for z
    using sched_invD(5) [OF d(1)] popping_apart [OF i assms(3) that] d(3) by metis
  have "case p of Popping z \<Rightarrow> U = T' - {z} \<and> u = reaper_pop_end z s' \<and> cur_thread s' \<noteq> z | _ \<Rightarrow> U = T' \<and> u = s'"
    using assms(3) cur by (cases p) auto
  then show ?thesis
    using r split_queues [OF i assms(3) q] q [unfolded queues_ok_def d(2,4)]
    by (intro exI [of _ Q] exI [of _ S] exI [of _ Z]) simp
qed

text \<open>The reaper in the middle of removing the thread that has just exited.\<close>

definition small4 :: sched where
  "small4 = reaper_add 3 small2"

lemma small4_inv:
  "sched_inv {3, 2} small4" "queues_ok {3, 2} small4 [2] [] [3]" "status small4 3 = ZOMBIE"
  "cur_thread small4 = 3" "idle_thread small4 = 1" "reaper small4 = 2"
proof -
  have r: "status small2 (cur_thread small2) = RUNNING" "cur_thread small2 \<noteq> reaper small2"
    using small2_inv(4-6) by simp_all
  have f: "idle_thread small2 = 1" "status small2 2 = SLEEPING" by code_simp+
  note a = reaper_add_spec [OF small2_inv(2,3) r]
  show "sched_inv {3, 2} small4" "queues_ok {3, 2} small4 [2] [] [3]" "status small4 3 = ZOMBIE"
    "cur_thread small4 = 3" "idle_thread small4 = 1" "reaper small4 = 2"
    using a(1-5) a(8) [of 3] small2_inv(4,6) f by (simp_all add: small4_def)
qed

lemma small_reaping:
  "\<exists>s z s'. scheduler 0 small4 = Inr s \<and> rstep\<^sup>*\<^sup>* ({3, 2}, small4, Outside) ({3, 2}, s', Popping z)"
proof -
  have ra: "ready_after small4 [2] = [2]" by (simp add: ready_after_def small4_inv)
  from scheduler_spec [OF small4_inv(1,2), of 0] obtain s where
    s: "scheduler 0 small4 = Inr s" "sched_inv {3, 2} s" "queues_ok {3, 2} s [] [] [3]"
    "cur_thread s = 2" "status s 2 = RUNNING" "reaper s = 2"
    unfolding ra by (auto simp: next_of_def small4_inv)
  have z: "dl_head (zombie_que s) \<noteq> None" using zombie_head [OF s(3)] by simp
  from pop_begin_returns [OF s(2) z] obtain z s' where b: "reaper_pop_begin s = Inr (z, s')" by blast
  have "rstep ({3, 2}, small4, Outside) ({3, 2}, s, Outside)" by (rule rstep.dispatch [OF s(1)])
  moreover have "rstep ({3, 2}, s, Outside) ({3, 2}, s, Tested)"
    by (rule rstep.test) (use s z in \<open>simp_all add: reaper_test_def\<close>)
  moreover have "rstep ({3, 2}, s, Tested) ({3, 2}, s', Popping z)" by (rule rstep.pop_begin) (use s b in simp_all)
  ultimately show ?thesis using s(1) by (meson converse_rtranclp_into_rtranclp rtranclp.rtrancl_refl)
qed

theorem sched_run_invariant_witness:
  "\<exists>s z Q. sched_inv {3, 2} small4 \<and> rstep\<^sup>*\<^sup>* ({3, 2}, small4, Outside) ({3, 2}, s, Popping z) \<and>
   dlq (tnodes s) (que s) Q"
proof -
  obtain z s where r: "rstep\<^sup>*\<^sup>* ({3, 2}, small4, Outside) ({3, 2}, s, Popping z)" using small_reaping by blast
  have c: "completed ({3, 2}, s, Popping z) = ({3, 2} - {z}, reaper_pop_end z s)" by simp
  from sched_run_invariant [OF small4_inv(1) r c] obtain Q where "dlq (tnodes s) (que s) Q" by (elim exE conjE)
  with r small4_inv(1) show ?thesis by (intro exI conjI)
qed

text \<open>
  C10: no scheduling operation faults or loops in a reachable state: the scheduler and the timer
  interrupt always return, also in the middle of a removal by the reaper; the removal does not
  underflow although the test for a zombie is a separate step, with other threads running in between;
  and the system call handler returns for every call number. The runs are those in which no thread
  exits in the middle of a removal.
\<close>

theorem sched_ops_total:
  assumes "sched_inv T s" and "rstep\<^sup>*\<^sup>* (T, s, Outside) (T', s', p)"
  shows "(\<exists>u. scheduler esp s' = Inr u) \<and> (\<exists>u. timer esp s' = Some (Inr u)) \<and>
    (p = Tested \<longrightarrow> (\<exists>z u. reaper_pop_begin s' = Inr (z, u))) \<and>
    (cur_thread s' \<noteq> reaper s' \<and> status s' (cur_thread s') = RUNNING \<and> (eax = SYS_EXIT \<longrightarrow> (\<forall>z. p \<noteq> Popping z)) \<longrightarrow>
       (\<exists>u. syscall_handler esp eax ebx s' = Some (Inr u)))"
proof -
  have i: "split_inv (T', s', p)" by (rule rsteps_inv [OF assms(2) split_inv_start [OF assms(1)]])
  have "\<exists>z u. reaper_pop_begin s' = Inr (z, u)" if "p = Tested"
    using that i pop_begin_returns [of T' s'] by (auto simp: split_inv_def)
  moreover have "\<exists>u. syscall_handler esp eax ebx s' = Some (Inr u)"
    if "cur_thread s' \<noteq> reaper s'" "status s' (cur_thread s') = RUNNING" "eax = SYS_EXIT \<longrightarrow> (\<forall>z. p \<noteq> Popping z)"
    using sleep_returns [OF i that(2,1), of esp ebx] exit_returns [OF i that(2,1), of esp] that(3)
    by (auto simp: syscall_handler_def)
  ultimately show ?thesis using scheduler_returns [OF i, of esp] timer_returns [OF i, of esp] by blast
qed

theorem sched_ops_total_witness:
  "sched_inv {3, 2} small2 \<and> (\<exists>u. syscall_handler 0 SYS_SLEEP 5 small2 = Some (Inr u)) \<and>
   (\<exists>s z u. rstep\<^sup>*\<^sup>* ({3, 2}, small4, Outside) ({3, 2}, s, Popping z) \<and> timer 0 s = Some (Inr u))"
proof -
  obtain z s where r: "rstep\<^sup>*\<^sup>* ({3, 2}, small4, Outside) ({3, 2}, s, Popping z)" using small_reaping by blast
  from sched_ops_total [OF small4_inv(1) r, of 0] r
    sched_ops_total [OF small2_inv(2) rtranclp.rtrancl_refl, of 0 SYS_SLEEP 5] small2_inv
  show ?thesis by (auto simp: SYS_SLEEP_def SYS_EXIT_def)
qed

text \<open>
  C11: the scheduler is round robin. The running thread goes to the end of the ready queue, the
  thread at its front becomes the current one and runs (the idle thread if the queue is empty),
  the remaining order is kept, the outgoing thread's stack pointer is saved and the one the incoming
  thread had saved is loaded (the one just saved if it is the same thread), the kernel stack of the
  incoming thread is the one the processor will use on the next interrupt, and if the
  loaded page directory was the outgoing thread's, it is now the incoming thread's.
\<close>

theorem scheduler_round_robin:
  assumes "sched_inv T s" and "queues_ok T s Q S Z" and "R = ready_after s Q"
  shows "\<exists>s'. scheduler esp s = Inr s' \<and> sched_inv T s' \<and> queues_ok T s' (tl R) S Z \<and>
    cur_thread s' = (if R = [] then idle_thread s else hd R) \<and>
    (R \<noteq> [] \<longrightarrow> status s' (hd R) = RUNNING) \<and>
    t_esp (threads s' (cur_thread s)) = esp \<and>
    sp s' = (if cur_thread s' = cur_thread s then esp else t_esp (threads s (cur_thread s'))) \<and>
    tss_esp0 s' = t_stack (threads s (cur_thread s')) + 0x1000 \<and>
    (cr3 s = V2P (t_pd (threads s (cur_thread s))) \<longrightarrow> cr3 s' = V2P (t_pd (threads s' (cur_thread s'))))"
proof -
  from scheduler_spec [OF assms(1,2), of esp] obtain s' where
    s': "scheduler esp s = Inr s'" "sched_inv T s'" "queues_ok T s' (tl R) S Z" "cur_thread s' = next_of s R"
    "idle_thread s' = idle_thread s"
    "\<forall>t. status s' t = (if t = cur_thread s' \<and> t \<noteq> idle_thread s then RUNNING
       else if t = cur_thread s \<and> status s t = RUNNING then RUNNABLE else status s t)"
    "tss_esp0 s' = t_stack (threads s (cur_thread s')) + 0x1000" "t_esp (threads s' (cur_thread s)) = esp"
    "sp s' = (if cur_thread s' = cur_thread s then esp else t_esp (threads s (cur_thread s')))"
    "cr3 s = V2P (t_pd (threads s (cur_thread s))) \<longrightarrow> cr3 s' = V2P (t_pd (threads s' (cur_thread s')))"
    unfolding assms(3) by blast
  have "hd R \<noteq> idle_thread s" if "R \<noteq> []"
  proof -
    have "hd R \<in> T"
      using that requeue_current(1) [OF assms(1,2)] queues_ok_disjoint(4) unfolding assms(3)
      by (metis (no_types, lifting) hd_in_set le_sup_iff subsetD)
    then show ?thesis using sched_invD(1) [OF assms(1)] by metis
  qed
  then have "R \<noteq> [] \<longrightarrow> status s' (hd R) = RUNNING" using s'(4,6) by (simp add: next_of_def)
  with s' show ?thesis unfolding next_of_def by blast
qed

theorem scheduler_round_robin_witness:
  "sched_inv {3, 2} small1 \<and> queues_ok {3, 2} small1 [3] [] [] \<and> ready_after small1 [3] = [3] \<and>
   (\<exists>s'. scheduler 0x1000 small1 = Inr s' \<and> cur_thread s' = 3 \<and> status s' 3 = RUNNING)"
proof -
  have r: "[3] = ready_after small1 [3]"
    by (simp add: ready_after_def small1_def small0_def fresh_thread_def)
  from scheduler_round_robin [OF small1_inv r, of "0x1000"] r small1_inv show ?thesis by auto
qed

text \<open>
  C12: no runnable thread starves. A thread with \<open>n\<close> threads ahead of it in the ready queue is
  the current one after exactly \<open>n + 1\<close> dispatches, whatever else happens in between: threads that
  wake up, are created or are preempted queue up behind it.
\<close>

theorem ready_thread_runs:
  assumes "sched_inv T s" and "queues_ok T s (as @ t # bs) S Z"
    and "krun (length as) (T, s) (T', s')" and "kstep True (T', s') (T'', s'')"
  shows "cur_thread s'' = t"
proof -
  have i: "sched_inv T' s'" using krun_inv [OF assms(3)] assms(1) by simp
  from krun_ready [OF assms(3), of as t bs S Z] assms(1,2) obtain bs' S' Z' where
    q: "queues_ok T' s' (t # bs') S' Z'" by auto
  from kstep_spec [OF assms(4) i q] show ?thesis by (auto simp: next_of_def)
qed

theorem ready_thread_runs_witness:
  "sched_inv {3, 2} small1 \<and> queues_ok {3, 2} small1 ([] @ 3 # []) [] [] \<and>
   krun (length ([] :: u32 list)) ({3, 2}, small1) ({3, 2}, small1) \<and>
   kstep True ({3, 2}, small1) ({3, 2}, small2) \<and> cur_thread small2 = 3"
proof -
  have q: "queues_ok {3, 2} small1 ([] @ 3 # []) [] []" using small1_inv(2) by simp
  have r: "krun (length ([] :: u32 list)) ({3, 2}, small1) ({3, 2}, small1)" using krun.none by simp
  have k: "kstep True ({3, 2}, small1) ({3, 2}, small2)" by (rule kstep.dispatch [OF small2_inv(1)])
  from ready_thread_runs [OF small1_inv(1) q r k] q r k small1_inv(1) show ?thesis by simp
qed

text \<open>
  C13: sleeping threads wake exactly when they are due. After a timer interrupt, every thread
  whose wake-up time has been reached has left the sleep queue, every thread that is still asleep
  is due later, and no thread was woken before its time.
\<close>

theorem timer_wakes_due:
  assumes "sched_inv T s" and "timer esp s = Some (Inr s')" and "t \<in> T" and "t \<noteq> reaper s"
    and "status s t = SLEEPING"
  shows "ticks s' = ticks s + ucast (tick_rate s) \<and>
    (status s' t = SLEEPING \<longleftrightarrow> ticks s' < wake s t)"
proof -
  let ?now = "ticks s + ucast (tick_rate s)"
  let ?P = "\<lambda>t. wake s t \<le> ?now"
  from sched_invD(8) [OF assms(1)] obtain Q S Z where q: "queues_ok T s Q S Z" by blast
  from timer_spec [OF assms(1) q, of esp] assms(2) obtain R where
    s': "queues_ok T s' R (dropWhile ?P S) Z" "ticks s' = ?now" "reaper s' = reaper s" by auto
  have "t \<in> set S" using queues_okD(5) [OF q] assms(3-5) by blast
  with queues_okD(7) [OF q] have "t \<in> set (dropWhile ?P S) \<longleftrightarrow> ?now < wake s t"
    by (rule sorted_dropWhile_iff)
  moreover have "status s' t = SLEEPING \<longleftrightarrow> t \<in> set (dropWhile ?P S)"
    using queues_okD(5) [OF s'(1), of t] assms(3,4) s'(3) by simp
  ultimately show ?thesis using s'(2) by simp
qed

text \<open>A thread that sleeps for one second, seen from the first timer interrupt.\<close>

definition small3 :: sched where
  "small3 = (case thread_sleep_begin 1 small2 of Some (Inr s) \<Rightarrow> s | _ \<Rightarrow> small2)"

lemma small3_inv:
  "sched_inv {3, 2} small3" "status small3 3 = SLEEPING" "wake small3 3 = 1193182" "reaper small3 = 2"
  "ticks small3 = 0" "tick_rate small3 = 11931"
proof -
  have "cur_thread small2 \<noteq> reaper small2" "status small2 (cur_thread small2) = RUNNING"
    using small2_inv(4-6) by simp_all
  with thread_sleep_spec [OF small2_inv(2,3), of 1] obtain u where
    u: "thread_sleep_begin 1 small2 = Some (Inr u)" "sched_inv {3, 2} u" "reaper u = reaper small2"
    "ticks u = ticks small2" "tick_rate u = tick_rate small2"
    "status u (cur_thread small2) = SLEEPING"
    "wake u (cur_thread small2) = ticks small2 + ucast (1::u32) * PIT_CRYSTAL" by auto
  have "ticks small2 = 0" "tick_rate small2 = 11931" by code_simp+
  with u small2_inv(4,6)
  show "sched_inv {3, 2} small3" "status small3 3 = SLEEPING" "wake small3 3 = 1193182" "reaper small3 = 2"
    "ticks small3 = 0" "tick_rate small3 = 11931"
    by (simp_all add: small3_def PIT_CRYSTAL_def)
qed

theorem timer_wakes_due_witness:
  "sched_inv {3, 2} small3 \<and> status small3 3 = SLEEPING \<and> reaper small3 \<noteq> 3 \<and>
   (\<exists>s'. timer 0 small3 = Some (Inr s') \<and> status s' 3 = SLEEPING)"
proof -
  from sched_invD(8) [OF small3_inv(1)] timer_spec [OF small3_inv(1), of _ _ _ 0] obtain s' where
    s': "timer 0 small3 = Some (Inr s')" by blast
  from timer_wakes_due [OF small3_inv(1) s', of 3] s' small3_inv show ?thesis by auto
qed

text \<open>
  C14: a thread that has exited never runs again: as long as it has not been reaped it stays in
  the zombie state through every step of the kernel, and no dispatch selects it.
\<close>

theorem zombie_never_runs:
  assumes "sched_inv T s" and "z \<in> T" and "status s z = ZOMBIE" and "kstep d (T, s) (T', s')"
    and "z \<in> T'"
  shows "status s' z = ZOMBIE \<and> (d \<longrightarrow> cur_thread s' \<noteq> z)"
proof -
  from sched_invD(8) [OF assms(1)] obtain Q S Z where q: "queues_ok T s Q S Z" by blast
  have z: "z \<in> set Z" using queues_okD(6) [OF q, of z] assms(2,3) by simp
  from kstep_spec [OF assms(4,1) q] obtain Q' S' Z' where
    k: "queues_ok T' s' Q' S' Z'" "z \<in> set Z' \<or> T' = T - {z}"
    "d \<longrightarrow> cur_thread s' = idle_thread s \<or> status s' (cur_thread s') = RUNNING" using z by blast
  have "z \<in> set Z'" using k(2) assms(5) by blast
  then have "status s' z = ZOMBIE" using queues_okD(6) [OF k(1), of z] by simp
  moreover have "z \<noteq> idle_thread s" using assms(2) sched_invD(1) [OF assms(1)] by blast
  ultimately show ?thesis using k(3) by auto
qed

theorem zombie_never_runs_witness:
  "sched_inv {3, 2} small4 \<and> status small4 3 = ZOMBIE \<and>
   (\<exists>s'. kstep True ({3, 2}, small4) ({3, 2}, s') \<and> cur_thread s' \<noteq> 3)"
proof -
  note i = small4_inv(1,3)
  obtain s' where "scheduler 0 small4 = Inr s'" using small_reaping by blast
  then have k: "kstep True ({3, 2}, small4) ({3, 2}, s')" by (rule kstep.dispatch)
  from zombie_never_runs [OF i(1) _ i(2) k] k i show ?thesis by auto
qed

end
