(* ===== verification/Heap.thy ===== *)
theory Heap
  imports Pmm
begin

text \<open>
  The kernel heap of \<open>mm/heap/heap.c\<close>: data and operations.

  A chunk is named by its address. The members of its header are read through two stores: the
  link node \<open>all\<close> at the address of the chunk and the flag \<open>used\<close>. The link node \<open>free\<close> shares its
  place with the data, 12 bytes behind the address of the chunk; it is the node at that address in
  the same store. A pointer is an optional address, \<open>None\<close> being NULL, and reading through NULL is
  a fault. Clearing a page clears the nodes and flags in it. The three byte counters wrap
  around at 32 bits. The page allocator's state is part of the heap's.
\<close>

section \<open>Data\<close>

record heap =
  hnodes :: "u32 nodes"
  hused :: "u32 \<Rightarrow> bool"
  free_bucket :: "nat \<Rightarrow> u32 option"
  first :: "u32 option"
  last_chunk :: "u32 option"
  mem_free :: u32
  mem_used :: u32
  mem_meta :: u32
  pages :: buddy

definition HEADER_SIZE :: u32 where "HEADER_SIZE = 12"
definition MIN_SIZE :: u32 where "MIN_SIZE = 8"
definition sizeof_Chunk :: u32 where "sizeof_Chunk = 20"
definition NUM_SIZES :: nat where "NUM_SIZES = 9"
definition ORDER_OFFSET :: nat where "ORDER_OFFSET = 3"
definition ALIGN :: u32 where "ALIGN = 4"
definition PAGE_SIZE :: u32 where "PAGE_SIZE = 4096"

named_theorems heap_consts "the constants of heap.c"

declare HEADER_SIZE_def [heap_consts] MIN_SIZE_def [heap_consts] sizeof_Chunk_def [heap_consts]
  NUM_SIZES_def [heap_consts] ORDER_OFFSET_def [heap_consts] ALIGN_def [heap_consts]
  PAGE_SIZE_def [heap_consts]

text \<open>The address a pointer holds.\<close>

definition ptr_val :: "u32 option \<Rightarrow> u32" where
  "ptr_val p = (case p of None \<Rightarrow> 0 | Some a \<Rightarrow> a)"

definition to_ptr :: "u32 \<Rightarrow> u32 option" where
  "to_ptr a = (if a = 0 then None else Some a)"

section \<open>Macros\<close>

definition log_two :: "u32 \<Rightarrow> nat" where
  "log_two sz = 31 - builtin_clz sz"

definition get_total_size :: "heap \<Rightarrow> u32 \<Rightarrow> u32" where
  "get_total_size s chunk = ptr_val (nxt (hnodes s chunk)) - chunk"

definition get_chunk_size :: "heap \<Rightarrow> u32 \<Rightarrow> u32" where
  "get_chunk_size s chunk = get_total_size s chunk - HEADER_SIZE"

text \<open>Chunks and requests have at least \<open>MIN_SIZE\<close> bytes where these two are used, so the logarithms are
  large enough for the subtractions.\<close>

definition get_bucket_index :: "heap \<Rightarrow> u32 \<Rightarrow> nat" where
  "get_bucket_index s chunk = log_two (get_chunk_size s chunk) - ORDER_OFFSET"

definition get_alloc_order :: "u32 \<Rightarrow> nat" where
  "get_alloc_order sz = log_two (sz - 1) + 1 - ORDER_OFFSET"

definition get_chunk_offset :: "u32 \<Rightarrow> u32" where
  "get_chunk_offset ptr = ptr - HEADER_SIZE"

text \<open>The address of the \<open>free\<close> member (and of the data) of a chunk.\<close>

definition free_node :: "u32 \<Rightarrow> u32" where
  "free_node chunk = chunk + HEADER_SIZE"

section \<open>Assignments\<close>

definition set_used :: "u32 \<Rightarrow> bool \<Rightarrow> heap \<Rightarrow> heap" where
  "set_used c u s = s\<lparr>hused := (hused s)(c := u)\<rparr>"

definition upd_nodes :: "(u32 nodes \<Rightarrow> u32 nodes) \<Rightarrow> heap \<Rightarrow> heap" where
  "upd_nodes f s = s\<lparr>hnodes := f (hnodes s)\<rparr>"

definition set_bucket :: "nat \<Rightarrow> u32 nodes \<times> u32 option \<Rightarrow> heap \<Rightarrow> heap" where
  "set_bucket k hp s = s\<lparr>hnodes := fst hp, free_bucket := (free_bucket s)(k := snd hp)\<rparr>"

definition clear_page :: "u32 \<Rightarrow> heap \<Rightarrow> heap" where
  "clear_page p s = s\<lparr>hnodes := (\<lambda>a. if unat (a - p) < 4096 then \<lparr>nxt = None, prv = None\<rparr> else hnodes s a),
                     hused := (\<lambda>a. if unat (a - p) < 4096 then False else hused s a)\<rparr>"

section \<open>Pages\<close>

definition create_chunk :: "heap \<Rightarrow> (u32 \<times> heap) res" where
  "create_chunk s =
     bnd (pmm_alloc (pages s) 0) (\<lambda>(page, b).
       bnd (deref (to_ptr (P2V page))) (\<lambda>f_block.
       let s = s\<lparr>pages := b\<rparr>;
           s = clear_page f_block s;
           m_block = f_block + sizeof_Chunk;
           l_block = f_block + PAGE_SIZE - sizeof_Chunk;
           s = set_used f_block True s;
           s = set_used m_block False s;
           s = set_used l_block True s;
           s = upd_nodes (\<lambda>h. insert_node h f_block m_block) s;
           s = upd_nodes (\<lambda>h. insert_node h m_block l_block) s;
           s = s\<lparr>mem_meta := mem_meta s + get_total_size s f_block\<rparr>;
           s = s\<lparr>mem_meta := mem_meta s + get_total_size s f_block\<rparr>;
           s = s\<lparr>mem_meta := mem_meta s + HEADER_SIZE\<rparr>;
           s = s\<lparr>mem_free := mem_free s + get_chunk_size s m_block\<rparr>;
           order = get_bucket_index s m_block;
           s = set_bucket order (push_node (hnodes s) (free_bucket s order) (free_node m_block)) s
       in if first s = None
          then Inr (f_block, s\<lparr>first := Some f_block, last_chunk := Some l_block\<rparr>)
          else bnd (deref (last_chunk s)) (\<lambda>l.
                 let s = upd_nodes (\<lambda>h. insert_node h l f_block) s
                 in Inr (f_block, s\<lparr>last_chunk := Some l_block\<rparr>))))"

definition pop_free_chunk :: "nat \<Rightarrow> heap \<Rightarrow> (u32 option \<times> heap) res" where
  "pop_free_chunk order s =
     (if NUM_SIZES \<le> order then Inr (None, s)
      else bnd (pop_node (hnodes s) (free_bucket s order)) (\<lambda>(h, head, node).
             Inr (to_ptr (node - HEADER_SIZE), set_bucket order (h, head) s)))"

text \<open>The loops of \<open>kmalloc\<close> over the buckets from \<open>i\<close> upwards.\<close>

function find_chunk :: "nat \<Rightarrow> heap \<Rightarrow> (u32 option \<times> heap) res" where
  "find_chunk i s =
     (if i < NUM_SIZES then
        if free_bucket s i \<noteq> None then pop_free_chunk i s else find_chunk (Suc i) s
      else Inr (None, s))"
  by pat_completeness auto
termination
  by (relation "measure (\<lambda>(i, s). NUM_SIZES - i)") auto

declare find_chunk.simps [simp del]

section \<open>Allocation\<close>

text \<open>The part of \<open>kmalloc\<close> that turns a chunk taken from a bucket into an allocation.\<close>

definition use_chunk :: "u32 \<Rightarrow> u32 \<Rightarrow> heap \<Rightarrow> u32 \<times> heap" where
  "use_chunk alloc_size chunk s =
     (let total_size = alloc_size + HEADER_SIZE;
          s = set_used chunk True s;
          chunk_size = get_chunk_size s chunk;
          s = s\<lparr>mem_free := mem_free s - chunk_size\<rparr>;
          s = (if MIN_SIZE + HEADER_SIZE \<le> chunk_size - alloc_size then
                 let nChunk = chunk + total_size;
                     s = set_used nChunk False s;
                     s = upd_nodes (\<lambda>h. insert_node h chunk nChunk) s;
                     s = s\<lparr>mem_meta := mem_meta s + HEADER_SIZE\<rparr>;
                     nOrder = get_bucket_index s nChunk;
                     s = set_bucket nOrder (push_node (hnodes s) (free_bucket s nOrder) (free_node nChunk)) s
                 in s\<lparr>mem_free := mem_free s + get_chunk_size s nChunk\<rparr>
               else s);
          s = s\<lparr>mem_used := mem_used s + get_chunk_size s chunk\<rparr>
      in (free_node chunk, s))"

definition kmalloc :: "u32 \<Rightarrow> heap \<Rightarrow> (u32 option \<times> heap) res" where
  "kmalloc sz s =
     (if sz = 0 then Inr (None, s)
      else
        let sz = (if sz < MIN_SIZE then MIN_SIZE else sz)
        in if 0x1000 \<le> sz then
             let order = log_two (sz - 1) + 1 - BASE_SHIFT
             in bnd (pmm_alloc (pages s) order) (\<lambda>(page, b).
                  let s = s\<lparr>pages := b\<rparr>; ptr = to_ptr (P2V page)
                  in Inr (ptr, if ptr \<noteq> None then s\<lparr>mem_used := mem_used s + push_bit (BASE_SHIFT + order) 1\<rparr> else s))
           else
             let alloc_size = ALIGN_UP sz ALIGN;
                 order = get_alloc_order alloc_size
             in if NUM_SIZES \<le> order then Inr (None, s)
                else
                  bnd (find_chunk order s) (\<lambda>(chunk, s).
                  bnd (if chunk = None then bnd (create_chunk s) (\<lambda>(_, s). find_chunk order s)
                       else Inr (chunk, s)) (\<lambda>(chunk, s).
                    case chunk of
                      None \<Rightarrow> Inl (Panic ''OUT OF MEMORY'')
                    | Some c \<Rightarrow> let (a, s) = use_chunk alloc_size c s in Inr (Some a, s))))"

section \<open>Release\<close>

text \<open>
  The calls of \<open>remove_node\<close> on the list of all chunks pass the address of \<open>first\<close> or of
  \<open>first->all.next\<close> as the list head: the first is the head of the list, the second a field of the
  node of the first chunk.
\<close>

definition remove_from_first :: "u32 \<Rightarrow> heap \<Rightarrow> heap res" where
  "remove_from_first node s =
     bnd (remove_node (hnodes s) (first s) node) (\<lambda>(h, head). Inr (s\<lparr>hnodes := h, first := head\<rparr>))"

definition remove_from_first_next :: "u32 \<Rightarrow> heap \<Rightarrow> heap res" where
  "remove_from_first_next node s =
     bnd (deref (first s)) (\<lambda>f.
     bnd (remove_node_field (hnodes s) f node) (\<lambda>h. Inr (s\<lparr>hnodes := h\<rparr>)))"

definition return_page :: "u32 \<Rightarrow> heap \<Rightarrow> heap res" where
  "return_page f_block s =
     bnd (deref (nxt (hnodes s f_block))) (\<lambda>m_block.
       let l_ptr = nxt (hnodes s m_block)
       in bnd (remove_from_first m_block s) (\<lambda>s.
       let s = s\<lparr>mem_meta := mem_meta s - HEADER_SIZE\<rparr>
       in bnd (remove_from_first_next f_block s) (\<lambda>s.
       let s = s\<lparr>mem_meta := mem_meta s - (HEADER_SIZE + MIN_SIZE)\<rparr>
       in bnd (deref l_ptr) (\<lambda>l_block.
       let s = (if last_chunk s = Some l_block then s\<lparr>last_chunk := prv (hnodes s l_block)\<rparr> else s)
       in bnd (remove_from_first_next l_block s) (\<lambda>s.
       let s = s\<lparr>mem_meta := mem_meta s - (HEADER_SIZE + MIN_SIZE)\<rparr>
       in bnd (pmm_free (pages s) (V2P f_block)) (\<lambda>b. Inr (s\<lparr>pages := b\<rparr>)))))))"

text \<open>Taking a free chunk out of its bucket.\<close>

definition unbucket :: "u32 \<Rightarrow> heap \<Rightarrow> heap res" where
  "unbucket c s =
     (let k = get_bucket_index s c
      in bnd (remove_node (hnodes s) (free_bucket s k) (free_node c)) (\<lambda>hp. Inr (set_bucket k hp s)))"

text \<open>The steps of \<open>kfree\<close>: merging with the following and with the preceding chunk, and the release.\<close>

definition merge_next :: "u32 \<Rightarrow> heap \<Rightarrow> heap res" where
  "merge_next next s =
     (if \<not> hused s next then
        bnd (unbucket next s) (\<lambda>s.
        let s = s\<lparr>mem_free := mem_free s - get_chunk_size s next\<rparr>
        in bnd (remove_from_first_next next s) (\<lambda>s.
           Inr (s\<lparr>mem_meta := mem_meta s - HEADER_SIZE\<rparr>)))
      else Inr s)"

definition merge_prev :: "u32 \<Rightarrow> u32 \<Rightarrow> heap \<Rightarrow> (u32 \<times> heap) res" where
  "merge_prev chunk prev s =
     (if \<not> hused s prev then
        bnd (unbucket prev s) (\<lambda>s.
        let s = s\<lparr>mem_free := mem_free s - get_chunk_size s prev\<rparr>
        in bnd (remove_from_first_next chunk s) (\<lambda>s.
           Inr (prev, s\<lparr>mem_meta := mem_meta s - HEADER_SIZE\<rparr>)))
      else Inr (chunk, s))"

definition release_chunk :: "u32 \<Rightarrow> heap \<Rightarrow> heap res" where
  "release_chunk chunk s =
     (let chunk_size = get_chunk_size s chunk
      in if chunk_size = PAGE_SIZE - 2 * (HEADER_SIZE + MIN_SIZE) - HEADER_SIZE \<and>
            prv (hnodes s chunk) \<noteq> first s
         then bnd (deref (prv (hnodes s chunk))) (\<lambda>f_block. return_page f_block s)
         else
           let s = set_used chunk False s;
               k = get_bucket_index s chunk;
               s = set_bucket k (push_node (hnodes s) (free_bucket s k) (free_node chunk)) s
           in Inr (s\<lparr>mem_free := mem_free s + chunk_size\<rparr>))"

definition kfree :: "u32 \<Rightarrow> heap \<Rightarrow> heap res" where
  "kfree ptr s =
     (if IS_ALIGNED ptr BASE_SIZE then
        let addr = V2P ptr;
            order = get_order_addr (pages s) addr;
            s = s\<lparr>mem_used := mem_used s - push_bit (order + BASE_SHIFT) 1\<rparr>
        in bnd (pmm_free (pages s) (V2P ptr)) (\<lambda>b. Inr (s\<lparr>pages := b\<rparr>))
      else
        let chunk = get_chunk_offset ptr;
            next_ptr = nxt (hnodes s chunk);
            prev_ptr = prv (hnodes s chunk);
            s = s\<lparr>mem_used := mem_used s - get_chunk_size s chunk\<rparr>
        in bnd (deref next_ptr) (\<lambda>next.
           bnd (merge_next next s) (\<lambda>s.
           bnd (deref prev_ptr) (\<lambda>prev.
           bnd (merge_prev chunk prev s) (\<lambda>(chunk, s).
           release_chunk chunk s)))))"

definition init_kmalloc :: "heap \<Rightarrow> heap res" where
  "init_kmalloc s =
     bnd (create_chunk s) (\<lambda>(f, s).
       let s = s\<lparr>first := Some f\<rparr>
       in bnd (deref (nxt (hnodes s f))) (\<lambda>m. Inr (s\<lparr>last_chunk := nxt (hnodes s m)\<rparr>)))"

end
