(* ===== verification/Heap_Lay.thy ===== *)
theory Heap_Lay
  imports Heap
begin

text \<open>
  The layout of the kernel heap: addresses inside a page, the boundaries that cut a heap page into
  chunks, and the order of all chunks in the list that starts at \<open>first\<close>.

  A layout lists the heap's pages in the order of that list. A page is its base address with the
  offsets at which its chunks start: the guard chunk at 0 is left out, the first real chunk
  starts at 20 and the closing guard at 4076. A chunk is a triple of page, start and end offset.
\<close>

section \<open>Addresses in a page\<close>

definition addr :: "u32 \<Rightarrow> nat \<Rightarrow> u32" where
  "addr p i = p + of_nat i"

definition page_base :: "u32 \<Rightarrow> bool" where
  "page_base p \<longleftrightarrow> 4096 dvd unat p"

lemma addr_0 [simp]: "addr p 0 = p"
  by (simp add: addr_def)

lemma addr_diff: "i \<le> j \<Longrightarrow> addr p j - addr p i = of_nat (j - i)"
  by (simp add: addr_def)

lemma addr_addr: "addr p i + of_nat k = addr p (i + k)"
  by (simp add: addr_def)

lemma unat_addr:
  assumes "page_base p" and "i < 4096"
  shows "unat (addr p i) = unat p + i"
proof -
  from assms(1) obtain m where m: "unat p = 4096 * m" unfolding page_base_def by blast
  have "unat p < 2 ^ 32" using unsigned_less [where 'a = nat, of p] by simp
  with m have "m < 2 ^ 20" by simp
  with m assms(2) have lt: "unat p + i < 2 ^ 32" by simp
  have "unat (of_nat i :: u32) = i"
    using assms(2) by (simp add: unsigned_of_nat take_bit_nat_eq_self)
  with lt show ?thesis
    by (simp add: addr_def unat_word_ariths)
qed

lemma offset_unique:
  fixes a b i j k :: nat
  assumes "k dvd a" and "k dvd b" and "i < k" and "j < k" and "a + i = b + j"
  shows "a = b \<and> i = j"
proof -
  have "i = (a + i) mod k" "j = (b + j) mod k"
    using assms(1-4) by (auto simp: mod_add_left_eq [symmetric] dvd_eq_mod_eq_0)
  with assms(5) show ?thesis by simp
qed

lemma addr_inject:
  assumes "page_base p" and "page_base q" and "i < 4096" and "j < 4096"
  shows "addr p i = addr q j \<longleftrightarrow> p = q \<and> i = j"
proof
  assume "addr p i = addr q j"
  then have eq: "unat p + i = unat q + j" using unat_addr assms by metis
  from offset_unique [OF assms(1,2) [unfolded page_base_def] assms(3,4) eq]
  show "p = q \<and> i = j" by (simp add: word_unat_eq_iff)
qed simp

lemma addr_nonzero: "page_base p \<Longrightarrow> i < 4096 \<Longrightarrow> 0 < i \<Longrightarrow> addr p i \<noteq> 0"
  using unat_addr [of p i] by auto

lemma of_nat_u32_small: "n < 2 ^ 32 \<Longrightarrow> unat (of_nat n :: u32) = n"
  by (simp add: unsigned_of_nat take_bit_nat_eq_self)

lemma in_page_iff:
  assumes "page_base p" and "page_base q" and "i < 4096"
  shows "unat (addr q i - p) < 4096 \<longleftrightarrow> q = p"
proof
  assume lt: "unat (addr q i - p) < 4096"
  have "addr q i = addr p (unat (addr q i - p))"
    by (simp add: addr_def)
  with lt assms show "q = p" using addr_inject by metis
next
  assume "q = p"
  then show "unat (addr q i - p) < 4096"
    using assms(3) of_nat_u32_small [of i] by (simp add: addr_def)
qed

section \<open>Adjacent elements of a list\<close>

definition adj :: "'a list \<Rightarrow> 'a \<Rightarrow> 'a \<Rightarrow> bool" where
  "adj xs a b \<longleftrightarrow> (\<exists>us vs. xs = us @ a # b # vs)"

lemma adjE:
  assumes "adj xs a b"
  obtains us vs where "xs = us @ a # b # vs"
  using assms unfolding adj_def by blast

lemma adj_in: "adj xs a b \<Longrightarrow> a \<in> set xs" "adj xs a b \<Longrightarrow> b \<in> set xs"
  by (auto simp: adj_def)

lemma adj_Cons: "adj (x # xs) a b \<longleftrightarrow> x = a \<and> xs \<noteq> [] \<and> hd xs = b \<or> adj xs a b"
proof
  assume "adj (x # xs) a b"
  then obtain us vs where "x # xs = us @ a # b # vs" by (rule adjE)
  then show "x = a \<and> xs \<noteq> [] \<and> hd xs = b \<or> adj xs a b"
    by (cases us) (auto simp: adj_def)
next
  assume "x = a \<and> xs \<noteq> [] \<and> hd xs = b \<or> adj xs a b"
  then show "adj (x # xs) a b"
  proof
    assume "x = a \<and> xs \<noteq> [] \<and> hd xs = b"
    then have "x # xs = [] @ a # b # tl xs" by (cases xs) auto
    then show ?thesis unfolding adj_def by blast
  next
    assume "adj xs a b"
    then obtain us vs where "x # xs = (x # us) @ a # b # vs" by (auto simp: adj_def)
    then show ?thesis unfolding adj_def by blast
  qed
qed

lemma adj_Nil [simp]: "\<not> adj [] a b"
  by (simp add: adj_def)

lemma adj_append:
  "adj (xs @ y # ys) a b \<longleftrightarrow> adj (xs @ [y]) a b \<or> adj (y # ys) a b"
  by (induction xs) (auto simp: adj_Cons hd_append)

lemma adj_insert:
  assumes "distinct (us @ i # n # j # vs)"
  shows "adj (us @ i # n # j # vs) a b \<longleftrightarrow>
    a = i \<and> b = n \<or> a = n \<and> b = j \<or> a \<noteq> i \<and> adj (us @ i # j # vs) a b"
proof -
  have "adj (us @ [i]) a b \<Longrightarrow> a \<noteq> i" using assms by (induction us) (auto simp: adj_Cons split: if_splits)
  moreover have "adj (j # vs) a b \<Longrightarrow> a \<noteq> i" using assms adj_in by fastforce
  moreover have "adj (i # n # j # vs) a b \<longleftrightarrow> a = i \<and> b = n \<or> a = n \<and> b = j \<or> adj (j # vs) a b"
    and "adj (i # j # vs) a b \<longleftrightarrow> a = i \<and> b = j \<or> adj (j # vs) a b"
    by (auto simp: adj_Cons)
  ultimately show ?thesis
    unfolding adj_append [of us i "n # j # vs"] adj_append [of us i "j # vs"] by blast
qed

lemma adj_delete:
  assumes "distinct (us @ i # n # j # vs)"
  shows "adj (us @ i # j # vs) a b \<longleftrightarrow>
    a = i \<and> b = j \<or> a \<noteq> i \<and> a \<noteq> n \<and> adj (us @ i # n # j # vs) a b"
proof -
  have "adj (us @ i # j # vs) a b \<Longrightarrow> a \<noteq> n" using assms adj_in by fastforce
  moreover have "adj (us @ i # j # vs) i b \<Longrightarrow> b = j"
  proof -
    have "adj (us @ [i]) i b \<Longrightarrow> False" using assms by (induction us) (auto simp: adj_Cons split: if_splits)
    moreover have "adj (j # vs) i b \<Longrightarrow> False" using assms adj_in by fastforce
    ultimately show "adj (us @ i # j # vs) i b \<Longrightarrow> b = j"
      unfolding adj_append [of us i "j # vs"] adj_Cons [of i "j # vs"] by auto
  qed
  moreover have "adj (us @ i # j # vs) i j" unfolding adj_def by blast
  ultimately show ?thesis unfolding adj_insert [OF assms] by blast
qed

section \<open>Layouts\<close>

type_synonym layout = "(u32 \<times> nat list) list"
type_synonym chunk = "u32 \<times> nat \<times> nat"

definition spaced :: "nat list \<Rightarrow> bool" where
  "spaced = sorted_wrt (\<lambda>x y. x + 20 \<le> y)"

definition cuts_ok :: "nat list \<Rightarrow> bool" where
  "cuts_ok bs \<longleftrightarrow> bs \<noteq> [] \<and> hd bs = 20 \<and> last bs = 4076 \<and> spaced (0 # bs) \<and> (\<forall>i\<in>set bs. 4 dvd i)"

definition lay_ok :: "layout \<Rightarrow> bool" where
  "lay_ok lay \<longleftrightarrow> distinct (map fst lay) \<and> (\<forall>(p, bs)\<in>set lay. page_base p \<and> cuts_ok bs)"

definition chunks :: "layout \<Rightarrow> chunk set" where
  "chunks lay = {(p, i, j). \<exists>bs. (p, bs) \<in> set lay \<and> adj bs i j}"

definition page_seq :: "u32 \<times> nat list \<Rightarrow> u32 list" where
  "page_seq x = map (addr (fst x)) (0 # snd x)"

definition all_seq :: "layout \<Rightarrow> u32 list" where
  "all_seq lay = concat (map page_seq lay)"

lemma spaced_append:
  "spaced (xs @ ys) \<longleftrightarrow> spaced xs \<and> spaced ys \<and> (\<forall>x\<in>set xs. \<forall>y\<in>set ys. x + 20 \<le> y)"
  by (simp add: spaced_def sorted_wrt_append)

lemma spaced_Cons: "spaced (x # xs) \<longleftrightarrow> (\<forall>y\<in>set xs. x + 20 \<le> y) \<and> spaced xs"
  by (simp add: spaced_def)

lemma spaced_Nil [simp]: "spaced []"
  by (simp add: spaced_def)

lemmas spaced_simps = spaced_append spaced_Cons spaced_Nil

lemma spaced_distinct: "spaced xs \<Longrightarrow> distinct xs"
  by (induction xs) (auto simp: spaced_simps)

lemma cuts_range: "cuts_ok bs \<Longrightarrow> i \<in> set bs \<Longrightarrow> 20 \<le> i \<and> i \<le> 4076 \<and> 4 dvd i"
proof -
  assume bs: "cuts_ok bs" and i: "i \<in> set bs"
  then have "20 \<le> i" by (auto simp: cuts_ok_def spaced_simps)
  moreover from bs obtain cs where "bs = cs @ [4076]"
    unfolding cuts_ok_def by (metis append_butlast_last_id)
  with bs i have "i \<le> 4076" by (auto simp: cuts_ok_def spaced_simps)
  ultimately show ?thesis using bs i by (simp add: cuts_ok_def)
qed

lemma cuts_adj:
  assumes "cuts_ok bs" and "adj bs i j"
  shows "20 \<le> i" and "i + 20 \<le> j" and "j \<le> 4076" and "4 dvd i" and "4 dvd j"
proof -
  from assms(2) obtain us vs where "bs = us @ i # j # vs" by (rule adjE)
  with assms(1) show "i + 20 \<le> j" by (auto simp: cuts_ok_def spaced_simps)
qed (use cuts_range [OF assms(1)] adj_in [OF assms(2)] in auto)

lemma cuts_gap:
  assumes "cuts_ok bs" and "adj bs i j" and "k \<in> set bs"
  shows "k \<le> i \<or> j \<le> k"
proof -
  from assms(2) obtain us vs where "bs = us @ i # j # vs" by (rule adjE)
  with assms(1,3) show ?thesis by (auto simp: cuts_ok_def spaced_simps)
qed

lemma cuts_next:
  assumes "cuts_ok bs" and "i \<in> set bs" and "i \<noteq> 4076"
  obtains j where "adj bs i j"
proof -
  from assms(2) obtain us vs where bs: "bs = us @ i # vs" by (meson split_list)
  with assms(1,3) have "vs \<noteq> []" by (auto simp: cuts_ok_def)
  with bs that show thesis by (cases vs) (auto simp: adj_def)
qed

lemma cuts_prev:
  assumes "cuts_ok bs" and "i \<in> set bs" and "i \<noteq> 20"
  obtains j where "adj bs j i"
proof -
  from assms(2) obtain us vs where bs: "bs = us @ i # vs" by (meson split_list)
  with assms(1,3) have "us \<noteq> []" by (auto simp: cuts_ok_def)
  then obtain cs j where "us = cs @ [j]" by (metis rev_exhaust)
  with bs that show thesis by (auto simp: adj_def)
qed

lemma cuts_insert:
  assumes "cuts_ok (us @ i # j # vs)" and "i + 20 \<le> n" and "n + 20 \<le> j" and "4 dvd n"
  shows "cuts_ok (us @ i # n # j # vs)"
  using assms by (cases us) (auto simp: cuts_ok_def spaced_simps split: if_splits)

lemma cuts_delete:
  assumes "cuts_ok (us @ i # n # j # vs)"
  shows "cuts_ok (us @ i # j # vs)"
  using assms by (cases us) (auto simp: cuts_ok_def spaced_simps split: if_splits)

lemma cuts_distinct: "cuts_ok bs \<Longrightarrow> distinct (0 # bs)"
  unfolding cuts_ok_def using spaced_distinct by blast

lemma lay_okD:
  assumes "lay_ok lay" and "(p, bs) \<in> set lay"
  shows "page_base p" and "cuts_ok bs"
  using assms by (auto simp: lay_ok_def)

lemma lay_ok_unique:
  "lay_ok lay \<Longrightarrow> (p, bs) \<in> set lay \<Longrightarrow> (p, cs) \<in> set lay \<Longrightarrow> bs = cs"
  by (auto simp: lay_ok_def intro: eq_key_imp_eq_value)

lemma chunksE:
  assumes "(p, i, j) \<in> chunks lay"
  obtains L1 bs L2 where "lay = L1 @ (p, bs) # L2" and "adj bs i j"
  using assms by (auto simp: chunks_def dest: split_list)

lemma chunks_append [simp]: "chunks (L1 @ L2) = chunks L1 \<union> chunks L2"
  by (auto simp: chunks_def)

lemma chunks_Cons: "chunks ((p, bs) # L) = {p} \<times> {(i, j). adj bs i j} \<union> chunks L"
  by (auto simp: chunks_def)

lemma chunks_Nil [simp]: "chunks [] = {}"
  by (simp add: chunks_def)

lemma chunks_page: "(p, i, j) \<in> chunks L \<Longrightarrow> p \<in> fst ` set L"
  by (force simp: chunks_def)

lemma finite_chunks: "finite (chunks lay)"
proof -
  have "{(i, j). adj bs i j} \<subseteq> set bs \<times> set bs" for bs :: "nat list"
    using adj_in by fastforce
  then have "finite {(i, j). adj bs i j}" for bs :: "nat list"
    by (meson List.finite_set finite_SigmaI finite_subset)
  then show ?thesis
    by (induction lay) (auto simp: chunks_Cons)
qed

lemma lay_chunk:
  assumes "lay_ok lay" and "(p, i, j) \<in> chunks lay"
  shows "page_base p" and "20 \<le> i" and "i + 20 \<le> j" and "j \<le> 4076" and "4 dvd i" and "4 dvd j"
proof -
  from assms(2) obtain bs where bs: "(p, bs) \<in> set lay" "adj bs i j" by (auto simp: chunks_def)
  show "page_base p" using lay_okD(1) [OF assms(1) bs(1)] .
  show "20 \<le> i" "i + 20 \<le> j" "j \<le> 4076" "4 dvd i" "4 dvd j"
    using cuts_adj [OF lay_okD(2) [OF assms(1) bs(1)] bs(2)] by blast+
qed

lemma all_seq_append [simp]: "all_seq (L1 @ L2) = all_seq L1 @ all_seq L2"
  by (simp add: all_seq_def)

lemma all_seq_Cons: "all_seq ((p, bs) # L) = p # map (addr p) bs @ all_seq L"
  by (simp add: all_seq_def page_seq_def)

lemma all_seq_Nil [simp]: "all_seq [] = []"
  by (simp add: all_seq_def)

lemma all_seq_empty [simp]: "all_seq L = [] \<longleftrightarrow> L = []"
  by (cases L) (auto simp: all_seq_Cons)

lemma set_all_seq: "set (all_seq lay) = (\<Union>(p, bs)\<in>set lay. addr p ` insert 0 (set bs))"
  by (simp add: all_seq_def page_seq_def case_prod_unfold)

lemma in_all_seq:
  assumes "lay_ok lay" and "page_base p" and "i < 4096"
  shows "addr p i \<in> set (all_seq lay) \<longleftrightarrow> (\<exists>bs. (p, bs) \<in> set lay \<and> (i = 0 \<or> i \<in> set bs))"
proof
  assume "addr p i \<in> set (all_seq lay)"
  then obtain q bs j where q: "addr p i = addr q j" "(q, bs) \<in> set lay" "j = 0 \<or> j \<in> set bs"
    unfolding set_all_seq by blast
  have "j < 4096" using q(3) cuts_range [OF lay_okD(2) [OF assms(1) q(2)]] by fastforce
  with q assms lay_okD(1) [OF assms(1) q(2)] have "p = q" "i = j" by (simp_all add: addr_inject)
  with q show "\<exists>bs. (p, bs) \<in> set lay \<and> (i = 0 \<or> i \<in> set bs)" by blast
next
  assume "\<exists>bs. (p, bs) \<in> set lay \<and> (i = 0 \<or> i \<in> set bs)"
  then obtain bs where "(p, bs) \<in> set lay" "i \<in> insert 0 (set bs)" by blast
  then show "addr p i \<in> set (all_seq lay)" unfolding set_all_seq by blast
qed

lemma lay_ok_Cons:
  "lay_ok ((p, bs) # L) \<longleftrightarrow> p \<notin> fst ` set L \<and> page_base p \<and> cuts_ok bs \<and> lay_ok L"
  by (auto simp: lay_ok_def)

lemma lay_ok_append:
  "lay_ok (L1 @ L2) \<longleftrightarrow> lay_ok L1 \<and> lay_ok L2 \<and> fst ` set L1 \<inter> fst ` set L2 = {}"
  by (auto simp: lay_ok_def)

lemma lay_ok_Nil [simp]: "lay_ok []"
  by (simp add: lay_ok_def)

lemmas lay_ok_simps = lay_ok_append lay_ok_Cons lay_ok_Nil

lemma addr_inj_on: "page_base p \<Longrightarrow> inj_on (addr p) {..<4096}"
  by (auto simp: inj_on_def addr_inject)

lemma distinct_all_seq: "lay_ok lay \<Longrightarrow> distinct (all_seq lay)"
proof (induction lay)
  case (Cons x L)
  obtain p bs where x: "x = (p, bs)" by (cases x)
  with Cons have ok: "page_base p" "cuts_ok bs" "lay_ok L" "p \<notin> fst ` set L" "distinct (all_seq L)"
    by (auto simp: lay_ok_Cons)
  have lt: "set (0 # bs) \<subseteq> {..<4096}" using cuts_range [OF ok(2)] by fastforce
  have "distinct (map (addr p) (0 # bs))"
    using cuts_distinct [OF ok(2)] inj_on_subset [OF addr_inj_on [OF ok(1)] lt]
    unfolding distinct_map by blast
  moreover have "set (map (addr p) (0 # bs)) \<inter> set (all_seq L) = {}"
    using in_all_seq [OF ok(3,1)] ok(4) lt by force
  ultimately have "distinct (map (addr p) (0 # bs) @ all_seq L)" using ok(5) unfolding distinct_append by blast
  with x show ?case by (simp add: all_seq_Cons)
qed simp

text \<open>The list of all chunks determines the layout.\<close>

lemma all_seq_unique:
  assumes "lay_ok L" and "lay_ok L'" and "all_seq L = all_seq L'"
  shows "L = L'"
  using assms
proof (induction L arbitrary: L')
  case Nil
  then show ?case by (metis all_seq_empty)
next
  case (Cons x L)
  obtain p bs where x: "x = (p, bs)" by (cases x)
  with Cons.prems(3) obtain y M where L': "L' = y # M" by (cases L') (auto simp: all_seq_Cons)
  obtain q cs where y: "y = (q, cs)" by (cases y)
  from Cons.prems x L' y have ok: "page_base p" "cuts_ok bs" "cuts_ok cs" "lay_ok L" "lay_ok M"
    and eq: "p = q" "map (addr p) bs @ all_seq L = map (addr p) cs @ all_seq M"
    by (auto simp: lay_ok_Cons all_seq_Cons)
  have d: "distinct (all_seq (x # L))" by (rule distinct_all_seq [OF Cons.prems(1)])
  obtain ds es where bc: "bs = ds @ [4076]" "cs = es @ [4076]"
    using ok(2,3) unfolding cuts_ok_def by (metis append_butlast_last_id)
  have n: "addr p 4076 \<notin> set (map (addr p) ds)" "addr p 4076 \<notin> set (all_seq L)"
    using d x bc(1) by (auto simp: all_seq_Cons)
  from eq(2) bc have "map (addr p) ds @ addr p 4076 # all_seq L = map (addr p) es @ addr p 4076 # all_seq M"
    by simp
  then have "map (addr p) ds = map (addr p) es" and LM: "all_seq L = all_seq M"
    using append_Cons_eq_iff [OF n] by blast+
  moreover have "set ds \<subseteq> {..<4096}" "set es \<subseteq> {..<4096}"
    using cuts_range [OF ok(2)] cuts_range [OF ok(3)] bc by fastforce+
  ultimately have "ds = es"
    using inj_on_map_eq_map [of "addr p" ds es] inj_on_subset [OF addr_inj_on [OF ok(1)], of "set ds \<union> set es"]
    by blast
  with Cons.IH [OF ok(4,5) LM] x y L' bc eq(1) show ?case by simp
qed

section \<open>Changing one boundary\<close>

lemma chunks_insert:
  assumes "lay_ok (L1 @ (p, us @ i # n # j # vs) # L2)"
  shows "chunks (L1 @ (p, us @ i # n # j # vs) # L2) =
    insert (p, i, n) (insert (p, n, j) (chunks (L1 @ (p, us @ i # j # vs) # L2) - {(p, i, j)}))"
proof -
  from assms have d: "distinct (us @ i # n # j # vs)"
    using cuts_distinct [of "us @ i # n # j # vs"] by (simp add: lay_ok_simps)
  have np: "(p, x) \<notin> chunks L1" "(p, x) \<notin> chunks L2" for x
    using assms chunks_page [of p] by (cases x; force simp: lay_ok_simps)+
  have "adj (us @ i # n # j # vs) a b \<longleftrightarrow>
      a = i \<and> b = n \<or> a = n \<and> b = j \<or> (a, b) \<noteq> (i, j) \<and> adj (us @ i # j # vs) a b" for a b
    unfolding adj_insert [OF d] using adj_delete [OF d, of a b] by auto
  then have "{(a, b). adj (us @ i # n # j # vs) a b} =
      insert (i, n) (insert (n, j) ({(a, b). adj (us @ i # j # vs) a b} - {(i, j)}))"
    by auto
  with np show ?thesis by (auto simp: chunks_Cons)
qed

lemma chunks_new:
  assumes "lay_ok (L1 @ (p, us @ i # n # j # vs) # L2)"
  shows "(p, i, n) \<notin> chunks (L1 @ (p, us @ i # j # vs) # L2)"
    and "(p, n, j) \<notin> chunks (L1 @ (p, us @ i # j # vs) # L2)"
    and "(p, i, j) \<in> chunks (L1 @ (p, us @ i # j # vs) # L2)"
    and "(p, i, j) \<notin> chunks (L1 @ (p, us @ i # n # j # vs) # L2)"
proof -
  from assms have d: "distinct (us @ i # n # j # vs)"
    using cuts_distinct [of "us @ i # n # j # vs"] by (simp add: lay_ok_simps)
  have np: "(p, x) \<notin> chunks L1" "(p, x) \<notin> chunks L2" for x
    using assms chunks_page [of p] by (cases x; force simp: lay_ok_simps)+
  show "(p, i, n) \<notin> chunks (L1 @ (p, us @ i # j # vs) # L2)"
    using np d adj_delete [OF d, of i n] by (auto simp: chunks_Cons)
  show "(p, n, j) \<notin> chunks (L1 @ (p, us @ i # j # vs) # L2)"
    using np d adj_delete [OF d, of n j] by (auto simp: chunks_Cons)
  show "(p, i, j) \<in> chunks (L1 @ (p, us @ i # j # vs) # L2)"
    by (auto simp: chunks_Cons adj_def)
  show "(p, i, j) \<notin> chunks (L1 @ (p, us @ i # n # j # vs) # L2)"
    using np d adj_insert [OF d, of i j] by (auto simp: chunks_Cons)
qed

text \<open>Chunks of a layout do not overlap.\<close>

lemma chunks_apart:
  assumes "lay_ok lay" and "(p, i, j) \<in> chunks lay" and "(p, k, l) \<in> chunks lay"
  shows "i = k \<and> j = l \<or> j \<le> k \<or> l \<le> i"
proof -
  from assms obtain bs where bs: "(p, bs) \<in> set lay" "adj bs i j" "adj bs k l"
    using lay_ok_unique by (fastforce simp: chunks_def)
  from lay_okD(2) [OF assms(1) bs(1)] have ok: "cuts_ok bs" .
  show ?thesis
    using cuts_gap [OF ok bs(2), of k] cuts_gap [OF ok bs(2), of l] cuts_gap [OF ok bs(3), of i]
      cuts_gap [OF ok bs(3), of j] adj_in [OF bs(2)] adj_in [OF bs(3)]
      cuts_adj [OF ok bs(2)] cuts_adj [OF ok bs(3)]
    by auto
qed

end
