(* ===== verification/Heap_Inv.thy ===== *)
theory Heap_Inv
  imports Heap_Lay
begin

text \<open>
  The representation invariant of the kernel heap, and what the list operations do to its parts:
  \<open>linked\<close> (the list of all chunks), \<open>bucketed\<close> (the size buckets), and the byte counters.
  A set \<open>X\<close> of chunk addresses names chunks in transit: taken from their bucket and neither free
  nor handed out.
\<close>

section \<open>Free chunks and buckets\<close>

definition caddr :: "chunk \<Rightarrow> u32" where
  "caddr c = (case c of (p, i, j) \<Rightarrow> addr p i)"

definition fnode :: "chunk \<Rightarrow> u32" where
  "fnode c = (case c of (p, i, j) \<Rightarrow> addr p (i + 12))"

definition csize :: "chunk \<Rightarrow> nat" where
  "csize c = (case c of (p, i, j) \<Rightarrow> j - i - 12)"

lemma chunk_simps [simp]:
  "caddr (p, i, j) = addr p i" "fnode (p, i, j) = addr p (i + 12)" "csize (p, i, j) = j - i - 12"
  by (simp_all add: caddr_def fnode_def csize_def)

definition bidx :: "nat \<Rightarrow> nat" where
  "bidx n = log_two (of_nat n) - ORDER_OFFSET"

definition frees :: "(u32 \<Rightarrow> bool) \<Rightarrow> u32 set \<Rightarrow> layout \<Rightarrow> chunk set" where
  "frees u X lay = {c \<in> chunks lay. \<not> u (caddr c) \<and> caddr c \<notin> X}"

definition bucketed :: "u32 nodes \<Rightarrow> (nat \<Rightarrow> u32 option) \<Rightarrow> chunk set \<Rightarrow> bool" where
  "bucketed h fb F \<longleftrightarrow> (\<exists>L. bucket_lists dll NUM_SIZES h fb L \<and>
     (\<forall>k<NUM_SIZES. set (L k) = fnode ` {c \<in> F. bidx (csize c) = k}))"

definition linked :: "u32 nodes \<Rightarrow> u32 option \<Rightarrow> u32 option \<Rightarrow> layout \<Rightarrow> bool" where
  "linked h f l lay \<longleftrightarrow> dls h None f (all_seq lay) None \<and>
     l = (if lay = [] then None else Some (addr (fst (last lay)) 4076))"

definition guards :: "(u32 \<Rightarrow> bool) \<Rightarrow> layout \<Rightarrow> bool" where
  "guards u lay \<longleftrightarrow> (\<forall>p\<in>fst ` set lay. u p \<and> u (addr p 4076))"

definition apart :: "chunk set \<Rightarrow> bool" where
  "apart F \<longleftrightarrow> (\<forall>p i j k. (p, i, j) \<in> F \<longrightarrow> (p, j, k) \<notin> F)"

definition backed :: "buddy \<Rightarrow> layout \<Rightarrow> bool" where
  "backed b lay \<longleftrightarrow> buddy_inv b \<and>
     (\<forall>p\<in>fst ` set lay. \<exists>x. p = P2V (page_map_real x) \<and> used_block b x 0)"

definition heap_wf :: "u32 set \<Rightarrow> heap \<Rightarrow> layout \<Rightarrow> bool" where
  "heap_wf X s lay \<longleftrightarrow> lay_ok lay \<and> linked (hnodes s) (first s) (last_chunk s) lay \<and>
     guards (hused s) lay \<and>
     bucketed (hnodes s) (free_bucket s) (frees (hused s) X lay) \<and>
     apart (frees (hused s) X lay) \<and>
     mem_free s = (\<Sum>c\<in>frees (hused s) X lay. of_nat (csize c)) \<and>
     mem_meta s = of_nat (40 * length lay + 12 * card (chunks lay)) \<and>
     backed (pages s) lay"

lemma heap_wfD:
  assumes "heap_wf X s lay"
  shows "lay_ok lay" and "linked (hnodes s) (first s) (last_chunk s) lay" and "guards (hused s) lay"
    and "bucketed (hnodes s) (free_bucket s) (frees (hused s) X lay)"
    and "apart (frees (hused s) X lay)"
    and "mem_free s = (\<Sum>c\<in>frees (hused s) X lay. of_nat (csize c))"
    and "mem_meta s = of_nat (40 * length lay + 12 * card (chunks lay))"
    and "backed (pages s) lay"
  using assms by (simp_all add: heap_wf_def)

lemma frees_chunks: "frees u X lay \<subseteq> chunks lay"
  by (auto simp: frees_def)

lemma finite_frees: "finite (frees u X lay)"
  by (rule finite_subset [OF frees_chunks finite_chunks])

section \<open>Sizes and buckets\<close>

lemma log_two_bounds:
  assumes "w \<noteq> 0"
  shows "2 ^ log_two w \<le> unat w" and "unat w < 2 ^ Suc (log_two w)"
proof -
  have "32 - builtin_clz w = Suc (31 - builtin_clz w)"
    using builtin_clz_bounds(3) [OF assms] by simp
  then show "2 ^ log_two w \<le> unat w" "unat w < 2 ^ Suc (log_two w)"
    using builtin_clz_bounds(1,2) [OF assms] by (simp_all only: log_two_def)
qed

lemma bidx_bounds:
  assumes "8 \<le> n" and "n < 4096"
  shows "2 ^ (bidx n + 3) \<le> n" and "n < 2 ^ (bidx n + 4)" and "bidx n < NUM_SIZES"
proof -
  let ?w = "of_nat n :: u32"
  from assms(2) have u: "unat ?w = n" by (simp add: of_nat_u32_small)
  with assms(1) have nz: "?w \<noteq> 0" by (metis not_numeral_le_zero unsigned_0)
  note b = log_two_bounds [OF nz, unfolded u]
  have "(2::nat) ^ 3 < 2 ^ Suc (log_two ?w)" using b(2) assms(1) by simp
  then have "3 \<le> log_two ?w" using power_less_imp_less_exp [of 2 3] by fastforce
  then have eq: "log_two ?w = bidx n + 3" by (simp add: bidx_def ORDER_OFFSET_def)
  with b show "2 ^ (bidx n + 3) \<le> n" "n < 2 ^ (bidx n + 4)" by (simp_all add: add.commute)
  have "(2::nat) ^ (bidx n + 3) < 2 ^ 12" using b(1) eq assms(2) by simp
  then show "bidx n < NUM_SIZES" using power_less_imp_less_exp [of "2::nat" "bidx n + 3" 12]
    by (simp add: NUM_SIZES_def)
qed

lemma csize_bounds:
  assumes "lay_ok lay" and "c \<in> chunks lay"
  shows "8 \<le> csize c" and "csize c \<le> 4044" and "bidx (csize c) < NUM_SIZES"
proof -
  obtain p i j where c: "c = (p, i, j)" by (cases c)
  from lay_chunk [OF assms(1) assms(2) [unfolded c]] show "8 \<le> csize c" "csize c \<le> 4044"
    by (simp_all add: c)
  then show "bidx (csize c) < NUM_SIZES" by (intro bidx_bounds(3)) auto
qed

lemma caddr_inj: "lay_ok lay \<Longrightarrow> inj_on caddr (chunks lay)"
proof (rule inj_onI)
  fix c d assume ok: "lay_ok lay" and cd: "c \<in> chunks lay" "d \<in> chunks lay" "caddr c = caddr d"
  obtain p i j q k l where eq: "c = (p, i, j)" "d = (q, k, l)" by (metis surj_pair)
  note b = lay_chunk [OF ok cd(1) [unfolded eq]] lay_chunk [OF ok cd(2) [unfolded eq]]
  with cd(3) eq have "p = q" "i = k" by (auto simp: addr_inject)
  with chunks_apart [OF ok, of p i j k l] cd eq b show "c = d" by auto
qed

lemma fnode_inj: "lay_ok lay \<Longrightarrow> inj_on fnode (chunks lay)"
proof -
  have "fnode c = caddr c + 12" for c by (cases c) (simp add: addr_def)
  then show "lay_ok lay \<Longrightarrow> inj_on fnode (chunks lay)"
    using caddr_inj [of lay] by (simp add: inj_on_def)
qed

lemma fnode_not_seq:
  assumes "lay_ok lay" and "c \<in> chunks lay"
  shows "fnode c \<notin> set (all_seq lay)"
proof
  obtain p i j where c: "c = (p, i, j)" by (cases c)
  note b = lay_chunk [OF assms(1) assms(2) [unfolded c]]
  assume "fnode c \<in> set (all_seq lay)"
  then obtain bs where bs: "(p, bs) \<in> set lay" "i + 12 \<in> set bs"
    using in_all_seq [OF assms(1) b(1), of "i + 12"] c b(2-4) by auto
  from assms(2) c obtain cs where "(p, cs) \<in> set lay" "adj cs i j" by (auto simp: chunks_def)
  with lay_ok_unique [OF assms(1)] bs(1) have "adj bs i j" by blast
  from cuts_gap [OF lay_okD(2) [OF assms(1) bs(1)] this bs(2)] b show False by auto
qed

lemma caddr_seq: "lay_ok lay \<Longrightarrow> c \<in> chunks lay \<Longrightarrow> caddr c \<in> set (all_seq lay)"
  by (cases c) (auto simp: chunks_def set_all_seq dest: adj_in)

section \<open>Operations on the buckets\<close>

lemma bucketed_frame:
  assumes "bucketed h fb F" and "\<And>c. c \<in> F \<Longrightarrow> h' (fnode c) = h (fnode c)"
  shows "bucketed h' fb F"
proof -
  from assms(1) obtain L where L: "bucket_lists dll NUM_SIZES h fb L"
    "\<forall>k<NUM_SIZES. set (L k) = fnode ` {c \<in> F. bidx (csize c) = k}" by (auto simp: bucketed_def)
  have "bucket_lists dll NUM_SIZES h' fb L"
    using L(2) assms(2) by (intro nl.bucket_frame [OF L(1)]) auto
  with L(2) show ?thesis by (auto simp: bucketed_def)
qed

lemma bucketed_push:
  assumes "bucketed h fb F" and "k = bidx (csize c)" and "k < NUM_SIZES" and "fnode c \<notin> fnode ` F"
    and "push_node h (fb k) (fnode c) = hp"
  shows "bucketed (fst hp) (fb(k := snd hp)) (insert c F)"
    and "\<And>a. a \<noteq> fnode c \<Longrightarrow> a \<notin> fnode ` F \<Longrightarrow> fst hp a = h a"
proof -
  obtain h' p' where hp: "hp = (h', p')" by (cases hp)
  from assms(1) obtain L where L: "bucket_lists dll NUM_SIZES h fb L"
    "\<forall>k<NUM_SIZES. set (L k) = fnode ` {c \<in> F. bidx (csize c) = k}" by (auto simp: bucketed_def)
  have n: "j < NUM_SIZES \<Longrightarrow> fnode c \<notin> set (L j)" for j using L(2) assms(4) by auto
  have "bucket_lists dll NUM_SIZES h' (fb(k := p')) (L(k := fnode c # L k))"
    using nl.push_bucket [OF L(1) assms(3) n] assms(5) hp by simp
  moreover have "\<forall>j<NUM_SIZES. set ((L(k := fnode c # L k)) j) = fnode ` {d \<in> insert c F. bidx (csize d) = j}"
    using L(2) assms(2) by auto
  ultimately show "bucketed (fst hp) (fb(k := snd hp)) (insert c F)"
    unfolding bucketed_def hp fst_conv snd_conv by blast
  from L(1) assms(3) have "dll h (fb k) (L k)" by (simp add: bucket_lists_def)
  from nl.push_lst [OF this n [OF assms(3)], of h' p'] assms(5) hp
  have "\<forall>y. y \<notin> set (fnode c # L k) \<longrightarrow> h' y = h y" by simp
  then show "\<And>a. a \<noteq> fnode c \<Longrightarrow> a \<notin> fnode ` F \<Longrightarrow> fst hp a = h a"
    using L(2) assms(3) hp by auto
qed

lemma bucketed_remove:
  assumes "bucketed h fb F" and "k = bidx (csize c)" and "k < NUM_SIZES" and "c \<in> F" and "inj_on fnode F"
  obtains h' p' where "remove_node h (fb k) (fnode c) = Inr (h', p')"
    and "bucketed h' (fb(k := p')) (F - {c})" and "\<And>a. a \<notin> fnode ` F \<Longrightarrow> h' a = h a"
proof -
  from assms(1) obtain L where L: "bucket_lists dll NUM_SIZES h fb L"
    "\<forall>k<NUM_SIZES. set (L k) = fnode ` {c \<in> F. bidx (csize c) = k}" by (auto simp: bucketed_def)
  have x: "fnode c \<in> set (L k)" using L(2) assms(2-4) by auto
  from nl.remove_bucket [OF L(1) assms(3) x] obtain h' p' where
    r: "remove_node h (fb k) (fnode c) = Inr (h', p')"
      "bucket_lists dll NUM_SIZES h' (fb(k := p')) (L(k := remove1 (fnode c) (L k)))" by blast
  have eq: "set ((L(k := remove1 (fnode c) (L k))) j) = fnode ` {d \<in> F - {c}. bidx (csize d) = j}"
    if "j < NUM_SIZES" for j
  proof (cases "j = k")
    case True
    have "fnode ` {d \<in> F - {c}. bidx (csize d) = k} = fnode ` {d \<in> F. bidx (csize d) = k} - {fnode c}"
      using assms(4,5) by (auto simp: inj_on_def)
    with True L(2) assms(3) nl.bucket_distinct [OF L(1) assms(3)] show ?thesis by simp
  next
    case False
    with assms(2) have "{d \<in> F - {c}. bidx (csize d) = j} = {d \<in> F. bidx (csize d) = j}" by auto
    with False L(2) that show ?thesis by simp
  qed
  from L(1) assms(3) have "dll h (fb k) (L k)" by (simp add: bucket_lists_def)
  from nl.remove_lst [OF this x] r(1) have "\<forall>y. y \<notin> set (L k) \<longrightarrow> h' y = h y" by auto
  then have "\<And>a. a \<notin> fnode ` F \<Longrightarrow> h' a = h a" using L(2) assms(3) by auto
  moreover have "bucketed h' (fb(k := p')) (F - {c})" using r(2) eq unfolding bucketed_def by blast
  ultimately show thesis using that r(1) by blast
qed

lemma bucketed_pop:
  assumes "bucketed h fb F" and "k < NUM_SIZES" and "fb k \<noteq> None" and "inj_on fnode F"
  obtains c h' p' where "c \<in> F" and "bidx (csize c) = k" and "pop_node h (fb k) = Inr (h', p', fnode c)"
    and "bucketed h' (fb(k := p')) (F - {c})" and "\<And>a. a \<notin> fnode ` F \<Longrightarrow> h' a = h a"
proof -
  from assms(1) obtain L where L: "bucket_lists dll NUM_SIZES h fb L"
    "\<forall>k<NUM_SIZES. set (L k) = fnode ` {c \<in> F. bidx (csize c) = k}" by (auto simp: bucketed_def)
  from nl.bucket_head [OF L(1) assms(2)] assms(3) obtain x xs where "fb k = Some x" "L k = x # xs"
    by (cases "L k") auto
  moreover from this(2) L(2) assms(2) obtain c where c: "c \<in> F" "bidx (csize c) = k" "x = fnode c"
    by (metis (mono_tags, lifting) imageE list.set_intros(1) mem_Collect_eq)
  ultimately have "fb k = Some (fnode c)" by simp
  moreover obtain h' p' where r: "remove_node h (fb k) (fnode c) = Inr (h', p')"
    "bucketed h' (fb(k := p')) (F - {c})" "\<And>a. a \<notin> fnode ` F \<Longrightarrow> h' a = h a"
    using bucketed_remove [OF assms(1) c(2) [symmetric] assms(2) c(1) assms(4)] by metis
  ultimately have "pop_node h (fb k) = Inr (h', p', fnode c)"
    by (auto simp: remove_node_def pop_node_def Let_def)
  with r c that show thesis by blast
qed

lemma bucketed_None:
  assumes "bucketed h fb F" and "k < NUM_SIZES" and "c \<in> F" and "bidx (csize c) = k"
  shows "fb k \<noteq> None"
proof -
  from assms(1) obtain L where L: "bucket_lists dll NUM_SIZES h fb L"
    "\<forall>k<NUM_SIZES. set (L k) = fnode ` {c \<in> F. bidx (csize c) = k}" by (auto simp: bucketed_def)
  with assms have "L k \<noteq> []" by (metis (mono_tags, lifting) empty_iff imageI list.set(1) mem_Collect_eq)
  with nl.bucket_head [OF L(1) assms(2)] show ?thesis by simp
qed

section \<open>The list of all chunks\<close>

lemma linked_frame:
  "linked h f l lay \<Longrightarrow> (\<And>a. a \<in> set (all_seq lay) \<Longrightarrow> h' a = h a) \<Longrightarrow> linked h' f l lay"
  using dls_frame [of "all_seq lay" h' h] by (simp add: linked_def)

lemma dls_adjacent:
  "dls h pr p (xs @ x # y # ys) q \<Longrightarrow> nxt (h x) = Some y \<and> prv (h y) = Some x"
  by (auto simp: dls_append)

lemma linked_chunk:
  assumes "linked h f l lay" and "(p, i, j) \<in> chunks lay"
  shows "nxt (h (addr p i)) = Some (addr p j)" and "prv (h (addr p j)) = Some (addr p i)"
proof -
  from assms(2) obtain L1 bs L2 where lay: "lay = L1 @ (p, bs) # L2" "adj bs i j" by (rule chunksE)
  from lay(2) obtain us vs where "bs = us @ i # j # vs" by (rule adjE)
  with lay(1) have "all_seq lay = (all_seq L1 @ p # map (addr p) us) @ addr p i # addr p j #
      map (addr p) vs @ all_seq L2"
    by (simp add: all_seq_Cons)
  with assms(1) have "nxt (h (addr p i)) = Some (addr p j) \<and> prv (h (addr p j)) = Some (addr p i)"
    unfolding linked_def by (metis dls_adjacent)
  then show "nxt (h (addr p i)) = Some (addr p j)" "prv (h (addr p j)) = Some (addr p i)" by auto
qed

lemma linked_page:
  assumes "lay_ok lay" and "linked h f l lay" and "(p, bs) \<in> set lay"
  shows "nxt (h p) = Some (addr p 20)" and "prv (h (addr p 20)) = Some p"
proof -
  from assms(3) obtain L1 L2 where lay: "lay = L1 @ (p, bs) # L2" by (meson split_list)
  from lay_okD(2) [OF assms(1,3)] obtain cs where "bs = 20 # cs" by (cases bs) (auto simp: cuts_ok_def)
  with lay have "all_seq lay = all_seq L1 @ p # addr p 20 # map (addr p) cs @ all_seq L2"
    by (simp add: all_seq_Cons)
  with assms(2) have "nxt (h p) = Some (addr p 20) \<and> prv (h (addr p 20)) = Some p"
    unfolding linked_def by (metis dls_adjacent)
  then show "nxt (h p) = Some (addr p 20)" "prv (h (addr p 20)) = Some p" by auto
qed

lemma linked_first: "linked h f l lay \<Longrightarrow> f = (if lay = [] then None else Some (fst (hd lay)))"
  by (cases lay) (auto simp: linked_def all_seq_Cons dest: dls_start)

lemma linked_insert:
  assumes "lay_ok (L1 @ (p, us @ i # n # j # vs) # L2)"
    and "linked h f l (L1 @ (p, us @ i # j # vs) # L2)"
  shows "linked (insert_node h (addr p i) (addr p n)) f l (L1 @ (p, us @ i # n # j # vs) # L2)"
    and "\<And>a. a \<notin> set (all_seq (L1 @ (p, us @ i # n # j # vs) # L2)) \<Longrightarrow>
      insert_node h (addr p i) (addr p n) a = h a"
proof -
  let ?as = "all_seq L1 @ p # map (addr p) us" and ?bs = "addr p j # map (addr p) vs @ all_seq L2"
  have new: "all_seq (L1 @ (p, us @ i # n # j # vs) # L2) = ?as @ addr p i # addr p n # ?bs"
    and old: "all_seq (L1 @ (p, us @ i # j # vs) # L2) = ?as @ addr p i # ?bs"
    by (simp_all add: all_seq_Cons)
  from distinct_all_seq [OF assms(1)] have d: "distinct (?as @ addr p i # ?bs)"
    "addr p n \<notin> set (?as @ addr p i # ?bs)" unfolding new by auto
  from assms(2) have "dls h None f (?as @ addr p i # ?bs) None" unfolding linked_def old by blast
  from insert_node_dls [OF this d] have
    r: "dls (insert_node h (addr p i) (addr p n)) None f (?as @ addr p i # addr p n # ?bs) None"
      "\<And>y. y \<notin> set (?as @ addr p i # addr p n # ?bs) \<Longrightarrow> insert_node h (addr p i) (addr p n) y = h y"
    by blast+
  from r(1) assms(2) show "linked (insert_node h (addr p i) (addr p n)) f l (L1 @ (p, us @ i # n # j # vs) # L2)"
    unfolding linked_def new by (cases L2) auto
  show "\<And>a. a \<notin> set (all_seq (L1 @ (p, us @ i # n # j # vs) # L2)) \<Longrightarrow>
      insert_node h (addr p i) (addr p n) a = h a"
    unfolding new by (rule r(2))
qed

lemma linked_delete:
  assumes "lay_ok (L1 @ (p, us @ i # n # j # vs) # L2)"
    and "linked h f l (L1 @ (p, us @ i # n # j # vs) # L2)"
  shows "linked (unlink_node h (addr p n)) f l (L1 @ (p, us @ i # j # vs) # L2)"
    and "\<And>a. a \<notin> set (all_seq (L1 @ (p, us @ i # n # j # vs) # L2)) \<Longrightarrow> unlink_node h (addr p n) a = h a"
proof -
  let ?as = "all_seq L1 @ p # map (addr p) us @ [addr p i]"
    and ?bs = "addr p j # map (addr p) vs @ all_seq L2"
  have old: "all_seq (L1 @ (p, us @ i # n # j # vs) # L2) = ?as @ addr p n # ?bs"
    and new: "all_seq (L1 @ (p, us @ i # j # vs) # L2) = ?as @ ?bs"
    by (simp_all add: all_seq_Cons)
  from assms(2) have "dls h None f (?as @ addr p n # ?bs) None" unfolding linked_def old by blast
  from unlink_node_dls [OF this distinct_all_seq [OF assms(1), unfolded old]] have
    r: "dls (unlink_node h (addr p n)) None f (?as @ ?bs) None"
      "\<And>y. y \<notin> set (?as @ addr p n # ?bs) \<Longrightarrow> unlink_node h (addr p n) y = h y"
    by blast+
  from r(1) assms(2) show "linked (unlink_node h (addr p n)) f l (L1 @ (p, us @ i # j # vs) # L2)"
    unfolding linked_def new by (cases L2) auto
  show "\<And>a. a \<notin> set (all_seq (L1 @ (p, us @ i # n # j # vs) # L2)) \<Longrightarrow> unlink_node h (addr p n) a = h a"
    unfolding old by (rule r(2))
qed

end
