(* ===== verification/Heap_Correct.thy ===== *)
theory Heap_Correct
  imports Heap_Inv
begin

text \<open>
  What the routines of the kernel heap do to its layout: taking a chunk from a bucket, splitting it,
  merging it with its neighbours, adding a page and giving a page back.
\<close>

section \<open>Projections\<close>

lemma set_used_simps [simp]:
  "hnodes (set_used c u s) = hnodes s" "hused (set_used c u s) = (hused s)(c := u)"
  "free_bucket (set_used c u s) = free_bucket s" "first (set_used c u s) = first s"
  "last_chunk (set_used c u s) = last_chunk s" "mem_free (set_used c u s) = mem_free s"
  "mem_used (set_used c u s) = mem_used s" "mem_meta (set_used c u s) = mem_meta s"
  "pages (set_used c u s) = pages s"
  by (simp_all add: set_used_def)

lemma upd_nodes_simps [simp]:
  "hnodes (upd_nodes f s) = f (hnodes s)" "hused (upd_nodes f s) = hused s"
  "free_bucket (upd_nodes f s) = free_bucket s" "first (upd_nodes f s) = first s"
  "last_chunk (upd_nodes f s) = last_chunk s" "mem_free (upd_nodes f s) = mem_free s"
  "mem_used (upd_nodes f s) = mem_used s" "mem_meta (upd_nodes f s) = mem_meta s"
  "pages (upd_nodes f s) = pages s"
  by (simp_all add: upd_nodes_def)

lemma set_bucket_simps [simp]:
  "hnodes (set_bucket k hp s) = fst hp" "hused (set_bucket k hp s) = hused s"
  "free_bucket (set_bucket k hp s) = (free_bucket s)(k := snd hp)" "first (set_bucket k hp s) = first s"
  "last_chunk (set_bucket k hp s) = last_chunk s" "mem_free (set_bucket k hp s) = mem_free s"
  "mem_used (set_bucket k hp s) = mem_used s" "mem_meta (set_bucket k hp s) = mem_meta s"
  "pages (set_bucket k hp s) = pages s"
  by (simp_all add: set_bucket_def)

lemma clear_page_simps [simp]:
  "free_bucket (clear_page p s) = free_bucket s" "first (clear_page p s) = first s"
  "last_chunk (clear_page p s) = last_chunk s" "mem_free (clear_page p s) = mem_free s"
  "mem_used (clear_page p s) = mem_used s" "mem_meta (clear_page p s) = mem_meta s"
  "pages (clear_page p s) = pages s"
  by (simp_all add: clear_page_def)

lemma free_node_addr [simp]: "free_node (addr p i) = addr p (i + 12)"
  by (simp add: free_node_def addr_def heap_consts)

section \<open>Sizes read from the links\<close>

lemma chunk_size_linked:
  assumes "lay_ok lay" and "linked (hnodes s) f l lay" and "(p, i, j) \<in> chunks lay"
  shows "get_total_size s (addr p i) = of_nat (j - i)"
    and "get_chunk_size s (addr p i) = of_nat (j - i - 12)"
    and "get_bucket_index s (addr p i) = bidx (j - i - 12)"
proof -
  note b = lay_chunk [OF assms(1,3)]
  show t: "get_total_size s (addr p i) = of_nat (j - i)"
    using linked_chunk(1) [OF assms(2,3)] b by (simp add: get_total_size_def ptr_val_def addr_diff)
  show z: "get_chunk_size s (addr p i) = of_nat (j - i - 12)"
    using b unfolding get_chunk_size_def t by (simp add: heap_consts of_nat_diff)
  show "get_bucket_index s (addr p i) = bidx (j - i - 12)"
    unfolding get_bucket_index_def z bidx_def ..
qed

lemma of_nat_u32_eq:
  assumes "m < 2 ^ 32" and "n < 2 ^ 32"
  shows "(of_nat m :: u32) = of_nat n \<longleftrightarrow> m = n"
proof
  assume "(of_nat m :: u32) = of_nat n"
  then have "unat (of_nat m :: u32) = unat (of_nat n :: u32)" by (rule arg_cong)
  then show "m = n" unfolding of_nat_u32_small [OF assms(1)] of_nat_u32_small [OF assms(2)] .
qed simp

section \<open>Chunks in transit\<close>

lemma frees_insert:
  assumes "lay_ok lay" and "c \<in> chunks lay"
  shows "frees u (insert (caddr c) X) lay = frees u X lay - {c}"
  using caddr_inj [OF assms(1)] assms(2) by (auto simp: frees_def inj_on_def)

lemma frees_set_used:
  assumes "lay_ok lay" and "c \<in> chunks lay"
  shows "frees (u(caddr c := True)) {} lay = frees u {caddr c} lay"
    and "frees (u(caddr c := False)) {} lay = insert c (frees u {caddr c} lay)"
  using caddr_inj [OF assms(1)] assms(2) by (auto simp: frees_def inj_on_def)

lemma frees_used: "u c \<Longrightarrow> frees u {c} lay = frees u {} lay"
  by (auto simp: frees_def)

lemma guards_set_used: "guards u lay \<Longrightarrow> guards (u(c := True)) lay"
  by (auto simp: guards_def)

lemma guards_set_free:
  assumes "lay_ok lay" and "guards u lay" and "page_base p" and "0 < n" and "n < 4076"
  shows "guards (u(addr p n := False)) lay"
proof -
  have "q \<noteq> addr p n \<and> addr q 4076 \<noteq> addr p n" if "q \<in> fst ` set lay" for q
  proof -
    from that assms(1) have "page_base q" by (auto simp: lay_ok_def)
    then show ?thesis using assms addr_inject [of q p 0 n] addr_inject [of q p 4076 n] by auto
  qed
  with assms(2) show ?thesis by (auto simp: guards_def)
qed

lemma transit_use:
  assumes "heap_wf {addr p i} s lay" and "(p, i, j) \<in> chunks lay"
  shows "heap_wf {} (set_used (addr p i) True s) lay"
  using heap_wfD [OF assms(1)] frees_set_used(1) [OF heap_wfD(1) [OF assms(1)] assms(2)] guards_set_used
  by (simp add: heap_wf_def)

lemma transit_weaken:
  assumes "heap_wf {} s lay" and "hused s c"
  shows "heap_wf {c} s lay"
  using assms frees_used [of "hused s" c lay] by (simp add: heap_wf_def)

lemma frees_inj: "lay_ok lay \<Longrightarrow> inj_on fnode (frees u X lay)"
  by (rule inj_on_subset [OF fnode_inj frees_chunks])

lemma seq_not_fnode: "lay_ok lay \<Longrightarrow> a \<in> set (all_seq lay) \<Longrightarrow> a \<notin> fnode ` frees u X lay"
  using fnode_not_seq subsetD [OF frees_chunks] by (metis imageE)

text \<open>A chunk whose neighbours are not free.\<close>

definition quiet :: "chunk set \<Rightarrow> chunk \<Rightarrow> bool" where
  "quiet F c = (case c of (p, i, j) \<Rightarrow> \<forall>k. (p, k, i) \<notin> F \<and> (p, j, k) \<notin> F)"

lemma quiet_free: "apart F \<Longrightarrow> c \<in> F \<Longrightarrow> quiet F c"
  by (cases c) (auto simp: apart_def quiet_def)

lemma quiet_mono: "quiet F c \<Longrightarrow> G \<subseteq> F \<Longrightarrow> quiet G c"
  by (cases c) (auto simp: quiet_def)

lemma apart_mono: "apart F \<Longrightarrow> G \<subseteq> F \<Longrightarrow> apart G"
  unfolding apart_def by (meson subsetD)

lemma apart_insert:
  assumes "lay_ok lay" and "c \<in> chunks lay" and "apart F" and "quiet F c"
  shows "apart (insert c F)"
proof -
  obtain p i j where "c = (p, i, j)" by (cases c)
  moreover have "i + 20 \<le> j" using lay_chunk(3) [OF assms(1)] assms(2) calculation by auto
  ultimately show ?thesis using assms(3,4) unfolding apart_def quiet_def by auto
qed

section \<open>Taking a chunk from its bucket\<close>

lemma pop_free_chunk_wf:
  assumes "heap_wf {} s lay" and "k < NUM_SIZES" and "free_bucket s k \<noteq> None"
  obtains p i j h fb where "pop_free_chunk k s = Inr (Some (addr p i), s\<lparr>hnodes := h, free_bucket := fb\<rparr>)"
    and "(p, i, j) \<in> frees (hused s) {} lay" and "bidx (j - i - 12) = k"
    and "heap_wf {addr p i} (s\<lparr>hnodes := h, free_bucket := fb, mem_free := mem_free s - of_nat (j - i - 12)\<rparr>) lay"
proof -
  let ?F = "frees (hused s) {} lay"
  note wf = heap_wfD [OF assms(1)]
  have inj: "inj_on fnode ?F" by (rule frees_inj [OF wf(1)])
  from bucketed_pop [OF wf(4) assms(2,3) inj] obtain c h p' where
    c: "c \<in> ?F" "bidx (csize c) = k" and r: "pop_node (hnodes s) (free_bucket s k) = Inr (h, p', fnode c)"
      "bucketed h ((free_bucket s)(k := p')) (?F - {c})" "\<And>a. a \<notin> fnode ` ?F \<Longrightarrow> h a = hnodes s a" by blast
  obtain p i j where eq: "c = (p, i, j)" by (cases c)
  from c eq have ch: "(p, i, j) \<in> chunks lay" using frees_chunks by blast
  note b = lay_chunk [OF wf(1) ch]
  have a12: "addr p (i + 12) - 12 = addr p i" by (simp add: addr_def)
  have "to_ptr (addr p i) = Some (addr p i)"
    using addr_nonzero [OF b(1), of i] b(2-4) by (simp add: to_ptr_def)
  then have pop: "pop_free_chunk k s =
      Inr (Some (addr p i), s\<lparr>hnodes := h, free_bucket := (free_bucket s)(k := p')\<rparr>)"
    using r(1) assms(2) eq a12 by (simp add: pop_free_chunk_def set_bucket_def HEADER_SIZE_def)
  have F: "frees (hused s) {addr p i} lay = ?F - {c}"
    using frees_insert [OF wf(1) ch, of "hused s" "{}"] eq by simp
  have "linked h (first s) (last_chunk s) lay"
    by (rule linked_frame [OF wf(2) r(3) [OF seq_not_fnode [OF wf(1)]]])
  moreover have "(\<Sum>d\<in>?F - {c}. of_nat (csize d)) = mem_free s - of_nat (j - i - 12)"
    using sum.remove [OF finite_frees c(1), of "\<lambda>d. of_nat (csize d) :: u32"] wf(6) eq by simp
  ultimately have "heap_wf {addr p i} (s\<lparr>hnodes := h, free_bucket := (free_bucket s)(k := p'),
      mem_free := mem_free s - of_nat (j - i - 12)\<rparr>) lay"
    using wf r(2) apart_mono [OF wf(5), of "?F - {c}"] by (simp add: heap_wf_def F)
  with pop c eq that show thesis by simp
qed

lemma unbucket_wf:
  assumes "heap_wf X s lay" and "(p, i, j) \<in> frees (hused s) X lay"
  obtains h fb where "unbucket (addr p i) s = Inr (s\<lparr>hnodes := h, free_bucket := fb\<rparr>)"
    and "get_chunk_size (s\<lparr>hnodes := h, free_bucket := fb\<rparr>) (addr p i) = of_nat (j - i - 12)"
    and "heap_wf (insert (addr p i) X)
      (s\<lparr>hnodes := h, free_bucket := fb, mem_free := mem_free s - of_nat (j - i - 12)\<rparr>) lay"
proof -
  let ?F = "frees (hused s) X lay" and ?c = "(p, i, j)"
  note wf = heap_wfD [OF assms(1)]
  have inj: "inj_on fnode ?F" by (rule frees_inj [OF wf(1)])
  from assms(2) have ch: "?c \<in> chunks lay" using frees_chunks by blast
  let ?k = "get_bucket_index s (addr p i)"
  have k: "?k = bidx (csize ?c)" using chunk_size_linked(3) [OF wf(1,2) ch] by simp
  then have "?k < NUM_SIZES" using csize_bounds(3) [OF wf(1) ch] by simp
  from bucketed_remove [OF wf(4) k this assms(2) inj] obtain h p' where
    r: "remove_node (hnodes s) (free_bucket s ?k) (fnode ?c) = Inr (h, p')"
      "bucketed h ((free_bucket s)(?k := p')) (?F - {?c})" "\<And>a. a \<notin> fnode ` ?F \<Longrightarrow> h a = hnodes s a" by blast
  have u: "unbucket (addr p i) s = Inr (s\<lparr>hnodes := h, free_bucket := (free_bucket s)(?k := p')\<rparr>)"
    using r(1) by (simp add: unbucket_def set_bucket_def Let_def)
  have F: "frees (hused s) (insert (addr p i) X) lay = ?F - {?c}"
    using frees_insert [OF wf(1) ch, of "hused s" X] by simp
  have l: "linked h (first s) (last_chunk s) lay"
    by (rule linked_frame [OF wf(2) r(3) [OF seq_not_fnode [OF wf(1)]]])
  moreover have "(\<Sum>d\<in>?F - {?c}. of_nat (csize d)) = mem_free s - of_nat (j - i - 12)"
    using sum.remove [OF finite_frees assms(2), of "\<lambda>d. of_nat (csize d) :: u32"] wf(6) by simp
  ultimately have "heap_wf (insert (addr p i) X) (s\<lparr>hnodes := h, free_bucket := (free_bucket s)(?k := p'),
      mem_free := mem_free s - of_nat (j - i - 12)\<rparr>) lay"
    using wf r(2) apart_mono [OF wf(5), of "?F - {?c}"] by (simp add: heap_wf_def F)
  moreover have "get_chunk_size (s\<lparr>hnodes := h, free_bucket := (free_bucket s)(?k := p')\<rparr>) (addr p i) = of_nat (j - i - 12)"
    by (rule chunk_size_linked(2) [OF wf(1) _ ch, of _ "first s" "last_chunk s"]) (simp add: l)
  ultimately show thesis using u that by blast
qed

section \<open>Putting a chunk into its bucket\<close>

lemma release_chunk_wf:
  assumes "heap_wf {addr p i} s lay" and "(p, i, j) \<in> chunks lay"
    and "quiet (frees (hused s) {addr p i} lay) (p, i, j)"
    and "k = bidx (j - i - 12)" and "push_node (hnodes s) (free_bucket s k) (addr p (i + 12)) = hp"
  shows "heap_wf {} (s\<lparr>hused := (hused s)(addr p i := False), hnodes := fst hp,
    free_bucket := (free_bucket s)(k := snd hp), mem_free := mem_free s + of_nat (j - i - 12)\<rparr>) lay"
proof -
  let ?F = "frees (hused s) {addr p i} lay" and ?c = "(p, i, j)"
  note wf = heap_wfD [OF assms(1)]
  note b = lay_chunk [OF wf(1) assms(2)]
  have nin: "?c \<notin> ?F" by (simp add: frees_def)
  then have fn: "fnode ?c \<notin> fnode ` ?F"
    unfolding inj_on_image_mem_iff [OF fnode_inj [OF wf(1)] assms(2) frees_chunks] .
  have k: "k = bidx (csize ?c)" "k < NUM_SIZES" using csize_bounds(3) [OF wf(1) assms(2)] assms(4) by simp_all
  have "push_node (hnodes s) (free_bucket s k) (fnode ?c) = hp" using assms(5) by simp
  note r = bucketed_push [OF wf(4) k fn this]
  have "linked (fst hp) (first s) (last_chunk s) lay"
  proof (rule linked_frame [OF wf(2)])
    fix a assume a: "a \<in> set (all_seq lay)"
    with fnode_not_seq [OF wf(1) assms(2)] have "a \<noteq> fnode ?c" by blast
    then show "fst hp a = hnodes s a" by (rule r(2) [OF _ seq_not_fnode [OF wf(1) a]])
  qed
  moreover have "guards ((hused s)(addr p i := False)) lay"
    using b by (intro guards_set_free [OF wf(1,3)]) auto
  moreover have "(\<Sum>d\<in>insert ?c ?F. of_nat (csize d)) = mem_free s + of_nat (j - i - 12)"
    using nin wf(6) finite_frees by simp
  ultimately show ?thesis
    using wf r(1) apart_insert [OF wf(1) assms(2) wf(5) assms(3)] frees_set_used(2) [OF wf(1) assms(2), of "hused s"]
    by (simp add: heap_wf_def)
qed

section \<open>Splitting\<close>

lemma lay_split_ok:
  assumes "lay_ok (L1 @ (p, us @ i # j # vs) # L2)" and "i + 20 \<le> n" and "n + 20 \<le> j" and "4 dvd n"
  shows "lay_ok (L1 @ (p, us @ i # n # j # vs) # L2)"
  using assms cuts_insert [of us i j vs n] by (simp add: lay_ok_simps)

lemma lay_merge_ok:
  assumes "lay_ok (L1 @ (p, us @ i # n # j # vs) # L2)"
  shows "lay_ok (L1 @ (p, us @ i # j # vs) # L2)"
  using assms cuts_delete [of us i n j vs] by (simp add: lay_ok_simps)

lemma card_chunks_split:
  assumes "lay_ok (L1 @ (p, us @ i # n # j # vs) # L2)"
  shows "card (chunks (L1 @ (p, us @ i # n # j # vs) # L2)) = Suc (card (chunks (L1 @ (p, us @ i # j # vs) # L2)))"
proof -
  let ?C = "chunks (L1 @ (p, us @ i # j # vs) # L2)"
  note n = chunks_new [OF assms]
  have "i \<noteq> n" using assms cuts_distinct [of "us @ i # n # j # vs"] by (simp add: lay_ok_simps)
  then have "card (insert (p, i, n) (insert (p, n, j) (?C - {(p, i, j)}))) = Suc (Suc (card (?C - {(p, i, j)})))"
    using n finite_chunks [of "L1 @ (p, us @ i # j # vs) # L2"] by simp
  also have "\<dots> = Suc (card ?C)" using n(3) finite_chunks by (metis card.remove)
  finally show ?thesis unfolding chunks_insert [OF assms] .
qed

lemma new_boundary:
  assumes "lay_ok (L1 @ (p, us @ i # n # j # vs) # L2)" and "c \<in> chunks (L1 @ (p, us @ i # j # vs) # L2)"
  shows "caddr c \<noteq> addr p n"
proof
  assume "caddr c = addr p n"
  moreover have "caddr c \<in> set (all_seq (L1 @ (p, us @ i # j # vs) # L2))"
    by (rule caddr_seq [OF lay_merge_ok [OF assms(1)] assms(2)])
  moreover have "addr p n \<notin> set (all_seq (L1 @ (p, us @ i # j # vs) # L2))"
    using distinct_all_seq [OF assms(1)] by (auto simp: all_seq_Cons)
  ultimately show False by simp
qed

text \<open>Cutting a used chunk leaves a used chunk and a chunk in transit.\<close>

lemma split_wf:
  assumes "heap_wf {} s (L1 @ (p, us @ i # j # vs) # L2)" and "hused s (addr p i)"
    and "i + 20 \<le> n" and "n + 20 \<le> j" and "4 dvd n"
  shows "heap_wf {addr p n} (s\<lparr>hused := (hused s)(addr p n := u), hnodes := insert_node (hnodes s) (addr p i) (addr p n),
      mem_meta := mem_meta s + HEADER_SIZE\<rparr>) (L1 @ (p, us @ i # n # j # vs) # L2)"
    and "frees ((hused s)(addr p n := u)) {addr p n} (L1 @ (p, us @ i # n # j # vs) # L2) =
      frees (hused s) {} (L1 @ (p, us @ i # j # vs) # L2)"
proof -
  let ?old = "L1 @ (p, us @ i # j # vs) # L2" and ?new = "L1 @ (p, us @ i # n # j # vs) # L2"
  note wf = heap_wfD [OF assms(1)]
  have ok: "lay_ok ?new" by (rule lay_split_ok [OF wf(1) assms(3-5)])
  have pb: "page_base p" using wf(1) by (simp add: lay_ok_simps)
  have ij: "(p, i, j) \<in> chunks ?old" by (rule chunks_new(3) [OF ok])
  note b = lay_chunk [OF wf(1) ij]
  have ne: "addr p i \<noteq> addr p n" using new_boundary [OF ok ij] by simp
  show F: "frees ((hused s)(addr p n := u)) {addr p n} ?new = frees (hused s) {} ?old"
    unfolding frees_def chunks_insert [OF ok]
    using new_boundary [OF ok] assms(2) ne by auto
  note l = linked_insert [OF ok wf(2)]
  have "bucketed (insert_node (hnodes s) (addr p i) (addr p n)) (free_bucket s) (frees (hused s) {} ?old)"
  proof (rule bucketed_frame [OF wf(4)])
    fix c assume c: "c \<in> frees (hused s) {} ?old"
    with F have "c \<in> chunks ?new" using frees_chunks by blast
    from l(2) [OF fnode_not_seq [OF ok this]]
    show "insert_node (hnodes s) (addr p i) (addr p n) (fnode c) = hnodes s (fnode c)" .
  qed
  moreover have "guards ((hused s)(addr p n := u)) ?new"
  proof -
    have "guards (hused s) ?new" using wf(3) by (simp add: guards_def)
    then show ?thesis using guards_set_free [OF ok _ pb, of "hused s" n] guards_set_used [of "hused s" ?new "addr p n"]
      assms(3,4) b by (cases u) auto
  qed
  moreover have "backed (pages s) ?new" using wf(8) by (simp add: backed_def)
  ultimately show "heap_wf {addr p n} (s\<lparr>hused := (hused s)(addr p n := u),
      hnodes := insert_node (hnodes s) (addr p i) (addr p n), mem_meta := mem_meta s + HEADER_SIZE\<rparr>) ?new"
    using wf ok l(1) card_chunks_split [OF ok] by (simp add: heap_wf_def F HEADER_SIZE_def)
qed

section \<open>Merging\<close>

lemma merge_wf:
  assumes "heap_wf X s (L1 @ (p, us @ i # n # j # vs) # L2)"
    and "hused s (addr p i) \<or> addr p i \<in> X" and "hused s (addr p n) \<or> addr p n \<in> X"
  shows "heap_wf (X - {addr p n}) (s\<lparr>hnodes := unlink_node (hnodes s) (addr p n), mem_meta := mem_meta s - HEADER_SIZE\<rparr>)
      (L1 @ (p, us @ i # j # vs) # L2)"
    and "frees (hused s) (X - {addr p n}) (L1 @ (p, us @ i # j # vs) # L2) = frees (hused s) X (L1 @ (p, us @ i # n # j # vs) # L2)"
proof -
  let ?new = "L1 @ (p, us @ i # j # vs) # L2" and ?old = "L1 @ (p, us @ i # n # j # vs) # L2"
  note wf = heap_wfD [OF assms(1)]
  have ok: "lay_ok ?new" by (rule lay_merge_ok [OF wf(1)])
  have C: "chunks ?old = insert (p, i, n) (insert (p, n, j) (chunks ?new - {(p, i, j)}))"
    by (rule chunks_insert [OF wf(1)])
  have ij: "(p, i, j) \<in> chunks ?new" by (rule chunks_new(3) [OF wf(1)])
  have ne: "addr p i \<noteq> addr p n" using new_boundary [OF wf(1) ij] by simp
  have "(p, i, n) \<notin> frees (hused s) X ?old" "(p, n, j) \<notin> frees (hused s) X ?old"
    "(p, i, j) \<notin> frees (hused s) (X - {addr p n}) ?new"
    using assms(2,3) ne by (auto simp: frees_def)
  then show F: "frees (hused s) (X - {addr p n}) ?new = frees (hused s) X ?old"
    using new_boundary [OF wf(1)] unfolding frees_def C by auto
  note l = linked_delete [OF wf(1,2)]
  have "bucketed (unlink_node (hnodes s) (addr p n)) (free_bucket s) (frees (hused s) X ?old)"
    by (rule bucketed_frame [OF wf(4) l(2) [OF fnode_not_seq [OF wf(1) subsetD [OF frees_chunks]]]])
  moreover have "guards (hused s) ?new" "backed (pages s) ?new"
    using wf(3,8) by (simp_all add: guards_def backed_def)
  ultimately show "heap_wf (X - {addr p n}) (s\<lparr>hnodes := unlink_node (hnodes s) (addr p n),
      mem_meta := mem_meta s - HEADER_SIZE\<rparr>) ?new"
    using wf ok l(1) card_chunks_split [OF wf(1)] by (simp add: heap_wf_def F HEADER_SIZE_def)
qed

lemma remove_from_first_next_delete:
  assumes "heap_wf X s (L1 @ (p, us @ i # n # j # vs) # L2)"
  shows "remove_from_first_next (addr p n) s = Inr (s\<lparr>hnodes := unlink_node (hnodes s) (addr p n)\<rparr>)"
proof -
  let ?lay = "L1 @ (p, us @ i # n # j # vs) # L2"
  note wf = heap_wfD [OF assms]
  obtain q bs L where lay: "?lay = (q, bs) # L" by (cases ?lay) auto
  then have q: "(q, bs) \<in> set ?lay" "first s = Some q" using linked_first [OF wf(2)] by auto
  have "(p, n, j) \<in> chunks ?lay" "(p, i, n) \<in> chunks ?lay" unfolding chunks_insert [OF wf(1)] by blast+
  note b = lay_chunk [OF wf(1) this(1)] lay_chunk [OF wf(1) this(2)]
  have "addr q 20 \<noteq> addr p n" using b lay_okD(1) [OF wf(1) q(1)] by (auto simp: addr_inject)
  with q linked_page(1) [OF wf(1,2) q(1)] show ?thesis
    by (simp add: remove_from_first_next_def remove_node_field_def)
qed

end
