(* ===== verification/Heap_Ops.thy ===== *)
theory Heap_Ops
  imports Heap_Correct
begin

text \<open>
  The routines of the kernel heap on a well-formed heap: what each of them does to the layout and
  to the set of chunks in use.
\<close>

definition lives :: "(u32 \<Rightarrow> bool) \<Rightarrow> layout \<Rightarrow> chunk set" where
  "lives u lay = {c \<in> chunks lay. u (caddr c)}"

lemma heap_wf_mem_used [simp]: "heap_wf X (s\<lparr>mem_used := m\<rparr>) lay \<longleftrightarrow> heap_wf X s lay"
  by (simp add: heap_wf_def)

lemma split_layout:
  assumes "(p, i, j) \<in> chunks lay"
  obtains L1 us vs L2 where "lay = L1 @ (p, us @ i # j # vs) # L2"
  using assms by (metis adjE chunksE)

lemma u32_le_of_nat:
  assumes "a \<le> n" and "n < 4096"
  shows "(20 :: u32) \<le> of_nat n - of_nat a \<longleftrightarrow> 20 \<le> n - a"
proof -
  have "(of_nat n - of_nat a :: u32) = of_nat (n - a)" using assms(1) by simp
  moreover have "unat (of_nat (n - a) :: u32) = n - a" using assms(2) by (intro of_nat_u32_small) simp
  ultimately show ?thesis by (simp add: word_le_nat_alt)
qed

section \<open>Using a chunk\<close>

lemma quiet_rest:
  assumes "lay_ok lay" and "(p, i, j) \<in> chunks lay" and "quiet F (p, i, j)" and "F \<subseteq> chunks lay"
    and "i < n" and "n < j"
  shows "quiet F (p, n, j)"
proof -
  have "(p, k, n) \<notin> F" for k
  proof
    assume "(p, k, n) \<in> F"
    then have kn: "(p, k, n) \<in> chunks lay" using assms(4) by blast
    from chunks_apart [OF assms(1,2) kn] lay_chunk [OF assms(1) kn] assms(5,6) show False by auto
  qed
  with assms(3) show ?thesis by (auto simp: quiet_def)
qed

lemma lives_split:
  assumes "lay_ok (L1 @ (p, us @ i # n # j # vs) # L2)" and "u (addr p i)" and "\<not> u' (addr p n)"
    and "\<And>a. a \<noteq> addr p n \<Longrightarrow> u' a = u a"
  shows "lives u' (L1 @ (p, us @ i # n # j # vs) # L2) =
    insert (p, i, n) (lives u (L1 @ (p, us @ i # j # vs) # L2) - {(p, i, j)})"
proof -
  let ?old = "L1 @ (p, us @ i # j # vs) # L2"
  have u: "c \<in> chunks ?old \<Longrightarrow> u' (caddr c) = u (caddr c)" for c
    using new_boundary [OF assms(1)] assms(4) by blast
  from u [OF chunks_new(3) [OF assms(1)]] assms(2) have "u' (addr p i)" by simp
  with u assms(3) show ?thesis unfolding lives_def chunks_insert [OF assms(1)] by auto
qed

lemma lives_set_used:
  assumes "lay_ok lay" and "c \<in> chunks lay"
  shows "lives (u(caddr c := True)) lay = insert c (lives u lay)"
    and "lives (u(caddr c := False)) lay = lives u lay - {c}"
  using caddr_inj [OF assms(1)] assms(2) by (auto simp: lives_def inj_on_def)

lemma use_chunk_wf:
  assumes wf: "heap_wf {addr p i} (s\<lparr>mem_free := mem_free s - of_nat (j - i - 12)\<rparr>) lay"
    and ij: "(p, i, j) \<in> chunks lay" and q: "quiet (frees (hused s) {addr p i} lay) (p, i, j)"
    and nu: "\<not> hused s (addr p i)" and a: "8 \<le> a" "4 dvd a" "a \<le> j - i - 12"
  obtains s' lay' k where "use_chunk (of_nat a) (addr p i) s = (addr p (i + 12), s')"
    and "heap_wf {} s' lay'" and "lives (hused s') lay' = insert (p, i, k) (lives (hused s) lay)"
    and "(p, i, k) \<in> chunks lay'" and "a \<le> k - i - 12" and "k - i - 12 < a + 20" and "map fst lay' = map fst lay"
    and "mem_used s' = mem_used s + of_nat (k - i - 12)" and "pages s' = pages s"
proof -
  note ok = heap_wfD(1) [OF wf]
  note b = lay_chunk [OF ok ij]
  define s1 where "s1 = set_used (addr p i) True s\<lparr>mem_free := mem_free s - of_nat (j - i - 12)\<rparr>"
  have "s1 = set_used (addr p i) True (s\<lparr>mem_free := mem_free s - of_nat (j - i - 12)\<rparr>)"
    by (simp add: s1_def)
  then have s1: "heap_wf {} s1 lay" using transit_use [OF wf ij] by simp
  have s1p: "hused s1 = (hused s)(addr p i := True)" "mem_used s1 = mem_used s" "pages s1 = pages s"
    by (simp_all add: s1_def)
  have "lives (hused s1) lay = insert (p, i, j) (lives (hused s) lay)"
    using lives_set_used(1) [OF ok ij, of "hused s"] s1p(1) by simp
  moreover have "(p, i, j) \<notin> lives (hused s) lay" using nu by (simp add: lives_def)
  ultimately have lv: "lives (hused s1) lay = insert (p, i, j) (lives (hused s) lay)"
    "lives (hused s1) lay - {(p, i, j)} = lives (hused s) lay" by auto
  have F1: "frees (hused s1) {} lay = frees (hused s) {addr p i} lay"
    using frees_set_used(1) [OF ok ij, of "hused s"] s1p(1) by simp
  have "get_chunk_size (set_used (addr p i) True s) (addr p i) = of_nat (j - i - 12)"
    by (rule chunk_size_linked(2) [OF ok _ ij, of _ "first s" "last_chunk s"])
      (use heap_wfD(2) [OF wf] in simp)
  then have u: "use_chunk (of_nat a) (addr p i) s = (addr p (i + 12),
      let s = (if 20 \<le> j - i - 12 - a then
                 let nChunk = addr p (i + a + 12);
                     s = set_used nChunk False s1;
                     s = upd_nodes (\<lambda>h. insert_node h (addr p i) nChunk) s;
                     s = s\<lparr>mem_meta := mem_meta s + HEADER_SIZE\<rparr>;
                     nOrder = get_bucket_index s nChunk;
                     s = set_bucket nOrder (push_node (hnodes s) (free_bucket s nOrder) (free_node nChunk)) s
                 in s\<lparr>mem_free := mem_free s + get_chunk_size s nChunk\<rparr>
               else s1)
      in s\<lparr>mem_used := mem_used s + get_chunk_size s (addr p i)\<rparr>)"
    using u32_le_of_nat [OF a(3)] b(4) addr_addr [of p i "a + 12"]
    by (simp add: use_chunk_def Let_def s1_def heap_consts algebra_simps)
  show thesis
  proof (cases "20 \<le> j - i - 12 - a")
    case False
    have "get_chunk_size s1 (addr p i) = of_nat (j - i - 12)"
      by (rule chunk_size_linked(2) [OF ok heap_wfD(2) [OF s1] ij])
    with False u have "use_chunk (of_nat a) (addr p i) s =
        (addr p (i + 12), s1\<lparr>mem_used := mem_used s + of_nat (j - i - 12)\<rparr>)"
      by (simp add: s1p)
    with s1 lv(1) ij a(3) False s1p show thesis
      by (intro that [of "s1\<lparr>mem_used := mem_used s + of_nat (j - i - 12)\<rparr>" lay j]) auto
  next
    case True
    define n where "n = i + a + 12"
    from ij obtain L1 us vs L2 where lay: "lay = L1 @ (p, us @ i # j # vs) # L2" by (rule split_layout)
    let ?new = "L1 @ (p, us @ i # n # j # vs) # L2"
    have n: "i + 20 \<le> n" "n + 20 \<le> j" "4 dvd n" using True a b by (simp_all add: n_def)
    define s2 where "s2 = s1\<lparr>hused := (hused s1)(addr p n := False),
      hnodes := insert_node (hnodes s1) (addr p i) (addr p n), mem_meta := mem_meta s1 + HEADER_SIZE\<rparr>"
    have s2: "heap_wf {addr p n} s2 ?new" and F2: "frees (hused s2) {addr p n} ?new = frees (hused s1) {} lay"
      using split_wf [OF s1 [unfolded lay] _ n, of False] by (simp_all add: s2_def s1p lay)
    note ok2 = heap_wfD(1) [OF s2]
    have ch: "(p, i, n) \<in> chunks ?new" "(p, n, j) \<in> chunks ?new" unfolding chunks_insert [OF ok2] by blast+
    have "quiet (frees (hused s2) {addr p n} ?new) (p, n, j)"
      unfolding F2 F1 using n by (intro quiet_rest [OF ok ij q frees_chunks]) auto
    note r = release_chunk_wf [OF s2 ch(2) this refl refl]
    define k where "k = bidx (j - n - 12)"
    define hp where "hp = push_node (hnodes s2) (free_bucket s2 k) (addr p (n + 12))"
    define s3 where "s3 = s2\<lparr>hused := (hused s2)(addr p n := False), hnodes := fst hp,
      free_bucket := (free_bucket s2)(k := snd hp), mem_free := mem_free s2 + of_nat (j - n - 12)\<rparr>"
    have s3: "heap_wf {} s3 ?new" using r by (simp add: s3_def hp_def k_def)
    have z: "get_bucket_index s2 (addr p n) = k"
      unfolding k_def by (rule chunk_size_linked(3) [OF ok2 heap_wfD(2) [OF s2] ch(2)])
    have z2: "get_chunk_size (set_bucket k hp s2) (addr p n) = of_nat (j - n - 12)"
      by (rule chunk_size_linked(2) [OF ok2 _ ch(2), of _ "first s3" "last_chunk s3"])
        (use heap_wfD(2) [OF s3] in \<open>simp add: s3_def\<close>)
    have z3: "get_chunk_size s3 (addr p i) = of_nat (n - i - 12)"
      by (rule chunk_size_linked(2) [OF ok2 heap_wfD(2) [OF s3] ch(1)])
    have "upd_nodes (\<lambda>h. insert_node h (addr p i) (addr p n)) (set_used (addr p n) False s1)
        \<lparr>mem_meta := mem_meta s1 + HEADER_SIZE\<rparr> = s2"
      by (simp add: s2_def upd_nodes_def set_used_def)
    moreover have "set_bucket k hp s2\<lparr>mem_free := mem_free s2 + of_nat (j - n - 12)\<rparr> = s3"
      by (simp add: s3_def set_bucket_def s2_def)
    moreover have m: "mem_used s3 = mem_used s" "mem_used s2 = mem_used s" "mem_free s2 = mem_free s1"
      "push_node (insert_node (hnodes s1) (addr p i) (addr p n)) (free_bucket s1 k) (addr p (n + 12)) = hp"
      by (simp_all add: s3_def s2_def s1p hp_def)
    ultimately have "use_chunk (of_nat a) (addr p i) s =
        (addr p (i + 12), s3\<lparr>mem_used := mem_used s + of_nat (n - i - 12)\<rparr>)"
      using True u z z2 z3 m by (simp add: Let_def n_def [symmetric])
    moreover have "lives (hused s3) ?new = insert (p, i, n) (lives (hused s) lay)"
      using lives_split [OF ok2, of "hused s1" "hused s3"] lv(2) lay by (simp add: s3_def s2_def s1p)
    moreover have "n - i - 12 = a" by (simp add: n_def)
    ultimately show thesis using s3 ch(1) lay
      by (intro that [of "s3\<lparr>mem_used := mem_used s + of_nat (n - i - 12)\<rparr>" ?new n]) (auto simp: s3_def s2_def s1p)
  qed
qed

section \<open>Searching the buckets\<close>

lemma find_chunk_cases:
  obtains (none) "find_chunk i s = Inr (None, s)" and "\<And>k. i \<le> k \<Longrightarrow> k < NUM_SIZES \<Longrightarrow> free_bucket s k = None"
  | (some) k where "i \<le> k" and "k < NUM_SIZES" and "free_bucket s k \<noteq> None" and "find_chunk i s = pop_free_chunk k s"
proof (induction i s arbitrary: thesis rule: find_chunk.induct)
  case (1 i s)
  show ?case
  proof (cases "i < NUM_SIZES \<and> free_bucket s i = None")
    case True
    then have eq: "find_chunk i s = find_chunk (Suc i) s" by (simp add: find_chunk.simps)
    show ?thesis
    proof (rule "1.IH")
      show "i < NUM_SIZES" "\<not> free_bucket s i \<noteq> None" using True by auto
    next
      assume "find_chunk (Suc i) s = Inr (None, s)"
        and "\<And>k. Suc i \<le> k \<Longrightarrow> k < NUM_SIZES \<Longrightarrow> free_bucket s k = None"
      with True eq "1.prems"(1) show ?thesis by (metis le_antisym not_less_eq_eq)
    next
      fix k assume "Suc i \<le> k" "k < NUM_SIZES" "free_bucket s k \<noteq> None" "find_chunk (Suc i) s = pop_free_chunk k s"
      with eq "1.prems"(2) [of k] show ?thesis by simp
    qed
  next
    case False
    then consider "NUM_SIZES \<le> i" | "i < NUM_SIZES" "free_bucket s i \<noteq> None" by linarith
    then show ?thesis
    proof cases
      case 1
      then show ?thesis using "1.prems"(1) by (simp add: find_chunk.simps)
    next
      case 2
      then show ?thesis using "1.prems"(2) [of i] by (simp add: find_chunk.simps)
    qed
  qed
qed

end
