(* ===== verification/Heap_Page.thy ===== *)
theory Heap_Page
  imports Heap_Ops
begin

text \<open>
  Adding a page to the kernel heap and giving one back to the page allocator.
\<close>

section \<open>A fresh page\<close>

definition fresh_nodes :: "u32 nodes \<Rightarrow> u32 \<Rightarrow> u32 nodes" where
  "fresh_nodes h p = insert_node (insert_node (\<lambda>a. if unat (a - p) < 4096 then \<lparr>nxt = None, prv = None\<rparr> else h a)
     p (addr p 20)) (addr p 20) (addr p 4076)"

lemma fresh_nodes_frame:
  assumes "page_base p" and "page_base q" and "q \<noteq> p" and "i < 4096"
  shows "fresh_nodes h p (addr q i) = h (addr q i)"
proof -
  have "addr q i \<noteq> p" "addr q i \<noteq> addr p 20" "addr q i \<noteq> addr p 4076"
    using addr_inject [OF assms(2,1,4), of 0] addr_inject [OF assms(2,1,4), of 20]
      addr_inject [OF assms(2,1,4), of 4076] assms(3) by auto
  moreover have "unat (p - p) < 4096" "unat (addr p 20 - p) < 4096" "\<not> unat (addr q i - p) < 4096"
    using in_page_iff [OF assms(1,2,4)] in_page_iff [OF assms(1,1), of 20] assms(3) by auto
  ultimately show ?thesis
    by (simp add: fresh_nodes_def insert_node_def Let_def split: option.split)
qed

lemma fresh_nodes_dls:
  assumes "page_base p"
  shows "dls (fresh_nodes h p) None (Some p) [p, addr p 20, addr p 4076] None"
    and "nxt (fresh_nodes h p p) = Some (addr p 20)" and "nxt (fresh_nodes h p (addr p 20)) = Some (addr p 4076)"
proof -
  have ne: "p \<noteq> addr p 20" "p \<noteq> addr p 4076" "addr p 20 \<noteq> addr p 4076"
    using addr_inject [OF assms assms, of 0 20] addr_inject [OF assms assms, of 0 4076]
      addr_inject [OF assms assms, of 20 4076] by auto
  moreover have "unat (p - p) < 4096" "unat (addr p 20 - p) < 4096" "unat (addr p 4076 - p) < 4096"
    using in_page_iff [OF assms assms] in_page_iff [OF assms assms, of 4076] in_page_iff [OF assms assms, of 20]
    by auto
  ultimately show "dls (fresh_nodes h p) None (Some p) [p, addr p 20, addr p 4076] None"
    "nxt (fresh_nodes h p p) = Some (addr p 20)" "nxt (fresh_nodes h p (addr p 20)) = Some (addr p 4076)"
    by (auto simp: fresh_nodes_def insert_node_def Let_def)
qed

text \<open>Linking a new list of chunks behind the last chunk.\<close>

lemma insert_node_join:
  assumes "dls h None f (S @ [z]) None" and "dls h None (Some x) (x # T) None"
    and "distinct (S @ [z] @ x # T)"
  shows "dls (insert_node h z x) None f (S @ z # x # T) None"
    and "\<And>a. a \<noteq> z \<Longrightarrow> a \<noteq> x \<Longrightarrow> insert_node h z x a = h a"
proof -
  from assms(1) have nz: "nxt (h z) = None" by (auto simp: dls_append)
  then show "\<And>a. a \<noteq> z \<Longrightarrow> a \<noteq> x \<Longrightarrow> insert_node h z x a = h a"
    by (simp add: insert_node_def)
  from nz assms show "dls (insert_node h z x) None f (S @ z # x # T) None"
    by (auto simp: insert_node_def dls_append)
qed

lemma P2V_page_base:
  assumes "x < 2 ^ 20"
  shows "page_base (P2V (page_map_real x))"
proof -
  have "unat (P2V (page_map_real x)) = (4096 * x + 0xC0000000) mod 2 ^ 32"
    using unat_page_map_real [OF assms]
    by (simp add: P2V_def KERNEL_VIRTUAL_BASE_def unat_word_ariths)
  then show ?thesis by (simp add: page_base_def dvd_mod)
qed

lemma adj_two: "adj [a, b] x y \<longleftrightarrow> x = a \<and> y = b"
  by (auto simp: adj_Cons)

lemma fresh_layout:
  assumes "lay_ok lay" and "page_base p" and "p \<notin> fst ` set lay"
  shows "lay_ok (lay @ [(p, [20, 4076])])"
    and "chunks (lay @ [(p, [20, 4076])]) = insert (p, 20, 4076) (chunks lay)"
    and "(p, 20, 4076) \<notin> chunks lay"
  using assms chunks_page [of p 20 4076 lay]
  by (auto simp: lay_ok_simps cuts_ok_def spaced_simps chunks_Cons adj_two)

lemma bidx_4044: "bidx 4044 = 8"
proof -
  have "2 ^ 11 \<le> unat (4044 :: u32)" "unat (4044 :: u32) < 2 ^ Suc 11" by simp_all
  from builtin_clz_eq [OF this] show ?thesis by (simp add: bidx_def log_two_def ORDER_OFFSET_def)
qed

definition fresh_used :: "(u32 \<Rightarrow> bool) \<Rightarrow> u32 \<Rightarrow> u32 \<Rightarrow> bool" where
  "fresh_used u p = (\<lambda>a. if unat (a - p) < 4096 then False else u a)
     (p := True, addr p 20 := False, addr p 4076 := True)"

lemma fresh_used_frame:
  assumes "page_base p" and "page_base q" and "q \<noteq> p" and "i < 4096"
  shows "fresh_used u p (addr q i) = u (addr q i)"
  using addr_inject [OF assms(2,1,4), of 0] addr_inject [OF assms(2,1,4), of 20]
    addr_inject [OF assms(2,1,4), of 4076] in_page_iff [OF assms(1,2,4)] assms(3)
  by (simp add: fresh_used_def)

lemma fresh_used_own:
  assumes "page_base p"
  shows "fresh_used u p p" and "\<not> fresh_used u p (addr p 20)" and "fresh_used u p (addr p 4076)"
  using addr_inject [OF assms assms, of 0 20] addr_inject [OF assms assms, of 0 4076]
    addr_inject [OF assms assms, of 20 4076]
  by (auto simp: fresh_used_def)

lemma fresh_used_chunk:
  assumes "lay_ok lay" and "page_base p" and "p \<notin> fst ` set lay" and "c \<in> chunks lay"
  shows "fresh_used u p (caddr c) = u (caddr c)"
proof -
  obtain q i j where c: "c = (q, i, j)" by (cases c)
  with assms(4) have "q \<noteq> p" using chunks_page assms(3) by blast
  with fresh_used_frame [OF assms(2), of q i] lay_chunk [OF assms(1) assms(4) [unfolded c]] c
  show ?thesis by simp
qed

lemma fresh_page_sets:
  assumes "lay_ok lay" and "page_base p" and "p \<notin> fst ` set lay"
  shows "frees (fresh_used u p) {} (lay @ [(p, [20, 4076])]) = insert (p, 20, 4076) (frees u {} lay)"
    and "lives (fresh_used u p) (lay @ [(p, [20, 4076])]) = lives u lay"
    and "guards u lay \<Longrightarrow> guards (fresh_used u p) (lay @ [(p, [20, 4076])])"
proof -
  note C = fresh_layout(2) [OF assms] and own = fresh_used_own [OF assms(2), of u]
  show "frees (fresh_used u p) {} (lay @ [(p, [20, 4076])]) = insert (p, 20, 4076) (frees u {} lay)"
    unfolding frees_def C using fresh_used_chunk [OF assms, of _ u] own by auto
  show "lives (fresh_used u p) (lay @ [(p, [20, 4076])]) = lives u lay"
    unfolding lives_def C using fresh_used_chunk [OF assms, of _ u] own by auto
  assume g: "guards u lay"
  have "fresh_used u p q \<and> fresh_used u p (addr q 4076)" if q: "q \<in> fst ` set lay" for q
  proof -
    from q assms(1,3) have "page_base q" "q \<noteq> p" by (auto simp: lay_ok_def)
    with fresh_used_frame [OF assms(2), of q 0 u] fresh_used_frame [OF assms(2), of q 4076 u] g q
    show ?thesis unfolding guards_def by auto
  qed
  with own show "guards (fresh_used u p) (lay @ [(p, [20, 4076])])" by (auto simp: guards_def)
qed

lemma fresh_nodes_seq:
  assumes "lay_ok lay" and "page_base p" and "p \<notin> fst ` set lay" and "a \<in> set (all_seq lay) \<union> fnode ` chunks lay"
  shows "fresh_nodes h p a = h a"
proof -
  from assms(4) obtain q i where q: "a = addr q i" "q \<in> fst ` set lay" "page_base q" "i < 4096"
  proof
    assume "a \<in> set (all_seq lay)"
    then obtain q bs i where a: "a = addr q i" "(q, bs) \<in> set lay" "i \<in> insert 0 (set bs)"
      unfolding set_all_seq by blast
    moreover have "q \<in> fst ` set lay" using a(2) by force
    moreover have "i < 4096" using a(3) cuts_range [OF lay_okD(2) [OF assms(1) a(2)], of i] by auto
    ultimately show thesis using that lay_okD(1) [OF assms(1) a(2)] by blast
  next
    assume "a \<in> fnode ` chunks lay"
    then obtain q i j where a: "a = addr q (i + 12)" "(q, i, j) \<in> chunks lay" by auto
    with lay_chunk [OF assms(1) a(2)] chunks_page [OF a(2)] show thesis by (intro that [of q "i + 12"]) auto
  qed
  with assms(3) have "q \<noteq> p" by blast
  with fresh_nodes_frame [OF assms(2) q(3) this q(4)] q(1) show ?thesis by simp
qed

lemma create_chunk_eq:
  assumes "pmm_alloc (pages s) 0 = Inr (a, b)" and "p = P2V a" and "p \<noteq> 0" and "page_base p"
    and "hp = push_node (fresh_nodes (hnodes s) p) (free_bucket s 8) (addr p 32)"
    and "t = s\<lparr>pages := b, hnodes := fst hp, hused := fresh_used (hused s) p, mem_meta := mem_meta s + 52,
      mem_free := mem_free s + 4044, free_bucket := (free_bucket s)(8 := snd hp)\<rparr>"
  shows "create_chunk s =
    (if first s = None then Inr (p, t\<lparr>first := Some p, last_chunk := Some (addr p 4076)\<rparr>)
     else bnd (deref (last_chunk s)) (\<lambda>l.
       Inr (p, t\<lparr>hnodes := insert_node (hnodes t) l p, last_chunk := Some (addr p 4076)\<rparr>)))"
proof -
  have d: "to_ptr (P2V a) = Some p" using assms(2,3) by (simp add: to_ptr_def)
  have m: "p + 20 = addr p 20" "p + 4096 - 20 = addr p 4076" by (simp_all add: addr_def)
  note n = fresh_nodes_dls(2,3) [OF assms(4), of "hnodes s"]
  have z: "get_total_size x p = 20" "get_chunk_size x (addr p 20) = 4044" "get_bucket_index x (addr p 20) = 8"
    if "hnodes x = fresh_nodes (hnodes s) p" for x
  proof -
    have "addr p 20 - p = 20" "addr p 4076 - addr p 20 = 4056" by (simp_all add: addr_def)
    then show "get_total_size x p = 20" and c: "get_chunk_size x (addr p 20) = 4044"
      using n that by (simp_all add: get_total_size_def get_chunk_size_def ptr_val_def HEADER_SIZE_def)
    show "get_bucket_index x (addr p 20) = 8"
      using bidx_4044 unfolding get_bucket_index_def c bidx_def by simp
  qed
  define t0 where "t0 = upd_nodes (\<lambda>h. insert_node h (addr p 20) (addr p 4076)) (upd_nodes (\<lambda>h. insert_node h p (addr p 20))
    (set_used (addr p 4076) True (set_used (addr p 20) False (set_used p True (clear_page p (s\<lparr>pages := b\<rparr>))))))"
  have t0: "hnodes t0 = fresh_nodes (hnodes s) p" "hused t0 = fresh_used (hused s) p" "first t0 = first s"
    "last_chunk t0 = last_chunk s" "mem_free t0 = mem_free s" "mem_meta t0 = mem_meta s" "pages t0 = b"
    "mem_used t0 = mem_used s" "free_bucket t0 = free_bucket s"
    by (simp_all add: t0_def clear_page_def fresh_nodes_def fresh_used_def cong: if_cong)
  have t: "set_bucket 8 hp (t0\<lparr>mem_meta := 52 + mem_meta s, mem_free := mem_free s + 4044\<rparr>) = t"
    by (rule heap.equality) (simp_all add: t0 assms(6))
  have fl: "first t = first s" "last_chunk t = last_chunk s" "fst hp = hnodes t" by (simp_all add: assms(6))
  have "create_chunk s = (let s = t0;
           s = s\<lparr>mem_meta := mem_meta s + get_total_size s p\<rparr>;
           s = s\<lparr>mem_meta := mem_meta s + get_total_size s p\<rparr>;
           s = s\<lparr>mem_meta := mem_meta s + HEADER_SIZE\<rparr>;
           s = s\<lparr>mem_free := mem_free s + get_chunk_size s (addr p 20)\<rparr>;
           order = get_bucket_index s (addr p 20);
           s = set_bucket order (push_node (hnodes s) (free_bucket s order) (free_node (addr p 20))) s
       in if first s = None
          then Inr (p, s\<lparr>first := Some p, last_chunk := Some (addr p 4076)\<rparr>)
          else bnd (deref (last_chunk s)) (\<lambda>l.
                 let s = upd_nodes (\<lambda>h. insert_node h l p) s
                 in Inr (p, s\<lparr>last_chunk := Some (addr p 4076)\<rparr>)))"
    unfolding create_chunk_def assms(1) bnd_simps prod.case d deref_simps sizeof_Chunk_def PAGE_SIZE_def m t0_def Let_def ..
  also have "\<dots> = (if first s = None then Inr (p, t\<lparr>first := Some p, last_chunk := Some (addr p 4076)\<rparr>)
     else bnd (deref (last_chunk s)) (\<lambda>l.
       Inr (p, t\<lparr>hnodes := insert_node (hnodes t) l p, last_chunk := Some (addr p 4076)\<rparr>)))"
    by (simp add: Let_def z t0 HEADER_SIZE_def assms(5) [symmetric] t fl upd_nodes_def)
  finally show ?thesis .
qed

lemma all_seq_last:
  assumes "lay_ok lay" and "lay \<noteq> []"
  obtains S where "all_seq lay = S @ [addr (fst (last lay)) 4076]"
proof -
  obtain L q bs where lay: "lay = L @ [(q, bs)]" using assms(2) by (metis rev_exhaust surj_pair)
  with assms(1) have "cuts_ok bs" by (simp add: lay_ok_simps)
  then obtain cs where "bs = cs @ [4076]" unfolding cuts_ok_def by (metis append_butlast_last_id)
  with lay have "all_seq lay = (all_seq L @ q # map (addr q) cs) @ [addr (fst (last lay)) 4076]"
    by (simp add: all_seq_Cons)
  with that show thesis by blast
qed

lemma fresh_page:
  assumes "backed b lay" and "pmm_alloc b 0 = Inr (a, b')"
  obtains x where "a = page_map_real x" and "page_base (P2V a)" and "P2V a \<notin> fst ` set lay"
    and "backed b' lay" and "\<And>y k. used_block b' y k \<longleftrightarrow> used_block b y k \<or> y = x \<and> k = 0"
    and "x \<in> free_pages b" and "free_pages b' = free_pages b - {x}"
proof -
  from assms have inv: "buddy_inv b" and al: "buddy_alloc_pages b 0 = Inr (a, b')"
    by (simp_all add: backed_def pmm_alloc_def)
  from pmm.alloc_ok [OF inv al] obtain x where x: "a = page_map_real x" "x < 2 ^ 20" "dblock x 0 \<subseteq> free_pages b"
    "free_pages b' = free_pages b - dblock x 0" "buddy_inv b'"
    "\<forall>j l. used_block b' j l \<longleftrightarrow> used_block b j l \<or> j = x \<and> l = 0" by blast
  have x0: "dblock x 0 = {x}" by (auto simp: dblock_def)
  have "P2V a \<notin> fst ` set lay"
  proof
    assume "P2V a \<in> fst ` set lay"
    with assms(1) obtain y where y: "P2V a = P2V (page_map_real y)" "used_block b y 0"
      unfolding backed_def by blast
    from pmm.live_ok [OF inv y(2)] have "y < 2 ^ 20" "dblock y 0 \<inter> free_pages b = {}" by blast+
    moreover from this(1) x(1,2) y(1) have "y = x" by (metis P2V_inject real_page_index_real)
    ultimately show False using x(3) x0 by blast
  qed
  moreover have "backed b' lay" using assms(1) x(5,6) unfolding backed_def by blast
  ultimately show thesis using that x x0 P2V_page_base [OF x(2)] by blast
qed

lemma create_chunk_wf:
  assumes wf: "heap_wf {} s lay" and al: "pmm_alloc (pages s) 0 = Inr (a, b)" and nz: "P2V a \<noteq> 0"
  obtains p s' where "create_chunk s = Inr (p, s')" and "p = P2V a" and "p \<notin> fst ` set lay"
    and "heap_wf {} s' (lay @ [(p, [20, 4076])])"
    and "frees (hused s') {} (lay @ [(p, [20, 4076])]) = insert (p, 20, 4076) (frees (hused s) {} lay)"
    and "lives (hused s') (lay @ [(p, [20, 4076])]) = lives (hused s) lay"
    and "mem_used s' = mem_used s" and "pages s' = b"
proof -
  note w = heap_wfD [OF wf]
  from fresh_page [OF w(8) al] obtain x where x: "a = page_map_real x" "page_base (P2V a)"
    "P2V a \<notin> fst ` set lay" "backed b lay" "used_block b x 0" by metis
  define p where "p = P2V a"
  note pb = x(2) [folded p_def] and pn = x(3) [folded p_def]
  let ?new = "lay @ [(p, [20, 4076])]" and ?F = "frees (hused s) {} lay" and ?c = "(p, 20, 4076)"
  note ok = fresh_layout(1) [OF w(1) pb pn] and C = fresh_layout(2,3) [OF w(1) pb pn]
    and sets = fresh_page_sets [OF w(1) pb pn, of "hused s"]
  define h1 where "h1 = fresh_nodes (hnodes s) p"
  define hp where "hp = push_node h1 (free_bucket s 8) (addr p 32)"
  define t where "t = s\<lparr>pages := b, hnodes := fst hp, hused := fresh_used (hused s) p,
    mem_meta := mem_meta s + 52, mem_free := mem_free s + 4044, free_bucket := (free_bucket s)(8 := snd hp)\<rparr>"
  have cF: "?c \<notin> ?F" using C(2) frees_chunks by blast
  have "bucketed h1 (free_bucket s) ?F"
  proof (rule bucketed_frame [OF w(4)])
    fix c assume "c \<in> ?F"
    then have "fnode c \<in> set (all_seq lay) \<union> fnode ` chunks lay" using frees_chunks by blast
    from fresh_nodes_seq [OF w(1) pb pn this] show "h1 (fnode c) = hnodes s (fnode c)" by (simp add: h1_def)
  qed
  moreover have "fnode ?c \<notin> fnode ` ?F"
    using inj_on_image_mem_iff [OF fnode_inj [OF ok], of ?c ?F] cF C(1) frees_chunks by blast
  ultimately have bk: "bucketed (fst hp) ((free_bucket s)(8 := snd hp)) (insert ?c ?F)"
    and fr: "\<And>a. a \<noteq> fnode ?c \<Longrightarrow> a \<notin> fnode ` ?F \<Longrightarrow> fst hp a = h1 a"
    using bucketed_push [of h1 "free_bucket s" ?F 8 ?c hp] by (simp_all add: bidx_4044 hp_def NUM_SIZES_def)
  have seq: "fst hp a = h1 a" if "a \<in> set (all_seq ?new)" for a
    using seq_not_fnode [OF ok that, of "fresh_used (hused s) p" "{}"] unfolding sets(1) by (intro fr) auto
  have d1: "dls (fst hp) None (first s) (all_seq lay) None"
  proof -
    have "fst hp a = hnodes s a" if "a \<in> set (all_seq lay)" for a
      using seq [of a] that fresh_nodes_seq [OF w(1) pb pn, of a] by (simp add: h1_def)
    then show ?thesis using w(2) dls_frame [of "all_seq lay" "fst hp" "hnodes s"] by (simp add: linked_def)
  qed
  have d2: "dls (fst hp) None (Some p) [p, addr p 20, addr p 4076] None"
    using dls_frame [of "[p, addr p 20, addr p 4076]" "fst hp" h1] seq fresh_nodes_dls(1) [OF pb, of "hnodes s"]
    unfolding h1_def by (simp add: all_seq_Cons)
  have rest: "guards (fresh_used (hused s) p) ?new" "apart (insert ?c ?F)" "backed b ?new"
    "mem_free s + 4044 = (\<Sum>c\<in>insert ?c ?F. of_nat (csize c))"
    "mem_meta s + 52 = of_nat (40 * length ?new + 12 * card (chunks ?new))"
  proof -
    show "guards (fresh_used (hused s) p) ?new" by (rule sets(3) [OF w(3)])
    have "quiet ?F ?c" using pn chunks_page frees_chunks by (fastforce simp: quiet_def)
    then have "quiet ?F ?c" "?c \<in> chunks ?new" using C(1) by auto
    then show "apart (insert ?c ?F)" using apart_insert [OF ok _ w(5)] by blast
    show "backed b ?new" using x(1,4,5) by (auto simp: backed_def p_def)
    show "mem_free s + 4044 = (\<Sum>c\<in>insert ?c ?F. of_nat (csize c))" using w(6) cF finite_frees by simp
    show "mem_meta s + 52 = of_nat (40 * length ?new + 12 * card (chunks ?new))"
      using w(7) C finite_chunks by simp
  qed
  note eq = create_chunk_eq [OF al p_def _ pb hp_def [unfolded h1_def] t_def]
  show thesis
  proof (cases "lay = []")
    case True
    then have "first s = None" using linked_first [OF w(2)] by simp
    with eq nz have "create_chunk s = Inr (p, t\<lparr>first := Some p, last_chunk := Some (addr p 4076)\<rparr>)"
      by (simp add: p_def)
    moreover have "linked (fst hp) (Some p) (Some (addr p 4076)) ?new"
      using d2 True by (simp add: linked_def all_seq_Cons)
    then have "heap_wf {} (t\<lparr>first := Some p, last_chunk := Some (addr p 4076)\<rparr>) ?new"
      using ok rest bk sets(1) by (simp add: heap_wf_def t_def)
    ultimately show thesis using pn sets(1,2)
      by (intro that [of p "t\<lparr>first := Some p, last_chunk := Some (addr p 4076)\<rparr>"]) (simp_all add: t_def p_def)
  next
    case False
    let ?z = "addr (fst (last lay)) 4076"
    have fl: "first s \<noteq> None" "last_chunk s = Some ?z"
      using linked_first [OF w(2)] w(2) False by (auto simp: linked_def)
    define h3 where "h3 = insert_node (fst hp) ?z p"
    have r: "create_chunk s = Inr (p, t\<lparr>hnodes := h3, last_chunk := Some (addr p 4076)\<rparr>)"
      using eq nz fl by (simp add: p_def h3_def t_def)
    obtain S where S: "all_seq lay = S @ [?z]" using all_seq_last [OF w(1) False] .
    have new: "all_seq ?new = S @ ?z # p # [addr p 20, addr p 4076]" by (simp add: S all_seq_Cons)
    have j: "dls h3 None (first s) (all_seq ?new) None" "\<And>a. a \<noteq> ?z \<Longrightarrow> a \<noteq> p \<Longrightarrow> h3 a = fst hp a"
      using insert_node_join [OF d1 [unfolded S] d2] distinct_all_seq [OF ok]
      unfolding new h3_def by simp_all
    have "bucketed h3 ((free_bucket s)(8 := snd hp)) (insert ?c ?F)"
    proof (rule bucketed_frame [OF bk j(2)])
      fix c assume "c \<in> insert ?c ?F"
      then have "c \<in> chunks ?new" using C(1) frees_chunks by blast
      from fnode_not_seq [OF ok this] show "fnode c \<noteq> ?z" "fnode c \<noteq> p" unfolding new by auto
    qed
    then have "heap_wf {} (t\<lparr>hnodes := h3, last_chunk := Some (addr p 4076)\<rparr>) ?new"
      using ok rest j(1) sets(1) by (simp add: heap_wf_def t_def linked_def)
    with r pn sets(1,2) show thesis
      by (intro that [of p "t\<lparr>hnodes := h3, last_chunk := Some (addr p 4076)\<rparr>"]) (simp_all add: t_def p_def)
  qed
qed

section \<open>Returning a page\<close>

lemma unlink_page:
  assumes "dls h None f (S1 @ [x, y, z] @ S2) None" and "distinct (S1 @ [x, y, z] @ S2)" and "S1 \<noteq> []"
    and "h1 = unlink_node h y" and "h2 = unlink_node h1 x" and "h3 = unlink_node h2 z"
  shows "dls h1 None f (S1 @ [x, z] @ S2) None" and "dls h2 None f (S1 @ z # S2) None"
    and "dls h3 None f (S1 @ S2) None" and "\<And>a. a \<notin> set (S1 @ [x, y, z] @ S2) \<Longrightarrow> h3 a = h a"
proof -
  note u1 = unlink_node_dls [of h None f "S1 @ [x]" y "z # S2" None]
  show d1: "dls h1 None f (S1 @ [x, z] @ S2) None" using u1(1) assms(1,2,4) by simp
  note u2 = unlink_node_dls [of h1 None f S1 x "z # S2" None]
  show d2: "dls h2 None f (S1 @ z # S2) None" using u2(1) d1 assms(2,3,5) by simp
  note u3 = unlink_node_dls [of h2 None f S1 z S2 None]
  show "dls h3 None f (S1 @ S2) None" using u3(1) d2 assms(2,3,6) by simp
  fix a assume a: "a \<notin> set (S1 @ [x, y, z] @ S2)"
  have "h1 a = h a" using u1(2) [of a] a assms(1,2,4) by simp
  moreover have "h2 a = h1 a" using u2(2) [of a] a d1 assms(2,3,5) by simp
  moreover have "h3 a = h2 a" using u3(2) [of a] a d2 assms(2,3,6) by simp
  ultimately show "h3 a = h a" by simp
qed

lemma drop_page_sets:
  assumes "lay_ok (L1 @ (p, [20, 4076]) # L2)"
  shows "lay_ok (L1 @ L2)" and "chunks (L1 @ (p, [20, 4076]) # L2) = insert (p, 20, 4076) (chunks (L1 @ L2))"
    and "(p, 20, 4076) \<notin> chunks (L1 @ L2)"
    and "frees u {} (L1 @ L2) = frees u {addr p 20} (L1 @ (p, [20, 4076]) # L2)"
    and "lives u (L1 @ L2) = lives u (L1 @ (p, [20, 4076]) # L2) - {(p, 20, 4076)}"
proof -
  let ?old = "L1 @ (p, [20, 4076]) # L2"
  show "lay_ok (L1 @ L2)" using assms by (auto simp: lay_ok_simps)
  show C: "chunks ?old = insert (p, 20, 4076) (chunks (L1 @ L2))" by (auto simp: chunks_Cons adj_two)
  have "p \<notin> fst ` set L1" "p \<notin> fst ` set L2" using assms by (auto simp: lay_ok_simps)
  then show n: "(p, 20, 4076) \<notin> chunks (L1 @ L2)" using chunks_page by fastforce
  have ne: "caddr c \<noteq> addr p 20" if "c \<in> chunks (L1 @ L2)" for c
  proof -
    have "c \<noteq> (p, 20, 4076)" using that n by blast
    moreover have "c \<in> chunks ?old" "(p, 20, 4076) \<in> chunks ?old" using that C by auto
    ultimately have "caddr c \<noteq> caddr (p, 20, 4076)" using inj_onD [OF caddr_inj [OF assms]] by blast
    then show ?thesis by simp
  qed
  then show "frees u {} (L1 @ L2) = frees u {addr p 20} ?old" unfolding frees_def C by auto
  show "lives u (L1 @ L2) = lives u ?old - {(p, 20, 4076)}" unfolding lives_def C using n by auto
qed

lemma remove_from_first_unlink:
  "first s \<noteq> Some x \<Longrightarrow> remove_from_first x s = Inr (s\<lparr>hnodes := unlink_node (hnodes s) x\<rparr>)"
  by (simp add: remove_from_first_def remove_node_def)

lemma remove_from_first_next_unlink:
  "first s = Some f \<Longrightarrow> nxt (hnodes s f) \<noteq> Some x \<Longrightarrow>
    remove_from_first_next x s = Inr (s\<lparr>hnodes := unlink_node (hnodes s) x\<rparr>)"
  by (simp add: remove_from_first_next_def remove_node_field_def)

text \<open>The list operations of \<open>return_page\<close>, on a page that holds a single chunk.\<close>

lemma return_page_eq:
  assumes wf: "heap_wf X s (L1 @ (p, [20, 4076]) # L2)" and "L1 \<noteq> []"
    and "h = unlink_node (unlink_node (unlink_node (hnodes s) (addr p 20)) p) (addr p 4076)"
  shows "return_page p s = bnd (pmm_free (pages s) (V2P p)) (\<lambda>b. Inr (s\<lparr>last_chunk := Some (addr (fst (last (L1 @ L2))) 4076),
      hnodes := h, mem_meta := mem_meta s - 52, pages := b\<rparr>))"
    and "linked h (first s) (Some (addr (fst (last (L1 @ L2))) 4076)) (L1 @ L2)"
    and "\<And>a. a \<notin> set (all_seq (L1 @ (p, [20, 4076]) # L2)) \<Longrightarrow> h a = hnodes s a"
proof -
  let ?old = "L1 @ (p, [20, 4076]) # L2" and ?m = "addr p 20" and ?l = "addr p 4076"
  note w = heap_wfD [OF wf]
  define h1 where "h1 = unlink_node (hnodes s) ?m"
  define h2 where "h2 = unlink_node h1 p"
  have h: "h = unlink_node h2 ?l" by (simp add: assms(3) h1_def h2_def)
  have old: "all_seq ?old = all_seq L1 @ [p, ?m, ?l] @ all_seq L2" by (simp add: all_seq_Cons)
  have dist: "distinct (all_seq L1 @ [p, ?m, ?l] @ all_seq L2)" using distinct_all_seq [OF w(1)] unfolding old .
  have "dls (hnodes s) None (first s) (all_seq L1 @ [p, ?m, ?l] @ all_seq L2) None"
    using w(2) unfolding linked_def old by blast
  note u = unlink_page [OF this dist _ h1_def h2_def h]
  from assms(2) obtain q bs L where L1: "L1 = (q, bs) # L" by (metis list.exhaust surj_pair)
  with w(1) have bs: "cuts_ok bs" "page_base q" "page_base p" by (simp_all add: lay_ok_simps)
  then obtain cs where cs: "bs = 20 # cs" by (cases bs) (auto simp: cuts_ok_def)
  have f: "first s = Some q" using linked_first [OF w(2)] L1 by simp
  have nq: "q \<noteq> ?m" "addr q 20 \<noteq> p" "addr q 20 \<noteq> ?l" using dist L1 cs by (auto simp: all_seq_Cons)
  have n1: "nxt (h1 q) = Some (addr q 20)" and n2: "nxt (h2 q) = Some (addr q 20)"
    using u(1,2) assms(2) by (simp_all add: L1 cs all_seq_Cons)
  have lm: "nxt (hnodes s p) = Some ?m" "nxt (hnodes s ?m) = Some ?l"
    using linked_page(1) [OF w(1,2), of p "[20, 4076]"] linked_chunk(1) [OF w(2), of p 20 4076]
    by (simp_all add: chunks_Cons adj_two)
  obtain S where S: "all_seq L1 = S @ [addr (fst (last L1)) 4076]"
    using all_seq_last [OF _ assms(2)] w(1) by (metis lay_ok_append)
  have pl: "prv (h2 ?l) = Some (addr (fst (last L1)) 4076)"
    using u(2) assms(2) dls_adjacent [of h2 None "first s" S "addr (fst (last L1)) 4076" ?l "all_seq L2"]
    by (simp add: S)
  have ll: "last_chunk s = Some (addr (fst (last ?old)) 4076)" using w(2) by (simp add: linked_def)
  have last: "(if last_chunk s = Some ?l then prv (h2 ?l) else last_chunk s) =
      Some (addr (fst (last (L1 @ L2))) 4076)"
  proof (cases "L2 = []")
    case True
    with ll pl show ?thesis by simp
  next
    case False
    then obtain M r rs where L2: "L2 = M @ [(r, rs)]" by (metis rev_exhaust surj_pair)
    with w(1) have "page_base r" "r \<noteq> p" by (auto simp: lay_ok_simps)
    with ll bs(3) L2 show ?thesis by (simp add: addr_inject)
  qed
  show "linked h (first s) (Some (addr (fst (last (L1 @ L2))) 4076)) (L1 @ L2)"
    using u(3) assms(2) by (simp add: linked_def)
  show "\<And>a. a \<notin> set (all_seq ?old) \<Longrightarrow> h a = hnodes s a" using u(4) assms(2) unfolding old by simp
  show "return_page p s = bnd (pmm_free (pages s) (V2P p)) (\<lambda>b. Inr (s\<lparr>last_chunk := Some (addr (fst (last (L1 @ L2))) 4076),
      hnodes := h, mem_meta := mem_meta s - 52, pages := b\<rparr>))"
  proof (cases "last_chunk s = Some ?l")
    case True
    with lm f nq n1 n2 last show ?thesis
      by (simp add: return_page_def remove_from_first_unlink remove_from_first_next_unlink h1_def [symmetric]
          h2_def [symmetric] h [symmetric] Let_def heap_consts)
  next
    case False
    with last have "s\<lparr>last_chunk := Some (addr (fst (last (L1 @ L2))) 4076)\<rparr> = s" by simp
    then have "s\<lparr>last_chunk := Some (addr (fst (last (L1 @ L2))) 4076), hnodes := h, mem_meta := mem_meta s - 52, pages := b\<rparr> =
        s\<lparr>hnodes := h, mem_meta := mem_meta s - 52, pages := b\<rparr>" for b
      by (rule arg_cong)
    with False lm f nq n1 n2 show ?thesis
      by (simp add: return_page_def remove_from_first_unlink remove_from_first_next_unlink h1_def [symmetric]
          h2_def [symmetric] h [symmetric] Let_def heap_consts)
  qed
qed

lemma drop_page:
  assumes "backed b lay" and "p \<in> fst ` set lay" and "fst ` set lay' = fst ` set lay - {p}"
  obtains x b' where "p = P2V (page_map_real x)" and "used_block b x 0" and "pmm_free b (V2P p) = Inr b'"
    and "backed b' lay'" and "\<And>y k. used_block b' y k \<longleftrightarrow> used_block b y k \<and> y \<noteq> x"
    and "free_pages b' = insert x (free_pages b)"
proof -
  from assms(1) have inv: "buddy_inv b" and bk: "q \<in> fst ` set lay \<Longrightarrow> \<exists>x. q = P2V (page_map_real x) \<and> used_block b x 0" for q
    unfolding backed_def by blast+
  from bk [OF assms(2)] obtain x where x: "p = P2V (page_map_real x)" "used_block b x 0" by blast
  then have vp: "pmm_free b (V2P p) = buddy_free_pages b (page_map_real x)" by (simp add: pmm_free_def)
  from pmm.release_ok [OF inv x(2)] obtain b' where b': "buddy_free_pages b (page_map_real x) = Inr b'" "buddy_inv b'"
    "free_pages b' = free_pages b \<union> dblock x 0" "\<forall>j l. used_block b' j l \<longleftrightarrow> used_block b j l \<and> j \<noteq> x" by blast
  have "\<exists>y. q = P2V (page_map_real y) \<and> used_block b' y 0" if q: "q \<in> fst ` set lay'" for q
  proof -
    have "q \<in> fst ` set lay" "q \<noteq> p" using q unfolding assms(3) by simp_all
    with bk obtain y where y: "q = P2V (page_map_real y)" "used_block b y 0" by blast
    with x(1) \<open>q \<noteq> p\<close> have "y \<noteq> x" by auto
    with y b'(4) show ?thesis by auto
  qed
  with b'(2) have "backed b' lay'" by (simp add: backed_def)
  moreover have "free_pages b' = insert x (free_pages b)" using b'(3) by (simp add: dblock_def)
  ultimately show thesis
    by (intro that [OF x vp [unfolded b'(1)]]) (use b'(4) in auto)
qed

lemma return_page_wf:
  assumes wf: "heap_wf {addr p 20} s (L1 @ (p, [20, 4076]) # L2)" and "L1 \<noteq> []"
  obtains x s' where "return_page p s = Inr s'" and "heap_wf {} s' (L1 @ L2)" and "hused s' = hused s"
    and "mem_used s' = mem_used s" and "p = P2V (page_map_real x)" and "used_block (pages s) x 0"
    and "\<And>y k. used_block (pages s') y k \<longleftrightarrow> used_block (pages s) y k \<and> y \<noteq> x"
proof -
  let ?old = "L1 @ (p, [20, 4076]) # L2" and ?l = "Some (addr (fst (last (L1 @ L2))) 4076)"
  note w = heap_wfD [OF wf]
  note d = drop_page_sets [OF w(1)]
  define h where "h = unlink_node (unlink_node (unlink_node (hnodes s) (addr p 20)) p) (addr p 4076)"
  note r = return_page_eq [OF wf assms(2) h_def]
  have pg: "p \<in> fst ` set ?old" "fst ` set (L1 @ L2) = fst ` set ?old - {p}"
    using w(1) by (simp_all add: lay_ok_simps image_Un)
  from drop_page [OF w(8) pg] obtain x b where
    x: "p = P2V (page_map_real x)" "used_block (pages s) x 0" "pmm_free (pages s) (V2P p) = Inr b"
      "backed b (L1 @ L2)" "\<And>y k. used_block b y k \<longleftrightarrow> used_block (pages s) y k \<and> y \<noteq> x" by blast
  let ?s = "s\<lparr>last_chunk := ?l, hnodes := h, mem_meta := mem_meta s - 52, pages := b\<rparr>"
  have "bucketed h (free_bucket s) (frees (hused s) {} (L1 @ L2))"
  proof (rule bucketed_frame [OF w(4) [folded d(4)]])
    fix c assume "c \<in> frees (hused s) {} (L1 @ L2)"
    then have "c \<in> chunks ?old" using d(2) frees_chunks by blast
    from r(3) [OF fnode_not_seq [OF w(1) this]] show "h (fnode c) = hnodes s (fnode c)" .
  qed
  moreover have "guards (hused s) (L1 @ L2)" using w(3) by (auto simp: guards_def)
  moreover have "mem_meta s - 52 = of_nat (40 * length (L1 @ L2) + 12 * card (chunks (L1 @ L2)))"
    using w(7) d(2,3) finite_chunks by simp
  ultimately have "heap_wf {} ?s (L1 @ L2)"
    using w d(1,4) r(2) x(4) by (simp add: heap_wf_def)
  moreover have "return_page p s = Inr ?s" using r(1) x(3) by simp
  ultimately show thesis using x by (intro that [of ?s x]) simp_all
qed

end
