(* ===== verification/Heap_Alloc.thy ===== *)
theory Heap_Alloc
  imports Heap_Page
begin

text \<open>
  \<open>kmalloc\<close> and \<open>kfree\<close> on a well-formed heap, for requests served from chunks.
\<close>

section \<open>Request sizes\<close>

lemma unat_round4:
  fixes y :: u32
  shows "unat (y AND - 4) = unat y div 4 * 4"
proof -
  have "y AND - 4 = y AND NOT (mask 2)" by (simp add: mask_eq_exp_minus_1)
  also have "\<dots> = push_bit 2 (drop_bit 2 y)"
    by (rule bit_word_eqI) (auto simp: bit_simps not_less simp flip: add_2_eq_Suc')
  finally have "unat (y AND - 4) = unat (push_bit 2 (drop_bit 2 y))" by simp
  also have "\<dots> = push_bit 2 (drop_bit 2 (unat y))"
    by (rule bit_eqI) (auto simp: bit_simps unsigned_push_bit_eq dest: bit_imp_le_length)
  finally show ?thesis by (simp add: push_bit_eq_mult drop_bit_eq_div)
qed

lemma ALIGN_UP_4:
  assumes "unat x < 4096"
  shows "unat (ALIGN_UP x ALIGN) = (unat x + 3) div 4 * 4"
  using assms unat_add_small [of x 3]
  by (simp add: ALIGN_UP_def ALIGN_def unat_round4 add_diff_eq [symmetric])

lemma alloc_order:
  assumes "8 \<le> unat a" and "unat a \<le> 4096"
  shows "unat a \<le> 2 ^ (get_alloc_order a + 3)" and "get_alloc_order a < NUM_SIZES \<longleftrightarrow> unat a \<le> 2048"
proof -
  have u: "unat (a - 1) = unat a - 1" using assms(1) by (simp add: unat_sub word_le_nat_alt)
  then have nz: "a - 1 \<noteq> 0" using assms(1) by auto
  note b = log_two_bounds [OF nz, unfolded u]
  define l where "l = log_two (a - 1)"
  have "(2::nat) ^ 2 < 2 ^ Suc l" using b(2) assms(1) by (simp add: l_def)
  then have "2 \<le> l" using power_less_imp_less_exp [of "2::nat" 2 "Suc l"] by simp
  then have o3: "get_alloc_order a + 3 = Suc l" by (simp add: get_alloc_order_def ORDER_OFFSET_def l_def)
  show "unat a \<le> 2 ^ (get_alloc_order a + 3)" using b(2) unfolding o3 l_def by simp
  have "get_alloc_order a < NUM_SIZES \<longleftrightarrow> l < 11" using o3 by (auto simp: NUM_SIZES_def)
  also have "\<dots> \<longleftrightarrow> unat a \<le> 2048"
  proof
    assume "l < 11"
    then have "(2::nat) ^ Suc l \<le> 2 ^ 11" by (intro power_increasing) auto
    with b(2) show "unat a \<le> 2048" by (simp add: l_def)
  next
    assume "unat a \<le> 2048"
    with b(1) assms(1) have "(2::nat) ^ l < 2 ^ 11" by (simp add: l_def)
    then show "l < 11" using power_less_imp_less_exp [of "2::nat" l 11] by simp
  qed
  finally show "get_alloc_order a < NUM_SIZES \<longleftrightarrow> unat a \<le> 2048" .
qed

section \<open>Allocation\<close>

text \<open>
  Every page but the first holds a chunk in use: a page that becomes free is given back.
\<close>

definition busy :: "(u32 \<Rightarrow> bool) \<Rightarrow> layout \<Rightarrow> bool" where
  "busy u lay \<longleftrightarrow> (\<forall>p\<in>set (tl (map fst lay)). \<exists>i j. (p, i, j) \<in> lives u lay)"

definition served :: "heap \<Rightarrow> layout \<Rightarrow> nat \<Rightarrow> chunk \<Rightarrow> heap \<Rightarrow> layout \<Rightarrow> bool" where
  "served s lay n c s' lay' \<longleftrightarrow> heap_wf {} s' lay' \<and> c \<notin> lives (hused s) lay \<and>
     lives (hused s') lay' = insert c (lives (hused s) lay) \<and> n \<le> csize c \<and> csize c < n + 20 \<and>
     mem_used s' = mem_used s + of_nat (csize c)"

lemma serve_from_bucket:
  assumes wf: "heap_wf {} s lay" and k: "get_alloc_order a \<le> k" "k < NUM_SIZES" "free_bucket s k \<noteq> None"
    and a: "8 \<le> unat a" "4 dvd unat a" "unat a \<le> 4096"
  obtains p i j e s1 s' lay' where "pop_free_chunk k s = Inr (Some (addr p i), s1)"
    and "use_chunk a (addr p i) s1 = (addr p (i + 12), s')"
    and "served s lay (unat a) (p, i, e) s' lay'" and "map fst lay' = map fst lay" and "pages s' = pages s"
    and "(p, i, j) \<in> frees (hused s) {} lay" and "bidx (j - i - 12) = k"
proof -
  note w = heap_wfD [OF wf]
  from pop_free_chunk_wf [OF wf k(2,3)] obtain p i j h fb where
    pop: "pop_free_chunk k s = Inr (Some (addr p i), s\<lparr>hnodes := h, free_bucket := fb\<rparr>)"
      "(p, i, j) \<in> frees (hused s) {} lay" "bidx (j - i - 12) = k"
      "heap_wf {addr p i} (s\<lparr>hnodes := h, free_bucket := fb, mem_free := mem_free s - of_nat (j - i - 12)\<rparr>) lay" .
  let ?s = "s\<lparr>hnodes := h, free_bucket := fb\<rparr>"
  have ij: "(p, i, j) \<in> chunks lay" and nu: "\<not> hused s (addr p i)" using pop(2) by (simp_all add: frees_def)
  have "frees (hused s) {addr p i} lay \<subseteq> frees (hused s) {} lay" by (auto simp: frees_def)
  with quiet_free [OF w(5) pop(2)] have q: "quiet (frees (hused s) {addr p i} lay) (p, i, j)"
    by (rule quiet_mono)
  have "unat a \<le> 2 ^ (get_alloc_order a + 3)" by (rule alloc_order(1) [OF a(1,3)])
  also have "(2::nat) ^ (get_alloc_order a + 3) \<le> 2 ^ (k + 3)" using k(1) by (intro power_increasing) auto
  also have "2 ^ (k + 3) \<le> j - i - 12"
    using csize_bounds [OF w(1) ij] pop(3) bidx_bounds(1) [of "j - i - 12"] by simp
  finally have fit: "unat a \<le> j - i - 12" .
  have wf1: "heap_wf {addr p i} (?s\<lparr>mem_free := mem_free ?s - of_nat (j - i - 12)\<rparr>) lay" using pop(4) by simp
  obtain s' lay' e where r: "use_chunk (of_nat (unat a)) (addr p i) ?s = (addr p (i + 12), s')" "heap_wf {} s' lay'"
    "lives (hused s') lay' = insert (p, i, e) (lives (hused s) lay)" "unat a \<le> e - i - 12" "e - i - 12 < unat a + 20"
    "map fst lay' = map fst lay" "mem_used s' = mem_used s + of_nat (e - i - 12)" "pages s' = pages s"
    by (rule use_chunk_wf [OF wf1 ij _ _ a(1,2) fit]) (use q nu in simp_all)
  moreover have "(p, i, e) \<notin> lives (hused s) lay" using nu by (simp add: lives_def)
  ultimately show thesis using pop by (intro that [of p i ?s s' e lay' j]) (simp_all add: served_def)
qed

text \<open>\<open>kmalloc\<close> on a request that a chunk can hold.\<close>

lemma kmalloc_small_eq:
  assumes "sz \<noteq> 0" and "unat sz < 4096" and "a = ALIGN_UP (if sz < MIN_SIZE then MIN_SIZE else sz) ALIGN"
  shows "8 \<le> unat a" and "4 dvd unat a" and "unat a \<le> 4096" and "unat sz \<le> unat a"
    and "unat a < max 8 (unat sz) + 4"
    and "kmalloc sz s =
      (if NUM_SIZES \<le> get_alloc_order a then Inr (None, s)
       else bnd (find_chunk (get_alloc_order a) s) (\<lambda>(chunk, s).
            bnd (if chunk = None then bnd (create_chunk s) (\<lambda>(_, s). find_chunk (get_alloc_order a) s)
                 else Inr (chunk, s)) (\<lambda>(chunk, s).
              case chunk of
                None \<Rightarrow> Inl (Panic ''OUT OF MEMORY'')
              | Some c \<Rightarrow> let (b, s) = use_chunk a c s in Inr (Some b, s))))"
proof -
  let ?n = "if sz < MIN_SIZE then MIN_SIZE else sz"
  have n: "8 \<le> unat ?n" "unat ?n < 4096" "unat ?n = max 8 (unat sz)"
    using assms(2) by (auto simp: MIN_SIZE_def word_less_nat_alt)
  then have u: "unat a = (unat ?n + 3) div 4 * 4" using ALIGN_UP_4 assms(3) by blast
  show "8 \<le> unat a" "4 dvd unat a" "unat a \<le> 4096" "unat sz \<le> unat a" "unat a < max 8 (unat sz) + 4"
    using n unfolding u by auto
  have "\<not> 0x1000 \<le> ?n" using n(2) by (simp add: word_le_nat_alt)
  then show "kmalloc sz s =
      (if NUM_SIZES \<le> get_alloc_order a then Inr (None, s)
       else bnd (find_chunk (get_alloc_order a) s) (\<lambda>(chunk, s).
            bnd (if chunk = None then bnd (create_chunk s) (\<lambda>(_, s). find_chunk (get_alloc_order a) s)
                 else Inr (chunk, s)) (\<lambda>(chunk, s).
              case chunk of
                None \<Rightarrow> Inl (Panic ''OUT OF MEMORY'')
              | Some c \<Rightarrow> let (b, s) = use_chunk a c s in Inr (Some b, s))))"
    using assms(1) unfolding kmalloc_def assms(3) Let_def by (simp only: if_False)
qed

text \<open>Blocks of the page allocator that are not heap pages.\<close>

definition large :: "buddy \<Rightarrow> layout \<Rightarrow> (nat \<times> nat) set" where
  "large b lay = {(x, k). used_block b x k \<and> P2V (page_map_real x) \<notin> fst ` set lay}"

lemma page_inject: "x < 2 ^ 20 \<Longrightarrow> y < 2 ^ 20 \<Longrightarrow> P2V (page_map_real x) = P2V (page_map_real y) \<longleftrightarrow> x = y"
  by (metis P2V_inject real_page_index_real)

lemma used_block_page: "buddy_inv b \<Longrightarrow> used_block b x k \<Longrightarrow> x < 2 ^ 20"
  using pmm.live_ok by blast

lemma large_fresh:
  assumes "backed b lay" and "pmm_alloc b 0 = Inr (a, b')" and "fst ` set lay' = insert (P2V a) (fst ` set lay)"
  shows "large b' lay' = large b lay"
proof -
  from assms(1) have inv: "buddy_inv b" by (simp add: backed_def)
  from fresh_page [OF assms(1,2)] obtain x where x: "a = page_map_real x" "x \<in> free_pages b" "backed b' lay"
    "\<And>y k. used_block b' y k \<longleftrightarrow> used_block b y k \<or> y = x \<and> k = 0" by metis
  from x(3) have inv': "buddy_inv b'" by (simp add: backed_def)
  have "x < 2 ^ 20" using used_block_page [OF inv', of x 0] x(4) by blast
  moreover have "\<not> used_block b x k" for k
    using pmm.live_ok [OF inv, of x k] x(2) dblock_self by blast
  ultimately have "used_block b y k \<Longrightarrow> P2V (page_map_real y) \<noteq> P2V a" for y k
    using used_block_page [OF inv, of y k] page_inject [of y x] x(1) by auto
  then show ?thesis unfolding large_def assms(3) using x(1,4) by auto
qed

lemma busy_mono:
  assumes "busy u lay" and "map fst lay' = map fst lay" and "lives u lay \<subseteq> lives u' lay'"
  shows "busy u' lay'"
  using assms unfolding busy_def by (metis subsetD)

lemma kmalloc_small_cases:
  assumes wf: "heap_wf {} s lay" and busy: "busy (hused s) lay" and sz: "sz \<noteq> 0" "unat sz \<le> 2048"
  obtains (served) c s' lay' where "kmalloc sz s = Inr (Some (fnode c), s')" and "c \<in> chunks lay'"
    and "served s lay (unat (ALIGN_UP (if sz < MIN_SIZE then MIN_SIZE else sz) ALIGN)) c s' lay'"
    and "busy (hused s') lay'" and "large (pages s') lay' = large (pages s) lay"
  | (oom) e where "pmm_alloc (pages s) 0 = Inl e" and "kmalloc sz s = Inl e"
  | (null) a b where "pmm_alloc (pages s) 0 = Inr (a, b)" and "P2V a = 0" and "kmalloc sz s = Inl NullDeref"
proof -
  define a where "a = ALIGN_UP (if sz < MIN_SIZE then MIN_SIZE else sz) ALIGN"
  let ?o = "get_alloc_order a"
  have lt: "unat sz < 4096" using sz(2) by simp
  note a = kmalloc_small_eq [OF sz(1) lt a_def]
  have "unat a \<le> 2048"
  proof -
    have "unat a = (max 8 (unat sz) + 3) div 4 * 4"
      unfolding a_def using lt by (subst ALIGN_UP_4) (auto simp: MIN_SIZE_def word_less_nat_alt)
    then show ?thesis using sz(2) by auto
  qed
  with alloc_order(2) [OF a(1,3)] have ord: "?o < NUM_SIZES" by blast
  with a(6) [of s] have km: "kmalloc sz s = bnd (find_chunk ?o s) (\<lambda>(chunk, s).
        bnd (if chunk = None then bnd (create_chunk s) (\<lambda>(_, s). find_chunk ?o s) else Inr (chunk, s)) (\<lambda>(chunk, s).
          case chunk of None \<Rightarrow> Inl (Panic ''OUT OF MEMORY'')
          | Some c \<Rightarrow> let (b, s) = use_chunk a c s in Inr (Some b, s)))" by simp
  have sub: "served s lay n c s' lay' \<Longrightarrow> lives (hused s) lay \<subseteq> lives (hused s') lay' \<and> c \<in> chunks lay'" for n c s' lay'
    by (auto simp: served_def lives_def)
  show thesis
  proof (cases rule: find_chunk_cases [of ?o s])
    case (some k)
    from serve_from_bucket [OF wf some(1-3) a(1-3)] obtain p i e s1 s' lay' where
      r: "pop_free_chunk k s = Inr (Some (addr p i), s1)" "use_chunk a (addr p i) s1 = (addr p (i + 12), s')"
        "served s lay (unat a) (p, i, e) s' lay'" "map fst lay' = map fst lay" "pages s' = pages s" by metis
    have "kmalloc sz s = Inr (Some (fnode (p, i, e)), s')" unfolding km using some(4) r(1,2) by simp
    moreover have "fst ` set lay' = fst ` set lay" using r(4) by (metis set_map)
    then have "large (pages s') lay' = large (pages s) lay" using r(5) by (simp add: large_def)
    ultimately show thesis
      using served [OF _ _ r(3) [unfolded a_def] busy_mono [OF busy r(4)]] sub [OF r(3)] by blast
  next
    case none
    show thesis
    proof (cases "pmm_alloc (pages s) 0")
      case (Inl e)
      then have "create_chunk s = Inl e" by (simp add: create_chunk_def)
      with none(1) have "kmalloc sz s = Inl e" unfolding km by simp
      with Inl oom show thesis by blast
    next
      case (Inr ab)
      obtain x b where ab: "ab = (x, b)" by (cases ab)
      show thesis
      proof (cases "P2V x = 0")
        case True
        with Inr ab have "create_chunk s = Inl NullDeref" by (simp add: create_chunk_def to_ptr_def)
        with none(1) have "kmalloc sz s = Inl NullDeref" unfolding km by simp
        with Inr ab True null show thesis by blast
      next
        case False
        from create_chunk_wf [OF wf Inr [unfolded ab] False] obtain p t where
          t: "create_chunk s = Inr (p, t)" "p = P2V x" "p \<notin> fst ` set lay" "heap_wf {} t (lay @ [(p, [20, 4076])])"
            "frees (hused t) {} (lay @ [(p, [20, 4076])]) = insert (p, 20, 4076) (frees (hused s) {} lay)"
            "lives (hused t) (lay @ [(p, [20, 4076])]) = lives (hused s) lay"
            "mem_used t = mem_used s" "pages t = b" .
        let ?new = "lay @ [(p, [20, 4076])]"
        have "(p, 20, 4076) \<in> frees (hused t) {} ?new" unfolding t(5) by blast
        from bucketed_None [OF heap_wfD(4) [OF t(4)] _ this] have "free_bucket t 8 \<noteq> None"
          by (simp add: bidx_4044 NUM_SIZES_def)
        moreover have "?o \<le> 8" using ord by (simp add: NUM_SIZES_def)
        ultimately obtain k where k: "?o \<le> k" "k < NUM_SIZES" "free_bucket t k \<noteq> None"
          "find_chunk ?o t = pop_free_chunk k t"
          by (cases rule: find_chunk_cases [of ?o t]) (auto simp: NUM_SIZES_def)
        from serve_from_bucket [OF t(4) k(1-3) a(1-3)] obtain q i j e s1 s' lay' where
          r: "pop_free_chunk k t = Inr (Some (addr q i), s1)" "use_chunk a (addr q i) s1 = (addr q (i + 12), s')"
            "served t ?new (unat a) (q, i, e) s' lay'" "map fst lay' = map fst ?new" "pages s' = pages t"
            "(q, i, j) \<in> frees (hused t) {} ?new" "bidx (j - i - 12) = k" .
        have "q = p"
        proof (rule ccontr)
          assume "q \<noteq> p"
          with r(6) have "(q, i, j) \<in> frees (hused s) {} lay" unfolding t(5) by blast
          from bucketed_None [OF heap_wfD(4) [OF wf] k(2) this] r(7) none(2) [OF k(1,2)] show False by simp
        qed
        have sv: "served s lay (unat a) (q, i, e) s' lay'" using r(3) unfolding served_def t(6,7) .
        have "kmalloc sz s = Inr (Some (fnode (q, i, e)), s')" unfolding km using none(1) t(1) k(4) r(1,2) by simp
        moreover have "busy (hused s') lay'"
        proof -
          have "set (tl (map fst lay')) \<subseteq> insert p (set (tl (map fst lay)))" unfolding r(4) by (cases lay) auto
          moreover have "(p, i, e) \<in> lives (hused s') lay'" using sv \<open>q = p\<close> by (simp add: served_def)
          ultimately show ?thesis using busy sub [OF sv] unfolding busy_def by blast
        qed
        moreover have "fst ` set lay' = insert (P2V x) (fst ` set lay)"
          using arg_cong [OF r(4), of set] t(2) by simp
        then have "large (pages s') lay' = large (pages s) lay"
          using large_fresh [OF heap_wfD(8) [OF wf] Inr [unfolded ab]] r(5) t(8) by simp
        ultimately show thesis using served [OF _ _ sv [unfolded a_def]] sub [OF sv] by blast
      qed
    qed
  qed
qed

end
