(* ===== verification/Heap_Free.thy ===== *)
theory Heap_Free
  imports Heap_Alloc
begin

text \<open>
  \<open>kfree\<close> on a chunk of a well-formed heap: merging with the following and the preceding chunk, and
  the release of what results, to a bucket or to the page allocator.
\<close>

lemma chunk_prev:
  assumes "lay_ok lay" and "linked h f l lay" and "(p, i, j) \<in> chunks lay"
  obtains (guard) "i = 20" and "prv (h (addr p i)) = Some p"
  | (chunk) k where "(p, k, i) \<in> chunks lay" and "prv (h (addr p i)) = Some (addr p k)"
proof -
  from assms(3) obtain bs where bs: "(p, bs) \<in> set lay" "adj bs i j" by (auto simp: chunks_def)
  show thesis
  proof (cases "i = 20")
    case True
    with linked_page(2) [OF assms(1,2) bs(1)] guard show thesis by simp
  next
    case False
    from cuts_prev [OF lay_okD(2) [OF assms(1) bs(1)] adj_in(1) [OF bs(2)] False] obtain k where "adj bs k i" .
    with bs(1) have "(p, k, i) \<in> chunks lay" by (auto simp: chunks_def)
    with linked_chunk(2) [OF assms(2) this] chunk show thesis by blast
  qed
qed

lemma chunk_next:
  assumes "lay_ok lay" and "(p, i, j) \<in> chunks lay"
  obtains (guard) "j = 4076" | (chunk) k where "(p, j, k) \<in> chunks lay"
proof -
  from assms(2) obtain bs where bs: "(p, bs) \<in> set lay" "adj bs i j" by (auto simp: chunks_def)
  show thesis
  proof (cases "j = 4076")
    case True
    then show thesis by (rule guard)
  next
    case False
    from cuts_next [OF lay_okD(2) [OF assms(1) bs(1)] adj_in(2) [OF bs(2)] False] obtain k where "adj bs j k" .
    with bs(1) have "(p, j, k) \<in> chunks lay" by (auto simp: chunks_def)
    then show thesis by (rule chunk)
  qed
qed

lemma split_layout3:
  assumes "lay_ok lay" and "(p, i, j) \<in> chunks lay" and "(p, j, k) \<in> chunks lay"
  obtains L1 us vs L2 where "lay = L1 @ (p, us @ i # j # k # vs) # L2"
proof -
  from assms(2) obtain L1 us vs L2 where lay: "lay = L1 @ (p, us @ i # j # vs) # L2" by (rule split_layout)
  from assms(1) lay have ok: "cuts_ok (us @ i # j # vs)" and np: "p \<notin> fst ` set L1" "p \<notin> fst ` set L2"
    by (auto simp: lay_ok_simps)
  have "adj (us @ i # j # vs) j k"
    using assms(3) np chunks_page unfolding lay by (fastforce simp: chunks_Cons)
  then obtain us' vs' where "(us @ [i]) @ j # vs = us' @ j # k # vs'" by (auto elim: adjE)
  moreover have "j \<notin> set (us @ [i])" "j \<notin> set vs" using cuts_distinct [OF ok] by auto
  ultimately have "vs = k # vs'" using append_Cons_eq_iff [of j "us @ [i]" vs us' "k # vs'"] by blast
  with lay that show thesis by simp
qed

section \<open>Merging\<close>

lemma kfree_chunk_eq:
  assumes "\<not> IS_ALIGNED ptr BASE_SIZE" and "c = get_chunk_offset ptr"
    and "nxt (hnodes s c) = Some next" and "prv (hnodes s c) = Some prev"
  shows "kfree ptr s = bnd (merge_next next (s\<lparr>mem_used := mem_used s - get_chunk_size s c\<rparr>)) (\<lambda>s.
    bnd (merge_prev c prev s) (\<lambda>(c, s). release_chunk c s))"
  using assms(1,3,4) by (simp add: kfree_def assms(2) [symmetric])

lemma lives_merge:
  assumes "lay_ok (L1 @ (p, us @ i # n # j # vs) # L2)"
  shows "lives u (L1 @ (p, us @ i # j # vs) # L2) - {(p, i, j)} =
    lives u (L1 @ (p, us @ i # n # j # vs) # L2) - {(p, i, n), (p, n, j)}"
  using chunks_new [OF assms] unfolding lives_def chunks_insert [OF assms] by auto

lemma frees_merge_quiet:
  assumes "lay_ok lay" and "(p, i, j) \<in> chunks lay" and "\<And>m. (p, j, m) \<notin> F" and "\<And>m. (p, m, i) \<notin> F"
  shows "quiet F (p, i, j)"
  using assms by (simp add: quiet_def)

lemma merge_next_wf:
  assumes wf: "heap_wf {} s lay" and ij: "(p, i, j) \<in> chunks lay" and u: "hused s (addr p i)"
  obtains s' lay' k where "merge_next (addr p j) s = Inr s'" and "heap_wf {} s' lay'" and "(p, i, k) \<in> chunks lay'"
    and "\<And>m. (p, k, m) \<notin> frees (hused s) {} lay'" and "prv (hnodes s' (addr p i)) = prv (hnodes s (addr p i))"
    and "lives (hused s) lay' - {(p, i, k)} = lives (hused s) lay - {(p, i, j)}"
    and "map fst lay' = map fst lay" and "hused s' = hused s" and "pages s' = pages s" and "mem_used s' = mem_used s"
proof (cases "hused s (addr p j)")
  case True
  then have "merge_next (addr p j) s = Inr s" by (simp add: merge_next_def)
  moreover have "(p, j, m) \<notin> frees (hused s) {} lay" for m using True by (simp add: frees_def)
  ultimately show thesis using that [of s lay j] wf ij by blast
next
  case False
  note w = heap_wfD [OF wf]
  obtain k where jk: "(p, j, k) \<in> chunks lay"
  proof (cases rule: chunk_next [OF w(1) ij])
    case 1
    with chunks_page [OF ij] w(3) False show thesis by (auto simp: guards_def)
  qed
  with False have fr: "(p, j, k) \<in> frees (hused s) {} lay" by (simp add: frees_def)
  obtain L1 us vs L2 where lay: "lay = L1 @ (p, us @ i # j # k # vs) # L2"
    using split_layout3 [OF w(1) ij jk] .
  from unbucket_wf [OF wf fr] obtain h fb where ub: "unbucket (addr p j) s = Inr (s\<lparr>hnodes := h, free_bucket := fb\<rparr>)"
    "get_chunk_size (s\<lparr>hnodes := h, free_bucket := fb\<rparr>) (addr p j) = of_nat (k - j - 12)"
    "heap_wf {addr p j} (s\<lparr>hnodes := h, free_bucket := fb, mem_free := mem_free s - of_nat (k - j - 12)\<rparr>) lay" .
  define t where "t = s\<lparr>hnodes := h, free_bucket := fb, mem_free := mem_free s - of_nat (k - j - 12)\<rparr>"
  have t: "heap_wf {addr p j} t (L1 @ (p, us @ i # j # k # vs) # L2)" using ub(3) lay by (simp add: t_def)
  have tp: "hused t = hused s" "pages t = pages s" "mem_used t = mem_used s" by (simp_all add: t_def)
  let ?new = "L1 @ (p, us @ i # k # vs) # L2"
    and ?s = "t\<lparr>hnodes := unlink_node (hnodes t) (addr p j), mem_meta := mem_meta t - HEADER_SIZE\<rparr>"
  have m: "heap_wf {} ?s ?new" "frees (hused s) {} ?new = frees (hused s) {addr p j} lay"
    using merge_wf [OF t] u tp lay by simp_all
  have "merge_next (addr p j) s = Inr ?s"
    using False ub(1,2) remove_from_first_next_delete [OF t] by (simp add: merge_next_def t_def Let_def)
  moreover have ik: "(p, i, k) \<in> chunks ?new" using chunks_new(3) heap_wfD(1) [OF t] by blast
  moreover have "(p, k, m) \<notin> frees (hused s) {} ?new" for m
    using quiet_free [OF w(5) fr] unfolding m(2) by (auto simp: quiet_def frees_def)
  moreover have "prv (hnodes ?s (addr p i)) = prv (hnodes s (addr p i))"
  proof (cases rule: chunk_prev [OF w(1,2) ij])
    case 1
    with linked_page(2) [OF heap_wfD(1,2) [OF m(1)], of p "us @ i # k # vs"] show ?thesis by simp
  next
    case (2 l)
    have "l \<noteq> i" "l \<noteq> j" using lay_chunk(3) [OF w(1) 2(1)] lay_chunk(3) [OF w(1) ij] by auto
    with 2(1) have "(p, l, i) \<in> chunks ?new" unfolding lay chunks_insert [OF heap_wfD(1) [OF t]] by simp
    with linked_chunk(2) [OF heap_wfD(2) [OF m(1)]] 2(2) show ?thesis by simp
  qed
  moreover have "lives (hused s) ?new - {(p, i, k)} = lives (hused s) lay - {(p, i, j)}"
    unfolding lives_merge [OF heap_wfD(1) [OF t], of "hused s"] lay [symmetric]
    using False by (auto simp: lives_def)
  ultimately show thesis using m(1) lay tp by (intro that [of ?s ?new k]) auto
qed

lemma merge_prev_wf:
  assumes wf: "heap_wf {} s lay" and ij: "(p, i, j) \<in> chunks lay" and u: "hused s (addr p i)"
    and nj: "\<And>m. (p, j, m) \<notin> frees (hused s) {} lay" and pr: "prv (hnodes s (addr p i)) = Some prev"
  obtains s' lay' k where "merge_prev (addr p i) prev s = Inr (addr p k, s')" and "heap_wf {addr p k} s' lay'"
    and "(p, k, j) \<in> chunks lay'" and "quiet (frees (hused s') {addr p k} lay') (p, k, j)"
    and "lives (hused s') lay' - {(p, k, j)} = lives (hused s) lay - {(p, i, j)}"
    and "map fst lay' = map fst lay" and "hused s' = hused s" and "pages s' = pages s" and "mem_used s' = mem_used s"
proof (cases "hused s prev")
  case True
  then have "merge_prev (addr p i) prev s = Inr (addr p i, s)" by (simp add: merge_prev_def)
  moreover have "quiet (frees (hused s) {addr p i} lay) (p, i, j)"
  proof -
    have "(p, m, i) \<notin> frees (hused s) {} lay" for m
    proof
      assume m: "(p, m, i) \<in> frees (hused s) {} lay"
      then have "(p, m, i) \<in> chunks lay" using frees_chunks by blast
      from linked_chunk(2) [OF heap_wfD(2) [OF wf] this] pr True m show False by (simp add: frees_def)
    qed
    with nj show ?thesis unfolding frees_used [of "hused s" "addr p i", OF u] by (simp add: quiet_def)
  qed
  ultimately show thesis using that [of i s lay] transit_weaken [OF wf u] ij by simp
next
  case False
  note w = heap_wfD [OF wf]
  obtain k where ki: "(p, k, i) \<in> chunks lay" and pk: "prev = addr p k"
  proof (cases rule: chunk_prev [OF w(1,2) ij])
    case 1
    with pr chunks_page [OF ij] w(3) False show thesis by (auto simp: guards_def)
  next
    case (2 k)
    with pr that show thesis by simp
  qed
  with False have fr: "(p, k, i) \<in> frees (hused s) {} lay" by (simp add: frees_def)
  obtain L1 us vs L2 where lay: "lay = L1 @ (p, us @ k # i # j # vs) # L2"
    using split_layout3 [OF w(1) ki ij] .
  from unbucket_wf [OF wf fr] obtain h fb where ub: "unbucket (addr p k) s = Inr (s\<lparr>hnodes := h, free_bucket := fb\<rparr>)"
    "get_chunk_size (s\<lparr>hnodes := h, free_bucket := fb\<rparr>) (addr p k) = of_nat (i - k - 12)"
    "heap_wf {addr p k} (s\<lparr>hnodes := h, free_bucket := fb, mem_free := mem_free s - of_nat (i - k - 12)\<rparr>) lay" .
  define t where "t = s\<lparr>hnodes := h, free_bucket := fb, mem_free := mem_free s - of_nat (i - k - 12)\<rparr>"
  have t: "heap_wf {addr p k} t (L1 @ (p, us @ k # i # j # vs) # L2)" using ub(3) lay by (simp add: t_def)
  have tp: "hused t = hused s" "pages t = pages s" "mem_used t = mem_used s" by (simp_all add: t_def)
  let ?new = "L1 @ (p, us @ k # j # vs) # L2"
    and ?s = "t\<lparr>hnodes := unlink_node (hnodes t) (addr p i), mem_meta := mem_meta t - HEADER_SIZE\<rparr>"
  have "addr p k \<noteq> addr p i" using False u pk by auto
  then have m: "heap_wf {addr p k} ?s ?new" "frees (hused s) {addr p k} ?new = frees (hused s) {addr p k} lay"
    using merge_wf [OF t] u tp lay by simp_all
  have "merge_prev (addr p i) prev s = Inr (addr p k, ?s)"
    using False ub(1,2) pk remove_from_first_next_delete [OF t] by (simp add: merge_prev_def t_def Let_def)
  moreover have kj: "(p, k, j) \<in> chunks ?new" using chunks_new(3) heap_wfD(1) [OF t] by blast
  moreover have "quiet (frees (hused s) {addr p k} ?new) (p, k, j)"
    using quiet_free [OF w(5) fr] nj unfolding m(2) by (auto simp: quiet_def frees_def)
  moreover have "lives (hused s) ?new - {(p, k, j)} = lives (hused s) lay - {(p, i, j)}"
    unfolding lives_merge [OF heap_wfD(1) [OF t], of "hused s"] lay [symmetric]
    using False pk by (auto simp: lives_def)
  ultimately show thesis using m(1) lay tp by (intro that [of k ?s ?new]) auto
qed

section \<open>Release\<close>

lemma cuts_single:
  assumes "cuts_ok bs" and "adj bs 20 4076"
  shows "bs = [20, 4076]"
proof -
  from assms(2) obtain us vs where bs: "bs = us @ 20 # 4076 # vs" by (rule adjE)
  with assms(1) have "\<forall>x\<in>set us. x + 20 \<le> 20 \<and> 20 \<le> x" "\<forall>x\<in>set vs. 4096 \<le> x"
    by (auto simp: cuts_ok_def spaced_simps)
  moreover have "\<forall>x\<in>set vs. x \<le> 4076" using cuts_range [OF assms(1)] bs by auto
  ultimately have vs: "vs = []" and "\<forall>x\<in>set us. x + 20 \<le> 20 \<and> 20 \<le> x" by (cases vs; simp)+
  from this(2) have "us = []" by (cases us) auto
  with bs vs show ?thesis by simp
qed

lemma large_drop:
  assumes "buddy_inv b" and "used_block b x 0" and "p = P2V (page_map_real x)"
    and "\<And>y k. used_block b' y k \<longleftrightarrow> used_block b y k \<and> y \<noteq> x"
    and "fst ` set lay' = fst ` set lay - {p}" and "p \<in> fst ` set lay"
  shows "large b' lay' = large b lay"
proof -
  have "used_block b y k \<Longrightarrow> P2V (page_map_real y) = p \<longleftrightarrow> y = x" for y k
    using page_inject [of y x] used_block_page [OF assms(1), of y k] used_block_page [OF assms(1,2)] assms(3) by simp
  moreover have "P2V (page_map_real x) \<in> fst ` set lay" using assms(3,6) by simp
  ultimately have "used_block b' y k \<and> P2V (page_map_real y) \<notin> fst ` set lay - {p} \<longleftrightarrow>
      used_block b y k \<and> P2V (page_map_real y) \<notin> fst ` set lay" for y k
    using assms(4) by blast
  then show ?thesis unfolding large_def assms(5) by simp
qed

text \<open>
  A chunk in transit whose neighbours are not free either goes to its bucket, or it is the only
  chunk of its page and the page is given back. In both cases every page but the first keeps a
  chunk in use.
\<close>

definition freed :: "heap \<Rightarrow> layout \<Rightarrow> chunk \<Rightarrow> heap \<Rightarrow> layout \<Rightarrow> bool" where
  "freed s lay c s' lay' \<longleftrightarrow> heap_wf {} s' lay' \<and> busy (hused s') lay' \<and>
     lives (hused s') lay' = lives (hused s) lay - {c} \<and> large (pages s') lay' = large (pages s) lay \<and>
     mem_used s' = mem_used s"

lemma release_to_page:
  assumes wf: "heap_wf {addr p 20} s lay" and c: "(p, 20, 4076) \<in> chunks lay" and f: "first s \<noteq> Some p"
    and busy: "\<And>q. q \<noteq> p \<Longrightarrow> q \<in> set (tl (map fst lay)) \<Longrightarrow> \<exists>i j. (q, i, j) \<in> lives (hused s) lay"
  obtains s' lay' where "return_page p s = Inr s'" and "freed s lay (p, 20, 4076) s' lay'"
proof -
  note w = heap_wfD [OF wf]
  from c obtain L1 bs L2 where "lay = L1 @ (p, bs) # L2" "adj bs 20 4076" by (rule chunksE)
  with w(1) have lay: "lay = L1 @ (p, [20, 4076]) # L2" using cuts_single by (simp add: lay_ok_simps)
  have ne: "L1 \<noteq> []" using linked_first [OF w(2)] f lay by auto
  obtain x s' where
    r: "return_page p s = Inr s'" "heap_wf {} s' (L1 @ L2)" "hused s' = hused s" "mem_used s' = mem_used s"
      "p = P2V (page_map_real x)" "used_block (pages s) x 0"
      "\<And>y k. used_block (pages s') y k \<longleftrightarrow> used_block (pages s) y k \<and> y \<noteq> x"
    by (rule return_page_wf [OF wf [unfolded lay] ne]) (rule that)
  have lv: "lives (hused s') (L1 @ L2) = lives (hused s) lay - {(p, 20, 4076)}"
    using drop_page_sets(5) [OF w(1) [unfolded lay]] r(3) lay by simp
  have pn: "p \<notin> fst ` set L1" "p \<notin> fst ` set L2" using w(1) by (auto simp: lay lay_ok_simps)
  then have pg: "fst ` set (L1 @ L2) = fst ` set lay - {p}" "p \<in> fst ` set lay" by (auto simp: lay)
  have "buddy_inv (pages s)" using w(8) by (simp add: backed_def)
  from large_drop [OF this r(6,5,7) pg] have lg: "large (pages s') (L1 @ L2) = large (pages s) lay" .
  have "busy (hused s') (L1 @ L2)" unfolding busy_def
  proof
    fix q assume "q \<in> set (tl (map fst (L1 @ L2)))"
    with ne have q: "q \<in> set (tl (map fst lay))" "q \<noteq> p" using pn by (cases L1; auto simp: lay)+
    from busy [OF q(2,1)] q(2) show "\<exists>i j. (q, i, j) \<in> lives (hused s') (L1 @ L2)" unfolding lv by blast
  qed
  with r lv lg show thesis by (intro that [of s' "L1 @ L2"]) (auto simp: freed_def)
qed

lemma release_to_bucket:
  assumes wf: "heap_wf {addr p i} s lay" and ij: "(p, i, j) \<in> chunks lay"
    and q: "quiet (frees (hused s) {addr p i} lay) (p, i, j)"
    and small: "i \<noteq> 20 \<or> j \<noteq> 4076 \<or> first s = Some p"
    and busy: "\<And>q. q \<noteq> p \<Longrightarrow> q \<in> set (tl (map fst lay)) \<Longrightarrow> \<exists>i j. (q, i, j) \<in> lives (hused s) lay"
    and s': "s' = s\<lparr>hused := (hused s)(addr p i := False), hnodes := fst hp,
      free_bucket := (free_bucket s)(k := snd hp), mem_free := mem_free s + of_nat (j - i - 12)\<rparr>"
    and hp: "k = bidx (j - i - 12)" "push_node (hnodes s) (free_bucket s k) (addr p (i + 12)) = hp"
  shows "freed s lay (p, i, j) s' lay"
proof -
  note w = heap_wfD [OF wf]
  have wf': "heap_wf {} s' lay" unfolding s' by (rule release_chunk_wf [OF wf ij q hp])
  have lv: "lives (hused s') lay = lives (hused s) lay - {(p, i, j)}"
    using lives_set_used(2) [OF w(1) ij, of "hused s"] by (simp add: s')
  have other: "\<exists>k l. (p, k, l) \<in> lives (hused s) lay - {(p, i, j)}" if np: "first s \<noteq> Some p"
  proof -
    note b = lay_chunk [OF w(1) ij]
    have nf: "\<not> hused s (addr p k) \<Longrightarrow> addr p k \<noteq> addr p i \<Longrightarrow> (p, k, l) \<in> chunks lay \<Longrightarrow> (p, k, l) \<in> frees (hused s) {addr p i} lay" for k l
      by (simp add: frees_def)
    consider "i \<noteq> 20" | "j \<noteq> 4076" using small np by blast
    then show ?thesis
    proof cases
      case 1
      then obtain k where k: "(p, k, i) \<in> chunks lay" by (cases rule: chunk_prev [OF w(1,2) ij]) auto
      note b' = lay_chunk [OF w(1) k]
      have "addr p k \<noteq> addr p i" using b b' by (simp add: addr_inject)
      with nf k q have "(p, k, i) \<in> lives (hused s) lay" by (fastforce simp: quiet_def lives_def)
      moreover have "k \<noteq> i" using b'(3) by simp
      ultimately show ?thesis by blast
    next
      case 2
      then obtain k where k: "(p, j, k) \<in> chunks lay" by (cases rule: chunk_next [OF w(1) ij]) auto
      note b' = lay_chunk [OF w(1) k]
      have "addr p j \<noteq> addr p i" using b b' by (simp add: addr_inject)
      with nf k q have "(p, j, k) \<in> lives (hused s) lay" by (fastforce simp: quiet_def lives_def)
      moreover have "j \<noteq> i" using b(3) by simp
      ultimately show ?thesis by blast
    qed
  qed
  have "busy (hused s') lay" unfolding busy_def lv
  proof
    fix r assume r: "r \<in> set (tl (map fst lay))"
    show "\<exists>k l. (r, k, l) \<in> lives (hused s) lay - {(p, i, j)}"
    proof (cases "r = p")
      case True
      have "lay \<noteq> []" "distinct (map fst lay)" using r w(1) by (auto simp: lay_ok_def)
      then have "r \<noteq> fst (hd lay)" using r by (cases lay) (auto simp del: set_map)
      with True linked_first [OF w(2)] \<open>lay \<noteq> []\<close> have "first s \<noteq> Some p" by auto
      with other True show ?thesis by blast
    next
      case False
      with busy [OF False r] show ?thesis by blast
    qed
  qed
  with wf' lv show ?thesis by (simp add: freed_def s')
qed

lemma release_chunk_spec:
  assumes wf: "heap_wf {addr p i} s lay" and ij: "(p, i, j) \<in> chunks lay"
    and q: "quiet (frees (hused s) {addr p i} lay) (p, i, j)"
    and busy: "\<And>q. q \<noteq> p \<Longrightarrow> q \<in> set (tl (map fst lay)) \<Longrightarrow> \<exists>i j. (q, i, j) \<in> lives (hused s) lay"
  obtains s' lay' where "release_chunk (addr p i) s = Inr s'" and "freed s lay (p, i, j) s' lay'"
proof -
  note w = heap_wfD [OF wf]
  note b = lay_chunk [OF w(1) ij]
  have sz: "get_chunk_size x (addr p i) = of_nat (j - i - 12)" "get_bucket_index x (addr p i) = bidx (j - i - 12)"
    if "hnodes x = hnodes s" for x
    using chunk_size_linked(2,3) [OF w(1) _ ij, of x "first s" "last_chunk s"] w(2) that by simp_all
  have full: "(of_nat (j - i - 12) :: u32) = PAGE_SIZE - 2 * (HEADER_SIZE + MIN_SIZE) - HEADER_SIZE \<longleftrightarrow> i = 20 \<and> j = 4076"
    using of_nat_u32_eq [of "j - i - 12" 4044] b by (auto simp: heap_consts)
  have pr: "i = 20 \<Longrightarrow> prv (hnodes s (addr p i)) = Some p"
    using ij linked_page(2) [OF w(1,2)] by (auto simp: chunks_def)
  show thesis
  proof (cases "i = 20 \<and> j = 4076 \<and> first s \<noteq> Some p")
    case True
    with ij wf have "(p, 20, 4076) \<in> chunks lay" "heap_wf {addr p 20} s lay" by auto
    from release_to_page [OF this(2,1) _ busy] True obtain s' lay' where
      "return_page p s = Inr s'" "freed s lay (p, 20, 4076) s' lay'" by blast
    moreover have "release_chunk (addr p i) s = return_page p s"
      using True pr full sz(1) [of s] by (auto simp: release_chunk_def Let_def)
    ultimately show thesis using True that by simp
  next
    case False
    define k where "k = bidx (j - i - 12)"
    define hp where "hp = push_node (hnodes s) (free_bucket s k) (addr p (i + 12))"
    let ?s = "s\<lparr>hused := (hused s)(addr p i := False), hnodes := fst hp,
      free_bucket := (free_bucket s)(k := snd hp), mem_free := mem_free s + of_nat (j - i - 12)\<rparr>"
    have "release_chunk (addr p i) s = Inr ?s"
      using False pr full sz [of s] sz [of "set_used (addr p i) False s"]
      by (auto simp: release_chunk_def Let_def k_def hp_def set_bucket_def set_used_def)
    moreover have "freed s lay (p, i, j) ?s lay"
      using False by (intro release_to_bucket [OF wf ij q _ busy refl k_def hp_def [symmetric]]) auto
    ultimately show thesis using that by blast
  qed
qed

lemma kfree_small:
  assumes wf: "heap_wf {} s lay" and busy: "busy (hused s) lay" and c: "(p, i, j) \<in> lives (hused s) lay"
  obtains s' lay' where "kfree (addr p (i + 12)) s = Inr s'"
    and "freed (s\<lparr>mem_used := mem_used s - of_nat (j - i - 12)\<rparr>) lay (p, i, j) s' lay'"
proof -
  note w = heap_wfD [OF wf]
  from c have ij: "(p, i, j) \<in> chunks lay" and u: "hused s (addr p i)" by (simp_all add: lives_def)
  note b = lay_chunk [OF w(1) ij]
  have al: "\<not> IS_ALIGNED (addr p (i + 12)) BASE_SIZE"
  proof -
    have "BASE_SIZE = (2 ^ 12 :: u32)" by (simp add: BASE_SIZE_def)
    moreover have "\<not> 4096 dvd unat p + (i + 12)"
      using b offset_unique [of 4096 "unat p" "unat p + (i + 12)" "i + 12" 0] by (auto simp: page_base_def)
    ultimately show ?thesis using IS_ALIGNED_dvd [of "addr p (i + 12)" 12] unat_addr [OF b(1), of "i + 12"] b by simp
  qed
  have off: "addr p i = get_chunk_offset (addr p (i + 12))" by (simp add: get_chunk_offset_def addr_def HEADER_SIZE_def)
  obtain pv where pv: "prv (hnodes s (addr p i)) = Some pv" by (rule chunk_prev [OF w(1,2) ij])
  define t where "t = s\<lparr>mem_used := mem_used s - of_nat (j - i - 12)\<rparr>"
  have tp: "hused t = hused s" "hnodes t = hnodes s" "pages t = pages s" and t: "heap_wf {} t lay"
    using wf by (simp_all add: t_def)
  have eq: "kfree (addr p (i + 12)) s = bnd (merge_next (addr p j) t) (\<lambda>s.
      bnd (merge_prev (addr p i) pv s) (\<lambda>(c, s). release_chunk c s))"
    using kfree_chunk_eq [OF al off linked_chunk(1) [OF w(2) ij] pv] chunk_size_linked(2) [OF w(1,2) ij]
    by (simp add: t_def)
  from merge_next_wf [OF t ij] u tp obtain s1 lay1 k where
    m1: "merge_next (addr p j) t = Inr s1" "heap_wf {} s1 lay1" "(p, i, k) \<in> chunks lay1"
      "\<And>m. (p, k, m) \<notin> frees (hused t) {} lay1" "prv (hnodes s1 (addr p i)) = prv (hnodes t (addr p i))"
      "lives (hused t) lay1 - {(p, i, k)} = lives (hused t) lay - {(p, i, j)}"
      "map fst lay1 = map fst lay" "hused s1 = hused t" "pages s1 = pages t" "mem_used s1 = mem_used t" by metis
  have "hused s1 (addr p i)" "\<And>m. (p, k, m) \<notin> frees (hused s1) {} lay1" "prv (hnodes s1 (addr p i)) = Some pv"
    using u m1(4,5,8) tp pv by simp_all
  from merge_prev_wf [OF m1(2,3) this] obtain s2 lay2 l where
    m2: "merge_prev (addr p i) pv s1 = Inr (addr p l, s2)" "heap_wf {addr p l} s2 lay2" "(p, l, k) \<in> chunks lay2"
      "quiet (frees (hused s2) {addr p l} lay2) (p, l, k)"
      "lives (hused s2) lay2 - {(p, l, k)} = lives (hused s1) lay1 - {(p, i, k)}"
      "map fst lay2 = map fst lay1" "hused s2 = hused s1" "pages s2 = pages s1" "mem_used s2 = mem_used s1" by metis
  have lv: "lives (hused s2) lay2 - {(p, l, k)} = lives (hused s) lay - {(p, i, j)}"
    using m2(5) m1(6,8) tp by simp
  have bs: "\<exists>i j. (q, i, j) \<in> lives (hused s2) lay2" if "q \<noteq> p" "q \<in> set (tl (map fst lay2))" for q
  proof -
    from busy that m1(7) m2(6) obtain a e where "(q, a, e) \<in> lives (hused s) lay" by (auto simp: busy_def)
    with that(1) lv show ?thesis by blast
  qed
  from release_chunk_spec [OF m2(2-4) bs] obtain s' lay' where
    r: "release_chunk (addr p l) s2 = Inr s'" "freed s2 lay2 (p, l, k) s' lay'" by blast
  have "large (pages s2) lay2 = large (pages t) lay"
    using m1(7,9) m2(6,8) unfolding large_def by (metis set_map)
  with r(2) lv tp m1(10) m2(9) have "freed t lay (p, i, j) s' lay'" by (simp add: freed_def)
  moreover have "kfree (addr p (i + 12)) s = Inr s'" using eq m1(1) m2(1) r(1) by simp
  ultimately show thesis using that unfolding t_def by blast
qed

end
