(* ===== verification/Heap_Spec.thy ===== *)
theory Heap_Spec
  imports Heap_Free
begin

text \<open>
  What the kernel heap promises its callers, as the locale \<open>block_allocator\<close>, and the
  interpretation of that locale by \<open>kmalloc\<close> and \<open>kfree\<close>.
\<close>

section \<open>The blocks in use\<close>

definition blocks :: "heap \<Rightarrow> layout \<Rightarrow> (u32 \<times> nat) set" where
  "blocks s lay = (\<lambda>c. (fnode c, csize c)) ` lives (hused s) lay \<union>
     (\<lambda>(x, k). (P2V (page_map_real x), 4096 * 2 ^ k)) ` large (pages s) lay"

definition heap_inv :: "heap \<Rightarrow> bool" where
  "heap_inv s \<longleftrightarrow> (\<exists>lay. heap_wf {} s lay \<and> busy (hused s) lay)"

definition live_blocks :: "heap \<Rightarrow> (u32 \<times> nat) set" where
  "live_blocks s = {b. \<exists>lay. heap_wf {} s lay \<and> b \<in> blocks s lay}"

definition bytes :: "u32 \<Rightarrow> nat \<Rightarrow> u32 set" where
  "bytes a n = {a + of_nat i | i. i < n}"

lemma layout_unique:
  assumes "heap_wf {} s L" and "heap_wf {} s L'"
  shows "L = L'"
proof (rule all_seq_unique)
  show "lay_ok L" "lay_ok L'" using assms by (simp_all add: heap_wf_def)
  show "all_seq L = all_seq L'"
    using assms dls_unique [of "hnodes s" None "first s" "all_seq L" None "all_seq L'"]
    by (simp add: heap_wf_def linked_def)
qed

lemma live_blocks_eq: "heap_wf {} s lay \<Longrightarrow> live_blocks s = blocks s lay"
  using layout_unique by (auto simp: live_blocks_def)

section \<open>Blocks do not overlap\<close>

lemma bytes_chunk:
  assumes "lay_ok lay" and "(p, i, j) \<in> chunks lay"
  shows "bytes (addr p (i + 12)) (j - i - 12) = addr p ` {i + 12..<j}"
proof -
  have "addr p (i + 12) + of_nat m = addr p (i + 12 + m)" for m by (rule addr_addr)
  moreover have "x \<in> {i + 12..<j} \<longleftrightarrow> (\<exists>m. x = i + 12 + m \<and> m < j - i - 12)" for x
    using lay_chunk(3) [OF assms] by (auto simp: le_iff_add)
  ultimately show ?thesis by (auto simp: bytes_def image_iff)
qed

lemma page_map_real_add: "P2V (page_map_real x) + of_nat (4096 * m + i) = addr (P2V (page_map_real (x + m))) i"
  by (simp add: page_map_real_def P2V_def addr_def algebra_simps)

lemma bytes_large:
  "bytes (P2V (page_map_real x)) (4096 * 2 ^ k) = (\<Union>z\<in>dblock x k. addr (P2V (page_map_real z)) ` {..<4096})"
proof
  show "bytes (P2V (page_map_real x)) (4096 * 2 ^ k) \<subseteq> (\<Union>z\<in>dblock x k. addr (P2V (page_map_real z)) ` {..<4096})"
  proof
    fix a assume "a \<in> bytes (P2V (page_map_real x)) (4096 * 2 ^ k)"
    then obtain n where n: "a = P2V (page_map_real x) + of_nat n" "n < 4096 * 2 ^ k" by (auto simp: bytes_def)
    have "a = addr (P2V (page_map_real (x + n div 4096))) (n mod 4096)"
      unfolding n(1) page_map_real_add [symmetric] by simp
    moreover have "x + n div 4096 \<in> dblock x k" using n(2) by (simp add: div_less_iff_less_mult mult.commute)
    ultimately show "a \<in> (\<Union>z\<in>dblock x k. addr (P2V (page_map_real z)) ` {..<4096})" by fastforce
  qed
next
  show "(\<Union>z\<in>dblock x k. addr (P2V (page_map_real z)) ` {..<4096}) \<subseteq> bytes (P2V (page_map_real x)) (4096 * 2 ^ k)"
  proof
    fix a assume "a \<in> (\<Union>z\<in>dblock x k. addr (P2V (page_map_real z)) ` {..<4096})"
    then obtain m i where m: "a = addr (P2V (page_map_real (x + m))) i" "m < 2 ^ k" "i < 4096"
      by (auto simp: le_iff_add)
    have "4096 * m + i < 4096 * 2 ^ k"
    proof -
      have "4096 * (m + 1) \<le> 4096 * (2 ^ k :: nat)" using m(2) by (intro mult_le_mono2) simp
      with m(3) show ?thesis by simp
    qed
    moreover have "a = P2V (page_map_real x) + of_nat (4096 * m + i)" unfolding page_map_real_add m(1) ..
    ultimately show "a \<in> bytes (P2V (page_map_real x)) (4096 * 2 ^ k)" unfolding bytes_def by blast
  qed
qed

lemma used_pages_bound:
  assumes "buddy_inv b" and "used_block b x k" and "z \<in> dblock x k"
  shows "z < 2 ^ 20"
proof -
  have "buddy_wf b" "page_n b \<le> 2 ^ 20" using assms(1) by (auto simp: buddy_inv_def)
  moreover have "z \<in> used_pages b" using assms(2,3) unfolding used_pages_def by blast
  ultimately show ?thesis using pages_bounded by fastforce
qed

text \<open>Bytes of different pages are different.\<close>

lemma page_bytes_disjoint:
  assumes "page_base p" and "page_base q" and "p \<noteq> q" and "A \<subseteq> {..<4096}" and "B \<subseteq> {..<4096}"
  shows "addr p ` A \<inter> addr q ` B = {}"
  using addr_inject [OF assms(1,2)] assms(3-5) by (fastforce simp: subset_iff)

lemma blocks_disjoint_small:
  assumes "lay_ok lay" and "c \<in> chunks lay" and "d \<in> chunks lay" and "c \<noteq> d"
  shows "bytes (fnode c) (csize c) \<inter> bytes (fnode d) (csize d) = {}"
proof -
  obtain p i j q k l where cd: "c = (p, i, j)" "d = (q, k, l)" by (metis surj_pair)
  note b = lay_chunk [OF assms(1) assms(2) [unfolded cd]] lay_chunk [OF assms(1) assms(3) [unfolded cd]]
  have eq: "bytes (fnode c) (csize c) = addr p ` {i + 12..<j}" "bytes (fnode d) (csize d) = addr q ` {k + 12..<l}"
    using bytes_chunk [OF assms(1) assms(2) [unfolded cd(1)]] bytes_chunk [OF assms(1) assms(3) [unfolded cd(2)]]
    by (simp_all add: cd)
  show ?thesis
  proof (cases "p = q")
    case True
    with chunks_apart [OF assms(1), of p i j k l] assms cd have "j \<le> k \<or> l \<le> i" by auto
    moreover have "inj_on (addr p) {..<4096}" using b(1) by (rule addr_inj_on)
    ultimately have "addr p ` ({i + 12..<j} \<inter> {k + 12..<l}) = addr p ` {i + 12..<j} \<inter> addr p ` {k + 12..<l}"
      using b by (intro inj_on_image_Int) auto
    moreover have "{i + 12..<j} \<inter> {k + 12..<l} = {}" using \<open>j \<le> k \<or> l \<le> i\<close> by auto
    ultimately show ?thesis unfolding eq True by (metis image_empty)
  next
    case False
    with b show ?thesis unfolding eq by (intro page_bytes_disjoint) auto
  qed
qed

lemma blocks_disjoint_pages:
  assumes "buddy_inv b" and "used_block b x k" and "used_block b y l" and "x \<noteq> y"
    and "U = (\<Union>z\<in>dblock x k. addr (P2V (page_map_real z)) ` {..<4096})"
    and "W = (\<Union>z\<in>dblock y l. addr (P2V (page_map_real z)) ` {..<4096})"
  shows "U \<inter> W = {}"
proof -
  have "addr (P2V (page_map_real u)) ` {..<4096} \<inter> addr (P2V (page_map_real w)) ` {..<4096} = {}"
    if "u \<in> dblock x k" "w \<in> dblock y l" for u w
  proof -
    have lt: "u < 2 ^ 20" "w < 2 ^ 20" using used_pages_bound assms(1-3) that by blast+
    moreover have "u \<noteq> w" using pmm.live_apart [OF assms(1-4)] that by blast
    ultimately show ?thesis using page_inject [OF lt] P2V_page_base by (intro page_bytes_disjoint) auto
  qed
  then show ?thesis unfolding assms(5,6) by blast
qed

lemma blocks_disjoint_heap:
  assumes wf: "heap_wf {} s lay" and x: "b \<in> blocks s lay" and y: "b' \<in> blocks s lay" and ne: "b \<noteq> b'"
  shows "bytes (fst b) (snd b) \<inter> bytes (fst b') (snd b') = {}"
proof -
  note w = heap_wfD [OF wf]
  from w(8) have inv: "buddy_inv (pages s)" by (simp add: backed_def)
  have mixed: "bytes (fnode c) (csize c) \<inter> bytes (P2V (page_map_real x)) (4096 * 2 ^ k) = {}"
    if c: "c \<in> chunks lay" and l: "(x, k) \<in> large (pages s) lay" for c x k
  proof -
    obtain p i j where eq: "c = (p, i, j)" by (cases c)
    note b = lay_chunk [OF w(1) c [unfolded eq]]
    have "p \<in> fst ` set lay" using chunks_page c eq by blast
    with w(8) obtain y where y: "p = P2V (page_map_real y)" "used_block (pages s) y 0" unfolding backed_def by blast
    with l \<open>p \<in> fst ` set lay\<close> have "y \<noteq> x" "used_block (pages s) x k" by (auto simp: large_def)
    from blocks_disjoint_pages [OF inv y(2) this(2,1) refl refl]
    have "addr p ` {..<4096} \<inter> bytes (P2V (page_map_real x)) (4096 * 2 ^ k) = {}"
      unfolding bytes_large y(1) by (simp add: dblock_def)
    moreover have "bytes (fnode c) (csize c) \<subseteq> addr p ` {..<4096}"
      using bytes_chunk [OF w(1) c [unfolded eq]] b by (auto simp: eq)
    ultimately show ?thesis by blast
  qed
  have both: "bytes (P2V (page_map_real x)) (4096 * 2 ^ k) \<inter> bytes (P2V (page_map_real y)) (4096 * 2 ^ l) = {}"
    if "(x, k) \<in> large (pages s) lay" "(y, l) \<in> large (pages s) lay" "(x, k) \<noteq> (y, l)" for x y k l
  proof -
    have u: "used_block (pages s) x k" "used_block (pages s) y l" using that by (auto simp: large_def)
    with that(3) have "x \<noteq> y" by (auto simp: used_block_def)
    from blocks_disjoint_pages [OF inv u this refl refl] show ?thesis unfolding bytes_large .
  qed
  have cases: "(\<exists>c\<in>chunks lay. d = (fnode c, csize c)) \<or>
      (\<exists>z k. (z, k) \<in> large (pages s) lay \<and> d = (P2V (page_map_real z), 4096 * 2 ^ k))" if "d \<in> blocks s lay" for d
    using that by (auto simp: blocks_def lives_def)
  from cases [OF x] show ?thesis
  proof
    assume "\<exists>c\<in>chunks lay. b = (fnode c, csize c)"
    then obtain c where c: "c \<in> chunks lay" "b = (fnode c, csize c)" by blast
    from cases [OF y] show ?thesis
    proof
      assume "\<exists>c\<in>chunks lay. b' = (fnode c, csize c)"
      then obtain d where d: "d \<in> chunks lay" "b' = (fnode d, csize d)" by blast
      with c ne blocks_disjoint_small [OF w(1) c(1) d(1)] show ?thesis by auto
    next
      assume "\<exists>z k. (z, k) \<in> large (pages s) lay \<and> b' = (P2V (page_map_real z), 4096 * 2 ^ k)"
      then obtain z k where z: "(z, k) \<in> large (pages s) lay" "b' = (P2V (page_map_real z), 4096 * 2 ^ k)" by blast
      with c mixed [OF c(1) z(1)] show ?thesis by simp
    qed
  next
    assume "\<exists>z k. (z, k) \<in> large (pages s) lay \<and> b = (P2V (page_map_real z), 4096 * 2 ^ k)"
    then obtain z k where z: "(z, k) \<in> large (pages s) lay" "b = (P2V (page_map_real z), 4096 * 2 ^ k)" by blast
    from cases [OF y] show ?thesis
    proof
      assume "\<exists>c\<in>chunks lay. b' = (fnode c, csize c)"
      then obtain c where "c \<in> chunks lay" "b' = (fnode c, csize c)" by blast
      with z mixed [OF this(1) z(1)] show ?thesis by (simp add: Int_commute)
    next
      assume "\<exists>z k. (z, k) \<in> large (pages s) lay \<and> b' = (P2V (page_map_real z), 4096 * 2 ^ k)"
      then obtain u l where u: "(u, l) \<in> large (pages s) lay" "b' = (P2V (page_map_real u), 4096 * 2 ^ l)" by blast
      from z(2) u(2) ne have "(z, k) \<noteq> (u, l)" by auto
      with both [OF z(1) u(1)] z(2) u(2) show ?thesis by simp
    qed
  qed
qed

section \<open>Requests served by the page allocator\<close>

lemma large_order:
  assumes "0x1000 \<le> sz"
  shows "unat sz \<le> 4096 * 2 ^ (log_two (sz - 1) + 1 - BASE_SHIFT)" and "11 \<le> log_two (sz - 1)"
proof -
  have ge: "4096 \<le> unat sz" using assms by (simp add: word_le_nat_alt)
  then have u: "unat (sz - 1) = unat sz - 1" by (simp add: unat_sub word_le_nat_alt)
  then have nz: "sz - 1 \<noteq> 0" using ge by auto
  note b = log_two_bounds [OF nz, unfolded u]
  have "(2::nat) ^ 11 < 2 ^ Suc (log_two (sz - 1))" using b(2) ge by simp
  then have "11 < Suc (log_two (sz - 1))" by (rule power_less_imp_less_exp [rotated]) simp
  then show le: "11 \<le> log_two (sz - 1)" by simp
  have "unat sz \<le> 2 ^ Suc (log_two (sz - 1))" using b(2) by simp
  also have "\<dots> = 2 ^ 12 * 2 ^ (log_two (sz - 1) + 1 - 12)"
    unfolding power_add [symmetric] using le by simp
  finally show "unat sz \<le> 4096 * 2 ^ (log_two (sz - 1) + 1 - BASE_SHIFT)" by (simp add: BASE_SHIFT_def)
qed

lemma large_alloc:
  assumes "backed b lay" and "pmm_alloc b k = Inr (a, b')"
  obtains x where "a = page_map_real x" and "x < 2 ^ 20" and "backed b' lay"
    and "large b' lay = insert (x, k) (large b lay)" and "(x, k) \<notin> large b lay"
proof -
  from assms have inv: "buddy_inv b" and al: "buddy_alloc_pages b k = Inr (a, b')"
    by (simp_all add: backed_def pmm_alloc_def)
  from pmm.alloc_ok [OF inv al] obtain x where x: "a = page_map_real x" "x < 2 ^ 20" "dblock x k \<subseteq> free_pages b"
    "buddy_inv b'" "\<forall>j l. used_block b' j l \<longleftrightarrow> used_block b j l \<or> j = x \<and> l = k" by blast
  have fresh: "\<not> used_block b x l" for l
    using pmm.live_ok [OF inv, of x l] x(3) dblock_self [of x] by blast
  have "P2V (page_map_real x) \<notin> fst ` set lay"
  proof
    assume "P2V (page_map_real x) \<in> fst ` set lay"
    with assms(1) obtain y where y: "P2V (page_map_real x) = P2V (page_map_real y)" "used_block b y 0"
      unfolding backed_def by blast
    with page_inject [OF x(2) used_block_page [OF inv y(2)]] fresh show False by simp
  qed
  then have "large b' lay = insert (x, k) (large b lay)" using x(5) by (auto simp: large_def)
  moreover have "(x, k) \<notin> large b lay" using fresh by (simp add: large_def)
  moreover have "backed b' lay" using assms(1) x(4,5) unfolding backed_def by blast
  ultimately show thesis using that x(1,2) by blast
qed

lemma heap_wf_pages: "heap_wf X s lay \<Longrightarrow> backed b lay \<Longrightarrow> heap_wf X (s\<lparr>pages := b\<rparr>) lay"
  by (simp add: heap_wf_def)

lemma push_bit_size: "push_bit (k + 12) (1 :: u32) = of_nat (4096 * 2 ^ k)"
  by (simp add: push_bit_eq_mult power_add mult.commute)

lemma kmalloc_large:
  assumes wf: "heap_wf {} s lay" and busy: "busy (hused s) lay" and sz: "0x1000 \<le> sz"
    and r: "kmalloc sz s = Inr (p, s')"
  obtains x k where "p = to_ptr (P2V (page_map_real x))" and "heap_wf {} s' lay" and "busy (hused s') lay"
    and "hused s' = hused s" and "large (pages s') lay = insert (x, k) (large (pages s) lay)"
    and "(x, k) \<notin> large (pages s) lay" and "unat sz \<le> 4096 * 2 ^ k" and "x < 2 ^ 20"
    and "mem_used s' = (if p = None then mem_used s else mem_used s + of_nat (4096 * 2 ^ k))"
proof -
  define k where "k = log_two (sz - 1) + 1 - BASE_SHIFT"
  have n: "sz \<noteq> 0" "\<not> sz < MIN_SIZE" using sz by (auto simp: MIN_SIZE_def word_le_nat_alt word_less_nat_alt)
  then have "kmalloc sz s = bnd (pmm_alloc (pages s) k) (\<lambda>(page, b).
      Inr (to_ptr (P2V page), if to_ptr (P2V page) \<noteq> None
        then s\<lparr>pages := b, mem_used := mem_used (s\<lparr>pages := b\<rparr>) + push_bit (BASE_SHIFT + k) 1\<rparr> else s\<lparr>pages := b\<rparr>))"
    using sz unfolding kmalloc_def Let_def k_def by simp
  with r obtain a b where ab: "pmm_alloc (pages s) k = Inr (a, b)" and p: "p = to_ptr (P2V a)"
    and s': "s' = (if p \<noteq> None then s\<lparr>pages := b, mem_used := mem_used s + push_bit (BASE_SHIFT + k) 1\<rparr> else s\<lparr>pages := b\<rparr>)"
    by (cases "pmm_alloc (pages s) k") auto
  from large_alloc [OF heap_wfD(8) [OF wf] ab] obtain x where
    x: "a = page_map_real x" "x < 2 ^ 20" "backed b lay" "large b lay = insert (x, k) (large (pages s) lay)"
      "(x, k) \<notin> large (pages s) lay" .
  have "heap_wf {} s' lay" using heap_wf_pages [OF wf x(3)] by (simp add: s')
  moreover have "unat sz \<le> 4096 * 2 ^ k" using large_order(1) [OF sz] by (simp only: k_def)
  ultimately show thesis using x p busy push_bit_size [of k]
    by (intro that [of x k]) (simp_all add: s' BASE_SHIFT_def add.commute)
qed

lemma kfree_large:
  assumes wf: "heap_wf {} s lay" and busy: "busy (hused s) lay" and x: "(x, k) \<in> large (pages s) lay"
  obtains s' where "kfree (P2V (page_map_real x)) s = Inr s'" and "heap_wf {} s' lay" and "busy (hused s') lay"
    and "hused s' = hused s" and "large (pages s') lay = large (pages s) lay - {(x, k)}"
    and "mem_used s' = mem_used s - of_nat (4096 * 2 ^ k)"
proof -
  note w = heap_wfD [OF wf]
  from w(8) have inv: "buddy_inv (pages s)" by (simp add: backed_def)
  from x have u: "used_block (pages s) x k" and np: "P2V (page_map_real x) \<notin> fst ` set lay" by (simp_all add: large_def)
  have lt: "x < 2 ^ 20" by (rule used_block_page [OF inv u])
  have "(2 ^ 12 :: u32) = BASE_SIZE" by (simp add: BASE_SIZE_def)
  then have al: "IS_ALIGNED (P2V (page_map_real x)) BASE_SIZE"
    using IS_ALIGNED_dvd [of _ 12] P2V_page_base [OF lt] by (simp add: page_base_def)
  have od: "get_order_addr (pages s) (page_map_real x) = k"
    using u real_page_index_real [OF lt] by (simp add: get_order_addr_def used_block_def)
  from pmm.release_ok [OF inv u] obtain b where b: "buddy_free_pages (pages s) (page_map_real x) = Inr b" "buddy_inv b"
    "\<forall>j l. used_block b j l \<longleftrightarrow> used_block (pages s) j l \<and> j \<noteq> x" by blast
  have "backed b lay" unfolding backed_def
  proof (intro conjI ballI)
    fix p assume p: "p \<in> fst ` set lay"
    with w(8) obtain y where y: "p = P2V (page_map_real y)" "used_block (pages s) y 0" unfolding backed_def by blast
    with p np have "y \<noteq> x" by auto
    with y b(3) show "\<exists>y. p = P2V (page_map_real y) \<and> used_block b y 0" by auto
  qed (rule b(2))
  then have "heap_wf {} (s\<lparr>mem_used := mem_used s - push_bit (k + 12) 1, pages := b\<rparr>) lay"
    using heap_wf_pages [of "{}" "s\<lparr>mem_used := mem_used s - push_bit (k + 12) 1\<rparr>" lay b] wf by simp
  moreover have "kfree (P2V (page_map_real x)) s = Inr (s\<lparr>mem_used := mem_used s - push_bit (k + 12) 1, pages := b\<rparr>)"
    using al od b(1) by (simp add: kfree_def Let_def pmm_free_def BASE_SHIFT_def)
  moreover have "large b lay = large (pages s) lay - {(x, k)}"
    using b(3) u by (auto simp: large_def used_block_def)
  ultimately show thesis using busy push_bit_size [of k]
    by (intro that [of "s\<lparr>mem_used := mem_used s - push_bit (k + 12) 1, pages := b\<rparr>"]) simp_all
qed

section \<open>The contract\<close>

locale block_allocator =
  fixes inv :: "'s \<Rightarrow> bool"
    and live :: "'s \<Rightarrow> (u32 \<times> nat) set"
    and alloc :: "u32 \<Rightarrow> 's \<Rightarrow> (u32 option \<times> 's) res"
    and release :: "u32 \<Rightarrow> 's \<Rightarrow> 's res"
  assumes alloc_ok: "inv s \<Longrightarrow> alloc n s = Inr (Some a, s') \<Longrightarrow>
      inv s' \<and> (\<exists>m. unat n \<le> m \<and> (a, m) \<notin> live s \<and> live s' = insert (a, m) (live s))"
    and release_ok: "inv s \<Longrightarrow> (a, m) \<in> live s \<Longrightarrow>
      \<exists>s'. release a s = Inr s' \<and> inv s' \<and> live s' = live s - {(a, m)}"
    and live_disjoint: "inv s \<Longrightarrow> b \<in> live s \<Longrightarrow> b' \<in> live s \<Longrightarrow> b \<noteq> b' \<Longrightarrow>
      bytes (fst b) (snd b) \<inter> bytes (fst b') (snd b') = {}"
    and live_aligned: "inv s \<Longrightarrow> (a, m) \<in> live s \<Longrightarrow> 4 dvd unat a"
begin

text \<open>What a caller gets: a block of its own.\<close>

lemma alloc_fresh_block:
  assumes "inv s" and "alloc n s = Inr (Some a, s')"
  obtains m where "unat n \<le> m" and "live s' = insert (a, m) (live s)" and "(a, m) \<notin> live s"
    and "\<And>b k. (b, k) \<in> live s \<Longrightarrow> bytes a m \<inter> bytes b k = {}" and "4 dvd unat a"
proof -
  from alloc_ok [OF assms] obtain m where m: "inv s'" "unat n \<le> m" "(a, m) \<notin> live s" "live s' = insert (a, m) (live s)"
    by blast
  have "bytes a m \<inter> bytes b k = {}" if "(b, k) \<in> live s" for b k
    using live_disjoint [OF m(1), of "(a, m)" "(b, k)"] m(3,4) that by auto
  moreover have "4 dvd unat a" using live_aligned [OF m(1), of a m] m(4) by blast
  ultimately show thesis using that m by blast
qed

text \<open>Releasing what was allocated gives the blocks in use before.\<close>

lemma alloc_release:
  assumes "inv s" and "alloc n s = Inr (Some a, s')"
  shows "\<exists>s''. release a s' = Inr s'' \<and> inv s'' \<and> live s'' = live s"
proof -
  from alloc_ok [OF assms] obtain m where m: "inv s'" "(a, m) \<notin> live s" "live s' = insert (a, m) (live s)" by blast
  from release_ok [OF m(1), of a m] m show ?thesis by auto
qed

text \<open>All blocks can be released, in any order.\<close>

lemma release_all:
  assumes "inv s" and "set bs = live s" and "distinct bs"
  shows "\<exists>s'. fold (\<lambda>b r. bnd r (release (fst b))) bs (Inr s) = Inr s' \<and> inv s' \<and> live s' = {}"
  using assms
proof (induction bs arbitrary: s)
  case (Cons b bs)
  obtain a m where b: "b = (a, m)" by (cases b)
  from release_ok [OF Cons.prems(1), of a m] Cons.prems(2) b obtain s' where
    s': "release a s = Inr s'" "inv s'" "live s' = live s - {(a, m)}" by auto
  with Cons.prems(2,3) b have "set bs = live s'" by auto
  from Cons.IH [OF s'(2) this] Cons.prems(3) s'(1) b show ?case by simp
qed simp

end

lemma blocks_eqI:
  assumes "lives (hused s') lay' = lives (hused s) lay" and "large (pages s') lay' = large (pages s) lay"
  shows "blocks s' lay' = blocks s lay"
  using assms by (simp add: blocks_def)

lemma small_block_inj:
  assumes "lay_ok lay"
  shows "inj_on (\<lambda>c. (fnode c, csize c)) (chunks lay)"
  using fnode_inj [OF assms] by (auto simp: inj_on_def)

lemma fnode_not_page:
  assumes "lay_ok lay" and "c \<in> chunks lay" and "x < 2 ^ 20"
  shows "fnode c \<noteq> P2V (page_map_real x)"
proof -
  obtain p i j where c: "c = (p, i, j)" by (cases c)
  note b = lay_chunk [OF assms(1) assms(2) [unfolded c]]
  have "addr p (i + 12) \<noteq> addr (P2V (page_map_real x)) 0"
    using addr_inject [OF b(1) P2V_page_base [OF assms(3)], of "i + 12" 0] b by simp
  then show ?thesis by (simp add: c)
qed

lemma served_blocks:
  assumes "served s lay n c s' lay'" and "large (pages s') lay' = large (pages s) lay"
  shows "blocks s' lay' = insert (fnode c, csize c) (blocks s lay)" and "(fnode c, csize c) \<notin> blocks s lay"
proof -
  from assms(1) have wf: "heap_wf {} s' lay'" and c: "c \<notin> lives (hused s) lay"
    and l: "lives (hused s') lay' = insert c (lives (hused s) lay)" by (simp_all add: served_def)
  show "blocks s' lay' = insert (fnode c, csize c) (blocks s lay)" using l assms(2) by (simp add: blocks_def)
  note w = heap_wfD [OF wf]
  have sub: "insert c (lives (hused s) lay) \<subseteq> chunks lay'" unfolding l [symmetric] by (auto simp: lives_def)
  then have "(fnode c, csize c) \<notin> (\<lambda>c. (fnode c, csize c)) ` lives (hused s) lay"
    using inj_on_image_mem_iff [OF small_block_inj [OF w(1)], of c "lives (hused s) lay"] c by blast
  moreover have "fnode c \<noteq> P2V (page_map_real x)" if "(x, k) \<in> large (pages s) lay" for x k
  proof (rule fnode_not_page [OF w(1)])
    show "c \<in> chunks lay'" using sub by blast
    have "buddy_inv (pages s')" using w(8) by (simp add: backed_def)
    then show "x < 2 ^ 20" using that unfolding assms(2) [symmetric] by (auto simp: large_def dest: used_block_page)
  qed
  ultimately show "(fnode c, csize c) \<notin> blocks s lay" by (auto simp: blocks_def)
qed

lemma kmalloc_spec:
  assumes "heap_inv s" and "kmalloc n s = Inr (Some a, s')"
  shows "heap_inv s' \<and> (\<exists>m. unat n \<le> m \<and> (a, m) \<notin> live_blocks s \<and>
    live_blocks s' = insert (a, m) (live_blocks s) \<and> mem_used s' = mem_used s + of_nat m)"
proof -
  from assms(1) obtain lay where wf: "heap_wf {} s lay" and busy: "busy (hused s) lay" by (auto simp: heap_inv_def)
  consider "n = 0" | "n \<noteq> 0" "unat n \<le> 2048" | "2048 < unat n" "unat n < 4096" | "0x1000 \<le> n"
    by (auto simp: word_le_nat_alt not_le) linarith
  then show ?thesis
  proof cases
    case 1
    with assms(2) show ?thesis by (simp add: kmalloc_def)
  next
    case 2
    show ?thesis
    proof (cases rule: kmalloc_small_cases [OF wf busy 2])
      case (1 c t lay')
      from 1(1) assms(2) have eq: "a = fnode c" "t = s'" by simp_all
      note r = 1(3-5) [unfolded eq(2)]
      have wf': "heap_wf {} s' lay'" using r(1) by (simp add: served_def)
      have "unat n \<le> csize c" using kmalloc_small_eq(4) [OF 2(1) _ refl] 2(2) r(1) by (fastforce simp: served_def)
      moreover have "mem_used s' = mem_used s + of_nat (csize c)" using r(1) by (simp add: served_def)
      moreover have "heap_inv s'" using wf' r(2) unfolding heap_inv_def by blast
      ultimately show ?thesis using eq(1) served_blocks [OF r(1,3)]
        by (auto simp: live_blocks_eq [OF wf] live_blocks_eq [OF wf'])
    qed (use assms(2) in simp_all)
  next
    case 3
    then have "n \<noteq> 0" by auto
    note e = kmalloc_small_eq [OF this 3(2) refl]
    from alloc_order(2) [OF e(1,3)] 3(1) e(4) have "kmalloc n s = Inr (None, s)" unfolding e(6) by auto
    with assms(2) show ?thesis by simp
  next
    case 4
    from kmalloc_large [OF wf busy 4 assms(2)] obtain x k where
      r: "Some a = to_ptr (P2V (page_map_real x))" "heap_wf {} s' lay" "busy (hused s') lay" "hused s' = hused s"
        "large (pages s') lay = insert (x, k) (large (pages s) lay)" "(x, k) \<notin> large (pages s) lay"
        "unat n \<le> 4096 * 2 ^ k" "x < 2 ^ 20" "mem_used s' = (if Some a = None then mem_used s else mem_used s + of_nat (4096 * 2 ^ k))" .
    have a: "a = P2V (page_map_real x)" using r(1) by (simp add: to_ptr_def split: if_splits)
    have "blocks s' lay = insert (a, 4096 * 2 ^ k) (blocks s lay)" using r(4,5) a by (simp add: blocks_def)
    moreover have "(a, 4096 * 2 ^ k) \<notin> blocks s lay"
    proof
      have inv: "buddy_inv (pages s)" using heap_wfD(8) [OF wf] by (simp add: backed_def)
      assume "(a, 4096 * 2 ^ k) \<in> blocks s lay"
      then consider c where "c \<in> chunks lay" "fnode c = a"
        | y l where "(y, l) \<in> large (pages s) lay" "P2V (page_map_real y) = a" "(2::nat) ^ l = 2 ^ k"
        by (auto simp: blocks_def lives_def)
      then show False
      proof cases
        case 1
        with fnode_not_page [OF heap_wfD(1) [OF wf] 1(1) r(8)] a show False by simp
      next
        case 2
        then have "y < 2 ^ 20" using used_block_page [OF inv] by (auto simp: large_def)
        with 2 a r(6,8) show False using page_inject [of y x] by auto
      qed
    qed
    moreover have "heap_inv s'" using r(2,3) unfolding heap_inv_def by blast
    ultimately show ?thesis using r(7,9)
      by (intro conjI exI [of _ "4096 * 2 ^ k"]) (simp_all add: live_blocks_eq [OF wf] live_blocks_eq [OF r(2)])
  qed
qed

lemma kfree_spec:
  assumes "heap_inv s" and "(a, m) \<in> live_blocks s"
  shows "\<exists>s'. kfree a s = Inr s' \<and> heap_inv s' \<and> live_blocks s' = live_blocks s - {(a, m)} \<and>
    mem_used s' = mem_used s - of_nat m"
proof -
  from assms(1) obtain lay where wf: "heap_wf {} s lay" and busy: "busy (hused s) lay" by (auto simp: heap_inv_def)
  note w = heap_wfD [OF wf]
  have inv: "buddy_inv (pages s)" using w(8) by (simp add: backed_def)
  have lg: "(y, l) \<in> large (pages s) lay \<Longrightarrow> y < 2 ^ 20" for y l
    using used_block_page [OF inv] by (auto simp: large_def)
  have sub: "lives (hused s) lay \<subseteq> chunks lay" by (auto simp: lives_def)
  from assms(2) live_blocks_eq [OF wf] consider
      c where "c \<in> lives (hused s) lay" "a = fnode c" "m = csize c"
    | y l where "(y, l) \<in> large (pages s) lay" "a = P2V (page_map_real y)" "m = 4096 * 2 ^ l"
    by (auto simp: blocks_def)
  then show ?thesis
  proof cases
    case (1 c)
    obtain p i j where c: "c = (p, i, j)" by (cases c)
    from kfree_small [OF wf busy 1(1) [unfolded c]] obtain s' lay' where
      r: "kfree (addr p (i + 12)) s = Inr s'"
        "freed (s\<lparr>mem_used := mem_used s - of_nat (j - i - 12)\<rparr>) lay (p, i, j) s' lay'" .
    then have f: "heap_wf {} s' lay'" "busy (hused s') lay'" "lives (hused s') lay' = lives (hused s) lay - {c}"
      "large (pages s') lay' = large (pages s) lay" "mem_used s' = mem_used s - of_nat m"
      using 1(3) by (simp_all add: freed_def c)
    have "(\<lambda>c. (fnode c, csize c)) ` (lives (hused s) lay - {c}) =
        (\<lambda>c. (fnode c, csize c)) ` lives (hused s) lay - {(a, m)}"
      using inj_on_image_set_diff [OF small_block_inj [OF w(1)], of "lives (hused s) lay" "{c}"] sub 1 by auto
    moreover have "(a, m) \<notin> (\<lambda>(x, k). (P2V (page_map_real x), 4096 * 2 ^ k)) ` large (pages s) lay"
    proof
      assume "(a, m) \<in> (\<lambda>(x, k). (P2V (page_map_real x), 4096 * 2 ^ k)) ` large (pages s) lay"
      then obtain x k where x: "(x, k) \<in> large (pages s) lay" "a = P2V (page_map_real x)" by auto
      from fnode_not_page [OF w(1) subsetD [OF sub 1(1)] lg [OF x(1)]] 1(2) x(2) show False by simp
    qed
    ultimately have "blocks s' lay' = blocks s lay - {(a, m)}" unfolding blocks_def f(3,4) by blast
    moreover have "kfree a s = Inr s'" using r(1) 1(2) c by simp
    moreover have "heap_inv s'" using f(1,2) unfolding heap_inv_def by blast
    ultimately show ?thesis using f(5) by (simp add: live_blocks_eq [OF wf] live_blocks_eq [OF f(1)])
  next
    case (2 y l)
    from kfree_large [OF wf busy 2(1)] obtain s' where
      r: "kfree (P2V (page_map_real y)) s = Inr s'" "heap_wf {} s' lay" "busy (hused s') lay" "hused s' = hused s"
        "large (pages s') lay = large (pages s) lay - {(y, l)}" "mem_used s' = mem_used s - of_nat (4096 * 2 ^ l)" .
    let ?g = "\<lambda>(x, k). (P2V (page_map_real x), 4096 * 2 ^ k :: nat)"
    have "?g ` (large (pages s) lay - {(y, l)}) = ?g ` large (pages s) lay - {(a, m)}"
    proof -
      have "inj_on ?g (large (pages s) lay)" using lg page_inject by (auto simp: inj_on_def)
      from inj_on_image_set_diff [OF this, of "large (pages s) lay" "{(y, l)}"] 2 show ?thesis by simp
    qed
    moreover have "(a, m) \<notin> (\<lambda>c. (fnode c, csize c)) ` lives (hused s) lay"
    proof
      assume "(a, m) \<in> (\<lambda>c. (fnode c, csize c)) ` lives (hused s) lay"
      then obtain c where c: "c \<in> lives (hused s) lay" "a = fnode c" by blast
      from fnode_not_page [OF w(1) subsetD [OF sub c(1)] lg [OF 2(1)]] 2(2) c(2) show False by simp
    qed
    ultimately have "blocks s' lay = blocks s lay - {(a, m)}" unfolding blocks_def r(4,5) by blast
    moreover have "heap_inv s'" using r(2,3) unfolding heap_inv_def by blast
    ultimately show ?thesis using r(1,6) 2(2,3) by (simp add: live_blocks_eq [OF wf] live_blocks_eq [OF r(2)])
  qed
qed

lemma block_aligned:
  assumes "heap_inv s" and "(a, m) \<in> live_blocks s"
  shows "4 dvd unat a"
proof -
  from assms(1) obtain lay where wf: "heap_wf {} s lay" by (auto simp: heap_inv_def)
  note w = heap_wfD [OF wf]
  have four: "4096 dvd n \<Longrightarrow> 4 dvd n" for n :: nat by (rule dvd_trans [of 4 4096]) simp_all
  from assms(2) live_blocks_eq [OF wf] consider p i j where "(p, i, j) \<in> chunks lay" "a = addr p (i + 12)"
    | x k where "(x, k) \<in> large (pages s) lay" "a = P2V (page_map_real x)"
    by (auto simp: blocks_def lives_def)
  then show ?thesis
  proof cases
    case 1
    note b = lay_chunk [OF w(1) 1(1)]
    have "unat a = unat p + (i + 12)" using unat_addr [OF b(1), of "i + 12"] b 1(2) by simp
    with b four [of "unat p"] show ?thesis by (simp add: page_base_def)
  next
    case 2
    have "buddy_inv (pages s)" using w(8) by (simp add: backed_def)
    from used_block_page [OF this, of x k] 2(1) have "x < 2 ^ 20" by (simp add: large_def)
    from P2V_page_base [OF this] four 2(2) show ?thesis by (simp add: page_base_def)
  qed
qed

interpretation kheap: block_allocator heap_inv live_blocks kmalloc kfree
proof (unfold_locales, goal_cases)
  case (1 s n a s')
  from kmalloc_spec [OF 1] show ?case by blast
next
  case (2 s a m)
  from kfree_spec [OF 2] show ?case by blast
next
  case (3 s b b')
  from 3(1) obtain lay where wf: "heap_wf {} s lay" by (auto simp: heap_inv_def)
  from blocks_disjoint_heap [OF wf] 3(2-4) show ?case unfolding live_blocks_eq [OF wf] by blast
next
  case (4 s a m)
  then show ?case by (rule block_aligned)
qed

end
