(* ===== verification/Heap_Props.thy ===== *)
theory Heap_Props
  imports Heap_Spec
begin

text \<open>
  The properties of the kernel heap: initialisation, allocation, release, the byte counters and
  what is left once everything has been released.
\<close>

section \<open>Initialisation\<close>

text \<open>The static storage of \<open>heap.c\<close> at boot, on a given state of the page allocator.\<close>

definition heap_bss :: "buddy \<Rightarrow> heap" where
  "heap_bss b = \<lparr>hnodes = (\<lambda>_. \<lparr>nxt = None, prv = None\<rparr>), hused = (\<lambda>_. False), free_bucket = (\<lambda>_. None),
     first = None, last_chunk = None, mem_free = 0, mem_used = 0, mem_meta = 0, pages = b\<rparr>"

lemma heap_bss_wf: "buddy_inv b \<Longrightarrow> heap_wf {} (heap_bss b) []"
  by (auto simp: heap_wf_def heap_bss_def linked_def guards_def bucketed_def bucket_lists_def apart_def
      backed_def frees_def intro!: exI [of _ "\<lambda>_. []"])

lemma init_kmalloc_spec:
  assumes "buddy_inv b" and "pmm_alloc b 0 = Inr (a, b')" and "P2V a \<noteq> 0"
  shows "\<exists>s. init_kmalloc (heap_bss b) = Inr s \<and> heap_inv s \<and>
    live_blocks s = {(P2V (page_map_real x), 4096 * 2 ^ k) | x k. used_block b x k} \<and>
    mem_used s = 0 \<and> mem_free s = 4044 \<and> mem_meta s = 52 \<and> pages s = b'"
proof -
  note wf = heap_bss_wf [OF assms(1)]
  have al: "pmm_alloc (pages (heap_bss b)) 0 = Inr (a, b')" using assms(2) by (simp add: heap_bss_def)
  from create_chunk_wf [OF wf al assms(3)] obtain p s where
    c: "create_chunk (heap_bss b) = Inr (p, s)" "p = P2V a" "heap_wf {} s [(p, [20, 4076])]"
      "frees (hused s) {} [(p, [20, 4076])] = {(p, 20, 4076)}" "lives (hused s) [(p, [20, 4076])] = {}"
      "mem_used s = 0" "pages s = b'"
    by (auto simp: frees_def lives_def heap_bss_def)
  note w = heap_wfD [OF c(3)]
  have n: "nxt (hnodes s p) = Some (addr p 20)" "nxt (hnodes s (addr p 20)) = Some (addr p 4076)"
    using linked_page(1) [OF w(1,2), of p "[20, 4076]"] linked_chunk(1) [OF w(2), of p 20 4076]
    by (simp_all add: chunks_Cons adj_two)
  have "first s = Some p" "last_chunk s = Some (addr p 4076)"
    using linked_first [OF w(2)] w(2) by (simp_all add: linked_def)
  with c(1) n have "init_kmalloc (heap_bss b) = Inr s" by (simp add: init_kmalloc_def)
  moreover have "heap_inv s" using c(3) unfolding heap_inv_def busy_def by fastforce
  moreover have "live_blocks s = {(P2V (page_map_real x), 4096 * 2 ^ k) | x k. used_block b x k}"
  proof -
    have "large b' [(p, [20, 4076])] = large b []"
      using large_fresh [of b "[]" a b' "[(p, [20, 4076])]"] assms(1,2) c(2) by (simp add: backed_def)
    then show ?thesis unfolding live_blocks_eq [OF c(3)] blocks_def c(5,7) by (auto simp: large_def)
  qed
  moreover have "mem_free s = 4044" "mem_meta s = 52"
    using w(6,7) unfolding c(4) by (simp_all add: chunks_Cons adj_two)
  ultimately show ?thesis using c(6,7) by blast
qed

section \<open>Every byte of a heap page\<close>

lemma adj_sum:
  assumes "spaced bs" and "bs \<noteq> []"
  shows "(\<Sum>(i, j)\<in>{(i, j). adj bs i j}. j - i) = last bs - hd bs \<and> finite {(i, j). adj bs i j}"
  using assms
proof (induction bs rule: induct_list012)
  case (2 x)
  have "{(i, j). adj [x] i j} = {}" by (auto simp: adj_Cons)
  then show ?case by simp
next
  case (3 x y zs)
  have eq: "{(i, j). adj (x # y # zs) i j} = insert (x, y) {(i, j). adj (y # zs) i j}"
    by (auto simp: adj_Cons)
  have "(x, y) \<notin> {(i, j). adj (y # zs) i j}"
    using 3(3) adj_in(1) [of "y # zs" x y] by (force simp: spaced_simps)
  moreover have "x \<le> y" "y \<le> last (y # zs)" using 3(3) by (cases zs rule: rev_cases; auto simp: spaced_simps)+
  moreover have "spaced (y # zs)" using 3(3) by (simp add: spaced_simps)
  ultimately show ?case using 3(2) unfolding eq by simp
qed simp

lemma chunk_sum:
  assumes "lay_ok lay"
  shows "(\<Sum>c\<in>chunks lay. csize c + 12) = 4056 * length lay"
  using assms
proof (induction lay)
  case (Cons x L)
  obtain p bs where x: "x = (p, bs)" by (cases x)
  with Cons.prems have ok: "cuts_ok bs" "lay_ok L" "p \<notin> fst ` set L" by (simp_all add: lay_ok_simps)
  have fin: "finite {(i, j). adj bs i j}" and s: "(\<Sum>(i, j)\<in>{(i, j). adj bs i j}. j - i) = 4056"
    using adj_sum [of bs] ok(1) by (auto simp: cuts_ok_def spaced_simps)
  have "(\<Sum>c\<in>{p} \<times> {(i, j). adj bs i j}. csize c + 12) = (\<Sum>(i, j)\<in>{(i, j). adj bs i j}. csize (p, i, j) + 12)"
    by (rule sum.reindex_cong [of "Pair p"]) (auto simp: inj_on_def)
  also have "\<dots> = (\<Sum>(i, j)\<in>{(i, j). adj bs i j}. j - i)"
    using cuts_adj(2) [OF ok(1)] by (intro sum.cong) fastforce+
  finally have "(\<Sum>c\<in>{p} \<times> {(i, j). adj bs i j}. csize c + 12) = 4056" using s by simp
  moreover have "({p} \<times> {(i, j). adj bs i j}) \<inter> chunks L = {}" using chunks_page ok(3) by fastforce
  ultimately show ?case
    unfolding x chunks_Cons using Cons.IH [OF ok(2)] fin finite_chunks by (simp add: sum.union_disjoint)
qed simp

lemma heap_bytes:
  assumes "heap_wf {} s lay"
  shows "mem_free s + mem_meta s + of_nat (\<Sum>c\<in>lives (hused s) lay. csize c) = of_nat (4096 * length lay)"
proof -
  note w = heap_wfD [OF assms]
  have un: "chunks lay = frees (hused s) {} lay \<union> lives (hused s) lay"
    and dis: "frees (hused s) {} lay \<inter> lives (hused s) lay = {}"
    by (auto simp: frees_def lives_def)
  have fin: "finite (frees (hused s) {} lay)" "finite (lives (hused s) lay)"
    using finite_chunks [of lay] unfolding un by simp_all
  have "(\<Sum>c\<in>chunks lay. csize c) + 12 * card (chunks lay) = 4056 * length lay"
    using chunk_sum [OF w(1)] by (simp add: sum.distrib mult.commute)
  then have "(\<Sum>c\<in>frees (hused s) {} lay. csize c) + (\<Sum>c\<in>lives (hused s) lay. csize c)
      + (40 * length lay + 12 * card (chunks lay)) = 4096 * length lay"
    using sum.union_disjoint [OF fin dis, of csize] un by simp
  then have "of_nat ((\<Sum>c\<in>frees (hused s) {} lay. csize c) + (\<Sum>c\<in>lives (hused s) lay. csize c)
      + (40 * length lay + 12 * card (chunks lay))) = (of_nat (4096 * length lay) :: u32)"
    by (rule arg_cong)
  then show ?thesis unfolding w(6,7) of_nat_add of_nat_sum by (simp only: ac_simps)
qed

section \<open>An empty heap\<close>

lemma no_used_single:
  assumes "heap_wf {} s lay" and "lives (hused s) lay = {}" and "(p, bs) \<in> set lay"
  shows "bs = [20, 4076]"
proof -
  note w = heap_wfD [OF assms(1)]
  have ok: "cuts_ok bs" using lay_okD(2) [OF w(1) assms(3)] .
  have fr: "(p, i, j) \<in> frees (hused s) {} lay" if "adj bs i j" for i j
    using that assms(2,3) by (auto simp: frees_def lives_def chunks_def)
  have "20 \<in> set bs" using ok by (metis cuts_ok_def list.set_sel(1))
  with cuts_next [OF ok, of 20] obtain j where j: "adj bs 20 j" by auto
  have "j = 4076"
  proof (rule ccontr)
    assume "j \<noteq> 4076"
    with cuts_next [OF ok adj_in(2) [OF j]] obtain k where "adj bs j k" .
    with fr j w(5) show False unfolding apart_def by blast
  qed
  with j cuts_single [OF ok] show ?thesis by simp
qed

lemma no_used_pages:
  assumes "heap_wf {} s lay" and "busy (hused s) lay" and "lives (hused s) lay = {}"
  shows "length lay \<le> 1"
  using assms(2,3) unfolding busy_def by (cases lay; cases "tl lay") auto

section \<open>When an allocation succeeds\<close>

lemma direct_map_nonzero:
  assumes "x < 0x40000"
  shows "P2V (page_map_real x) \<noteq> 0"
proof -
  have "unat (P2V (page_map_real x)) = (0x1000 * x + 0xC0000000) mod 2 ^ 32"
    using unat_page_map_real [of x] assms by (simp add: P2V_def KERNEL_VIRTUAL_BASE_def unat_word_ariths)
  also have "\<dots> = 0x1000 * x + 0xC0000000" using assms by simp
  finally show ?thesis by auto
qed

lemma kmalloc_small_returns:
  assumes "heap_inv s" and "sz \<noteq> 0" and "unat sz \<le> 2048"
    and "free_pages (pages s) \<noteq> {}" and "page_n (pages s) \<le> 0x40000"
  shows "\<exists>a s'. kmalloc sz s = Inr (Some a, s')"
proof -
  from assms(1) obtain lay where wf: "heap_wf {} s lay" and busy: "busy (hused s) lay" by (auto simp: heap_inv_def)
  have inv: "buddy_inv (pages s)" using heap_wfD(8) [OF wf] by (simp add: backed_def)
  from assms(4) obtain x where x: "dblock x 0 \<subseteq> free_pages (pages s)" by (auto simp: dblock_def)
  show ?thesis
  proof (cases rule: kmalloc_small_cases [OF wf busy assms(2,3)])
    case (2 e)
    from pmm.alloc_total [OF inv _ _ x] 2(1) show ?thesis by (simp add: pmm_alloc_def)
  next
    case (3 a b)
    from fresh_page [OF heap_wfD(8) [OF wf] 3(1)] obtain y where y: "a = page_map_real y" "y \<in> free_pages (pages s)"
      by metis
    have "buddy_wf (pages s)" using inv by (simp add: buddy_inv_def)
    with y(2) pages_bounded(1) assms(5) have "y < 0x40000" by fastforce
    with direct_map_nonzero 3(2) y(1) show ?thesis by simp
  qed blast
qed

section \<open>Runs\<close>

text \<open>
  Calls of the heap: an allocation that returns a block, and the release of a block that was not
  in use before the heap was set up.
\<close>

inductive heap_step :: "(u32 \<times> nat) set \<Rightarrow> heap \<Rightarrow> heap \<Rightarrow> bool" for B where
  alloc: "kmalloc n s = Inr (Some a, s') \<Longrightarrow> heap_step B s s'"
| release: "(a, m) \<in> live_blocks s - B \<Longrightarrow> kfree a s = Inr s' \<Longrightarrow> heap_step B s s'"

lemma finite_live: "heap_inv s \<Longrightarrow> finite (live_blocks s)"
proof -
  assume "heap_inv s"
  then obtain lay where wf: "heap_wf {} s lay" by (auto simp: heap_inv_def)
  have "finite (lives (hused s) lay)" using finite_chunks finite_subset by (metis (no_types, lifting) lives_def mem_Collect_eq subsetI)
  moreover have "large (pages s) lay \<subseteq> (\<lambda>x. (x, p_order (page_map (pages s) x))) ` {..<page_n (pages s)}"
    by (auto simp: large_def used_block_def)
  then have "finite (large (pages s) lay)" using finite_subset by blast
  ultimately show ?thesis unfolding live_blocks_eq [OF wf] blocks_def by simp
qed

lemma heap_step_inv:
  assumes "heap_step B s s'" and "heap_inv s" and "B \<subseteq> live_blocks s"
    and "mem_used s = of_nat (\<Sum>b\<in>live_blocks s - B. snd b)"
  shows "heap_inv s' \<and> B \<subseteq> live_blocks s' \<and> mem_used s' = of_nat (\<Sum>b\<in>live_blocks s' - B. snd b)"
  using assms(1)
proof cases
  case (alloc n a)
  from kmalloc_spec [OF assms(2) alloc] obtain m where
    m: "heap_inv s'" "(a, m) \<notin> live_blocks s" "live_blocks s' = insert (a, m) (live_blocks s)"
      "mem_used s' = mem_used s + of_nat m" by blast
  have "live_blocks s' - B = insert (a, m) (live_blocks s - B)" using m(2,3) assms(3) by blast
  with m finite_live [OF assms(2)] assms(3,4) show ?thesis by (auto simp: algebra_simps)
next
  case (release a m)
  from kfree_spec [OF assms(2), of a m] release have
    m: "heap_inv s'" "live_blocks s' = live_blocks s - {(a, m)}" "mem_used s' = mem_used s - of_nat m" by auto
  have "live_blocks s - B = insert (a, m) (live_blocks s' - B)" "(a, m) \<notin> live_blocks s' - B"
    using m(2) release(1) by auto
  with m finite_live [OF m(1)] assms(3,4) release(1) show ?thesis by auto
qed

lemma heap_run_inv:
  assumes "(heap_step B)\<^sup>*\<^sup>* s s'" and "heap_inv s" and "B = live_blocks s" and "mem_used s = 0"
  shows "heap_inv s' \<and> B \<subseteq> live_blocks s' \<and> mem_used s' = of_nat (\<Sum>b\<in>live_blocks s' - B. snd b)"
  using assms(1)
proof (induction rule: rtranclp_induct)
  case base
  with assms(2-4) show ?case by simp
next
  case (step t u)
  from heap_step_inv [OF step(2)] step(3) show ?case by blast
qed

section \<open>A small heap\<close>

definition heap_boot :: heap where
  "heap_boot = (case init_kmalloc (heap_bss four_pages) of Inl _ \<Rightarrow> heap_bss four_pages | Inr s \<Rightarrow> s)"

definition page_zero :: buddy where
  "page_zero = (case pmm_alloc four_pages 0 of Inl _ \<Rightarrow> four_pages | Inr (a, b) \<Rightarrow> b)"

lemma page_zero_eq: "pmm_alloc four_pages 0 = Inr (0, page_zero)"
proof -
  have "map_sum id fst (pmm_alloc four_pages 0) = Inr 0" by code_simp
  then show ?thesis by (cases "pmm_alloc four_pages 0") (auto simp: page_zero_def)
qed

lemma P2V_zero: "P2V 0 \<noteq> 0"
  by (simp add: P2V_def KERNEL_VIRTUAL_BASE_def)

lemma heap_boot_inv:
  "init_kmalloc (heap_bss four_pages) = Inr heap_boot" "heap_inv heap_boot" "live_blocks heap_boot = {}"
  "mem_used heap_boot = 0" "pages heap_boot = page_zero"
  using init_kmalloc_spec [OF four_pages_inv page_zero_eq P2V_zero] by (auto simp: heap_boot_def four_pages_blocks)

lemma page_zero_free: "free_pages page_zero \<noteq> {}" "page_n page_zero = 4"
proof -
  have "backed four_pages []" using four_pages_inv by (simp add: backed_def)
  from fresh_page [OF this page_zero_eq] obtain x where "free_pages page_zero = free_pages four_pages - {x}" by metis
  moreover have "{0, 1} \<subseteq> free_pages four_pages" by (simp add: four_pages_sets)
  ultimately show "free_pages page_zero \<noteq> {}" by auto
  show "page_n page_zero = 4" by code_simp
qed

text \<open>The heap after one allocation.\<close>

definition heap_one :: "u32 \<times> heap" where
  "heap_one = (case kmalloc 100 heap_boot of Inr (Some a, s) \<Rightarrow> (a, s) | _ \<Rightarrow> (0, heap_boot))"

lemma heap_one_eq: "kmalloc 100 heap_boot = Inr (Some (fst heap_one), snd heap_one)"
  using kmalloc_small_returns [OF heap_boot_inv(2), of 100] page_zero_free heap_boot_inv(5)
  by (auto simp: heap_one_def)

section \<open>Properties\<close>

text \<open>
  C17: a request that returns a pointer gives the caller a block of its own: it is at least as
  large as requested, 4-byte aligned, was not in use, overlaps no block in use, and it is the only
  change to the set of blocks in use. The heap's invariant is kept.
\<close>

theorem kmalloc_correct:
  assumes "heap_inv s" and "kmalloc n s = Inr (Some a, s')"
  shows "heap_inv s' \<and> (\<exists>m. unat n \<le> m \<and> live_blocks s' = insert (a, m) (live_blocks s) \<and>
    (a, m) \<notin> live_blocks s \<and> (\<forall>b k. (b, k) \<in> live_blocks s \<longrightarrow> bytes a m \<inter> bytes b k = {}) \<and> 4 dvd unat a)"
proof -
  have "heap_inv s'" using kheap.alloc_ok [OF assms] by blast
  with kheap.alloc_fresh_block [OF assms] show ?thesis by metis
qed

theorem kmalloc_correct_witness:
  "heap_inv heap_boot \<and> kmalloc 100 heap_boot = Inr (Some (fst heap_one), snd heap_one) \<and> heap_inv (snd heap_one) \<and>
   (\<exists>m\<ge>100. live_blocks (snd heap_one) = {(fst heap_one, m)} \<and> 4 dvd unat (fst heap_one))"
  using kmalloc_correct [OF heap_boot_inv(2) heap_one_eq] heap_boot_inv(2,3) heap_one_eq by auto

text \<open>
  C18: releasing a block in use returns normally, takes exactly this block out of use, lowers the
  count of used bytes by its size and keeps the invariant.
\<close>

theorem kfree_correct:
  assumes "heap_inv s" and "(a, m) \<in> live_blocks s"
  shows "\<exists>s'. kfree a s = Inr s' \<and> heap_inv s' \<and> live_blocks s' = live_blocks s - {(a, m)} \<and>
    mem_used s' = mem_used s - of_nat m"
  using assms by (rule kfree_spec)

lemma heap_one_live: "\<exists>m. live_blocks (snd heap_one) = {(fst heap_one, m)} \<and> heap_inv (snd heap_one)"
  using kmalloc_spec [OF heap_boot_inv(2) heap_one_eq] heap_boot_inv(3) by auto

theorem kfree_correct_witness:
  "\<exists>m s'. (fst heap_one, m) \<in> live_blocks (snd heap_one) \<and> kfree (fst heap_one) (snd heap_one) = Inr s' \<and>
    live_blocks s' = {} \<and> heap_inv s'"
proof -
  from heap_one_live obtain m where m: "live_blocks (snd heap_one) = {(fst heap_one, m)}" "heap_inv (snd heap_one)" by blast
  then have "(fst heap_one, m) \<in> live_blocks (snd heap_one)" by simp
  from kfree_correct [OF m(2) this] m show ?thesis by auto
qed

text \<open>
  C19: a request of 1 to 2048 bytes is served whenever the page allocator has a free page (of the
  directly mapped gigabyte), and the block has at most 23 bytes more than the larger of the
  request and 8 bytes.
\<close>

theorem kmalloc_small_served:
  assumes "heap_inv s" and "sz \<noteq> 0" and "unat sz \<le> 2048"
    and "free_pages (pages s) \<noteq> {}" and "page_n (pages s) \<le> 0x40000"
  shows "\<exists>a m s'. kmalloc sz s = Inr (Some a, s') \<and> live_blocks s' = insert (a, m) (live_blocks s) \<and>
    unat sz \<le> m \<and> m < max 8 (unat sz) + 24"
proof -
  from assms(1) obtain lay where wf: "heap_wf {} s lay" and busy: "busy (hused s) lay" by (auto simp: heap_inv_def)
  from kmalloc_small_returns [OF assms] obtain a s' where r: "kmalloc sz s = Inr (Some a, s')" by blast
  show ?thesis
  proof (cases rule: kmalloc_small_cases [OF wf busy assms(2,3)])
    case (1 c t lay')
    have wf': "heap_wf {} t lay'" using 1(3) by (simp add: served_def)
    have "unat sz \<le> csize c \<and> csize c < max 8 (unat sz) + 24"
      using kmalloc_small_eq(4,5) [OF assms(2) _ refl] assms(3) 1(3) by (fastforce simp: served_def)
    with 1(1) served_blocks(1) [OF 1(3,5)] show ?thesis
      by (auto simp: live_blocks_eq [OF wf] live_blocks_eq [OF wf'])
  qed (use r in simp_all)
qed

theorem kmalloc_small_served_witness:
  "\<exists>a m s'. kmalloc 100 heap_boot = Inr (Some a, s') \<and> live_blocks s' = {(a, m)} \<and> 100 \<le> m \<and> m < 124"
  using kmalloc_small_served [OF heap_boot_inv(2), of 100] page_zero_free heap_boot_inv(3,5) by simp

text \<open>
  C20: below the page size \<open>kmalloc\<close> returns NULL exactly for size 0 and for the sizes from 2049 to
  4095: the largest bucket holds chunks of up to 4044 bytes, but a request is rounded up to a power
  of two to choose its bucket, and only requests of 4096 bytes or more go to the page allocator.
\<close>

theorem kmalloc_null_iff:
  assumes "heap_inv s" and "unat sz < 4096"
  shows "(\<exists>s'. kmalloc sz s = Inr (None, s')) \<longleftrightarrow> sz = 0 \<or> 2048 < unat sz"
proof -
  from assms(1) obtain lay where wf: "heap_wf {} s lay" and busy: "busy (hused s) lay" by (auto simp: heap_inv_def)
  consider "sz = 0" | "sz \<noteq> 0" "unat sz \<le> 2048" | "sz \<noteq> 0" "2048 < unat sz" by linarith
  then show ?thesis
  proof cases
    case 1
    then show ?thesis by (simp add: kmalloc_def)
  next
    case 2
    show ?thesis by (cases rule: kmalloc_small_cases [OF wf busy 2]) (use 2 in auto)
  next
    case 3
    note e = kmalloc_small_eq [OF 3(1) assms(2) refl]
    from alloc_order(2) [OF e(1,3)] 3(2) e(4) have "kmalloc sz s = Inr (None, s)" unfolding e(6) by auto
    with 3 show ?thesis by blast
  qed
qed

theorem kmalloc_null_iff_witness: "\<exists>s'. kmalloc 3000 heap_boot = Inr (None, s')"
  using kmalloc_null_iff [OF heap_boot_inv(2), of 3000] by simp

text \<open>
  Setting up the heap on a page allocator with a free page establishes the invariant with one
  page of 4044 free bytes and 52 bytes of headers; the blocks in use are those the page
  allocator had handed out before.
\<close>

theorem init_kmalloc_correct:
  assumes "buddy_inv b" and "pmm_alloc b 0 = Inr (a, b')" and "P2V a \<noteq> 0"
  shows "\<exists>s. init_kmalloc (heap_bss b) = Inr s \<and> heap_inv s \<and>
    live_blocks s = {(P2V (page_map_real x), 4096 * 2 ^ k) | x k. used_block b x k} \<and>
    mem_used s = 0 \<and> mem_free s = 4044 \<and> mem_meta s = 52 \<and> pages s = b'"
  using assms by (rule init_kmalloc_spec)

theorem init_kmalloc_correct_witness:
  "init_kmalloc (heap_bss four_pages) = Inr heap_boot \<and> heap_inv heap_boot \<and> mem_free heap_boot = 4044"
  using init_kmalloc_correct [OF four_pages_inv page_zero_eq P2V_zero] heap_boot_inv(1) by auto

text \<open>
  C21: over any history of allocations and releases the counters are exact: \<open>mem_used\<close> is the sum of
  the sizes of the blocks handed out, and free bytes, header bytes and the bytes of the chunks in
  use add up to the heap's pages.
\<close>

theorem heap_accounting:
  assumes "heap_inv s" and "mem_used s = 0" and "(heap_step (live_blocks s))\<^sup>*\<^sup>* s t"
  shows "mem_used t = of_nat (\<Sum>b\<in>live_blocks t - live_blocks s. snd b) \<and>
    (\<exists>lay. heap_wf {} t lay \<and>
      mem_free t + mem_meta t + of_nat (\<Sum>c\<in>lives (hused t) lay. csize c) = of_nat (4096 * length lay))"
proof -
  note r = heap_run_inv [OF assms(3,1) refl assms(2)]
  then obtain lay where "heap_wf {} t lay" by (auto simp: heap_inv_def)
  with r heap_bytes [OF this] show ?thesis by blast
qed

theorem heap_accounting_witness:
  "heap_inv heap_boot \<and> mem_used heap_boot = 0 \<and> (heap_step (live_blocks heap_boot))\<^sup>*\<^sup>* heap_boot (snd heap_one) \<and>
   mem_used (snd heap_one) = of_nat (\<Sum>b\<in>live_blocks (snd heap_one). snd b)"
proof -
  have "(heap_step (live_blocks heap_boot))\<^sup>*\<^sup>* heap_boot (snd heap_one)"
    using heap_step.alloc [OF heap_one_eq] by blast
  with heap_accounting [OF heap_boot_inv(2,4) this] heap_boot_inv show ?thesis by simp
qed

text \<open>
  C22: once every block handed out has been released, the heap has given its memory back: it holds
  at most one page, which is one free chunk, and the page allocator's blocks in use are those from
  before plus at most that page.
\<close>

theorem heap_drained:
  assumes "heap_inv s" and "mem_used s = 0" and "(heap_step (live_blocks s))\<^sup>*\<^sup>* s t" and "live_blocks t = live_blocks s"
    and "\<forall>(a, m)\<in>live_blocks s. 4096 dvd unat a"
  shows "mem_used t = 0 \<and> (\<exists>lay. heap_wf {} t lay \<and> length lay \<le> 1 \<and> (\<forall>(p, bs)\<in>set lay. bs = [20, 4076]) \<and>
    (\<lambda>(x, k). (P2V (page_map_real x), 4096 * 2 ^ k)) ` large (pages t) lay = live_blocks s)"
proof -
  note r = heap_run_inv [OF assms(3,1) refl assms(2)]
  from r obtain lay where wf: "heap_wf {} t lay" and busy: "busy (hused t) lay" by (auto simp: heap_inv_def)
  have "lives (hused t) lay = {}"
  proof (rule equals0I)
    fix c assume c: "c \<in> lives (hused t) lay"
    obtain p i j where eq: "c = (p, i, j)" by (cases c)
    from c have "(fnode c, csize c) \<in> live_blocks s" unfolding assms(4) [symmetric] live_blocks_eq [OF wf] blocks_def by blast
    with assms(5) have "4096 dvd unat (fnode c)" by auto
    moreover have ch: "(p, i, j) \<in> chunks lay" using c eq by (simp add: lives_def)
    note b = lay_chunk [OF heap_wfD(1) [OF wf] ch]
    ultimately have "4096 dvd unat p + (i + 12)" using unat_addr [OF b(1), of "i + 12"] b eq by simp
    with offset_unique [of 4096 "unat p" "unat p + (i + 12)" "i + 12" 0] b show False by (auto simp: page_base_def)
  qed
  moreover from this have "(\<lambda>(x, k). (P2V (page_map_real x), 4096 * 2 ^ k)) ` large (pages t) lay = live_blocks s"
    unfolding assms(4) [symmetric] live_blocks_eq [OF wf] blocks_def by simp
  ultimately show ?thesis using r assms(4) wf no_used_single [OF wf] no_used_pages [OF wf busy] by auto
qed

theorem heap_drained_witness:
  "\<exists>t. heap_step (live_blocks heap_boot) heap_boot (snd heap_one) \<and> heap_step (live_blocks heap_boot) (snd heap_one) t \<and>
    mem_used t = 0 \<and> (\<exists>lay. heap_wf {} t lay \<and> length lay \<le> 1 \<and> (\<forall>(p, bs)\<in>set lay. bs = [20, 4076]) \<and>
      large (pages t) lay = {})"
proof -
  from heap_one_live obtain m where m: "live_blocks (snd heap_one) = {(fst heap_one, m)}" "heap_inv (snd heap_one)" by blast
  then obtain t where t: "kfree (fst heap_one) (snd heap_one) = Inr t" "live_blocks t = {}"
    using kfree_spec [OF m(2), of "fst heap_one" m] by auto
  have s: "heap_step (live_blocks heap_boot) heap_boot (snd heap_one)"
    "heap_step (live_blocks heap_boot) (snd heap_one) t"
    using heap_step.alloc [OF heap_one_eq] heap_step.release [OF _ t(1), of m] m(1) heap_boot_inv(3) by auto
  have "(heap_step (live_blocks heap_boot))\<^sup>*\<^sup>* heap_boot t"
    using s rtranclp.rtrancl_into_rtrancl [of "heap_step (live_blocks heap_boot)" heap_boot "snd heap_one" t] by blast
  from heap_drained [OF heap_boot_inv(2,4) this] t(2) heap_boot_inv(3) s show ?thesis by auto
qed

text \<open>
  Releasing a block right after its allocation gives back the blocks in use and the count of
  used bytes from before.
\<close>

theorem kmalloc_kfree_roundtrip:
  assumes "heap_inv s" and "kmalloc n s = Inr (Some a, s')"
  shows "\<exists>t. kfree a s' = Inr t \<and> heap_inv t \<and> live_blocks t = live_blocks s \<and> mem_used t = mem_used s"
proof -
  from kmalloc_spec [OF assms] obtain m where m: "heap_inv s'" "(a, m) \<notin> live_blocks s"
    "live_blocks s' = insert (a, m) (live_blocks s)" "mem_used s' = mem_used s + of_nat m" by blast
  with kfree_spec [OF m(1), of a m] show ?thesis by auto
qed

theorem kmalloc_kfree_roundtrip_witness:
  "\<exists>t. kfree (fst heap_one) (snd heap_one) = Inr t \<and> live_blocks t = {} \<and> mem_used t = 0"
  using kmalloc_kfree_roundtrip [OF heap_boot_inv(2) heap_one_eq] heap_boot_inv(3,4) by auto

end
