(* ===== verification/Ports.thy ===== *)
theory Ports
  imports Prelude
begin

text \<open>
  Port input and output (\<open>kernel/ports.h\<close>).

  The devices behind the ports are not part of the kernel. What the kernel does to them is the
  \<open>trace\<close> of its port accesses, oldest first, and what they answer is the parameter \<open>dev\<close>: the
  byte a read of a port returns after a given trace. Each routine that touches a port takes the
  trace so far and returns it extended, so the order of the accesses, on which the devices depend,
  is part of every result.
\<close>

section \<open>Accesses\<close>

datatype io_event = Out (port: u16) (val: u8) | In (port: u16) (val: u8)

type_synonym trace = "io_event list"

type_synonym device = "trace \<Rightarrow> u16 \<Rightarrow> u8"

definition outb :: "u16 \<Rightarrow> u8 \<Rightarrow> trace \<Rightarrow> trace" where
  "outb p v tr = tr @ [Out p v]"

definition inb :: "device \<Rightarrow> u16 \<Rightarrow> trace \<Rightarrow> u8 \<times> trace" where
  "inb dev p tr = (dev tr p, tr @ [In p (dev tr p)])"

definition io_wait :: "trace \<Rightarrow> trace" where
  "io_wait tr = outb 0x80 0 tr"

section \<open>Reading a trace\<close>

text \<open>The bytes sent to a port, oldest first; the last one is what a plain register behind the
  port holds.\<close>

definition sent :: "u16 \<Rightarrow> trace \<Rightarrow> u8 list" where
  "sent p tr = map val (filter (\<lambda>e. case e of Out q v \<Rightarrow> q = p | In q v \<Rightarrow> False) tr)"

lemma sent_Nil [simp]: "sent p [] = []"
  by (simp add: sent_def)

lemma sent_append [simp]: "sent p (tr @ tr') = sent p tr @ sent p tr'"
  by (simp add: sent_def)

lemma sent_Cons [simp]:
  "sent p (Out q v # tr) = (if q = p then v # sent p tr else sent p tr)"
  "sent p (In q v # tr) = sent p tr"
  by (simp_all add: sent_def)

lemma sent_outb [simp]: "sent p (outb q v tr) = (if q = p then sent p tr @ [v] else sent p tr)"
  by (simp add: outb_def)

lemma sent_io_wait [simp]: "sent p (io_wait tr) = (if p = 0x80 then sent p tr @ [0] else sent p tr)"
  by (simp add: io_wait_def)

lemma sent_inb [simp]: "sent p (snd (inb dev q tr)) = sent p tr"
  by (simp add: inb_def)

end
