(* ===== verification/Vga.thy ===== *)
theory Vga
  imports Memory Ports
begin

text \<open>
  The text console (\<open>drivers/vga.c\<close>): an 80 by 25 grid of 16-bit cells in video memory at
  \<open>0xC00B8000\<close>, and the cursor registers behind ports \<open>0x3D4\<close> and \<open>0x3D5\<close>.

  The driver's state is the memory it writes, the colour attribute, the cursor position (bytes, as
  in the source) and the trace of port accesses. A \<open>char\<close> is a byte that C extends with its sign
  when it meets the shifted attribute.

  The second half gives the console as a terminal: a grid of cells and a cursor in natural
  numbers, with the scrolling the driver does by copying rows. \<open>vga_term\<close> reads the terminal off
  the driver's memory, and every operation of the driver is the terminal's operation.
\<close>

section \<open>The driver\<close>

datatype vga_color =
    VGA_COLOR_BLACK | VGA_COLOR_BLUE | VGA_COLOR_GREEN | VGA_COLOR_CYAN | VGA_COLOR_RED
  | VGA_COLOR_PURPLE | VGA_COLOR_BROWN | VGA_COLOR_GRAY | VGA_COLOR_DARK_GRAY
  | VGA_COLOR_LIGHT_BLUE | VGA_COLOR_LIGHT_GREEN | VGA_COLOR_LIGHT_CYAN | VGA_COLOR_LIGHT_RED
  | VGA_COLOR_LIGHT_PURPLE | VGA_COLOR_YELLOW | VGA_COLOR_WHITE

fun color_code :: "vga_color \<Rightarrow> u32" where
  "color_code VGA_COLOR_BLACK = 0"
| "color_code VGA_COLOR_BLUE = 1"
| "color_code VGA_COLOR_GREEN = 2"
| "color_code VGA_COLOR_CYAN = 3"
| "color_code VGA_COLOR_RED = 4"
| "color_code VGA_COLOR_PURPLE = 5"
| "color_code VGA_COLOR_BROWN = 6"
| "color_code VGA_COLOR_GRAY = 7"
| "color_code VGA_COLOR_DARK_GRAY = 8"
| "color_code VGA_COLOR_LIGHT_BLUE = 9"
| "color_code VGA_COLOR_LIGHT_GREEN = 10"
| "color_code VGA_COLOR_LIGHT_CYAN = 11"
| "color_code VGA_COLOR_LIGHT_RED = 12"
| "color_code VGA_COLOR_LIGHT_PURPLE = 13"
| "color_code VGA_COLOR_YELLOW = 14"
| "color_code VGA_COLOR_WHITE = 15"

definition VGA_MEMORY :: u32 where "VGA_MEMORY = 0xB8000 + 0xC0000000"
definition columns :: u32 where "columns = 80"
definition rows :: u32 where "rows = 25"

record vga =
  vmem :: mem
  vga_attr :: u8
  cursor_row :: u8
  cursor_col :: u8
  vga_io :: trace

definition vga_start :: "mem \<Rightarrow> trace \<Rightarrow> vga" where
  "vga_start m tr = \<lparr>vmem = m, vga_attr = 0x0F, cursor_row = 2, cursor_col = 0, vga_io = tr\<rparr>"

text \<open>The value stored for a character: \<open>c | (vga_color << 8)\<close>, truncated to 16 bits.\<close>

definition vga_cell :: "u8 \<Rightarrow> u8 \<Rightarrow> u16" where
  "vga_cell c attr = ucast (scast c OR push_bit 8 (ucast attr) :: u32)"

definition vga_move_cursor :: "vga \<Rightarrow> vga" where
  "vga_move_cursor s =
     (let pos = ucast (ucast (cursor_row s) * columns + ucast (cursor_col s)) :: u16;
          tr = outb 0x3D4 0x0F (vga_io s);
          tr = outb 0x3D5 (ucast (pos AND 0xFF)) tr;
          tr = outb 0x3D4 0x0E tr;
          tr = outb 0x3D5 (ucast (drop_bit 8 pos AND 0xFF)) tr
      in s\<lparr>vga_io := tr\<rparr>)"

definition scroll_row :: "nat \<Rightarrow> mem \<Rightarrow> mem" where
  "scroll_row r m = kmemcpy m (VGA_MEMORY + 2 * (80 * (of_nat r - 1)))
     (VGA_MEMORY + 2 * (80 * of_nat r)) (columns * 2)"

definition vga_scroll :: "vga \<Rightarrow> vga" where
  "vga_scroll s =
     (let m = fold scroll_row [1..<unat rows] (vmem s);
          m = kwmemset m (VGA_MEMORY + 2 * (80 * (rows - 1))) (vga_cell 0x20 (vga_attr s)) columns
      in s\<lparr>vmem := m\<rparr>)"

definition vga_clear :: "vga \<Rightarrow> vga" where
  "vga_clear s =
     (let s = vga_move_cursor (s\<lparr>cursor_row := 0, cursor_col := 0\<rparr>)
      in s\<lparr>vmem := kwmemset (vmem s) VGA_MEMORY (vga_cell 0x20 (vga_attr s)) (columns * rows)\<rparr>)"

definition vga_set_color :: "vga_color \<Rightarrow> vga_color \<Rightarrow> vga \<Rightarrow> vga" where
  "vga_set_color fg bg s = s\<lparr>vga_attr := ucast (push_bit 4 (color_code bg) OR color_code fg)\<rparr>"

text \<open>\<open>vga_buffer[(row * columns) + col] = c | (vga_color << 8)\<close>.\<close>

definition vga_putc_at :: "u8 \<Rightarrow> u8 \<Rightarrow> u8 \<Rightarrow> vga \<Rightarrow> vga" where
  "vga_putc_at c row col s =
     s\<lparr>vmem := store16 (vmem s) (VGA_MEMORY + 2 * (ucast row * columns + ucast col))
                (vga_cell c (vga_attr s))\<rparr>"

definition vga_putc :: "u8 \<Rightarrow> vga \<Rightarrow> vga" where
  "vga_putc c s =
     (let s = (if ucast (cursor_row s) = rows
               then (vga_scroll s)\<lparr>cursor_row := ucast (rows - 1)\<rparr> else s);
          s = (if c = 10
               then s\<lparr>cursor_row := cursor_row s + 1, cursor_col := 0\<rparr>
               else (let s = vga_putc_at c (cursor_row s) (cursor_col s) s;
                         s = s\<lparr>cursor_col := cursor_col s + 1\<rparr>
                     in if ucast (cursor_col s) = columns
                        then s\<lparr>cursor_row := cursor_row s + 1, cursor_col := 0\<rparr> else s))
      in vga_move_cursor s)"

text \<open>\<open>vga_puts\<close> runs over the characters of a C string up to its terminator.\<close>

definition vga_puts :: "u8 list \<Rightarrow> vga \<Rightarrow> vga" where
  "vga_puts str s = fold vga_putc str s"

section \<open>The terminal\<close>

record terminal =
  grid :: "nat \<Rightarrow> nat \<Rightarrow> u16"
  attr :: u8
  row :: nat
  col :: nat

definition on_screen :: "nat \<Rightarrow> nat \<Rightarrow> bool" where
  "on_screen r k \<longleftrightarrow> r < 25 \<and> k < 80"

definition cell_addr :: "nat \<Rightarrow> nat \<Rightarrow> u32" where
  "cell_addr r k = VGA_MEMORY + of_nat (2 * (80 * r + k))"

definition vga_term :: "vga \<Rightarrow> terminal" where
  "vga_term s =
     \<lparr>grid = (\<lambda>r k. if on_screen r k then load16 (vmem s) (cell_addr r k) else 0),
      attr = vga_attr s, row = unat (cursor_row s), col = unat (cursor_col s)\<rparr>"

text \<open>A cell holds the character in its low byte and the colour in its high one; the characters from
  \<open>0x80\<close> on come in colour \<open>0xFF\<close>.\<close>

definition term_cell :: "u8 \<Rightarrow> u8 \<Rightarrow> u16" where
  "term_cell c a = push_bit 8 (ucast (if c < 0x80 then a else 0xFF)) OR ucast c"

definition term_scroll :: "terminal \<Rightarrow> terminal" where
  "term_scroll t = t\<lparr>grid := (\<lambda>r k. if r < 24 then grid t (Suc r) k
     else if on_screen r k then term_cell 0x20 (attr t) else 0), row := 24\<rparr>"

definition term_newline :: "terminal \<Rightarrow> terminal" where
  "term_newline t = t\<lparr>row := Suc (row t), col := 0\<rparr>"

definition term_write :: "u8 \<Rightarrow> terminal \<Rightarrow> terminal" where
  "term_write c t = t\<lparr>grid := (\<lambda>r k. if r = row t \<and> k = col t then term_cell c (attr t) else grid t r k),
     col := Suc (col t)\<rparr>"

definition term_putc :: "u8 \<Rightarrow> terminal \<Rightarrow> terminal" where
  "term_putc c t =
     (let t = (if row t = 25 then term_scroll t else t)
      in if c = 10 then term_newline t
         else (let t = term_write c t in if col t = 80 then term_newline t else t))"

definition term_blank :: "u8 \<Rightarrow> terminal" where
  "term_blank a = \<lparr>grid = (\<lambda>r k. if on_screen r k then term_cell 0x20 a else 0), attr = a, row = 0, col = 0\<rparr>"

text \<open>The cursor may stand just below the last row: the next character scrolls first.\<close>

definition cursor_ok :: "vga \<Rightarrow> bool" where
  "cursor_ok s \<longleftrightarrow> unat (cursor_row s) \<le> 25 \<and> unat (cursor_col s) < 80"

definition same_outside :: "mem \<Rightarrow> mem \<Rightarrow> bool" where
  "same_outside m m' \<longleftrightarrow> (\<forall>x. 4000 \<le> unat (x - VGA_MEMORY) \<longrightarrow> m' x = m x)"

lemma vga_cell_bytes: "vga_cell c a = push_bit 8 (ucast (if c < 0x80 then a else 0xFF)) OR ucast c"
proof -
  have top: "bit c 7 \<longleftrightarrow> \<not> c < 0x80"
  proof -
    have "bit c 7 \<longleftrightarrow> odd (unat c div 2 ^ 7)"
      using bit_unsigned_iff [where 'a = nat, of c 7] by (simp add: bit_iff_odd [of "unat c"])
    also have "\<dots> \<longleftrightarrow> \<not> unat c < 128"
    proof (cases "unat c < 128")
      case False
      then have "unat c div 128 = 1"
        using unsigned_less [where 'a = nat, of c] by (intro div_nat_eqI) simp_all
      with False show ?thesis by simp
    qed simp
    finally show ?thesis by (simp add: word_less_nat_alt)
  qed
  have ff: "(0xFF :: u8) = mask 8" by (simp add: mask_eq_exp_minus_1)
  show ?thesis
  proof (rule bit_word_eqI)
    fix n assume "n < LENGTH(16)"
    then have n: "n < 16" by simp
    show "bit (vga_cell c a) n = bit (push_bit 8 (ucast (if c < 0x80 then a else 0xFF)) OR ucast c :: u16) n"
    proof (cases "n < 8")
      case True
      then have "min n 7 = n" by simp
      with True show ?thesis by (simp add: vga_cell_def bit_simps)
    next
      case False
      then have "n = 8 + (n - 8)" "n - 8 < 8" using n by simp_all
      then obtain k where k: "n = 8 + k" "k < 8" by blast
      have "\<not> bit c (8 + k)" by (simp add: bit_u8_high)
      with k show ?thesis by (auto simp: vga_cell_def bit_simps top ff)
    qed
  qed
qed

lemma term_cell_vga: "term_cell c a = vga_cell c a"
  by (simp only: term_cell_def vga_cell_bytes)

section \<open>Cells in memory\<close>

lemma vga_consts: "columns = 80" "rows = 25"
  by (simp_all add: columns_def rows_def)

lemma load16_byte_eqI: "m a = m' b \<Longrightarrow> m (a + 1) = m' (b + 1) \<Longrightarrow> load16 m a = load16 m' b"
  by (simp add: load16_def)

lemma load16_bytes:
  assumes "m a = ucast v" "m (a + 1) = ucast (drop_bit 8 v)"
  shows "load16 m a = v"
  unfolding load16_def assms
  by (rule bit_word_eqI) (auto simp: bit_simps bit_u16_high)

lemma offset_small:
  fixes b :: u32
  assumes "n < 2 ^ 32"
  shows "unat (b + of_nat n - b) = n"
  using assms by (simp add: unsigned_of_nat take_bit_nat_eq_self)

lemma cell_offset:
  assumes "on_screen r k"
  shows "unat (cell_addr r k - VGA_MEMORY) = 160 * r + 2 * k"
    "unat (cell_addr r k + 1 - VGA_MEMORY) = 160 * r + 2 * k + 1"
proof -
  have e: "cell_addr r k + 1 = VGA_MEMORY + of_nat (2 * (80 * r + k) + 1)"
    by (simp add: cell_addr_def)
  have b: "2 * (80 * r + k) + 1 < 2 ^ 32"
    using assms by (simp add: on_screen_def)
  have "unat (cell_addr r k - VGA_MEMORY) = 2 * (80 * r + k)"
    unfolding cell_addr_def by (rule offset_small) (use b in linarith)
  moreover have "unat (cell_addr r k + 1 - VGA_MEMORY) = 2 * (80 * r + k) + 1"
    unfolding e by (rule offset_small [OF b])
  ultimately show "unat (cell_addr r k - VGA_MEMORY) = 160 * r + 2 * k"
    "unat (cell_addr r k + 1 - VGA_MEMORY) = 160 * r + 2 * k + 1"
    by simp_all
qed

lemma load16_store16_same: "load16 (store16 m a v) a = v"
  by (rule load16_bytes) (simp_all add: store16_def)

lemma load16_store16_other:
  assumes "2 \<le> unat (a - b)" "2 \<le> unat (a + 1 - b)"
  shows "load16 (store16 m b v) a = load16 m a"
  using assms by (intro load16_byte_eqI) (simp_all add: store16_def)

lemma cell_index_inj:
  fixes r k r' k' :: nat
  assumes "k < 80" "k' < 80" "80 * r + k = 80 * r' + k'"
  shows "r = r' \<and> k = k'"
proof -
  have "(80 * r + k) div 80 = (80 * r' + k') div 80" using assms(3) by (rule arg_cong)
  then have "r = r'" using assms(1,2) by simp
  with assms(3) show ?thesis by simp
qed

lemma cell_addr_diff:
  assumes "on_screen r k" "on_screen r' k'" "\<not> (r = r' \<and> k = k')"
  shows "2 \<le> unat (cell_addr r k - cell_addr r' k')" "2 \<le> unat (cell_addr r k + 1 - cell_addr r' k')"
proof -
  let ?n = "80 * r + k" and ?n' = "80 * r' + k'"
  have n: "?n < 2000" "?n' < 2000" using assms(1,2) by (simp_all add: on_screen_def)
  have b: "2 * ?n' < 2 ^ 32" using n by simp
  have ne: "?n \<noteq> ?n'"
    using assms cell_index_inj [of k k' r r'] unfolding on_screen_def by blast
  note d = unat_diff_add [OF b, of _ VGA_MEMORY, folded cell_addr_def]
  have o: "unat (cell_addr r k - VGA_MEMORY) = 2 * ?n" "unat (cell_addr r k + 1 - VGA_MEMORY) = 2 * ?n + 1"
    unfolding cell_offset [OF assms(1)] by simp_all
  show "2 \<le> unat (cell_addr r k - cell_addr r' k')" "2 \<le> unat (cell_addr r k + 1 - cell_addr r' k')"
    unfolding d o using ne n by (cases "?n < ?n'"; simp)+
qed

section \<open>Scrolling and clearing\<close>

lemma scroll_row_at:
  assumes "1 \<le> r" "r < 25"
  shows "scroll_row r m x =
    (if 160 * (r - 1) \<le> unat (x - VGA_MEMORY) \<and> unat (x - VGA_MEMORY) < 160 * r
     then m (x + 160) else m x)"
proof -
  let ?d = "VGA_MEMORY + of_nat (160 * (r - 1))"
  have d: "VGA_MEMORY + 2 * (80 * (of_nat r - 1)) = ?d"
    using assms(1) by (simp add: of_nat_diff)
  have s: "VGA_MEMORY + 2 * (80 * of_nat r) = ?d + 160"
    using assms(1) by (simp add: of_nat_diff)
  have "unat (?d - (?d + 160)) = 2 ^ 32 - 160"
    using unat_diff_shift [of ?d ?d 160] by simp
  then have "copy_safe 160 ?d (?d + 160)" by (simp only: copy_safe_def) simp
  then have "scroll_row r m x = copies 160 ?d (?d + 160) m x"
    unfolding scroll_row_def d s vga_consts using kmemcpy_at [of 160 ?d "?d + 160" m] by simp
  moreover have "?d + 160 + (x - ?d) = x + 160" by simp
  moreover have "unat (x - ?d) < 160 \<longleftrightarrow>
      160 * (r - 1) \<le> unat (x - VGA_MEMORY) \<and> unat (x - VGA_MEMORY) < 160 * r"
  proof -
    obtain q where q: "r = Suc q" "q < 24" using assms by (cases r) auto
    have "unat (x - ?d) = (if 160 * q \<le> unat (x - VGA_MEMORY) then unat (x - VGA_MEMORY) - 160 * q
        else 2 ^ 32 + unat (x - VGA_MEMORY) - 160 * q)"
      unfolding q diff_Suc_1 by (rule unat_diff_add) (use q in simp)
    then show ?thesis using q by (simp only: diff_Suc_1 split: if_split) auto
  qed
  ultimately show ?thesis unfolding copies_def by simp
qed

lemma add160_offset:
  assumes "unat (x - VGA_MEMORY) < 2 ^ 16"
  shows "unat (x + 160 - VGA_MEMORY) = unat (x - VGA_MEMORY) + 160"
proof -
  have "x + 160 - VGA_MEMORY = (x - VGA_MEMORY) + 160" by simp
  also have "unat ((x - VGA_MEMORY) + 160) = unat (x - VGA_MEMORY) + unat (160 :: u32)"
    using assms by (intro unat_add_lem [THEN iffD1]) simp
  finally show ?thesis by simp
qed

lemma scroll_rows_at:
  assumes "k \<le> 25" "1 \<le> k"
  shows "fold scroll_row [1..<k] m x =
    (if unat (x - VGA_MEMORY) < 160 * (k - 1) then m (x + 160) else m x)"
  using assms
proof (induction k arbitrary: x)
  case (Suc k)
  show ?case
  proof (cases "k = 0")
    case False
    then have k: "1 \<le> k" "k < 25" and e: "[1..<Suc k] = [1..<k] @ [k]" using Suc.prems by auto
    show ?thesis
      unfolding e fold_append o_apply fold.simps id_apply scroll_row_at [OF k]
      using k add160_offset [of x] Suc.IH [OF less_imp_le [OF k(2)] k(1)]
      by (auto simp del: One_nat_def)
  qed simp
qed simp

definition blank_byte :: "u8 \<Rightarrow> nat \<Rightarrow> u8" where
  "blank_byte a n = ucast (drop_bit (8 * (n mod 2)) (vga_cell 0x20 a))"

lemma minus_even_mod: "2 * k \<le> n \<Longrightarrow> (n - 2 * k) mod 2 = n mod (2 :: nat)"
  by (metis le_add_diff_inverse mod_mult_self4)

lemma vga_scroll_at:
  "vmem (vga_scroll s) x =
    (if unat (x - VGA_MEMORY) < 3840 then vmem s (x + 160)
     else if unat (x - VGA_MEMORY) < 4000 then blank_byte (vga_attr s) (unat (x - VGA_MEMORY))
     else vmem s x)"
proof -
  let ?n = "unat (x - VGA_MEMORY)"
  have d: "unat (x - (VGA_MEMORY + 3840)) = (if 3840 \<le> ?n then ?n - 3840 else 2 ^ 32 + ?n - 3840)"
    using unat_diff_add [of 3840 x VGA_MEMORY] by simp
  have p: "(?n - 3840) mod 2 = ?n mod 2" if "3840 \<le> ?n"
    using that minus_even_mod [of 1920 ?n] by simp
  define M where "M = fold scroll_row [1..<unat rows] (vmem s)"
  have M: "M x = (if ?n < 3840 then vmem s (x + 160) else vmem s x)"
    using scroll_rows_at [of "unat rows" "vmem s" x] unfolding M_def [symmetric]
    by (simp add: vga_consts)
  have "vmem (vga_scroll s) x = kwmemset M (VGA_MEMORY + 3840) (vga_cell 0x20 (vga_attr s)) 80 x"
    unfolding vga_scroll_def Let_def M_def [symmetric] by (simp add: vga_consts)
  also have "\<dots> = (if unat (x - (VGA_MEMORY + 3840)) < 160
       then blank_byte (vga_attr s) (unat (x - (VGA_MEMORY + 3840))) else M x)"
    by (simp add: kwmemset_at blank_byte_def)
  finally have e: "vmem (vga_scroll s) x = (if unat (x - (VGA_MEMORY + 3840)) < 160
       then blank_byte (vga_attr s) (unat (x - (VGA_MEMORY + 3840))) else M x)" .
  consider "?n < 3840" | "3840 \<le> ?n" "?n < 4000" "?n - 3840 < 160" | "4000 \<le> ?n" "\<not> ?n - 3840 < 160"
    by linarith
  then show ?thesis
    by cases (simp_all add: e M d p blank_byte_def)
qed

lemma vga_scroll_simps [simp]:
  "vga_attr (vga_scroll s) = vga_attr s" "cursor_row (vga_scroll s) = cursor_row s"
  "cursor_col (vga_scroll s) = cursor_col s" "vga_io (vga_scroll s) = vga_io s"
  by (simp_all add: vga_scroll_def Let_def)

lemma vga_move_cursor_simps [simp]:
  "vmem (vga_move_cursor s) = vmem s" "vga_attr (vga_move_cursor s) = vga_attr s"
  "cursor_row (vga_move_cursor s) = cursor_row s" "cursor_col (vga_move_cursor s) = cursor_col s"
  by (simp_all add: vga_move_cursor_def Let_def)

lemma blank_cell:
  assumes "m (cell_addr r k) = blank_byte a (unat (cell_addr r k - VGA_MEMORY))"
    "m (cell_addr r k + 1) = blank_byte a (unat (cell_addr r k + 1 - VGA_MEMORY))" "on_screen r k"
  shows "load16 m (cell_addr r k) = vga_cell 0x20 a"
proof (rule load16_bytes)
  have p: "(2 * j) mod 2 = 0" "(2 * j + 1) mod 2 = 1" for j :: nat by simp_all
  have "160 * r + 2 * k = 2 * (80 * r + k)" by simp
  then have "(160 * r + 2 * k) mod 2 = 0" "(160 * r + 2 * k + 1) mod 2 = 1" by (simp_all only: p)
  then show "m (cell_addr r k) = ucast (vga_cell 0x20 a)"
    "m (cell_addr r k + 1) = ucast (drop_bit 8 (vga_cell 0x20 a))"
    unfolding assms(1,2) cell_offset [OF assms(3)] blank_byte_def by simp_all
qed

lemma cell_addr_Suc: "cell_addr r k + 160 = cell_addr (Suc r) k"
  by (simp add: cell_addr_def)

lemma scroll_cell:
  assumes "on_screen r k"
  shows "load16 (vmem (vga_scroll s)) (cell_addr r k) =
    (if r < 24 then load16 (vmem s) (cell_addr (Suc r) k) else vga_cell 0x20 (vga_attr s))"
proof (cases "r < 24")
  case True
  then have "160 * r + 2 * k + 1 < 3840" using assms by (simp add: on_screen_def)
  moreover have "cell_addr r k + 1 + 160 = cell_addr (Suc r) k + 1"
    by (simp add: cell_addr_Suc [symmetric])
  ultimately have "load16 (vmem (vga_scroll s)) (cell_addr r k) = load16 (vmem s) (cell_addr (Suc r) k)"
    by (intro load16_byte_eqI) (simp_all only: vga_scroll_at cell_offset [OF assms] cell_addr_Suc, simp_all)
  with True show ?thesis by simp
next
  case False
  then have "3840 \<le> 160 * r + 2 * k" "160 * r + 2 * k + 1 < 4000"
    using assms by (simp_all add: on_screen_def)
  then have "load16 (vmem (vga_scroll s)) (cell_addr r k) = vga_cell 0x20 (vga_attr s)"
    by (intro blank_cell) (simp_all add: vga_scroll_at cell_offset [OF assms] assms)
  with False show ?thesis by simp
qed

lemma vga_scroll_refines:
  "vga_term ((vga_scroll s)\<lparr>cursor_row := ucast (rows - 1)\<rparr>) = term_scroll (vga_term s)"
proof -
  have "on_screen (Suc r) k \<longleftrightarrow> on_screen r k" if "r < 24" for r k
    using that by (auto simp: on_screen_def)
  then show ?thesis
    by (auto simp: vga_term_def term_scroll_def term_cell_vga scroll_cell vga_consts intro!: ext)
qed

section \<open>Writing characters\<close>

lemma cursor_addr: "VGA_MEMORY + 2 * (ucast r * columns + ucast k) = cell_addr (unat r) (unat (k :: u8))"
  for r :: u8
  by (simp add: cell_addr_def vga_consts)

lemma u8_eq_num: "(ucast (r :: u8) :: u32) = 25 \<longleftrightarrow> unat r = 25" "(ucast (r :: u8) :: u32) = 80 \<longleftrightarrow> unat r = 80"
  using unsigned_less [where 'a = nat, of r]
  by (simp_all add: word_unat_eq_iff unsigned_ucast_eq take_bit_nat_eq_self)

lemma unat_u8_Suc: "unat (r :: u8) < 255 \<Longrightarrow> unat (r + 1) = Suc (unat r)"
  using unat_add_lem [of r 1] by simp

lemma vga_putc_at_vmem:
  "vmem (vga_putc_at c r k s) = store16 (vmem s) (cell_addr (unat r) (unat k)) (vga_cell c (vga_attr s))"
  unfolding vga_putc_at_def cursor_addr by simp

lemma vga_putc_at_cell:
  assumes "on_screen r k" "on_screen (unat r') (unat k')"
  shows "load16 (vmem (vga_putc_at c r' k' s)) (cell_addr r k) =
    (if r = unat r' \<and> k = unat k' then vga_cell c (vga_attr s) else load16 (vmem s) (cell_addr r k))"
  using cell_addr_diff [OF assms]
  by (auto simp: vga_putc_at_vmem load16_store16_same load16_store16_other)

lemma vga_putc_at_simps [simp]:
  "vga_attr (vga_putc_at c r k s) = vga_attr s" "cursor_row (vga_putc_at c r k s) = cursor_row s"
  "cursor_col (vga_putc_at c r k s) = cursor_col s" "vga_io (vga_putc_at c r k s) = vga_io s"
  by (simp_all add: vga_putc_at_def)

lemma same_outside_refl [simp]: "same_outside m m"
  by (simp add: same_outside_def)

lemma same_outside_trans: "same_outside m m' \<Longrightarrow> same_outside m' m'' \<Longrightarrow> same_outside m m''"
  by (simp add: same_outside_def)

lemma same_outside_scroll: "same_outside (vmem s) (vmem (vga_scroll s))"
  by (simp add: same_outside_def vga_scroll_at)

lemma same_outside_store16:
  assumes "on_screen r k"
  shows "same_outside m (store16 m (cell_addr r k) v)"
  unfolding same_outside_def
proof (intro allI impI)
  fix x assume x: "4000 \<le> unat (x - VGA_MEMORY)"
  let ?n = "2 * (80 * r + k)"
  have n: "?n + 1 < 4000" using assms by (simp add: on_screen_def)
  then have "unat (x - cell_addr r k) = unat (x - VGA_MEMORY) - ?n"
    unfolding cell_addr_def using x by (subst unat_diff_add) auto
  with n x have "2 \<le> unat (x - cell_addr r k)" by linarith
  then show "store16 m (cell_addr r k) v x = m x" by (simp add: store16_def)
qed

text \<open>The two halves of \<open>vga_putc\<close>: make room, then place the character.\<close>

definition vga_room :: "vga \<Rightarrow> vga" where
  "vga_room s = (if unat (cursor_row s) = 25
     then (vga_scroll s)\<lparr>cursor_row := ucast (rows - 1)\<rparr> else s)"

definition vga_newline :: "vga \<Rightarrow> vga" where
  "vga_newline s = s\<lparr>cursor_row := cursor_row s + 1, cursor_col := 0\<rparr>"

definition vga_place :: "u8 \<Rightarrow> vga \<Rightarrow> vga" where
  "vga_place c s = (vga_putc_at c (cursor_row s) (cursor_col s) s)\<lparr>cursor_col := cursor_col s + 1\<rparr>"

lemma vga_putc_split:
  "vga_putc c s = vga_move_cursor (let s = vga_room s in if c = 10 then vga_newline s
     else let s = vga_place c s in if unat (cursor_col s) = 80 then vga_newline s else s)"
  unfolding vga_putc_def vga_consts(1) vga_room_def vga_newline_def vga_place_def Let_def
  by (simp add: u8_eq_num vga_consts(2) vga_putc_at_def)

lemma vga_term_move_cursor [simp]: "vga_term (vga_move_cursor s) = vga_term s"
  by (simp add: vga_term_def cong: if_cong)

lemma vga_term_sel [simp]:
  "row (vga_term s) = unat (cursor_row s)" "col (vga_term s) = unat (cursor_col s)"
  "attr (vga_term s) = vga_attr s"
  by (simp_all add: vga_term_def)

lemma vga_room_refines:
  assumes "cursor_ok s"
  shows "vga_term (vga_room s) = (if row (vga_term s) = 25 then term_scroll (vga_term s) else vga_term s)"
    "on_screen (unat (cursor_row (vga_room s))) (unat (cursor_col (vga_room s)))"
    "same_outside (vmem s) (vmem (vga_room s))"
  using assms same_outside_scroll [of s]
  by (auto simp: vga_room_def vga_scroll_refines [unfolded vga_consts, simplified] cursor_ok_def
      on_screen_def vga_consts)

lemma vga_newline_refines:
  assumes "unat (cursor_row s) < 25"
  shows "vga_term (vga_newline s) = term_newline (vga_term s)" "cursor_ok (vga_newline s)"
    "vmem (vga_newline s) = vmem s"
  using assms 
  by (simp_all add: vga_newline_def vga_term_def term_newline_def cursor_ok_def unat_u8_Suc cong: if_cong)

lemma vga_place_refines:
  assumes "on_screen (unat (cursor_row s)) (unat (cursor_col s))"
  shows "vga_term (vga_place c s) = term_write c (vga_term s)"
    "unat (cursor_col (vga_place c s)) = Suc (unat (cursor_col s))"
    "cursor_row (vga_place c s) = cursor_row s"
    "same_outside (vmem s) (vmem (vga_place c s))"
proof -
  have k: "unat (cursor_col s + 1) = Suc (unat (cursor_col s))"
    using assms by (intro unat_u8_Suc) (simp add: on_screen_def)
  show "vga_term (vga_place c s) = term_write c (vga_term s)"
    using assms vga_putc_at_cell [OF _ assms]
    by (auto simp: vga_place_def vga_term_def term_write_def term_cell_vga k intro!: ext)
  show "unat (cursor_col (vga_place c s)) = Suc (unat (cursor_col s))"
    "cursor_row (vga_place c s) = cursor_row s"
    by (simp_all add: vga_place_def k)
  show "same_outside (vmem s) (vmem (vga_place c s))"
    using same_outside_store16 [OF assms] by (simp add: vga_place_def vga_putc_at_vmem)
qed

lemma vga_putc_refines:
  assumes "cursor_ok s"
  shows "vga_term (vga_putc c s) = term_putc c (vga_term s)" "cursor_ok (vga_putc c s)"
    "same_outside (vmem s) (vmem (vga_putc c s))"
proof -
  define r where "r = vga_room s"
  define p where "p = vga_place c r"
  note room = vga_room_refines [OF assms, folded r_def]
  note place = vga_place_refines [OF room(2), of c, folded p_def]
  have r25: "unat (cursor_row r) < 25" and k80: "unat (cursor_col r) < 80"
    using room(2) by (simp_all add: on_screen_def)
  have p25: "unat (cursor_row p) < 25" using r25 place(3) by simp
  have col: "col (term_write c (vga_term r)) = unat (cursor_col p)"
    by (simp add: place(1) [symmetric])
  have "term_putc c (vga_term s) = (if c = 10 then term_newline (vga_term r)
      else if unat (cursor_col p) = 80 then term_newline (vga_term p) else vga_term p)"
    unfolding term_putc_def Let_def room(1) [symmetric] col place(1) ..
  moreover have e: "vga_putc c s = vga_move_cursor (if c = 10 then vga_newline r
      else if unat (cursor_col p) = 80 then vga_newline p else p)"
    unfolding vga_putc_split Let_def r_def [symmetric] p_def [symmetric] ..
  ultimately show "vga_term (vga_putc c s) = term_putc c (vga_term s)"
    using vga_newline_refines [OF r25] vga_newline_refines [OF p25] by simp
  have "cursor_ok p" if "unat (cursor_col p) \<noteq> 80"
    using that p25 k80 place(2) by (simp add: cursor_ok_def)
  then show "cursor_ok (vga_putc c s)"
    using vga_newline_refines(2) [OF r25] vga_newline_refines(2) [OF p25] unfolding e
    by (simp add: cursor_ok_def)
  show "same_outside (vmem s) (vmem (vga_putc c s))"
    using room(3) same_outside_trans [OF room(3) place(4)]
      vga_newline_refines(3) [OF r25] vga_newline_refines(3) [OF p25] unfolding e by simp
qed

lemma vga_puts_refines:
  assumes "cursor_ok s"
  shows "vga_term (vga_puts str s) = fold term_putc str (vga_term s) \<and> cursor_ok (vga_puts str s) \<and>
    same_outside (vmem s) (vmem (vga_puts str s))"
  using assms
proof (induction str arbitrary: s)
  case (Cons c str)
  note p = vga_putc_refines [OF Cons.prems, of c]
  from Cons.IH [OF p(2)] p(1,3) show ?case
    unfolding vga_puts_def by (auto intro: same_outside_trans)
qed (simp add: vga_puts_def)

lemma vga_clear_refines:
  "vga_term (vga_clear s) = term_blank (vga_attr s)" "cursor_ok (vga_clear s)"
  "same_outside (vmem s) (vmem (vga_clear s))"
proof -
  have e: "vmem (vga_clear s) x = (if unat (x - VGA_MEMORY) < 4000
      then blank_byte (vga_attr s) (unat (x - VGA_MEMORY)) else vmem s x)" for x
    by (simp add: vga_clear_def Let_def vga_consts kwmemset_at blank_byte_def)
  have c: "load16 (vmem (vga_clear s)) (cell_addr r k) = vga_cell 0x20 (vga_attr s)"
    if "on_screen r k" for r k
    using that by (intro blank_cell) (simp_all add: e cell_offset on_screen_def)
  show "cursor_ok (vga_clear s)"
    by (simp add: vga_clear_def Let_def cursor_ok_def)
  show "same_outside (vmem s) (vmem (vga_clear s))"
    by (simp add: same_outside_def e)
  show "vga_term (vga_clear s) = term_blank (vga_attr s)"
    by (auto simp: vga_term_def term_blank_def term_cell_vga c intro!: ext) (simp_all add: vga_clear_def Let_def)
qed

lemma vga_start_ok: "cursor_ok (vga_start m tr)"
  by (simp add: vga_start_def cursor_ok_def)

end
