(* ===== verification/Serial.thy ===== *)
theory Serial
  imports Ports
begin

text \<open>
  The serial port (\<open>drivers/serial.c\<close>). \<open>seriel_init\<close> programs the controller, sends a test byte
  in loop-back mode and panics when the byte does not come back; \<open>dev\<close> answers the reads.
\<close>

definition PORT :: u16 where "PORT = 0x3F8"

definition seriel_init :: "device \<Rightarrow> trace \<Rightarrow> trace res" where
  "seriel_init dev tr =
     (let tr = outb (PORT + 1) 0x00 tr;
          tr = outb (PORT + 3) 0x80 tr;
          tr = outb (PORT + 0) 0x03 tr;
          tr = outb (PORT + 1) 0x00 tr;
          tr = outb (PORT + 3) 0x03 tr;
          tr = outb (PORT + 2) 0xC7 tr;
          tr = outb (PORT + 4) 0x0B tr;
          tr = outb (PORT + 4) 0x1E tr;
          tr = outb (PORT + 0) 0xAE tr;
          (v, tr) = inb dev (PORT + 0) tr
      in if v \<noteq> 0xAE then Inl (Panic ''Seriel Not available'')
         else Inr (outb (PORT + 4) 0x0F tr))"

definition is_transmit_empty :: "device \<Rightarrow> trace \<Rightarrow> u8 \<times> trace" where
  "is_transmit_empty dev tr = (let (v, tr) = inb dev (PORT + 5) tr in (v AND 0x20, tr))"

definition seriel_putc :: "u8 \<Rightarrow> trace \<Rightarrow> trace" where
  "seriel_putc c tr = outb PORT c tr"

text \<open>A device that loops back answers a read of the data port with the last byte sent to it.\<close>

definition loopback :: "device" where
  "loopback tr p = last (sent p tr)"

lemma seriel_init_cases:
  "(\<exists>tr'. seriel_init dev tr = Inr tr' \<and>
      sent (PORT + 4) tr' = sent (PORT + 4) tr @ [0x0B, 0x1E, 0x0F] \<and>
      sent (PORT + 3) tr' = sent (PORT + 3) tr @ [0x80, 0x03]) \<or>
   seriel_init dev tr = Inl (Panic ''Seriel Not available'')"
  by (simp add: seriel_init_def Let_def inb_def split_def PORT_def)

lemma seriel_init_loopback: "\<exists>tr'. seriel_init loopback tr = Inr tr'"
  by (simp add: seriel_init_def Let_def inb_def split_def PORT_def loopback_def)

lemma seriel_putc_sent: "sent p (seriel_putc c tr) = sent p tr @ (if p = PORT then [c] else [])"
  by (simp add: seriel_putc_def)

end
