(* ===== verification/Kprintf.thy ===== *)
theory Kprintf
  imports Vga Serial
begin

text \<open>
  Formatted output (\<open>lib/kprintf.c\<close>) and \<open>kernel_panic\<close> (\<open>lib/panic.c\<close>).

  Every character goes to the screen and to the serial port, so the state is the console's. A C
  string is the list of its bytes before the terminator: reading at the end of the list gives the
  terminator, and reading past it is the fault \<open>OutOfBounds\<close>. The variable arguments are the 32-bit
  words the caller pushed: a 64-bit argument takes two, and reading past the last one is a fault.
  \<open>strs\<close> maps the address of a string argument to its bytes.

  The second half gives the output as a pure function of the format and the arguments, with
  numbers in the usual positional notation, and shows that \<open>kprintf\<close> prints exactly that.
\<close>

section \<open>Characters and numbers\<close>

definition bytes_of :: "string \<Rightarrow> u8 list" where
  "bytes_of str = map of_char str"

definition digits :: "u8 list" where
  "digits = bytes_of ''0123456789ABCDEF''"

definition put_c :: "u8 \<Rightarrow> vga \<Rightarrow> vga" where
  "put_c c s = (let s = vga_putc c s in s\<lparr>vga_io := seriel_putc c (vga_io s)\<rparr>)"

text \<open>The first loop of \<open>print_unsigned\<close>: digits into the 64-byte buffer, least significant first.
  \<open>digits\<close> has 16 characters and a terminator.\<close>

function unsigned_buf :: "u64 \<Rightarrow> u64 \<Rightarrow> u8 list \<Rightarrow> u8 list res" where
  "unsigned_buf n base buf =
     (if n > 0
      then (if base = 0 then Inl (Panic [])
            else if length buf \<ge> 64 \<or> unat (n mod base) > length digits then Inl OutOfBounds
            else unsigned_buf (n div base) base (buf @ [(digits @ [0]) ! unat (n mod base)]))
      else Inr buf)"
  by pat_completeness auto
termination
  by (relation "measure (\<lambda>(n, base, buf). 64 - length buf)") auto

definition print_unsigned :: "u64 \<Rightarrow> u64 \<Rightarrow> vga \<Rightarrow> (u32 \<times> vga) res" where
  "print_unsigned n base s =
     (if n = 0 then Inr (1, put_c 0x30 s)
      else bnd (unsigned_buf n base []) (\<lambda>buf. Inr (of_nat (length buf), fold put_c (rev buf) s)))"

definition print_signed :: "u64 \<Rightarrow> vga \<Rightarrow> (u32 \<times> vga) res" where
  "print_signed n s =
     (if sint n < 0
      then bnd (print_unsigned (- n) 10 (put_c 0x2D s)) (\<lambda>(k, s). Inr (1 + k, s))
      else print_unsigned n 10 s)"

fun print_str :: "u8 list \<Rightarrow> u32 \<Rightarrow> vga \<Rightarrow> u32 \<times> vga" where
  "print_str [] count s = (count, s)"
| "print_str (c # str) count s = (if c = 0 then (count, s) else print_str str (count + 1) (put_c c s))"

section \<open>kprintf\<close>

definition va_word :: "u32 list \<Rightarrow> (u32 \<times> u32 list) res" where
  "va_word args = (case args of [] \<Rightarrow> Inl OutOfBounds | w # args \<Rightarrow> Inr (w, args))"

definition va_long :: "u32 list \<Rightarrow> (u64 \<times> u32 list) res" where
  "va_long args = bnd (va_word args) (\<lambda>(lo, args). bnd (va_word args) (\<lambda>(hi, args).
     Inr (push_bit 32 (ucast hi) OR ucast lo, args)))"

definition peek :: "u8 list \<Rightarrow> u8" where
  "peek fmt = (case fmt of [] \<Rightarrow> 0 | c # _ \<Rightarrow> c)"

definition parse_flags :: "u8 list \<Rightarrow> bool \<times> bool \<times> u8 list" where
  "parse_flags fmt =
     (if peek fmt = 0x6C
      then (if peek (tl fmt) = 0x6C then (True, True, tl (tl fmt)) else (True, False, tl fmt))
      else (False, False, fmt))"

text \<open>The \<open>switch\<close>: what is added to \<open>count\<close>, the remaining arguments and the console.\<close>

definition conversion :: "(u32 \<Rightarrow> u8 list option) \<Rightarrow> bool \<Rightarrow> bool \<Rightarrow> u8 \<Rightarrow> u32 list \<Rightarrow> vga
    \<Rightarrow> (u32 \<times> u32 list \<times> vga) res" where
  "conversion strs long_check long_flag ch args s =
     (if ch = 0x64 then
        (if long_flag
         then bnd (va_long args) (\<lambda>(n, args).
                bnd (print_signed n s) (\<lambda>(k, s). Inr (k, args, s)))
         else bnd (va_word args) (\<lambda>(w, args).
                bnd (print_signed (scast w) s) (\<lambda>(k, s). Inr (k, args, s))))
      else if ch = 0x75 then
        (if long_flag
         then bnd (va_long args) (\<lambda>(n, args).
                bnd (print_unsigned n 10 s) (\<lambda>(k, s). Inr (k, args, s)))
         else bnd (va_word args) (\<lambda>(w, args).
                bnd (print_unsigned (ucast w) 10 s) (\<lambda>(k, s). Inr (k, args, s))))
      else if ch = 0x78 then
        (let s = put_c 0x78 (put_c 0x30 s)
         in if long_flag
            then bnd (va_long args) (\<lambda>(n, args).
                   bnd (print_unsigned n 16 s) (\<lambda>(k, s). Inr (2 + k, args, s)))
            else bnd (va_word args) (\<lambda>(w, args).
                   bnd (print_unsigned (ucast w) 16 s) (\<lambda>(k, s). Inr (2 + k, args, s))))
      else if ch = 0x63 then
        bnd (va_word args) (\<lambda>(w, args). Inr (1, args, put_c (ucast w) s))
      else if ch = 0x73 then
        bnd (va_word args) (\<lambda>(w, args).
          case strs w of None \<Rightarrow> Inl OutOfBounds
          | Some str \<Rightarrow> (let (k, s) = print_str str 0 s in Inr (k, args, s)))
      else if ch = 0x25 then Inr (1, args, put_c 0x25 s)
      else (let s = put_c 0x25 s;
                (k, s) = (if long_check then (1, put_c 0x6C s) else (0, s));
                s = put_c ch s
            in Inr (k + 2, args, s)))"

function kprintf_loop :: "(u32 \<Rightarrow> u8 list option) \<Rightarrow> u8 list \<Rightarrow> u32 list \<Rightarrow> u32 \<Rightarrow> vga
    \<Rightarrow> (u32 \<times> vga) res" where
  "kprintf_loop strs fmt args count s =
     (if peek fmt = 0 then Inr (count, s)
      else if peek fmt = 0x25
      then (let (long_check, long_flag, fmt) = parse_flags (tl fmt)
            in bnd (conversion strs long_check long_flag (peek fmt) args s) (\<lambda>(k, args, s).
                 if fmt = [] then Inl OutOfBounds
                 else kprintf_loop strs (tl fmt) args (count + k) s))
      else kprintf_loop strs (tl fmt) args (count + 1) (put_c (peek fmt) s))"
  by pat_completeness auto
termination
  by (relation "measure (\<lambda>(strs, fmt, args, count, s). length fmt)")
    (auto simp: peek_def parse_flags_def split: if_splits list.splits)

definition kprintf :: "(u32 \<Rightarrow> u8 list option) \<Rightarrow> u8 list \<Rightarrow> u32 list \<Rightarrow> vga \<Rightarrow> (u32 \<times> vga) res" where
  "kprintf strs fmt args s = kprintf_loop strs fmt args 0 s"

declare unsigned_buf.simps [simp del] kprintf_loop.simps [simp del]

text \<open>\<open>kernel_panic\<close> prints its message and halts; the result is the console at the halt.\<close>

definition kernel_panic :: "(u32 \<Rightarrow> u8 list option) \<Rightarrow> u32 \<Rightarrow> vga \<Rightarrow> vga res" where
  "kernel_panic strs err s =
     bnd (kprintf strs (10 # bytes_of ''*** KERNEL PANIC ***'' @ [10]) [] s) (\<lambda>(_, s).
     bnd (kprintf strs (bytes_of ''%s'' @ [10]) [err] s) (\<lambda>(_, s).
     bnd (kprintf strs (bytes_of ''System halted.'' @ [10]) [] s) (\<lambda>(_, s). Inr s)))"

section \<open>Numbers in positional notation\<close>

definition digit :: "nat \<Rightarrow> u8" where
  "digit d = (if d < 10 then 0x30 + of_nat d else 0x37 + of_nat d)"

fun radix :: "nat \<Rightarrow> nat \<Rightarrow> u8 list" where
  "radix b n = (if n < b \<or> b < 2 then [digit n] else radix b (n div b) @ [digit (n mod b)])"

declare radix.simps [simp del]

text \<open>Reading a number back: the value of a digit character, and of a list of them.\<close>

definition digit_val :: "u8 \<Rightarrow> nat" where
  "digit_val c = (if c < 0x3A then unat c - 0x30 else unat c - 0x37)"

definition read_num :: "nat \<Rightarrow> u8 list \<Rightarrow> nat" where
  "read_num b ds = foldl (\<lambda>a d. a * b + digit_val d) 0 ds"

lemma lt16_cases:
  fixes d :: nat
  assumes "d < 16"
  shows "d = 0 \<or> d = 1 \<or> d = 2 \<or> d = 3 \<or> d = 4 \<or> d = 5 \<or> d = 6 \<or> d = 7 \<or> d = 8 \<or>
    d = 9 \<or> d = 10 \<or> d = 11 \<or> d = 12 \<or> d = 13 \<or> d = 14 \<or> d = 15"
  using assms by presburger

lemma digit_val_digit: "d < 16 \<Longrightarrow> digit_val (digit d) = d"
  by (drule lt16_cases, elim disjE) (simp_all add: digit_val_def digit_def)

lemma length_digits [simp]: "length digits = 16"
  by (simp add: digits_def bytes_of_def)

lemma nth_digits: "d < 16 \<Longrightarrow> (digits @ [0]) ! d = digit d"
  by (drule lt16_cases, elim disjE) (simp_all add: digits_def bytes_of_def digit_def)

lemma read_num_radix:
  assumes "2 \<le> b" "b \<le> 16"
  shows "read_num b (radix b n) = n"
proof (induction n rule: less_induct)
  case (less n)
  show ?case
  proof (cases "n < b")
    case True
    then show ?thesis using assms by (simp add: radix.simps [of b n] read_num_def digit_val_digit)
  next
    case False
    then have "n div b < n" using assms by (intro div_less_dividend) auto
    moreover have "n mod b < 16" using assms by (meson mod_less_divisor less_le_trans not_numeral_le_zero not_le)
    ultimately show ?thesis
      using False assms less.IH [of "n div b"]
      by (simp add: radix.simps [of b n] read_num_def digit_val_digit)
  qed
qed

lemma radix_length:
  assumes "2 \<le> b" "n < b ^ k" "0 < k"
  shows "length (radix b n) \<le> k"
  using assms
proof (induction k arbitrary: n)
  case (Suc k)
  show ?case
  proof (cases "n < b")
    case False
    then have "k \<noteq> 0" "n div b < b ^ k"
      using Suc.prems by (auto simp: less_mult_imp_div_less mult.commute intro: gr0I)
    with Suc.IH [of "n div b"] Suc.prems False show ?thesis by (simp add: radix.simps [of b n])
  qed (simp add: radix.simps [of b n])
qed simp

lemma radix_Suc: "radix b n \<noteq> []"
  by (simp add: radix.simps [of b n])

lemma unsigned_buf_radix:
  assumes "2 \<le> unat b" "unat b \<le> 16" "n \<noteq> 0" "length buf + length (radix (unat b) (unat n)) \<le> 64"
  shows "unsigned_buf n b buf = Inr (buf @ rev (radix (unat b) (unat n)))"
  using assms
proof (induction n b buf rule: unsigned_buf.induct)
  case (1 n b buf)
  let ?d = "unat n mod unat b" and ?q = "unat n div unat b"
  have pos: "n > 0" "b \<noteq> 0" using "1.prems" by (auto simp: word_gt_0)
  have d: "?d < 16" using "1.prems"(1,2) mod_less_divisor [of "unat b" "unat n"] by linarith
  have len: "length buf < 64"
    using "1.prems"(4) radix_Suc [of "unat b" "unat n"] by (cases "radix (unat b) (unat n)") auto
  have step: "unsigned_buf n b buf = unsigned_buf (n div b) b (buf @ [digit ?d])"
    using pos len d by (subst unsigned_buf.simps) (simp add: unat_mod nth_digits)
  show ?case
  proof (cases "unat n < unat b")
    case True
    then have "n div b = 0" by (simp add: word_unat_eq_iff unat_div)
    with True show ?thesis
      unfolding step by (simp add: radix.simps [of "unat b" "unat n"] unsigned_buf.simps [of 0])
  next
    case False
    have r: "radix (unat b) (unat n) = radix (unat b) ?q @ [digit ?d]"
      using False "1.prems"(1) by (simp add: radix.simps [of "unat b" "unat n"])
    have "n div b \<noteq> 0"
      using False "1.prems"(1) by (simp add: word_unat_eq_iff unat_div div_eq_0_iff)
    moreover have "length (buf @ [digit ?d]) + length (radix (unat b) (unat (n div b))) \<le> 64"
      using "1.prems"(4) r by (simp add: unat_div)
    ultimately have "unsigned_buf (n div b) b (buf @ [digit ?d]) =
        Inr ((buf @ [digit ?d]) @ rev (radix (unat b) (unat (n div b))))"
      using "1.IH" [OF pos(1) pos(2)] len d "1.prems"(1,2) by (simp add: unat_mod nth_digits)
    then show ?thesis unfolding step r by (simp add: unat_div)
  qed
qed

lemma radix_u64_length:
  assumes "2 \<le> b"
  shows "length (radix b (unat (n :: u64))) \<le> 64"
proof (rule radix_length)
  have "unat n < 2 ^ 64" using unsigned_less [where 'a = nat, of n] by simp
  also have "(2 :: nat) ^ 64 \<le> b ^ 64" using assms by (intro power_mono) auto
  finally show "unat n < b ^ 64" .
qed (use assms in simp_all)

definition put_all :: "u8 list \<Rightarrow> vga \<Rightarrow> vga" where
  "put_all out s = fold put_c out s"

lemma put_all_simps [simp]:
  "put_all [] s = s" "put_all (c # out) s = put_all out (put_c c s)"
  "put_all (out @ out') s = put_all out' (put_all out s)"
  by (simp_all add: put_all_def)

lemma print_unsigned_radix:
  assumes "2 \<le> unat b" "unat b \<le> 16"
  shows "print_unsigned n b s =
    Inr (of_nat (length (radix (unat b) (unat n))), put_all (radix (unat b) (unat n)) s)"
proof (cases "n = 0")
  case True
  then show ?thesis
    using assms by (simp add: print_unsigned_def radix.simps [of _ 0] digit_def)
next
  case False
  then show ?thesis
    using unsigned_buf_radix [OF assms False, of "[]"] radix_u64_length [OF assms(1), of n]
    by (simp add: print_unsigned_def put_all_def)
qed

definition decimal :: "int \<Rightarrow> u8 list" where
  "decimal i = (if i < 0 then 0x2D # radix 10 (nat (- i)) else radix 10 (nat i))"

lemma unat_word_of_int:
  assumes "0 \<le> k" "k < 2 ^ 64"
  shows "unat (word_of_int k :: u64) = nat k"
proof -
  have "uint (word_of_int k :: u64) = k"
    using assms by (simp add: unsigned_of_int take_bit_int_eq_self)
  moreover have "unat (word_of_int k :: u64) = nat (uint (word_of_int k :: u64))"
    by (rule unat_eq_nat_uint)
  ultimately show ?thesis by simp
qed

lemma unat_nonneg: "0 \<le> sint (n :: u64) \<Longrightarrow> unat n = nat (sint n)"
  using unat_word_of_int [of "sint n"] sint_lt [of n] by simp

lemma unat_uminus_neg:
  assumes "sint (n :: u64) < 0"
  shows "unat (- n) = nat (- sint n)"
proof -
  have "- (2 ^ 63) \<le> sint n" using sint_ge [of n] by simp
  then have "- sint n < 2 ^ 64" by simp
  moreover have "word_of_int (- sint n) = - n" by simp
  ultimately show ?thesis
    using assms unat_word_of_int [of "- sint n"] by simp
qed

lemma print_signed_decimal:
  "print_signed n s = Inr (of_nat (length (decimal (sint n))), put_all (decimal (sint n)) s)"
  by (simp add: print_signed_def decimal_def print_unsigned_radix unat_uminus_neg unat_nonneg)

section \<open>The output of a format\<close>

definition signed_arg :: "bool \<Rightarrow> u32 list \<Rightarrow> (int \<times> u32 list) res" where
  "signed_arg long args =
     (if long then bnd (va_long args) (\<lambda>(n, args). Inr (sint n, args))
      else bnd (va_word args) (\<lambda>(w, args). Inr (sint w, args)))"

definition unsigned_arg :: "bool \<Rightarrow> u32 list \<Rightarrow> (nat \<times> u32 list) res" where
  "unsigned_arg long args =
     (if long then bnd (va_long args) (\<lambda>(n, args). Inr (unat n, args))
      else bnd (va_word args) (\<lambda>(w, args). Inr (unat w, args)))"

definition directive :: "(u32 \<Rightarrow> u8 list option) \<Rightarrow> bool \<Rightarrow> bool \<Rightarrow> u8 \<Rightarrow> u32 list
    \<Rightarrow> (u8 list \<times> u32 list) res" where
  "directive strs l ll ch args =
     (if ch = 0x64 then bnd (signed_arg ll args) (\<lambda>(i, args). Inr (decimal i, args))
      else if ch = 0x75 then bnd (unsigned_arg ll args) (\<lambda>(n, args). Inr (radix 10 n, args))
      else if ch = 0x78 then
        bnd (unsigned_arg ll args) (\<lambda>(n, args). Inr (bytes_of ''0x'' @ radix 16 n, args))
      else if ch = 0x63 then bnd (va_word args) (\<lambda>(w, args). Inr ([ucast w], args))
      else if ch = 0x73 then bnd (va_word args) (\<lambda>(w, args).
        case strs w of None \<Rightarrow> Inl OutOfBounds | Some str \<Rightarrow> Inr (takeWhile (\<lambda>c. c \<noteq> 0) str, args))
      else if ch = 0x25 then Inr ([0x25], args)
      else Inr (0x25 # (if l then [0x6C] else []) @ [ch], args))"

function format :: "(u32 \<Rightarrow> u8 list option) \<Rightarrow> u8 list \<Rightarrow> u32 list \<Rightarrow> u8 list res" where
  "format strs fmt args =
     (if peek fmt = 0 then Inr []
      else if peek fmt = 0x25
      then (let (l, ll, rest) = parse_flags (tl fmt)
            in bnd (directive strs l ll (peek rest) args) (\<lambda>(out, args).
                 if rest = [] then Inl OutOfBounds
                 else bnd (format strs (tl rest) args) (\<lambda>out'. Inr (out @ out'))))
      else bnd (format strs (tl fmt) args) (\<lambda>out. Inr (peek fmt # out)))"
  by pat_completeness auto
termination
  by (relation "measure (\<lambda>(strs, fmt, args). length fmt)")
    (auto simp: peek_def parse_flags_def split: if_splits list.splits)

declare format.simps [simp del]

lemma print_str_spec:
  "print_str str count s = (count + of_nat (length (takeWhile (\<lambda>c. c \<noteq> 0) str)),
     put_all (takeWhile (\<lambda>c. c \<noteq> 0) str) s)"
  by (induction str arbitrary: count s) (simp_all add: ac_simps)

lemma sint_scast: "sint (scast (w :: u32) :: u64) = sint w"
proof -
  have "- (2 ^ 63) \<le> sint w" "sint w < 2 ^ 63"
    using sint_ge [of w] sint_lt [of w] by simp_all
  then show ?thesis by (simp add: signed_scast_eq signed_take_bit_int_eq_self)
qed

lemma unat_ucast64: "unat (ucast (w :: u32) :: u64) = unat w"
  using unsigned_less [where 'a = nat, of w]
  by (simp add: unsigned_ucast_eq take_bit_nat_eq_self)

lemma conversion_spec:
  "conversion strs l ll ch args s = bnd (directive strs l ll ch args)
     (\<lambda>(out, args). Inr (of_nat (length out), args, put_all out s))"
proof -
  have x: "bytes_of ''0x'' = [0x30, 0x78]" by (simp add: bytes_of_def)
  show ?thesis
    unfolding conversion_def directive_def signed_arg_def unsigned_arg_def
    by (auto simp: bnd_def print_signed_decimal print_unsigned_radix print_str_spec x sint_scast unat_ucast64
        split: sum.splits prod.splits option.splits)
qed

lemma kprintf_loop_format:
  "kprintf_loop strs fmt args count s = bnd (format strs fmt args)
     (\<lambda>out. Inr (count + of_nat (length out), put_all out s))"
proof (induction strs fmt args count s rule: kprintf_loop.induct)
  case (1 strs fmt args count s)
  obtain l ll rest where f: "parse_flags (tl fmt) = (l, ll, rest)" by (cases "parse_flags (tl fmt)") auto
  consider "peek fmt = 0" | "peek fmt = 0x25" | "peek fmt \<noteq> 0" "peek fmt \<noteq> 0x25" by blast
  then show ?case
  proof cases
    case 1
    then show ?thesis by (simp add: kprintf_loop.simps [of strs fmt] format.simps [of strs fmt])
  next
    case 2
    show ?thesis
    proof (cases "directive strs l ll (peek rest) args")
      case (Inl e)
      with 2 f show ?thesis
        by (simp add: kprintf_loop.simps [of strs fmt] format.simps [of strs fmt] conversion_spec)
    next
      case (Inr r)
      obtain out args' where r: "r = (out, args')" by (cases r)
      have "kprintf_loop strs (tl rest) args' (count + of_nat (length out)) (put_all out s) =
        bnd (format strs (tl rest) args') (\<lambda>out'. Inr (count + of_nat (length out) + of_nat (length out'),
          put_all out' (put_all out s)))" if "rest \<noteq> []"
        using "1.IH"(1) that 2 f Inr r by (simp add: conversion_spec)
      with 2 f Inr r show ?thesis
        by (simp add: kprintf_loop.simps [of strs fmt] format.simps [of strs fmt] conversion_spec
            bnd_assoc ac_simps)
    qed
  next
    case 3
    then show ?thesis
      using "1.IH"(2) by (simp add: kprintf_loop.simps [of strs fmt] format.simps [of strs fmt] bnd_assoc ac_simps)
  qed
qed

lemma kprintf_format:
  "kprintf strs fmt args s = bnd (format strs fmt args)
     (\<lambda>out. Inr (of_nat (length out), put_all out s))"
  by (simp add: kprintf_def kprintf_loop_format)

section \<open>What reaches the devices\<close>

lemma vga_putc_serial: "p \<noteq> 0x3D4 \<Longrightarrow> p \<noteq> 0x3D5 \<Longrightarrow> sent p (vga_io (vga_putc c s)) = sent p (vga_io s)"
  by (simp add: vga_putc_split Let_def vga_move_cursor_def vga_room_def vga_newline_def vga_place_def)

lemma put_c_spec:
  assumes "cursor_ok s"
  shows "vga_term (put_c c s) = term_putc c (vga_term s)" "cursor_ok (put_c c s)"
    "same_outside (vmem s) (vmem (put_c c s))"
    "sent PORT (vga_io (put_c c s)) = sent PORT (vga_io s) @ [c]"
proof -
  have "vga_term (put_c c s) = vga_term (vga_putc c s)" "cursor_ok (put_c c s) = cursor_ok (vga_putc c s)"
    "vmem (put_c c s) = vmem (vga_putc c s)"
    by (simp_all add: put_c_def Let_def vga_term_def cursor_ok_def cong: if_cong)
  with vga_putc_refines [OF assms, of c]
  show "vga_term (put_c c s) = term_putc c (vga_term s)" "cursor_ok (put_c c s)"
    "same_outside (vmem s) (vmem (put_c c s))"
    by simp_all
  show "sent PORT (vga_io (put_c c s)) = sent PORT (vga_io s) @ [c]"
    by (simp add: put_c_def Let_def seriel_putc_sent vga_putc_serial PORT_def)
qed

lemma put_all_spec:
  assumes "cursor_ok s"
  shows "vga_term (put_all out s) = fold term_putc out (vga_term s) \<and> cursor_ok (put_all out s) \<and>
    same_outside (vmem s) (vmem (put_all out s)) \<and>
    sent PORT (vga_io (put_all out s)) = sent PORT (vga_io s) @ out"
  using assms
proof (induction out arbitrary: s)
  case (Cons c out)
  note p = put_c_spec [OF Cons.prems, of c]
  from Cons.IH [OF p(2)] p show ?case
    by (auto intro: same_outside_trans)
qed simp

section \<open>Leading digits\<close>

lemma digit_eq_zero: "d < 16 \<Longrightarrow> digit d = 0x30 \<longleftrightarrow> d = 0"
  by (drule lt16_cases, elim disjE) (simp_all add: digit_def)

lemma hd_radix:
  assumes "2 \<le> b" "b \<le> 16"
  shows "hd (radix b n) = 0x30 \<longleftrightarrow> n = 0"
proof (induction n rule: less_induct)
  case (less n)
  show ?case
  proof (cases "n < b")
    case True
    then show ?thesis using assms by (simp add: radix.simps [of b n] digit_eq_zero)
  next
    case False
    then have "n div b < n" "n div b \<noteq> 0" using assms by (auto simp: div_eq_0_iff)
    with False assms less.IH [of "n div b"] radix_Suc [of b "n div b"] show ?thesis
      by (simp add: radix.simps [of b n])
  qed
qed

end
