(* ===== verification/Pic.thy ===== *)
theory Pic
  imports Ports
begin

text \<open>
  The interrupt controller (\<open>drivers/pic.c\<close>): two cascaded 8259 controllers.

  The driver's own state is the variable \<open>pic_mask\<close>; everything else it does is a sequence of
  port accesses. \<open>(1u << irq)\<close> is computed in 32 bits and stored back into the 16-bit mask.
\<close>

section \<open>Constants\<close>

definition IRQ_BASE :: u8 where "IRQ_BASE = 0x20"
definition PIC1_COMMAND :: u16 where "PIC1_COMMAND = 0x20"
definition PIC1_DATA :: u16 where "PIC1_DATA = 0x21"
definition PIC2_COMMAND :: u16 where "PIC2_COMMAND = 0xA0"
definition PIC2_DATA :: u16 where "PIC2_DATA = 0xA1"
definition ICW1 :: u8 where "ICW1 = 0x11"
definition ICW2_MASTER :: u8 where "ICW2_MASTER = IRQ_BASE"
definition ICW2_SLAVE :: u8 where "ICW2_SLAVE = IRQ_BASE + 8"
definition ICW3_MASTER :: u8 where "ICW3_MASTER = 0x04"
definition ICW3_SLAVE :: u8 where "ICW3_SLAVE = 0x02"
definition ICW4 :: u8 where "ICW4 = 0x01"
definition OCW3_IRR :: u8 where "OCW3_IRR = 0x0A"
definition OCW3_ISR :: u8 where "OCW3_ISR = 0x0B"

lemmas pic_ports = PIC1_COMMAND_def PIC1_DATA_def PIC2_COMMAND_def PIC2_DATA_def

lemmas pic_words = ICW1_def ICW2_MASTER_def ICW2_SLAVE_def ICW3_MASTER_def ICW3_SLAVE_def ICW4_def
  OCW3_IRR_def OCW3_ISR_def IRQ_BASE_def

section \<open>The driver\<close>

record pic =
  pic_mask :: u16
  pic_io :: trace

definition pic_reset :: "trace \<Rightarrow> pic" where
  "pic_reset tr = \<lparr>pic_mask = 0xFFFF, pic_io = tr\<rparr>"

text \<open>\<open>(inb(hi) << 8) | inb(lo)\<close>: C leaves the order of the two reads open; the model reads the
  slave first, as the expression is written.\<close>

definition read_pair :: "device \<Rightarrow> u16 \<Rightarrow> u16 \<Rightarrow> trace \<Rightarrow> u16 \<times> trace" where
  "read_pair dev hi lo tr =
     (let (h, tr) = inb dev hi tr; (l, tr) = inb dev lo tr
      in (push_bit 8 (ucast h) OR ucast l, tr))"

definition init_pic :: "device \<Rightarrow> pic \<Rightarrow> pic" where
  "init_pic dev s =
     (let tr = pic_io s;
          tr = outb PIC1_COMMAND ICW1 tr;
          tr = outb PIC2_COMMAND ICW1 tr;
          tr = io_wait tr;
          tr = outb PIC1_DATA ICW2_MASTER tr;
          tr = outb PIC2_DATA ICW2_SLAVE tr;
          tr = io_wait tr;
          tr = outb PIC1_DATA ICW3_MASTER tr;
          tr = outb PIC2_DATA ICW3_SLAVE tr;
          tr = io_wait tr;
          tr = outb PIC1_DATA ICW4 tr;
          tr = outb PIC2_DATA ICW4 tr;
          tr = io_wait tr;
          (msk, tr) = read_pair dev PIC2_DATA PIC1_DATA tr
      in \<lparr>pic_mask = msk, pic_io = tr\<rparr>)"

definition pic_read_isr :: "device \<Rightarrow> trace \<Rightarrow> u16 \<times> trace" where
  "pic_read_isr dev tr =
     (let tr = outb PIC1_COMMAND OCW3_ISR tr;
          tr = outb PIC2_COMMAND OCW3_ISR tr;
          tr = io_wait tr
      in read_pair dev PIC2_COMMAND PIC1_COMMAND tr)"

definition pic_read_irr :: "device \<Rightarrow> trace \<Rightarrow> u16 \<times> trace" where
  "pic_read_irr dev tr =
     (let tr = outb PIC1_COMMAND OCW3_IRR tr;
          tr = outb PIC2_COMMAND OCW3_IRR tr;
          tr = io_wait tr
      in read_pair dev PIC2_COMMAND PIC1_COMMAND tr)"

definition send_eois :: "u8 \<Rightarrow> trace \<Rightarrow> trace" where
  "send_eois n tr =
     (let tr = (if n \<ge> 8 then outb PIC2_COMMAND 0x20 tr else tr)
      in outb PIC1_COMMAND 0x20 tr)"

definition pic_send_eoi :: "device \<Rightarrow> u8 \<Rightarrow> trace \<Rightarrow> trace" where
  "pic_send_eoi dev n tr =
     (if n = 7 \<or> n = 15
      then (let (isr, tr) = pic_read_isr dev tr
            in if (ucast isr :: u32) AND push_bit (unat n) 1 = 0
               then (if n \<ge> 8 then outb PIC1_COMMAND 0x20 tr else tr)
               else send_eois n tr)
      else send_eois n tr)"

definition pic_write_mask :: "pic \<Rightarrow> pic" where
  "pic_write_mask s =
     (let b = ucast (ucast (pic_mask s) :: u8) :: u32;
          tr = outb PIC1_DATA (ucast (b AND 0xFF)) (pic_io s);
          tr = outb PIC2_DATA (ucast (drop_bit 8 b)) tr
      in s\<lparr>pic_io := tr\<rparr>)"

definition pic_get_mask :: "pic \<Rightarrow> u16" where
  "pic_get_mask s = pic_mask s"

definition pic_mask_irq :: "u8 \<Rightarrow> pic \<Rightarrow> pic" where
  "pic_mask_irq irq s =
     pic_write_mask (s\<lparr>pic_mask := ucast (ucast (pic_mask s) OR push_bit (unat irq) 1 :: u32)\<rparr>)"

definition pic_unmmask_rqp :: "u8 \<Rightarrow> pic \<Rightarrow> pic" where
  "pic_unmmask_rqp irq s =
     (let msk = ucast (ucast (pic_mask s) AND NOT (push_bit (unat irq) 1) :: u32);
          msk = (if msk AND 0xFF00 \<noteq> 0xFF00
                  then ucast (ucast msk AND NOT (push_bit 2 1) :: u32) else msk)
      in pic_write_mask (s\<lparr>pic_mask := msk\<rparr>))"

lemma byte_mask: "(0xFF :: 'a::len word) = mask 8"
  by (simp add: mask_eq_exp_minus_1)

section \<open>Initialisation words and masks on the wire\<close>

lemma read_pair_sent [simp]: "sent p (snd (read_pair dev hi lo tr)) = sent p tr"
  by (simp add: read_pair_def Let_def inb_def)

lemma init_pic_sent:
  "sent PIC1_COMMAND (pic_io (init_pic dev s)) = sent PIC1_COMMAND (pic_io s) @ [ICW1]"
  "sent PIC2_COMMAND (pic_io (init_pic dev s)) = sent PIC2_COMMAND (pic_io s) @ [ICW1]"
  "sent PIC1_DATA (pic_io (init_pic dev s)) =
     sent PIC1_DATA (pic_io s) @ [ICW2_MASTER, ICW3_MASTER, ICW4]"
  "sent PIC2_DATA (pic_io (init_pic dev s)) =
     sent PIC2_DATA (pic_io s) @ [ICW2_SLAVE, ICW3_SLAVE, ICW4]"
  by (simp_all add: init_pic_def Let_def split_def pic_ports)

lemma pic_write_mask_sent:
  "sent PIC1_DATA (pic_io (pic_write_mask s)) = sent PIC1_DATA (pic_io s) @ [ucast (pic_mask s)]"
  "sent PIC2_DATA (pic_io (pic_write_mask s)) = sent PIC2_DATA (pic_io s) @ [0]"
  "pic_mask (pic_write_mask s) = pic_mask s"
proof -
  have "ucast ((ucast (ucast (pic_mask s) :: u8) :: u32) AND 0xFF) = (ucast (pic_mask s) :: u8)"
    by (rule bit_word_eqI) (auto simp: bit_simps byte_mask)
  moreover have "ucast (drop_bit 8 (ucast (ucast (pic_mask s) :: u8) :: u32)) = (0 :: u8)"
    by (rule bit_word_eqI) (auto simp: bit_simps)
  ultimately show
    "sent PIC1_DATA (pic_io (pic_write_mask s)) = sent PIC1_DATA (pic_io s) @ [ucast (pic_mask s)]"
    "sent PIC2_DATA (pic_io (pic_write_mask s)) = sent PIC2_DATA (pic_io s) @ [0]"
    "pic_mask (pic_write_mask s) = pic_mask s"
    by (simp_all add: pic_write_mask_def Let_def pic_ports)
qed

lemma pic_mask_irq_mask: "pic_mask (pic_mask_irq irq s) = pic_mask s OR push_bit (unat irq) 1"
  unfolding pic_mask_irq_def pic_write_mask_sent
  by (simp, rule bit_word_eqI) (auto simp: bit_simps)

lemma pic_unmask_irq_mask:
  "pic_mask (pic_unmmask_rqp irq s) =
    (let m = pic_mask s AND NOT (push_bit (unat irq) 1)
     in if m AND 0xFF00 = 0xFF00 then m else m AND NOT 4)"
proof -
  have n: "ucast (ucast m AND NOT (push_bit k 1) :: u32) = m AND NOT (push_bit k 1)" for m :: u16 and k
    by (rule bit_word_eqI) (auto simp: bit_simps)
  show ?thesis
    unfolding pic_unmmask_rqp_def Let_def pic_write_mask_sent n by simp
qed

text \<open>The mask registers of the two controllers, from the bytes they were last sent.\<close>

definition hw_mask :: "trace \<Rightarrow> u16" where
  "hw_mask tr = push_bit 8 (ucast (last (sent PIC2_DATA tr))) OR ucast (last (sent PIC1_DATA tr))"

lemma hw_mask_write: "hw_mask (pic_io (pic_write_mask s)) = pic_mask s AND 0xFF"
  unfolding hw_mask_def pic_write_mask_sent
  by (simp, rule bit_word_eqI) (auto simp: bit_simps byte_mask)

lemma hw_mask_mask_irq: "hw_mask (pic_io (pic_mask_irq irq s)) = pic_mask (pic_mask_irq irq s) AND 0xFF"
  unfolding pic_mask_irq_def hw_mask_write pic_write_mask_sent ..

lemma hw_mask_unmask_irq:
  "hw_mask (pic_io (pic_unmmask_rqp irq s)) = pic_mask (pic_unmmask_rqp irq s) AND 0xFF"
  unfolding pic_unmmask_rqp_def Let_def hw_mask_write pic_write_mask_sent ..

section \<open>End of interrupt\<close>

text \<open>
  What a controller answers (the 8259 data sheet): a read of its command port returns its in-service
  register once the last command it was sent is the one that selects that register, \<open>0x0B\<close>.
  The register keeps its value as long as no other command is sent. The master listens on port
  \<open>0x20\<close> and serves lines 0 to 7, the slave on port \<open>0xA0\<close> and serves lines 8 to 15.
\<close>

definition reports_isr :: "device \<Rightarrow> trace \<Rightarrow> u16 \<Rightarrow> u8 \<Rightarrow> bool" where
  "reports_isr dev tr p isr \<longleftrightarrow>
     (\<forall>ext. sent p ext \<noteq> [] \<and> set (sent p ext) \<subseteq> {0x0B} \<longrightarrow> dev (tr @ ext) p = isr)"

definition in_service :: "u8 \<Rightarrow> u8 \<Rightarrow> nat \<Rightarrow> bool" where
  "in_service master slave line = (if line < 8 then bit master line else bit slave (line - 8))"

lemma pic_read_isr_sent:
  "sent PIC1_COMMAND (snd (pic_read_isr dev tr)) = sent PIC1_COMMAND tr @ [OCW3_ISR]"
  "sent PIC2_COMMAND (snd (pic_read_isr dev tr)) = sent PIC2_COMMAND tr @ [OCW3_ISR]"
  by (simp_all add: pic_read_isr_def Let_def pic_ports)

lemma send_eois_sent:
  "sent PIC1_COMMAND (send_eois n tr) = sent PIC1_COMMAND tr @ [0x20]"
  "sent PIC2_COMMAND (send_eois n tr) = sent PIC2_COMMAND tr @ (if n \<ge> 8 then [0x20] else [])"
  by (simp_all add: send_eois_def Let_def pic_ports)

lemma and_push_bit_zero: "(ucast (w :: u16) :: u32) AND push_bit k 1 = 0 \<longleftrightarrow> \<not> bit w k"
proof -
  have e: "bit ((ucast w :: u32) AND push_bit k 1) n \<longleftrightarrow> n = k \<and> bit w k" for n
    using bit_imp_le_length [of w k] by (auto simp: bit_simps)
  show ?thesis
  proof
    assume a: "(ucast w :: u32) AND push_bit k 1 = 0"
    show "\<not> bit w k"
      using e [of k] unfolding a by simp
  next
    assume "\<not> bit w k"
    then show "(ucast w :: u32) AND push_bit k 1 = 0"
      by (intro bit_word_eqI) (simp only: e, simp)
  qed
qed

text \<open>A request on the last line of a controller that is not in service is spurious.\<close>

definition spurious :: "u8 \<Rightarrow> u8 \<Rightarrow> u8 \<Rightarrow> bool" where
  "spurious master slave n \<longleftrightarrow> (n = 7 \<or> n = 15) \<and> \<not> in_service master slave (unat n)"

definition isr_query :: "u8 \<Rightarrow> u8 list" where
  "isr_query n = (if n = 7 \<or> n = 15 then [OCW3_ISR] else [])"

text \<open>The driver puts the two registers together, the slave's in the high byte.\<close>

lemma pic_read_isr_value:
  assumes "reports_isr dev tr 0x20 master" and "reports_isr dev tr 0xA0 slave"
  shows "fst (pic_read_isr dev tr) = push_bit 8 (ucast slave) OR ucast master"
proof -
  let ?e = "[Out 0x20 0x0B, Out 0xA0 0x0B, Out 0x80 0]"
  have "dev (tr @ ?e) 0xA0 = slave" using assms(2) unfolding reports_isr_def by (elim allE [of _ ?e]) simp
  moreover have "dev (tr @ (?e @ [In 0xA0 slave])) 0x20 = master"
    using assms(1) unfolding reports_isr_def by (elim allE [of _ "?e @ [In 0xA0 slave]"]) simp
  ultimately show ?thesis
    by (simp add: pic_read_isr_def read_pair_def inb_def outb_def io_wait_def pic_ports OCW3_ISR_def Let_def)
qed

lemma bit_isr_pair:
  assumes "k < 16"
  shows "bit (push_bit 8 (ucast slave) OR ucast master :: u16) k = in_service master slave k"
proof (cases "k < 8")
  case False
  with bit_imp_le_length [of master k] have "\<not> bit master k" by auto
  with False assms show ?thesis by (auto simp: in_service_def bit_simps)
qed (simp add: in_service_def bit_simps)

lemma pic_send_eoi_sent:
  assumes "reports_isr dev tr 0x20 master" and "reports_isr dev tr 0xA0 slave"
  shows "sent PIC1_COMMAND (pic_send_eoi dev n tr) =
     sent PIC1_COMMAND tr @ isr_query n @ (if spurious master slave n \<and> n = 7 then [] else [0x20])"
  and "sent PIC2_COMMAND (pic_send_eoi dev n tr) =
     sent PIC2_COMMAND tr @ isr_query n @ (if n \<ge> 8 \<and> \<not> spurious master slave n then [0x20] else [])"
  using bit_isr_pair [of 7 slave master] bit_isr_pair [of 15 slave master]
  unfolding pic_send_eoi_def split_def Let_def and_push_bit_zero pic_read_isr_value [OF assms]
  by (auto simp: spurious_def isr_query_def pic_read_isr_sent send_eois_sent)
    (auto simp: pic_read_isr_sent pic_ports)

end
