(* ===== verification/Isr.thy ===== *)
theory Isr
  imports Kprintf Pic
begin

text \<open>
  Interrupt dispatch (\<open>interrupts/isr.c\<close>) and the timer driver (\<open>drivers/pit.c\<close>).

  A handler is known by the address of its function, and NULL is 0; running the function at an
  address is the argument \<open>call\<close>, because a handler may be any routine of the kernel. A handler
  returns a new kernel state, or the kernel has halted after printing a panic report, or a fault
  happened on the way. \<open>addr\<close> gives the address of a string constant, \<open>strs\<close> the bytes at an
  address.
\<close>

section \<open>Dispatch\<close>

record register_t =
  r_ds :: u32
  r_edi :: u32
  r_esi :: u32
  r_ebp :: u32
  r_esp :: u32
  r_ebx :: u32
  r_edx :: u32
  r_ecx :: u32
  r_eax :: u32
  r_interrupt :: u32
  r_error_code :: u32
  r_eip :: u32
  r_cs :: u32
  r_eflags :: u32
  r_useresp :: u32
  r_ss :: u32

record kern =
  con :: vga
  interrupt_handlers :: "u8 \<Rightarrow> u32"

datatype 'k outcome = Return 'k | Halt vga | Crash fault

definition g_Exceptions :: "string list" where
  "g_Exceptions =
     [''Divide by zero error'', ''Debug'', ''Non-maskable Interrupt'', ''Breakpoint'', ''Overflow'',
      ''Bound Range Exceeded'', ''Invalid Opcode'', ''Device Not Available'', ''Double Fault'',
      ''Coprocessor Segment Overrun'', ''Invalid TSS'', ''Segment Not Present'',
      ''Stack-Segment Fault'', ''General Protection Fault'', ''Page Fault'', '''',
      ''x87 Floating-Point Exception'', ''Alignment Check'', ''Machine Check'',
      ''SIMD Floating-Point Exception'', ''Virtualization Exception'',
      ''Control Protection Exception '', '''', '''', '''', '''', '''', '''',
      ''Hypervisor Injection Exception'', ''VMM Communication Exception'', ''Security Exception'', '''']"

definition register_interrupt_handler :: "u8 \<Rightarrow> u32 \<Rightarrow> 'a kern_scheme \<Rightarrow> 'a kern_scheme" where
  "register_interrupt_handler n handler k =
     k\<lparr>interrupt_handlers := (interrupt_handlers k)(n := handler)\<rparr>"

definition print :: "(u32 \<Rightarrow> u8 list option) \<Rightarrow> u8 list \<Rightarrow> u32 list \<Rightarrow> vga \<Rightarrow> vga res" where
  "print strs fmt args s = bnd (kprintf strs fmt args s) (\<lambda>(_, s). Inr s)"

text \<open>The report of an interrupt nobody handles: the two header lines, the registers, the panic.\<close>

definition report_interrupt :: "(u32 \<Rightarrow> u8 list option) \<Rightarrow> (string \<Rightarrow> u32) \<Rightarrow> register_t \<Rightarrow> vga \<Rightarrow> vga res" where
  "report_interrupt strs addr regs s =
     (let vec = ucast (r_interrupt regs) :: u8
      in bnd (print strs [10, 10] [] s) (\<lambda>s.
         bnd (if vec < 32
              then print strs (bytes_of ''Unhandled exception %d %s'' @ [10])
                     [ucast vec, addr (g_Exceptions ! unat vec)] s
              else print strs (bytes_of ''Unhandled interrupt: %d'' @ [10]) [ucast vec] s) (\<lambda>s.
         bnd (print strs (bytes_of ''eax=%x ebx=%x ecx=%x edx=%x esi=%x edi=%x'' @ [10])
                [r_eax regs, r_ebx regs, r_ecx regs, r_edx regs, r_esi regs, r_edi regs] s) (\<lambda>s.
         bnd (print strs (bytes_of ''eip=%x cs=%x eflags=%x'' @ [10])
                [r_eip regs, r_cs regs, r_eflags regs] s) (\<lambda>s.
         bnd (print strs (bytes_of ''interrupt=%d error_code=%x'' @ [10])
                [ucast vec, r_error_code regs] s) (\<lambda>s.
         kernel_panic strs (addr '''') s))))))"

definition interrupt_handler :: "(u32 \<Rightarrow> u8 list option) \<Rightarrow> (string \<Rightarrow> u32)
    \<Rightarrow> (u32 \<Rightarrow> register_t \<Rightarrow> 'a kern_scheme \<Rightarrow> 'a kern_scheme outcome)
    \<Rightarrow> register_t \<Rightarrow> 'a kern_scheme \<Rightarrow> 'a kern_scheme outcome" where
  "interrupt_handler strs addr call regs k =
     (let vec = ucast (r_interrupt regs) :: u8
      in if interrupt_handlers k vec \<noteq> 0
         then call (interrupt_handlers k vec) regs k
         else (case report_interrupt strs addr regs (con k) of Inl e \<Rightarrow> Crash e | Inr s \<Rightarrow> Halt s))"

section \<open>The timer\<close>

record pit = kern +
  timer_callback :: u32

definition PIT_CRYSTAL32 :: u32 where "PIT_CRYSTAL32 = 1193182"

definition pit_irq_handler :: "device \<Rightarrow> (u32 \<Rightarrow> 'a pit_scheme \<Rightarrow> 'a pit_scheme outcome)
    \<Rightarrow> register_t \<Rightarrow> 'a pit_scheme \<Rightarrow> 'a pit_scheme outcome" where
  "pit_irq_handler dev call regs k =
     (let k = k\<lparr>con := (con k)\<lparr>vga_io := pic_send_eoi dev 0 (vga_io (con k))\<rparr>\<rparr>
      in if timer_callback k \<noteq> 0 then call (timer_callback k) k else Return k)"

text \<open>\<open>irq_entry\<close> is the address of \<open>pit_irq_handler\<close>; dividing by zero traps into the panic of
  \<open>interrupt_handler\<close>.\<close>

definition init_pit :: "u32 \<Rightarrow> u32 \<Rightarrow> u32 \<Rightarrow> 'a pit_scheme \<Rightarrow> (u16 \<times> 'a pit_scheme) res" where
  "init_pit irq_entry hz callback k =
     (if hz = 0 then Inl (Panic [])
      else (let divisor = ucast (PIT_CRYSTAL32 div hz) :: u16;
                tr = outb 0x43 0x34 (vga_io (con k));
                tr = outb 0x40 (ucast (divisor AND 0xFF)) tr;
                tr = outb 0x40 (ucast (drop_bit 8 divisor)) tr;
                k = k\<lparr>con := (con k)\<lparr>vga_io := tr\<rparr>, timer_callback := callback\<rparr>;
                k = register_interrupt_handler (IRQ_BASE + 0) irq_entry k
            in Inr (divisor, k)))"

section \<open>Formats\<close>

definition plain :: "u8 list \<Rightarrow> bool" where
  "plain out \<longleftrightarrow> 0 \<notin> set out \<and> 0x25 \<notin> set out"

lemma format_Nil [simp]: "format strs [] args = Inr []"
  by (simp add: format.simps [of strs "[]"] peek_def)

lemma format_plain:
  "plain pre \<Longrightarrow> format strs (pre @ fmt) args = bnd (format strs fmt args) (\<lambda>out. Inr (pre @ out))"
proof (induction pre)
  case (Cons c pre)
  then have "c \<noteq> 0" "c \<noteq> 0x25" "plain pre" by (auto simp: plain_def)
  with Cons.IH show ?case
    by (simp add: format.simps [of strs "c # pre @ fmt"] peek_def bnd_assoc)
qed simp

lemma format_directive:
  assumes "ch \<noteq> 0x6C"
  shows "format strs (0x25 # ch # fmt) args = bnd (directive strs False False ch args)
    (\<lambda>(out, args). bnd (format strs fmt args) (\<lambda>out'. Inr (out @ out')))"
  using assms by (simp add: format.simps [of strs "0x25 # ch # fmt"] peek_def parse_flags_def)

definition hex :: "u32 \<Rightarrow> u8 list" where
  "hex w = bytes_of ''0x'' @ radix 16 (unat w)"

lemma format_d: "format strs (0x25 # 0x64 # fmt) (w # args) =
    bnd (format strs fmt args) (\<lambda>out. Inr (decimal (sint w) @ out))"
  by (simp add: format_directive directive_def signed_arg_def va_word_def)

lemma format_x: "format strs (0x25 # 0x78 # fmt) (w # args) =
    bnd (format strs fmt args) (\<lambda>out. Inr (hex w @ out))"
  by (simp add: format_directive directive_def unsigned_arg_def va_word_def hex_def)

lemma format_s:
  assumes "strs w = Some str" "0 \<notin> set str"
  shows "format strs (0x25 # 0x73 # fmt) (w # args) =
    bnd (format strs fmt args) (\<lambda>out. Inr (str @ out))"
proof -
  have "takeWhile (\<lambda>c. c \<noteq> 0) str = str" using assms(2) by (auto simp: takeWhile_eq_all_conv)
  moreover have "format strs (0x25 # 0x73 # fmt) (w # args) =
      bnd (format strs fmt args) (\<lambda>out. Inr (takeWhile (\<lambda>c. c \<noteq> 0) str @ out))"
    using assms(1) by (simp add: format_directive directive_def va_word_def)
  ultimately show ?thesis by (simp only:)
qed

section \<open>The report\<close>

lemma print_format: "print strs fmt args s = bnd (format strs fmt args) (\<lambda>out. Inr (put_all out s))"
  by (simp add: print_def kprintf_format bnd_assoc)

text \<open>Splitting a literal format at its directives.\<close>

lemma format_literal:
  assumes "plain (bytes_of pre)"
  shows "format strs (bytes_of (pre @ ''%x'' @ rest) @ nl) args =
      bnd (format strs (0x25 # 0x78 # bytes_of rest @ nl) args) (\<lambda>out. Inr (bytes_of pre @ out))"
    "format strs (bytes_of (pre @ ''%d'' @ rest) @ nl) args =
      bnd (format strs (0x25 # 0x64 # bytes_of rest @ nl) args) (\<lambda>out. Inr (bytes_of pre @ out))"
    "format strs (bytes_of (pre @ ''%s'' @ rest) @ nl) args =
      bnd (format strs (0x25 # 0x73 # bytes_of rest @ nl) args) (\<lambda>out. Inr (bytes_of pre @ out))"
  using assms by (simp_all add: bytes_of_def format_plain)

definition line :: "u8 list list \<Rightarrow> u8 list" where
  "line parts = concat parts @ [10]"

lemma format_newline: "format strs [10] args = Inr [10]"
  using format_plain [of "[10]" strs "[]" args] by (simp add: plain_def)

lemma format_regs:
  "format strs (bytes_of ''eax=%x ebx=%x ecx=%x edx=%x esi=%x edi=%x'' @ [10]) [a, b, c, d, e, f] =
    Inr (line [bytes_of ''eax='', hex a, bytes_of '' ebx='', hex b, bytes_of '' ecx='', hex c,
      bytes_of '' edx='', hex d, bytes_of '' esi='', hex e, bytes_of '' edi='', hex f])"
proof -
  have p: "plain (bytes_of ''eax='')" "plain (bytes_of '' ebx='')" "plain (bytes_of '' ecx='')"
    "plain (bytes_of '' edx='')" "plain (bytes_of '' esi='')" "plain (bytes_of '' edi='')"
    by (simp_all add: plain_def bytes_of_def)
  note l = format_literal(1) [OF p(1), where rest = "'' ebx=%x ecx=%x edx=%x esi=%x edi=%x''"]
    format_literal(1) [OF p(2), where rest = "'' ecx=%x edx=%x esi=%x edi=%x''"]
    format_literal(1) [OF p(3), where rest = "'' edx=%x esi=%x edi=%x''"]
    format_literal(1) [OF p(4), where rest = "'' esi=%x edi=%x''"]
    format_literal(1) [OF p(5), where rest = "'' edi=%x''"]
    format_literal(1) [OF p(6), where rest = "[]"]
  show ?thesis
    unfolding l [simplified append.simps] format_x bnd_assoc bnd_simps
    by (simp add: line_def format_newline bytes_of_def)
qed

lemma format_eip:
  "format strs (bytes_of ''eip=%x cs=%x eflags=%x'' @ [10]) [a, b, c] =
    Inr (line [bytes_of ''eip='', hex a, bytes_of '' cs='', hex b, bytes_of '' eflags='', hex c])"
proof -
  have p: "plain (bytes_of ''eip='')" "plain (bytes_of '' cs='')" "plain (bytes_of '' eflags='')"
    by (simp_all add: plain_def bytes_of_def)
  note l = format_literal(1) [OF p(1), where rest = "'' cs=%x eflags=%x''"]
    format_literal(1) [OF p(2), where rest = "'' eflags=%x''"]
    format_literal(1) [OF p(3), where rest = "[]"]
  show ?thesis
    unfolding l [simplified append.simps] format_x bnd_assoc bnd_simps
    by (simp add: line_def format_newline bytes_of_def)
qed

lemma format_codes:
  "format strs (bytes_of ''interrupt=%d error_code=%x'' @ [10]) [a, b] =
    Inr (line [bytes_of ''interrupt='', decimal (sint a), bytes_of '' error_code='', hex b])"
proof -
  have p: "plain (bytes_of ''interrupt='')" "plain (bytes_of '' error_code='')"
    by (simp_all add: plain_def bytes_of_def)
  note l = format_literal(2) [OF p(1), where rest = "'' error_code=%x''"]
    format_literal(1) [OF p(2), where rest = "[]"]
  show ?thesis
    unfolding l [simplified append.simps] format_d format_x bnd_assoc bnd_simps
    by (simp add: line_def format_newline format_x bytes_of_def)
qed

lemma format_exception:
  assumes "strs b = Some str" "0 \<notin> set str"
  shows "format strs (bytes_of ''Unhandled exception %d %s'' @ [10]) [a, b] =
    Inr (line [bytes_of ''Unhandled exception '', decimal (sint a), [0x20], str])"
proof -
  have p: "plain (bytes_of ''Unhandled exception '')" "plain (bytes_of '' '')"
    by (simp_all add: plain_def bytes_of_def)
  note l = format_literal(2) [OF p(1), where rest = "'' %s''"]
    format_literal(3) [OF p(2), where rest = "[]"]
  show ?thesis
    unfolding l [simplified append.simps] format_d bnd_assoc bnd_simps
    by (simp add: line_def format_newline format_s [of strs, OF assms] bytes_of_def)
qed

lemma format_interrupt:
  "format strs (bytes_of ''Unhandled interrupt: %d'' @ [10]) [a] =
    Inr (line [bytes_of ''Unhandled interrupt: '', decimal (sint a)])"
proof -
  have p: "plain (bytes_of ''Unhandled interrupt: '')"
    by (simp add: plain_def bytes_of_def)
  show ?thesis
    unfolding format_literal(2) [OF p(1), where rest = "[]", simplified append.simps] format_d
    by (simp add: line_def format_newline format_d bytes_of_def)
qed

lemma kernel_panic_prints:
  assumes "strs err = Some str" "0 \<notin> set str"
  shows "kernel_panic strs err s =
    Inr (put_all (10 # line [bytes_of ''*** KERNEL PANIC ***''] @ line [str] @ line [bytes_of ''System halted.'']) s)"
proof -
  have p: "plain (10 # bytes_of ''*** KERNEL PANIC ***'' @ [10])" "plain (bytes_of ''System halted.'' @ [10])"
    by (simp_all add: plain_def bytes_of_def)
  note f = format_plain [OF p(1), of strs "[]" "[]"] format_plain [OF p(2), of strs "[]" "[]"]
  have "format strs (bytes_of ''%s'' @ [10]) [err] = Inr (str @ [10])"
    using format_s [of strs, OF assms, of "[10]" "[]"] by (simp add: bytes_of_def format_newline)
  with f show ?thesis
    by (simp add: kernel_panic_def kprintf_format line_def)
qed

definition exception_name :: "nat \<Rightarrow> u8 list" where
  "exception_name v = bytes_of (g_Exceptions ! v)"

definition panic_report :: "register_t \<Rightarrow> u8 list" where
  "panic_report regs =
     (let vec = unat (r_interrupt regs) mod 256
      in [10, 10] @
         (if vec < 32
          then line [bytes_of ''Unhandled exception '', radix 10 vec, [0x20], exception_name vec]
          else line [bytes_of ''Unhandled interrupt: '', radix 10 vec]) @
         line [bytes_of ''eax='', hex (r_eax regs), bytes_of '' ebx='', hex (r_ebx regs),
           bytes_of '' ecx='', hex (r_ecx regs), bytes_of '' edx='', hex (r_edx regs),
           bytes_of '' esi='', hex (r_esi regs), bytes_of '' edi='', hex (r_edi regs)] @
         line [bytes_of ''eip='', hex (r_eip regs), bytes_of '' cs='', hex (r_cs regs),
           bytes_of '' eflags='', hex (r_eflags regs)] @
         line [bytes_of ''interrupt='', radix 10 vec, bytes_of '' error_code='', hex (r_error_code regs)] @
         10 # line [bytes_of ''*** KERNEL PANIC ***''] @ line [[]] @ line [bytes_of ''System halted.''])"

lemma g_Exceptions_no_nul: "x \<in> set g_Exceptions \<Longrightarrow> 0 \<notin> set (bytes_of x)"
  unfolding g_Exceptions_def by (auto simp: bytes_of_def)

lemma length_g_Exceptions: "length g_Exceptions = 32"
  by (simp add: g_Exceptions_def)

lemma decimal_u8: "decimal (sint (ucast (v :: u8) :: u32)) = radix 10 (unat v)"
proof -
  have v: "unat v < 256" using unsigned_less [where 'a = nat, of v] by simp
  have "ucast v = (word_of_int (int (unat v)) :: u32)" by simp
  then have "sint (ucast v :: u32) = signed_take_bit 31 (int (unat v))"
    by (simp only: signed_of_int) simp
  also have "\<dots> = int (unat v)"
  proof (rule signed_take_bit_int_eq_self)
    have "0 \<le> int (unat v)" "int (unat v) < 256" using v by linarith+
    then show "- (2 ^ 31) \<le> int (unat v)" "int (unat v) < 2 ^ 31" by (simp_all del: of_nat_unat)
  qed
  finally show ?thesis by (simp add: decimal_def)
qed

lemma report_interrupt_prints:
  assumes "\<And>x. x \<in> set g_Exceptions \<Longrightarrow> strs (addr x) = Some (bytes_of x)"
  shows "report_interrupt strs addr regs s = Inr (put_all (panic_report regs) s)"
proof -
  define vec where "vec = (ucast (r_interrupt regs) :: u8)"
  have u: "unat vec = unat (r_interrupt regs) mod 256"
    by (simp add: vec_def unsigned_ucast_eq take_bit_eq_mod)
  have empty: "strs (addr []) = Some (bytes_of [])" "0 \<notin> set (bytes_of [])"
    using assms [of "[]"] by (simp_all add: g_Exceptions_def bytes_of_def)
  have ex: "strs (addr (g_Exceptions ! unat vec)) = Some (exception_name (unat vec))"
    "0 \<notin> set (exception_name (unat vec))" if "vec < 32"
  proof -
    have "unat vec < 32" using that by (simp add: word_less_nat_alt)
    then have "g_Exceptions ! unat vec \<in> set g_Exceptions" by (simp add: length_g_Exceptions)
    then show "strs (addr (g_Exceptions ! unat vec)) = Some (exception_name (unat vec))"
      "0 \<notin> set (exception_name (unat vec))"
      using assms g_Exceptions_no_nul by (simp_all add: exception_name_def)
  qed
  have nl: "format strs [10, 10] [] = Inr [10, 10]"
    using format_plain [of "[10, 10]" strs "[]" "[]"] by (simp add: plain_def)
  have lt: "vec < 32 \<longleftrightarrow> unat vec < 32" by (simp add: word_less_nat_alt)
  note k = kernel_panic_prints [of strs, OF empty]
  show ?thesis
  proof (cases "vec < 32")
    case True
    note e = format_exception [of strs, OF ex [OF True], of "ucast vec"]
    show ?thesis
      using True lt unfolding report_interrupt_def vec_def [symmetric] Let_def panic_report_def u [symmetric]
      by (simp add: print_format nl e format_regs format_eip format_codes k decimal_u8 bytes_of_def [of "[]"])
  next
    case False
    then show ?thesis
      using lt unfolding report_interrupt_def vec_def [symmetric] Let_def panic_report_def u [symmetric]
      by (simp add: print_format nl format_interrupt format_regs format_eip format_codes k decimal_u8 bytes_of_def [of "[]"])
  qed
qed

section \<open>The timer's divisor\<close>

lemma pit_divisor:
  assumes "19 \<le> unat hz"
  shows "unat (ucast (PIT_CRYSTAL32 div hz) :: u16) = 1193182 div unat hz"
proof -
  have "1193182 div unat hz \<le> 1193182 div 19" using assms by (intro div_le_mono2) simp_all
  then have "1193182 div unat hz < 2 ^ 16" by simp
  then show ?thesis
    by (simp add: PIT_CRYSTAL32_def unsigned_ucast_eq unat_div take_bit_nat_eq_self)
qed

lemma u16_halves: "unat (d :: u16) = unat (ucast (d AND 0xFF) :: u8) + 256 * unat (ucast (drop_bit 8 d) :: u8)"
proof -
  have d: "unat d < 2 ^ 16" using unsigned_less [where 'a = nat, of d] by simp
  have "d AND 0xFF = take_bit 8 d" by (simp add: byte_mask take_bit_eq_mask)
  then have "unat (d AND 0xFF) = unat d mod 256" by (simp add: take_bit_eq_mod unat_mod)
  moreover have "unat (drop_bit 8 d) = unat d div 256"
    by (simp add: drop_bit_eq_div unat_div)
  ultimately show ?thesis
    using d by (simp add: unsigned_ucast_eq take_bit_eq_mod)
qed

end
