(* ===== verification/Gdt.thy ===== *)
theory Gdt
  imports Memory
begin

text \<open>
  The segment table and the task state segment (\<open>gdt/gdt.c\<close>).

  The table is a list of packed descriptors, field by field as in the source. The addresses of
  the table and of the task state segment are chosen by the linker and are arguments. The second
  half reads a descriptor the way the processor does.
\<close>

section \<open>Segments\<close>

record gdt_segment =
  limit_low :: u16
  base_low :: u16
  base_mid :: u8
  access :: u8
  limit_high_flags :: u8
  base_high :: u8

record gdt_descriptor =
  size_of :: u16
  offset :: u32

record tss_entry =
  link :: u32
  esp0 :: u32
  ss0 :: u32
  esp1 :: u32
  ss1 :: u32
  esp2 :: u32
  ss2 :: u32
  tss_cr3 :: u32
  tss_eip :: u32
  tss_eflags :: u32
  tss_eax :: u32
  tss_ecx :: u32
  tss_edx :: u32
  tss_ebx :: u32
  tss_esp :: u32
  tss_ebp :: u32
  tss_esi :: u32
  tss_edi :: u32
  tss_es :: u32
  tss_cs :: u32
  tss_ss :: u32
  tss_ds :: u32
  tss_fs :: u32
  tss_gs :: u32
  ldt :: u32
  iopb :: u32
  ssp :: u32

text \<open>\<open>sizeof(GDT_SEGMENT)\<close> and \<open>sizeof(TSS_ENTRY)\<close>: both packed.\<close>

definition SIZEOF_GDT_SEGMENT :: u32 where "SIZEOF_GDT_SEGMENT = 8"
definition SIZEOF_TSS_ENTRY :: u32 where "SIZEOF_TSS_ENTRY = 27 * 4"

record segments =
  gdt :: "gdt_segment list"
  gdtr :: gdt_descriptor
  tss :: tss_entry
  task_register :: u16

definition fill_gdt :: "nat \<Rightarrow> u32 \<Rightarrow> u32 \<Rightarrow> u8 \<Rightarrow> u8 \<Rightarrow> gdt_segment list \<Rightarrow> gdt_segment list res" where
  "fill_gdt idx base limit acc flags g =
     (if idx < length g
      then Inr (g[idx := \<lparr>limit_low = ucast limit, base_low = ucast base,
        base_mid = ucast (drop_bit 16 base), access = acc,
        limit_high_flags = ucast (push_bit 4 (0xF AND ucast flags) OR (0xF AND drop_bit 16 limit) :: u32),
        base_high = ucast (drop_bit 24 base)\<rparr>])
      else Inl OutOfBounds)"

text \<open>\<open>gdt_flush\<close> loads the table register from \<open>gdtr\<close>; nothing else of the state changes.\<close>

definition init_gdt :: "u32 \<Rightarrow> u32 \<Rightarrow> segments \<Rightarrow> segments res" where
  "init_gdt gdt_addr tss_addr s =
     bnd (fill_gdt 0 0 0 0 0 (gdt s)) (\<lambda>g.
     bnd (fill_gdt 1 0 0xFFFFF 0x9A 0xC g) (\<lambda>g.
     bnd (fill_gdt 2 0 0xFFFFF 0x92 0xC g) (\<lambda>g.
     bnd (fill_gdt 3 0 0xFFFFF 0xFA 0xC g) (\<lambda>g.
     bnd (fill_gdt 4 0 0xFFFFF 0xF2 0xC g) (\<lambda>g.
     bnd (fill_gdt 5 tss_addr (SIZEOF_TSS_ENTRY - 1) 0x89 0 g) (\<lambda>g.
     Inr (s\<lparr>gdt := g, gdtr := \<lparr>size_of = ucast (6 * SIZEOF_GDT_SEGMENT - 1), offset = gdt_addr\<rparr>\<rparr>)))))))"

definition init_tss :: "segments \<Rightarrow> segments" where
  "init_tss s = s\<lparr>tss := (tss s)\<lparr>ss0 := push_bit 3 2 OR 0 OR 0\<rparr>,
     task_register := ucast (5 * SIZEOF_GDT_SEGMENT)\<rparr>"

section \<open>Reading a segment\<close>

definition seg_base :: "gdt_segment \<Rightarrow> u32" where
  "seg_base d = push_bit 24 (ucast (base_high d)) OR push_bit 16 (ucast (base_mid d)) OR ucast (base_low d)"

definition seg_limit :: "gdt_segment \<Rightarrow> u32" where
  "seg_limit d = push_bit 16 (ucast (limit_high_flags d AND 0xF)) OR ucast (limit_low d)"

definition seg_granularity :: "gdt_segment \<Rightarrow> u8" where
  "seg_granularity d = drop_bit 4 (limit_high_flags d)"

text \<open>Privilege level, presence and the segment's last byte (granularity is flag bit 3).\<close>

definition seg_dpl :: "gdt_segment \<Rightarrow> nat" where
  "seg_dpl d = unat (drop_bit 5 (access d) AND 3)"

definition seg_present :: "gdt_segment \<Rightarrow> bool" where
  "seg_present d = bit (access d) 7"

definition seg_last :: "gdt_segment \<Rightarrow> nat" where
  "seg_last d = (if bit (seg_granularity d) 3 then unat (seg_limit d) * 4096 + 4095 else unat (seg_limit d))"

text \<open>The kind of a segment: bit 4 of the access byte tells code and data from system segments, bit 3
  code from data; a code segment is readable and conforming or not, a data segment writable and
  expanding downwards or not, and a system segment has a type number (9 is an available 32-bit task
  state segment). Flag bit 2 is the default size of 32 bits, flag bit 1 marks 64-bit code.\<close>

datatype seg_kind = CodeSegment (readable: bool) (conforming: bool) | DataSegment (writable: bool) (expand_down: bool)
  | SystemSegment nat

definition kind_of_access :: "u8 \<Rightarrow> seg_kind" where
  "kind_of_access a = (if bit a 4 then (if bit a 3 then CodeSegment (bit a 1) (bit a 2) else DataSegment (bit a 1) (bit a 2))
     else SystemSegment (unat (a AND 0xF)))"

definition seg_kind :: "gdt_segment \<Rightarrow> seg_kind" where
  "seg_kind d = kind_of_access (access d)"

definition seg_32bit :: "gdt_segment \<Rightarrow> bool" where
  "seg_32bit d \<longleftrightarrow> bit (seg_granularity d) 2 \<and> \<not> bit (seg_granularity d) 1"

definition zero_segment :: gdt_segment where
  "zero_segment = \<lparr>limit_low = 0, base_low = 0, base_mid = 0, access = 0, limit_high_flags = 0, base_high = 0\<rparr>"

lemma nibble_mask: "(0xF :: 'a::len word) = mask 4"
  by (simp add: mask_eq_exp_minus_1)

lemma bit_range_cases:
  fixes n :: nat
  assumes "n < 32"
  obtains "n < 16" | k where "n = 16 + k" "k < 8" | k where "n = 24 + k" "k < 8"
proof -
  consider "n < 16" | "16 \<le> n" "n < 24" | "24 \<le> n" using assms by linarith
  then show ?thesis
  proof cases
    case 2
    then have "n = 16 + (n - 16)" "n - 16 < 8" by simp_all
    then show ?thesis by (rule that(2))
  next
    case 3
    then have "n = 24 + (n - 24)" "n - 24 < 8" using assms by simp_all
    then show ?thesis by (rule that(3))
  qed (rule that(1))
qed

lemma base_fields:
  "push_bit 24 (ucast (ucast (drop_bit 24 b) :: u8)) OR push_bit 16 (ucast (ucast (drop_bit 16 b) :: u8))
     OR ucast (ucast b :: u16) = (b :: u32)"
proof (rule bit_word_eqI)
  fix n assume "n < LENGTH(32)"
  then have "n < 32" by simp
  then show "bit (push_bit 24 (ucast (ucast (drop_bit 24 b) :: u8)) OR
      push_bit 16 (ucast (ucast (drop_bit 16 b) :: u8)) OR ucast (ucast b :: u16) :: u32) n = bit b n"
    by (cases rule: bit_range_cases) (simp_all add: bit_simps)
qed

lemma limit_flag_byte:
  fixes flags :: u8 and limit :: u32
  defines "b \<equiv> ucast (push_bit 4 (0xF AND ucast flags) OR (0xF AND drop_bit 16 limit) :: u32) :: u8"
  assumes "\<And>n. bit limit n \<Longrightarrow> n < 20" "\<And>n. bit flags n \<Longrightarrow> n < 4"
  shows "push_bit 16 (ucast (b AND 0xF)) OR ucast (ucast limit :: u16) = limit" "drop_bit 4 b = flags"
proof -
  have b: "bit b n \<longleftrightarrow> (if n < 4 then bit limit (16 + n) else n < 8 \<and> bit flags (n - 4))" for n
    using assms(3) [of n] by (auto simp: b_def nibble_mask bit_simps)
  show "push_bit 16 (ucast (b AND 0xF)) OR ucast (ucast limit :: u16) = limit"
  proof (rule bit_word_eqI)
    fix n assume "n < LENGTH(32)"
    then have "n < 32" by simp
    then show "bit (push_bit 16 (ucast (b AND 0xF)) OR ucast (ucast limit :: u16) :: u32) n =
        bit limit n"
      by (cases rule: bit_range_cases) (use assms(2) [of n] in \<open>auto simp: bit_simps b nibble_mask\<close>)
  qed
  show "drop_bit 4 b = flags"
    by (rule bit_word_eqI) (use assms(3) in \<open>auto simp: bit_simps b\<close>)
qed

lemma take_bit_small:
  fixes w :: "'a::len word"
  assumes "unat w < 2 ^ k" "bit w n"
  shows "n < k"
proof -
  have "take_bit k w = w"
    using assms(1) by (simp add: word_unat_eq_iff unsigned_take_bit_eq take_bit_nat_eq_self)
  with assms(2) show ?thesis by (metis bit_take_bit_iff)
qed

lemma fill_gdt_read:
  assumes "idx < length g" "unat limit < 2 ^ 20" "unat flags < 16"
  obtains g' where "fill_gdt idx base limit acc flags g = Inr g'" "length g' = length g"
    "seg_base (g' ! idx) = base" "seg_limit (g' ! idx) = limit" "access (g' ! idx) = acc"
    "seg_granularity (g' ! idx) = flags" "\<And>j. j \<noteq> idx \<Longrightarrow> g' ! j = g ! j"
proof -
  have l: "bit limit n \<Longrightarrow> n < 20" and f: "bit flags n \<Longrightarrow> n < 4" for n
    using assms(2,3) take_bit_small [of limit 20 n] take_bit_small [of flags 4 n] by simp_all
  obtain g' where g': "fill_gdt idx base limit acc flags g = Inr g'"
    using assms(1) by (simp add: fill_gdt_def)
  show ?thesis
  proof (rule that [OF g'])
    show "length g' = length g" "access (g' ! idx) = acc" "\<And>j. j \<noteq> idx \<Longrightarrow> g' ! j = g ! j"
      using g' assms(1) by (auto simp: fill_gdt_def)
    show "seg_base (g' ! idx) = base" "seg_limit (g' ! idx) = limit" "seg_granularity (g' ! idx) = flags"
      using g' assms(1) base_fields [of base] limit_flag_byte [OF l f]
      by (auto simp only: fill_gdt_def seg_base_def seg_limit_def seg_granularity_def if_True sum.inject
          nth_list_update_eq gdt_segment.simps)
  qed
qed

text \<open>What the descriptor table promises: the four flat segments, kernel and user, and the task
  state segment.\<close>

definition flat_segment :: "nat \<Rightarrow> seg_kind \<Rightarrow> gdt_segment \<Rightarrow> bool" where
  "flat_segment dpl kind d \<longleftrightarrow> seg_base d = 0 \<and> seg_last d = 2 ^ 32 - 1 \<and> seg_dpl d = dpl \<and> seg_present d \<and>
     seg_kind d = kind \<and> seg_32bit d"

definition task_segment :: "u32 \<Rightarrow> gdt_segment \<Rightarrow> bool" where
  "task_segment addr d \<longleftrightarrow> seg_base d = addr \<and> seg_last d = 107 \<and> seg_dpl d = 0 \<and> seg_present d \<and>
     seg_kind d = SystemSegment 9"

lemma fill_gdt_same:
  assumes "fill_gdt idx base limit acc flags g = Inr g'" "unat limit < 2 ^ 20" "unat flags < 16"
  shows "length g' = length g" "idx < length g" "seg_base (g' ! idx) = base" "seg_limit (g' ! idx) = limit"
    "access (g' ! idx) = acc" "seg_granularity (g' ! idx) = flags"
proof -
  show i: "idx < length g" using assms(1) by (simp add: fill_gdt_def split: if_splits)
  show "length g' = length g" "seg_base (g' ! idx) = base" "seg_limit (g' ! idx) = limit"
    "access (g' ! idx) = acc" "seg_granularity (g' ! idx) = flags"
    by (rule fill_gdt_read [OF i assms(2,3), of base acc], use assms(1) in simp)+
qed

lemma fill_gdt_other:
  assumes "fill_gdt idx base limit acc flags g = Inr g'" "j \<noteq> idx"
  shows "g' ! j = g ! j"
  using assms by (auto simp: fill_gdt_def split: if_splits)

lemma fill_gdt_total:
  assumes "length g = n" "idx < n"
  obtains g' where "fill_gdt idx base limit acc flags g = Inr g'" "length g' = n"
  using assms by (simp add: fill_gdt_def)

lemma flat_segmentI:
  assumes "fill_gdt idx 0 0xFFFFF acc 0xC g = Inr g'" "bit acc 7"
  shows "flat_segment (unat (drop_bit 5 acc AND 3)) (kind_of_access acc) (g' ! idx)"
proof -
  have "unat (0xFFFFF :: u32) < 2 ^ 20" "unat (0xC :: u8) < 16" by simp_all
  note f = fill_gdt_same [OF assms(1) this]
  have "bit (0xC :: u8) 3" "bit (0xC :: u8) 2" "\<not> bit (0xC :: u8) 1" by (simp_all add: bit_numeral_rec)
  with f assms(2) show ?thesis
    by (simp add: flat_segment_def seg_last_def seg_dpl_def seg_present_def seg_kind_def seg_32bit_def)
qed

lemma init_gdt_segments:
  assumes "length (gdt s) = 6"
  obtains s' where "init_gdt gdt_addr tss_addr s = Inr s'" "length (gdt s') = 6"
    "flat_segment 0 (CodeSegment True False) (gdt s' ! 1)" "flat_segment 0 (DataSegment True False) (gdt s' ! 2)"
    "flat_segment 3 (CodeSegment True False) (gdt s' ! 3)" "flat_segment 3 (DataSegment True False) (gdt s' ! 4)"
    "\<not> seg_present (gdt s' ! 0)" "task_segment tss_addr (gdt s' ! 5)"
    "gdtr s' = \<lparr>size_of = 47, offset = gdt_addr\<rparr>"
proof -
  obtain g0 where g0: "fill_gdt 0 0 0 0 0 (gdt s) = Inr g0" "length g0 = 6"
    using assms by (rule fill_gdt_total [where idx = 0]) simp
  obtain g1 where g1: "fill_gdt 1 0 0xFFFFF 0x9A 0xC g0 = Inr g1" "length g1 = 6"
    using g0(2) by (rule fill_gdt_total [where idx = 1]) simp
  obtain g2 where g2: "fill_gdt 2 0 0xFFFFF 0x92 0xC g1 = Inr g2" "length g2 = 6"
    using g1(2) by (rule fill_gdt_total [where idx = 2]) simp
  obtain g3 where g3: "fill_gdt 3 0 0xFFFFF 0xFA 0xC g2 = Inr g3" "length g3 = 6"
    using g2(2) by (rule fill_gdt_total [where idx = 3]) simp
  obtain g4 where g4: "fill_gdt 4 0 0xFFFFF 0xF2 0xC g3 = Inr g4" "length g4 = 6"
    using g3(2) by (rule fill_gdt_total [where idx = 4]) simp
  obtain g5 where g5: "fill_gdt 5 tss_addr (SIZEOF_TSS_ENTRY - 1) 0x89 0 g4 = Inr g5" "length g5 = 6"
    using g4(2) by (rule fill_gdt_total [where idx = 5]) simp
  note keep = fill_gdt_other [OF g1(1)] fill_gdt_other [OF g2(1)] fill_gdt_other [OF g3(1)]
    fill_gdt_other [OF g4(1)] fill_gdt_other [OF g5(1)]
  have bits: "bit (0x9A :: u8) 7" "bit (0x92 :: u8) 7" "bit (0xFA :: u8) 7" "bit (0xF2 :: u8) 7"
    "bit (0x89 :: u8) 7"
    by (simp_all add: bit_numeral_rec)
  have kinds: "kind_of_access 0x9A = CodeSegment True False" "kind_of_access 0x92 = DataSegment True False"
    "kind_of_access 0xFA = CodeSegment True False" "kind_of_access 0xF2 = DataSegment True False"
    "kind_of_access 0x89 = SystemSegment 9"
    by (simp_all add: kind_of_access_def bit_numeral_rec)
  have tss: "unat (SIZEOF_TSS_ENTRY - 1) < 2 ^ 20" "unat (0 :: u8) < 16"
    by (simp_all add: SIZEOF_TSS_ENTRY_def)
  have zero: "unat (0 :: u32) < 2 ^ 20" by simp
  note t = fill_gdt_same [OF g5(1) tss] and n = fill_gdt_same [OF g0(1) zero tss(2)]
  note f = flat_segmentI [OF g1(1) bits(1), unfolded kinds] flat_segmentI [OF g2(1) bits(2), unfolded kinds]
    flat_segmentI [OF g3(1) bits(3), unfolded kinds] flat_segmentI [OF g4(1) bits(4), unfolded kinds]
  show ?thesis
  proof (rule that)
    show "init_gdt gdt_addr tss_addr s =
        Inr (s\<lparr>gdt := g5, gdtr := \<lparr>size_of = 47, offset = gdt_addr\<rparr>\<rparr>)"
      unfolding init_gdt_def g0 bnd_simps g1 g2 g3 g4 g5 by (simp add: SIZEOF_GDT_SEGMENT_def)
  qed (use f t n bits g5(2) in \<open>simp_all add: keep kinds task_segment_def seg_kind_def seg_dpl_def seg_present_def seg_last_def SIZEOF_TSS_ENTRY_def\<close>)
qed

end
