(* ===== verification/Idt.thy ===== *)
theory Idt
  imports Memory
begin

text \<open>
  The interrupt table (\<open>interrupts/idt.c\<close>): 256 gates, one for each interrupt stub. The addresses
  of the table and of the stubs (\<open>isr_stub_table\<close> of \<open>isr_stub.asm\<close>) are arguments.
\<close>

record idt_entry =
  isr_low :: u16
  kernel_cs :: u16
  zero_byte :: u8
  attributes :: u8
  isr_high :: u16

record idt_ptr =
  idt_limit :: u16
  idt_base :: u32

definition SIZEOF_IDT_ENTRY :: u32 where "SIZEOF_IDT_ENTRY = 8"

definition set_idt_entry :: "u8 \<Rightarrow> u32 \<Rightarrow> u8 \<Rightarrow> idt_entry list \<Rightarrow> idt_entry list" where
  "set_idt_entry vector isr attr idt =
     idt[unat vector := \<lparr>isr_low = ucast (isr AND 0xFFFF), kernel_cs = 0x08, zero_byte = 0,
       attributes = attr, isr_high = ucast (drop_bit 16 isr)\<rparr>]"

definition zero_entry :: idt_entry where
  "zero_entry = \<lparr>isr_low = 0, kernel_cs = 0, zero_byte = 0, attributes = 0, isr_high = 0\<rparr>"

text \<open>\<open>kmemset\<close> clears the whole table, the loop fills it, and gate \<open>0x80\<close> is opened to user code.\<close>

definition init_idt :: "u32 \<Rightarrow> (nat \<Rightarrow> u32) \<Rightarrow> idt_entry list \<times> idt_ptr" where
  "init_idt idt_addr isr_stub_table =
     (let idt = replicate 256 zero_entry;
          idt = fold (\<lambda>i idt. set_idt_entry (of_nat i) (isr_stub_table i) 0x8E idt) [0..<256] idt;
          idt = idt[0x80 := (idt ! 0x80)\<lparr>attributes := 0xEE\<rparr>]
      in (idt, \<lparr>idt_limit = ucast (SIZEOF_IDT_ENTRY * 256 - 1), idt_base = idt_addr\<rparr>))"

section \<open>Reading a gate\<close>

definition gate_target :: "idt_entry \<Rightarrow> u32" where
  "gate_target e = push_bit 16 (ucast (isr_high e)) OR ucast (isr_low e)"

definition gate_dpl :: "idt_entry \<Rightarrow> nat" where
  "gate_dpl e = unat (drop_bit 5 (attributes e) AND 3)"

text \<open>Present, a 32-bit interrupt gate (which clears the interrupt flag on entry), into the
  kernel's code segment.\<close>

definition kernel_gate :: "idt_entry \<Rightarrow> bool" where
  "kernel_gate e \<longleftrightarrow> bit (attributes e) 7 \<and> attributes e AND 0xF = 0xE \<and> kernel_cs e = 0x08 \<and> zero_byte e = 0"

lemma target_halves: "push_bit 16 (ucast (ucast (drop_bit 16 a) :: u16)) OR
    ucast (ucast (a AND 0xFFFF) :: u16) = (a :: u32)"
proof (rule bit_word_eqI)
  fix n assume "n < LENGTH(32)"
  then have n: "n < 32" by simp
  have m: "(0xFFFF :: u32) = mask 16" by (simp add: mask_eq_exp_minus_1)
  show "bit (push_bit 16 (ucast (ucast (drop_bit 16 a) :: u16)) OR
    ucast (ucast (a AND 0xFFFF) :: u16) :: u32) n = bit a n"
  proof (cases "n < 16")
    case False
    then have "n = 16 + (n - 16)" "n - 16 < 16" using n by simp_all
    then obtain k where "n = 16 + k" "k < 16" by blast
    then show ?thesis by (simp add: bit_simps m)
  qed (simp add: bit_simps m)
qed

lemma set_idt_entry_same:
  assumes "unat v < length idt"
  shows "gate_target (set_idt_entry v isr attr idt ! unat v) = isr"
    "attributes (set_idt_entry v isr attr idt ! unat v) = attr"
    "kernel_cs (set_idt_entry v isr attr idt ! unat v) = 0x08"
    "zero_byte (set_idt_entry v isr attr idt ! unat v) = 0"
  using assms target_halves [of isr] by (simp_all add: set_idt_entry_def gate_target_def)

lemma set_idt_entries:
  fixes stub :: "nat \<Rightarrow> u32" and attr :: u8
  assumes "n \<le> 256" "length idt = 256" "i < n"
  defines "e \<equiv> fold (\<lambda>i idt. set_idt_entry (of_nat i) (stub i) attr idt) [0..<n] idt ! i"
  shows "gate_target e = stub i \<and> attributes e = attr \<and> kernel_cs e = 0x08 \<and> zero_byte e = 0"
  using assms(1,3) unfolding e_def
proof (induction n)
  case (Suc n)
  let ?f = "\<lambda>n. fold (\<lambda>i idt. set_idt_entry (of_nat i) (stub i) attr idt) [0..<n] idt"
  have len: "length (?f n) = 256" for n
    using assms(2) by (induction n) (simp_all add: set_idt_entry_def)
  have n: "unat (of_nat n :: u8) = n"
    using Suc.prems by (simp add: unsigned_of_nat take_bit_nat_eq_self)
  have step: "?f (Suc n) = set_idt_entry (of_nat n) (stub n) attr (?f n)" by simp
  show ?case
  proof (cases "i = n")
    case True
    then show ?thesis
      using set_idt_entry_same [of "of_nat n" "?f n" "stub n" attr] n len [of n] Suc.prems
      unfolding step by (simp add: n)
  next
    case False
    then have "?f (Suc n) ! i = ?f n ! i"
      unfolding step set_idt_entry_def [of "of_nat n"] n by (intro nth_list_update_neq) simp
    with False Suc show ?thesis by simp
  qed
qed simp

lemma init_idt_gates:
  fixes stub :: "nat \<Rightarrow> u32" and idt_addr :: u32
  assumes "v < 256"
  defines "idt \<equiv> fst (init_idt idt_addr stub)"
  shows "gate_target (idt ! v) = stub v \<and> kernel_gate (idt ! v) \<and> gate_dpl (idt ! v) = (if v = 0x80 then 3 else 0)"
    "length idt = 256"
proof -
  define t where "t = fold (\<lambda>i idt. set_idt_entry (of_nat i) (stub i) 0x8E idt) [0..<256] (replicate 256 zero_entry)"
  have idt: "idt = t[0x80 := (t ! 0x80)\<lparr>attributes := 0xEE\<rparr>]"
    unfolding idt_def init_idt_def Let_def t_def by (simp only: fst_conv)
  have e: "gate_target (t ! i) = stub i \<and> attributes (t ! i) = 0x8E \<and> kernel_cs (t ! i) = 0x08 \<and> zero_byte (t ! i) = 0"
    if "i < 256" for i
    unfolding t_def using that by (intro set_idt_entries) simp_all
  have len: "length t = 256"
  proof -
    have "length (fold (\<lambda>i idt. set_idt_entry (of_nat i) (stub i) 0x8E idt) xs t0) = length t0" for xs t0
      by (induction xs arbitrary: t0) (simp_all add: set_idt_entry_def)
    then show ?thesis unfolding t_def by simp
  qed
  then show "length idt = 256" unfolding idt by simp
  have b: "bit (0x8E :: u8) 7" "bit (0xEE :: u8) 7" by (simp_all add: bit_numeral_rec)
  show "gate_target (idt ! v) = stub v \<and> kernel_gate (idt ! v) \<and> gate_dpl (idt ! v) = (if v = 0x80 then 3 else 0)"
    unfolding idt using assms(1) len e [OF assms(1)] b
    by (cases "v = 0x80") (simp_all add: kernel_gate_def gate_dpl_def gate_target_def)
qed

end
