(* ===== verification/Device_Props.thy ===== *)
theory Device_Props
  imports Isr Gdt Idt
begin

text \<open>
  Properties of the console, the interrupt controllers, the timer and the descriptor tables.
\<close>

section \<open>Console\<close>

text \<open>
  C23: What \<open>kprintf\<close> prints is the output of its format: for a format and arguments whose output
  is \<open>out\<close>, it returns the number of characters, the serial port receives exactly \<open>out\<close>, the screen
  is the terminal after writing \<open>out\<close>, and no memory outside the video buffer changes.
\<close>
theorem kprintf_correct:
  assumes "cursor_ok s" "format strs fmt args = Inr out"
  shows "\<exists>s'. kprintf strs fmt args s = Inr (of_nat (length out), s') \<and>
    sent PORT (vga_io s') = sent PORT (vga_io s) @ out \<and>
    vga_term s' = fold term_putc out (vga_term s) \<and>
    cursor_ok s' \<and> same_outside (vmem s) (vmem s')"
  using put_all_spec [OF assms(1), of out] by (simp add: kprintf_format assms(2))

definition sample_console :: vga where
  "sample_console = vga_start (\<lambda>_. 0) []"

theorem kprintf_correct_witness:
  "\<exists>s'. kprintf (\<lambda>_. None) (bytes_of ''%d'') [- 7] sample_console = Inr (2, s') \<and>
    sent PORT (vga_io s') = bytes_of ''-7''"
proof -
  have ok: "cursor_ok sample_console" by (simp add: sample_console_def vga_start_ok)
  have d: "decimal (sint (- 7 :: u32)) = bytes_of ''-7''"
    by (simp add: decimal_def radix.simps digit_def bytes_of_def)
  have "format (\<lambda>_. None) (bytes_of ''%d'') [- 7] = Inr (bytes_of ''-7'')"
    using format_d [of "\<lambda>_. None" "[]" "- 7" "[]"] unfolding d by (simp add: bytes_of_def)
  from kprintf_correct [OF ok this] show ?thesis
    by (auto simp: sample_console_def vga_start_def bytes_of_def)
qed

text \<open>
  C24: Printing a number loses nothing: in every base from 2 to 16 the digits \<open>print_unsigned\<close>
  writes fit its 64-byte buffer, carry no leading zero and read back as the number.
\<close>
theorem print_unsigned_roundtrip:
  assumes "2 \<le> unat b" "unat b \<le> 16"
  shows "\<exists>ds. print_unsigned n b s = Inr (of_nat (length ds), put_all ds s) \<and> length ds \<le> 64 \<and>
    read_num (unat b) ds = unat n \<and> (hd ds = 0x30 \<longleftrightarrow> n = 0)"
  using print_unsigned_radix [OF assms] read_num_radix [OF assms] radix_u64_length [OF assms(1)]
    hd_radix [OF assms]
  by (auto simp: unat_eq_0)

theorem print_unsigned_roundtrip_witness:
  "\<exists>ds. print_unsigned 0xBEEF 16 sample_console = Inr (of_nat (length ds), put_all ds sample_console) \<and>
    read_num 16 ds = 0xBEEF"
  using print_unsigned_roundtrip [of 16 "0xBEEF" sample_console] by auto

text \<open>
  A format that ends in a bare \<open>%\<close> makes \<open>kprintf\<close> read past the end of the format string:
  the default case of the \<open>switch\<close> consumes the terminator.
\<close>
theorem kprintf_trailing_percent:
  assumes "plain pre"
  shows "kprintf strs (pre @ [0x25]) args s = Inl OutOfBounds"
proof -
  have "format strs [0x25] args = Inl OutOfBounds"
    by (simp add: format.simps [of strs "[0x25]"] peek_def parse_flags_def directive_def)
  then show ?thesis by (simp add: kprintf_format format_plain [OF assms])
qed

theorem kprintf_trailing_percent_witness:
  "kprintf (\<lambda>_. None) (bytes_of ''100'' @ [0x25]) [] sample_console = Inl OutOfBounds"
  by (rule kprintf_trailing_percent) (simp add: plain_def bytes_of_def)

text \<open>
  C25: The video driver refines an 80 by 25 terminal: writing a string moves the cursor, wraps at
  the last column and scrolls at the last row exactly as the terminal does, keeps the cursor on the
  screen, and never stores outside the 4000 bytes of the video buffer.
\<close>
theorem vga_puts_refines_terminal:
  assumes "cursor_ok s"
  shows "vga_term (vga_puts str s) = fold term_putc str (vga_term s) \<and> cursor_ok (vga_puts str s) \<and>
    same_outside (vmem s) (vmem (vga_puts str s))"
  by (rule vga_puts_refines [OF assms])

theorem vga_puts_refines_terminal_witness:
  "vga_term (vga_puts (bytes_of ''hello'') sample_console) =
     fold term_putc (bytes_of ''hello'') (vga_term sample_console)"
  using vga_puts_refines_terminal [of sample_console "bytes_of ''hello''"]
  by (simp add: sample_console_def vga_start_ok)

text \<open>
  A cell of the screen holds the character below the attribute only for the 7-bit
  characters. A character from \<open>0x80\<close> on is extended with its sign, which replaces the colour by
  \<open>0xFF\<close>.
\<close>
theorem vga_cell_attribute:
  "vga_cell c a = push_bit 8 (ucast (if c < 0x80 then a else 0xFF)) OR ucast c"
  by (rule vga_cell_bytes)

section \<open>Interrupt controllers and timer\<close>

text \<open>
  C26: The end of an interrupt is acknowledged to the right controllers, whose in-service registers
  are \<open>master\<close> and \<open>slave\<close>. For line 7 and line 15 the driver first asks both for the in-service
  register. A request on one of these lines that its controller does not have in service is
  spurious: on line 7 nothing is acknowledged, on line 15 only the master is (which did get a real
  request, from the slave). Every other interrupt acknowledges the master, and the slave too when the
  line is one of its own.
\<close>
theorem pic_send_eoi_correct:
  assumes "reports_isr dev tr 0x20 master" and "reports_isr dev tr 0xA0 slave"
  shows "sent 0x20 (pic_send_eoi dev n tr) = sent 0x20 tr @ (if n = 7 \<or> n = 15 then [0x0B] else []) @
     (if n = 7 \<and> \<not> bit master 7 then [] else [0x20]) \<and>
   sent 0xA0 (pic_send_eoi dev n tr) = sent 0xA0 tr @ (if n = 7 \<or> n = 15 then [0x0B] else []) @
     (if n \<ge> 8 \<and> \<not> (n = 15 \<and> \<not> bit slave 7) then [0x20] else [])"
  using pic_send_eoi_sent [OF assms, of n]
  by (auto simp: spurious_def in_service_def isr_query_def pic_ports OCW3_ISR_def split: if_splits)

text \<open>Two controllers with nothing in service: an interrupt on line 15 is spurious.\<close>

definition quiet_pics :: device where
  "quiet_pics tr p = (if sent p tr \<noteq> [] \<and> last (sent p tr) = 0x0B then 0 else 0xFF)"

theorem pic_send_eoi_correct_witness:
  "reports_isr quiet_pics [] 0x20 0 \<and> reports_isr quiet_pics [] 0xA0 0 \<and>
   sent 0x20 (pic_send_eoi quiet_pics 15 []) = [0x0B, 0x20] \<and> sent 0xA0 (pic_send_eoi quiet_pics 15 []) = [0x0B]"
proof -
  have "reports_isr quiet_pics [] p 0" for p
    unfolding reports_isr_def quiet_pics_def using last_in_set by fastforce
  then show ?thesis using pic_send_eoi_correct [of quiet_pics "[]" 0 0 15] by simp
qed

text \<open>
  C27: Masking a line of the slave controller does not reach it: after \<open>pic_mask_irq\<close> the driver's
  mask has the line's bit, but the mask registers have it only for the master's lines 0 to 7,
  because \<open>(uint8_t)pic_mask >> 8\<close> is always 0.
\<close>
theorem pic_mask_slave_lost:
  assumes "unat irq < 16"
  shows "bit (pic_mask (pic_mask_irq irq s)) (unat irq) \<and>
    (bit (hw_mask (pic_io (pic_mask_irq irq s))) (unat irq) \<longleftrightarrow> unat irq < 8)"
  using assms unfolding hw_mask_mask_irq pic_mask_irq_mask
  by (simp add: bit_simps byte_mask)

theorem pic_mask_slave_lost_witness:
  "bit (pic_mask (pic_mask_irq 12 (pic_reset []))) 12 \<and>
    \<not> bit (hw_mask (pic_io (pic_mask_irq 12 (pic_reset [])))) 12"
  using pic_mask_slave_lost [of 12 "pic_reset []"] by simp

text \<open>
  For every rate whose divisor fits 16 bits, the timer is loaded with exactly the crystal
  frequency divided by the rate, low byte first, its handler is installed on the first hardware
  interrupt, and the divisor is returned.
\<close>
theorem init_pit_correct:
  assumes "19 \<le> unat hz"
  shows "\<exists>d k'. init_pit irq_entry hz callback k = Inr (d, k') \<and> unat d = 1193182 div unat hz \<and>
    (\<exists>lo hi. sent 0x40 (vga_io (con k')) = sent 0x40 (vga_io (con k)) @ [lo, hi] \<and>
      unat d = unat lo + 256 * unat hi) \<and>
    interrupt_handlers k' = (interrupt_handlers k)(0x20 := irq_entry) \<and> timer_callback k' = callback"
proof -
  have hz: "hz \<noteq> 0" using assms by auto
  obtain k' where k': "init_pit irq_entry hz callback k = Inr (ucast (PIT_CRYSTAL32 div hz), k')"
    "sent 0x40 (vga_io (con k')) = sent 0x40 (vga_io (con k)) @
      [ucast ((ucast (PIT_CRYSTAL32 div hz) :: u16) AND 0xFF), ucast (drop_bit 8 (ucast (PIT_CRYSTAL32 div hz) :: u16))]"
    "interrupt_handlers k' = (interrupt_handlers k)(0x20 := irq_entry)" "timer_callback k' = callback"
    using hz by (auto simp: init_pit_def Let_def register_interrupt_handler_def IRQ_BASE_def)
  with pit_divisor [OF assms] u16_halves [of "ucast (PIT_CRYSTAL32 div hz)"] show ?thesis by blast
qed

definition sample_pit :: "unit pit_scheme" where
  "sample_pit = \<lparr>con = sample_console, interrupt_handlers = (\<lambda>_. 0), timer_callback = 0\<rparr>"

theorem init_pit_correct_witness:
  "\<exists>d k'. init_pit 0xC0101000 100 0xC0102000 sample_pit = Inr (d, k') \<and> unat d = 11931"
  using init_pit_correct [of 100 "0xC0101000" "0xC0102000" sample_pit] by auto

section \<open>Dispatch and descriptor tables\<close>

text \<open>
  C28: An interrupt with no handler never returns: the kernel halts, and the serial port has
  received the full report, with the exception's name, the registers, the error code and the panic.
\<close>
theorem interrupt_unhandled_halts:
  assumes "interrupt_handlers k (ucast (r_interrupt regs)) = 0" "cursor_ok (con k)"
    "\<And>x. x \<in> set g_Exceptions \<Longrightarrow> strs (addr x) = Some (bytes_of x)"
  shows "\<exists>s. interrupt_handler strs addr call regs k = Halt s \<and>
    sent PORT (vga_io s) = sent PORT (vga_io (con k)) @ panic_report regs"
  using put_all_spec [OF assms(2), of "panic_report regs"] assms(1)
  by (simp add: interrupt_handler_def Let_def report_interrupt_prints [OF assms(3)])

text \<open>A link map for the witness: the address of a name is its position in the table, and the
  empty names share one constant.\<close>

definition sample_addr :: "string \<Rightarrow> u32" where
  "sample_addr x = of_nat (length (takeWhile (\<lambda>y. y \<noteq> x) g_Exceptions))"

definition sample_strs :: "u32 \<Rightarrow> u8 list option" where
  "sample_strs a = (if unat a < 32 then Some (bytes_of (g_Exceptions ! unat a)) else None)"

lemma sample_link: "x \<in> set g_Exceptions \<Longrightarrow> sample_strs (sample_addr x) = Some (bytes_of x)"
proof -
  assume x: "x \<in> set g_Exceptions"
  let ?n = "length (takeWhile (\<lambda>y. y \<noteq> x) g_Exceptions)"
  have "takeWhile (\<lambda>y. y \<noteq> x) g_Exceptions \<noteq> g_Exceptions"
    using x by (auto simp: takeWhile_eq_all_conv)
  then have n: "?n < 32"
    using length_takeWhile_le [of "\<lambda>y. y \<noteq> x" g_Exceptions] takeWhile_eq_take [of "\<lambda>y. y \<noteq> x" g_Exceptions]
      length_g_Exceptions by (metis le_neq_implies_less take_all order_refl)
  then have "g_Exceptions ! ?n = x"
    using nth_length_takeWhile [of "\<lambda>y. y \<noteq> x" g_Exceptions] length_g_Exceptions by simp
  moreover have "unat (sample_addr x) = ?n"
    using n by (simp add: sample_addr_def unsigned_of_nat take_bit_nat_eq_self)
  ultimately show ?thesis using n by (simp add: sample_strs_def)
qed

definition sample_regs :: register_t where
  "sample_regs = \<lparr>r_ds = 0x10, r_edi = 0, r_esi = 0, r_ebp = 0, r_esp = 0, r_ebx = 0, r_edx = 0, r_ecx = 0,
     r_eax = 1, r_interrupt = 14, r_error_code = 2, r_eip = 0xC0100000, r_cs = 8, r_eflags = 0x202,
     r_useresp = 0, r_ss = 0\<rparr>"

definition sample_kern :: kern where
  "sample_kern = \<lparr>con = sample_console, interrupt_handlers = (\<lambda>_. 0)\<rparr>"

theorem interrupt_unhandled_halts_witness:
  "\<exists>s. interrupt_handler sample_strs sample_addr (\<lambda>a r k. Return k) sample_regs sample_kern = Halt s \<and>
    sent PORT (vga_io s) = panic_report sample_regs"
  using interrupt_unhandled_halts [of sample_kern sample_regs sample_strs sample_addr "\<lambda>a r k. Return k",
      OF _ _ sample_link]
  by (simp add: sample_kern_def sample_console_def vga_start_ok) (simp add: vga_start_def)

text \<open>
  C29: The segment table describes what it is meant to: the null segment is not present, the
  kernel and user segments are present 32-bit segments that start at 0 and end at the last byte of
  the address space with privilege 0 and 3, readable non-conforming code and writable data, the
  task segment is a present, available 32-bit task state segment of privilege 0 that covers the 108
  bytes of the task state, and the table register covers six descriptors.
\<close>
theorem init_gdt_correct:
  assumes "length (gdt s) = 6"
  shows "\<exists>s'. init_gdt gdt_addr tss_addr s = Inr s' \<and>
    flat_segment 0 (CodeSegment True False) (gdt s' ! 1) \<and> flat_segment 0 (DataSegment True False) (gdt s' ! 2) \<and>
    flat_segment 3 (CodeSegment True False) (gdt s' ! 3) \<and> flat_segment 3 (DataSegment True False) (gdt s' ! 4) \<and>
    \<not> seg_present (gdt s' ! 0) \<and> task_segment tss_addr (gdt s' ! 5) \<and>
    gdtr s' = \<lparr>size_of = 47, offset = gdt_addr\<rparr>"
  by (rule init_gdt_segments [OF assms, of gdt_addr tss_addr]) blast

definition zero_tss :: tss_entry where
  "zero_tss = \<lparr>link = 0, esp0 = 0, ss0 = 0, esp1 = 0, ss1 = 0, esp2 = 0, ss2 = 0, tss_cr3 = 0, tss_eip = 0,
     tss_eflags = 0, tss_eax = 0, tss_ecx = 0, tss_edx = 0, tss_ebx = 0, tss_esp = 0, tss_ebp = 0,
     tss_esi = 0, tss_edi = 0, tss_es = 0, tss_cs = 0, tss_ss = 0, tss_ds = 0, tss_fs = 0, tss_gs = 0,
     ldt = 0, iopb = 0, ssp = 0\<rparr>"

definition sample_segments :: segments where
  "sample_segments = \<lparr>gdt = replicate 6 zero_segment, gdtr = \<lparr>size_of = 0, offset = 0\<rparr>,
     tss = zero_tss, task_register = 0\<rparr>"

theorem init_gdt_correct_witness:
  "\<exists>s'. init_gdt 0xC0110000 0xC0111000 sample_segments = Inr s' \<and> flat_segment 3 (CodeSegment True False) (gdt s' ! 3) \<and>
    task_segment 0xC0111000 (gdt s' ! 5)"
  using init_gdt_correct [of sample_segments "0xC0110000" "0xC0111000"] by (auto simp: sample_segments_def)

text \<open>
  C30: Every one of the 256 gates leads to its own stub through the kernel's code segment with
  interrupts disabled, and user code can raise none of them but \<open>0x80\<close>.
\<close>
theorem init_idt_correct:
  assumes "v < 256"
  shows "gate_target (fst (init_idt idt_addr stub) ! v) = stub v \<and>
    kernel_gate (fst (init_idt idt_addr stub) ! v) \<and>
    gate_dpl (fst (init_idt idt_addr stub) ! v) = (if v = 0x80 then 3 else 0)"
  by (rule init_idt_gates(1) [OF assms])

theorem init_idt_correct_witness:
  "gate_dpl (fst (init_idt 0xC0112000 (\<lambda>i. 0xC0100000 + 16 * of_nat i)) ! 0x80) = 3"
  using init_idt_correct [where v = "0x80" and idt_addr = "0xC0112000" and stub = "\<lambda>i. 0xC0100000 + 16 * of_nat i"] by simp

end
