(* ===== verification/Paging.thy ===== *)
theory Paging
  imports Buddy_Init
begin

text \<open>
  Page tables (\<open>mm/paging.c\<close>).

  Directories and tables are arrays of 1024 double words in memory, written through their
  kernel-virtual addresses. \<open>early_map_range\<close> and \<open>map_range\<close> are the same text up to where a new
  page table comes from: the bump allocator at boot, the page allocator later. \<open>map_loop\<close> is that
  text, with the allocation as its argument; it runs on the memory and the state of the allocator.

  The second half reads the tables the way the processor does: \<open>walk\<close> gives what a virtual page is
  mapped to, with 4 MB pages and the rights of both levels.
\<close>

section \<open>Constants\<close>

definition PAGE_MASK :: u32 where "PAGE_MASK = 0xFFFFF000"
definition FOUR_MB :: u32 where "FOUR_MB = 0x400000"
definition PAGE_PRESENT :: u32 where "PAGE_PRESENT = 0x1"
definition PAGE_RW :: u32 where "PAGE_RW = 0x2"
definition PAGE_SIZE_4MB :: u32 where "PAGE_SIZE_4MB = 0x80"
definition PAGE_WRITE_THROUGH :: u32 where "PAGE_WRITE_THROUGH = 0x8"
definition PAGE_NO_CACHE :: u32 where "PAGE_NO_CACHE = 0x10"
definition PAGE_USER :: u32 where "PAGE_USER = 0x4"

lemmas page_flag_defs = PAGE_PRESENT_def PAGE_RW_def PAGE_SIZE_4MB_def PAGE_WRITE_THROUGH_def
  PAGE_NO_CACHE_def PAGE_USER_def

section \<open>Mapping a range\<close>

type_synonym 's frame_alloc = "mem \<times> 's \<Rightarrow> (u32 \<times> mem \<times> 's) res"

text \<open>The page table of directory entry \<open>pde\<close>, allocated when the entry is not present.\<close>

definition get_table :: "'s frame_alloc \<Rightarrow> u32 \<Rightarrow> u32 \<Rightarrow> u32 \<Rightarrow> mem \<times> 's \<Rightarrow> (u32 \<times> mem \<times> 's) res" where
  "get_table alloc pd pde flag st =
     bnd (if load32 (fst st) (pd + 4 * pde) AND PAGE_PRESENT = 0
          then bnd (alloc st) (\<lambda>(page_table_addr, m, s).
            Inr (store32 m (pd + 4 * pde) (page_table_addr OR PAGE_PRESENT OR PAGE_RW OR flag), s))
          else Inr st)
     (\<lambda>(m, s). Inr (P2V (load32 m (pd + 4 * pde) AND PAGE_MASK), m, s))"

function map_loop :: "'s frame_alloc \<Rightarrow> u32 \<Rightarrow> u32 \<Rightarrow> u32 \<Rightarrow> u32 \<Rightarrow> u32 \<Rightarrow> u32 \<Rightarrow> u32 \<Rightarrow> u32
    \<Rightarrow> mem \<times> 's \<Rightarrow> (mem \<times> 's) res" where
  "map_loop alloc pd flag pde pte page_table paddr vaddr sz (m, s) =
     (if sz = 0 then Inr (m, s)
      else if IS_ALIGNED vaddr FOUR_MB \<and> IS_ALIGNED paddr FOUR_MB \<and> sz \<ge> 1024
      then map_loop alloc pd flag (pde + 1) pte page_table (paddr + FOUR_MB) (vaddr + FOUR_MB) (sz - 1024)
             (store32 m (pd + 4 * pde) (paddr OR PAGE_SIZE_4MB OR flag), s)
      else bnd (if pte = 0 \<or> page_table = 0 then get_table alloc pd pde flag (m, s)
                else Inr (page_table, m, s))
        (\<lambda>(page_table, m, s).
           let m = store32 m (page_table + 4 * pte) (paddr OR flag);
               pte = (pte + 1) AND (1024 - 1)
           in map_loop alloc pd flag (if pte = 0 then pde + 1 else pde) pte page_table
                (paddr + 0x1000) (vaddr + 0x1000) (sz - 1) (m, s)))"
  by pat_completeness auto
termination
proof (relation "measure (\<lambda>(alloc, pd, flag, pde, pte, page_table, paddr, vaddr, sz, st). unat sz)", goal_cases)
  case (2 alloc pd flag pde pte page_table paddr vaddr sz m s)
  then have "unat (sz - 1024) = unat sz - 1024" "1024 \<le> unat sz"
    by (simp_all add: unat_sub word_le_nat_alt)
  then show ?case by simp
next
  case (3 alloc pd flag pde pte page_table paddr vaddr sz m s)
  then have "unat (sz - 1) = unat sz - 1" "0 < unat sz"
    by (simp_all add: unat_sub word_le_nat_alt unat_gt_0 Suc_le_eq)
  then show ?case by simp
qed simp

declare map_loop.simps [simp del]

definition map_frames :: "'s frame_alloc \<Rightarrow> u32 \<Rightarrow> u32 \<Rightarrow> u32 \<Rightarrow> u32 \<Rightarrow> u32 \<Rightarrow> mem \<times> 's \<Rightarrow> (mem \<times> 's) res" where
  "map_frames alloc pd paddr vaddr sz flag st =
     map_loop alloc pd flag (drop_bit 22 vaddr AND 0x3FF) (drop_bit 12 vaddr AND 0x3FF) 0 paddr vaddr sz st"

definition bump_frame :: "u32 frame_alloc" where
  "bump_frame st =
     (let (page, s) = bump_alloc 1 \<lparr>placement_addr = snd st, bmem = fst st\<rparr>
      in Inr (page, bmem s, placement_addr s))"

definition early_map_range :: "u32 \<Rightarrow> u32 \<Rightarrow> u32 \<Rightarrow> u32 \<Rightarrow> u32 \<Rightarrow> boot \<Rightarrow> boot res" where
  "early_map_range pd paddr vaddr sz flag s =
     bnd (map_frames bump_frame pd paddr vaddr sz flag (bmem s, placement_addr s))
       (\<lambda>(m, p). Inr (s\<lparr>bmem := m, placement_addr := p\<rparr>))"

definition pmm_frame :: "buddy frame_alloc" where
  "pmm_frame st = bnd (pmm_alloc (snd st) 0) (\<lambda>(a, b). Inr (a, fst st, b))"

definition map_range :: "u32 \<Rightarrow> u32 \<Rightarrow> u32 \<Rightarrow> u32 \<Rightarrow> u32 \<Rightarrow> mem \<times> buddy \<Rightarrow> (mem \<times> buddy) res" where
  "map_range pd paddr vaddr sz flag st = map_frames pmm_frame pd paddr vaddr sz flag st"

section \<open>The kernel's address space\<close>

text \<open>The addresses the linker gives to the sections of the kernel image.\<close>

record link_map =
  ro_start :: u32
  ro_end :: u32
  rw_start :: u32
  rw_end :: u32
  kernel_end :: u32
  kernel_page_directory :: u32

definition map_bios :: "link_map \<Rightarrow> boot \<Rightarrow> boot res" where
  "map_bios lk s =
     (let kpd = kernel_page_directory lk
      in bnd (early_map_range kpd 0 (P2V 0) 1 PAGE_PRESENT s) (\<lambda>s.
         bnd (early_map_range kpd 0x1000 (P2V 0x1000) ((0x80000 - 0x1000) div 0x1000)
                (PAGE_PRESENT OR PAGE_RW) s) (\<lambda>s.
         bnd (early_map_range kpd 0x80000 (P2V 0x80000) ((0xA0000 - 0x80000) div 0x1000)
                PAGE_PRESENT s) (\<lambda>s.
         bnd (early_map_range kpd 0xA0000 (P2V 0xA0000) ((0xC0000 - 0xA0000) div 0x1000)
                (PAGE_PRESENT OR PAGE_RW OR PAGE_NO_CACHE OR PAGE_WRITE_THROUGH) s) (\<lambda>s.
         early_map_range kpd 0xC0000 (P2V 0xC0000) ((0x100000 - 0xC0000) div 0x1000)
           (PAGE_PRESENT OR PAGE_NO_CACHE) s)))))"

definition map_kernel :: "link_map \<Rightarrow> (nat \<Rightarrow> memory_map_t) \<Rightarrow> boot \<Rightarrow> boot res" where
  "map_kernel lk memory_map s =
     (let kpd = kernel_page_directory lk;
          ro_s = V2P (ro_start lk); ro_e = V2P (ro_end lk);
          rw_s = V2P (rw_start lk); rw_e = V2P (rw_end lk);
          k_end = V2P (kernel_end lk)
      in bnd (early_map_range kpd ro_s (P2V ro_s) ((ro_e - ro_s) div 0x1000) PAGE_PRESENT s) (\<lambda>s.
         bnd (early_map_range kpd rw_s (P2V rw_s) ((rw_e - rw_s) div 0x1000)
                (PAGE_PRESENT OR PAGE_RW) s) (\<lambda>s.
         let ram_phys_end = ucast (0x100000 + mm_size (memory_map 3));
             free_size = ram_phys_end - k_end
         in bnd (early_map_range kpd k_end (P2V k_end) (free_size div 0x1000)
                   (PAGE_PRESENT OR PAGE_RW) s) (\<lambda>s.
            early_map_range kpd (ucast (mm_addr (memory_map 4))) (P2V (ucast (mm_addr (memory_map 4))))
              (ucast (mm_size (memory_map 4) div 0x1000)) PAGE_PRESENT s))))"

text \<open>The result is the boot state and the value loaded into \<open>cr3\<close>.\<close>

definition paging_init :: "link_map \<Rightarrow> (nat \<Rightarrow> memory_map_t) \<Rightarrow> boot \<Rightarrow> (boot \<times> u32) res" where
  "paging_init lk memory_map s =
     (let s = s\<lparr>bmem := kmemset (bmem s) (kernel_page_directory lk) 0 (4 * 1024)\<rparr>
      in bnd (map_bios lk s) (\<lambda>s.
         bnd (map_kernel lk memory_map s) (\<lambda>s.
         Inr (s, V2P (kernel_page_directory lk)))))"

section \<open>Frames and entries\<close>

text \<open>Frames are counted in pages; \<open>slot d i\<close> is the address of entry \<open>i\<close> of the table in frame
  \<open>d\<close>, \<open>ent m d i\<close> its value.\<close>

definition frame_addr :: "nat \<Rightarrow> u32" where
  "frame_addr d = 0x1000 * of_nat d"

definition slot :: "nat \<Rightarrow> nat \<Rightarrow> u32" where
  "slot d i = P2V (frame_addr d) + 4 * of_nat i"

definition ent :: "mem \<Rightarrow> nat \<Rightarrow> nat \<Rightarrow> u32" where
  "ent m d i = load32 m (slot d i)"

definition entry_frame :: "u32 \<Rightarrow> nat" where
  "entry_frame e = unat e div 4096"

definition present :: "u32 \<Rightarrow> bool" where
  "present e = bit e 0"

definition is_4mb :: "u32 \<Rightarrow> bool" where
  "is_4mb e = bit e 7"

definition is_table :: "u32 \<Rightarrow> bool" where
  "is_table e \<longleftrightarrow> present e \<and> \<not> is_4mb e"

record mapping =
  frame :: nat
  writable :: bool
  user :: bool

definition walk :: "mem \<Rightarrow> nat \<Rightarrow> nat \<Rightarrow> mapping option" where
  "walk m d n =
     (let e = ent m d (n div 1024)
      in if \<not> present e then None
         else if is_4mb e
         then Some \<lparr>frame = entry_frame e div 1024 * 1024 + n mod 1024, writable = bit e 1, user = bit e 2\<rparr>
         else (let t = ent m (entry_frame e) (n mod 1024)
               in if \<not> present t then None
                  else Some \<lparr>frame = entry_frame t, writable = bit e 1 \<and> bit t 1, user = bit e 2 \<and> bit t 2\<rparr>))"

end
