(* ===== verification/Paging_Walk.thy ===== *)
theory Paging_Walk
  imports Paging
begin

text \<open>
  What one step of a mapping loop does to the tables: storing a page-table entry, installing a new
  table, and installing a 4 MB page, seen through \<open>walk\<close>. A directory is well formed when its
  tables are pairwise distinct frames, none of them the directory itself.
\<close>

section \<open>Entries in memory\<close>

lemma load32_bytes:
  assumes "m a = ucast v" "m (a + 1) = ucast (drop_bit 8 v)" "m (a + 2) = ucast (drop_bit 16 v)"
    "m (a + 3) = ucast (drop_bit 24 v)"
  shows "load32 m a = v"
proof (rule bit_word_eqI)
  fix n assume "n < LENGTH(32)"
  then have n: "n < 32" by simp
  have "bit (load32 m a) n \<longleftrightarrow> bit (m (a + of_nat (n div 8))) (n mod 8)"
  proof -
    have "ucast (drop_bit (8 * (n div 8)) (load32 m a)) = m (a + of_nat (n div 8))"
      using n by (intro load32_byte) linarith
    then have "bit (m (a + of_nat (n div 8))) (n mod 8) \<longleftrightarrow>
        bit (ucast (drop_bit (8 * (n div 8)) (load32 m a)) :: u8) (n mod 8)" by simp
    also have "\<dots> \<longleftrightarrow> bit (load32 m a) n"
      using n by (simp add: bit_simps)
    finally show ?thesis ..
  qed
  also have "m (a + of_nat (n div 8)) = ucast (drop_bit (8 * (n div 8)) v)"
  proof -
    have "n div 8 < 4" using n by linarith
    then consider "n div 8 = 0" | "n div 8 = 1" | "n div 8 = 2" | "n div 8 = 3" by linarith
    then show ?thesis using assms by cases (simp_all add: ac_simps)
  qed
  also have "bit (ucast (drop_bit (8 * (n div 8)) v) :: u8) (n mod 8) \<longleftrightarrow> bit v n"
    using n by (simp add: bit_simps)
  finally show "bit (load32 m a) n = bit v n" .
qed

lemma load32_store32_same: "load32 (store32 m a v) a = v"
  by (rule load32_bytes) (simp_all add: store32_def)

lemma load32_cong:
  assumes "\<And>k. k < 4 \<Longrightarrow> m (a + of_nat k) = m' (a + of_nat k)"
  shows "load32 m a = load32 m' a"
  using assms [of 0] assms [of 1] assms [of 2] assms [of 3] by (simp add: load32_def)

text \<open>Positions in the kernel's window: \<open>at k\<close> is the virtual address of physical byte \<open>k\<close>.\<close>

lemma window_diff:
  assumes "j < 2 ^ 32" "k < 2 ^ 32"
  shows "unat (P2V (of_nat j) - P2V (of_nat k)) = (if k \<le> j then j - k else 2 ^ 32 + j - k)"
proof -
  have e: "P2V (of_nat k) = P2V 0 + of_nat k" "P2V (of_nat j) = P2V 0 + of_nat j"
    by (simp_all add: P2V_def)
  have "unat (P2V (of_nat j) - P2V 0) = j"
    using assms(1) by (simp add: e unsigned_of_nat take_bit_nat_eq_self)
  then show ?thesis
    unfolding e(1) using unat_diff_add [OF assms(2), of "P2V (of_nat j)" "P2V 0"] by simp
qed

lemma slot_window: "slot d i + of_nat k = P2V (of_nat (4096 * d + 4 * i + k))"
  by (simp add: slot_def frame_addr_def P2V_def)

lemma slot_pos: "(d :: nat) < 2 ^ 20 \<Longrightarrow> i < 1024 \<Longrightarrow> k < 4 \<Longrightarrow> 4096 * d + 4 * i + k < 2 ^ 32"
  by simp

lemma apart_diff:
  fixes x y N u :: nat
  assumes "u = (if y \<le> x then x - y else N + x - y)" "y + c \<le> x \<or> x < y" "y + c \<le> N"
  shows "\<not> u < c"
  using assms by (auto split: if_splits)

lemma ent_store:
  assumes "d < 2 ^ 20" "i < 1024" "d' < 2 ^ 20" "i' < 1024"
  shows "ent (store32 m (slot d i) v) d' i' = (if d' = d \<and> i' = i then v else ent m d' i')"
proof (cases "d' = d \<and> i' = i")
  case False
  have keep: "store32 m (slot d i) v (slot d' i' + of_nat k) = m (slot d' i' + of_nat k)" if k: "k < 4" for k
  proof -
    have "4096 * d + 4 * i \<noteq> 4096 * d' + 4 * i'"
    proof
      assume eq: "4096 * d + 4 * i = 4096 * d' + 4 * i'"
      then have "(4096 * d + 4 * i) div 4096 = (4096 * d' + 4 * i') div 4096" by simp
      then have "d = d'" using assms by simp
      with eq False show False by simp
    qed
    then consider "1024 * d + i < 1024 * d' + i'" | "1024 * d' + i' < 1024 * d + i" by linarith
    then have ne: "4096 * d + 4 * i + 4 \<le> 4096 * d' + 4 * i' + k \<or> 4096 * d' + 4 * i' + k < 4096 * d + 4 * i"
    proof cases
      case 1
      then have "4096 * d + 4 * i + 4 \<le> 4096 * d' + 4 * i' + k" by linarith
      then show ?thesis ..
    next
      case 2
      then have "4096 * d' + 4 * i' + k < 4096 * d + 4 * i" using k by linarith
      then show ?thesis ..
    qed
    have "unat (slot d' i' + of_nat k - slot d i) =
        (if 4096 * d + 4 * i \<le> 4096 * d' + 4 * i' + k then 4096 * d' + 4 * i' + k - (4096 * d + 4 * i)
         else 2 ^ 32 + (4096 * d' + 4 * i' + k) - (4096 * d + 4 * i))"
      using window_diff [OF slot_pos [OF assms(3,4) k] slot_pos [OF assms(1,2), of 0]]
        slot_window [of d' i' k] slot_window [of d i 0] by simp
    moreover note ne
    moreover have "4096 * d + 4 * i + 4 \<le> 2 ^ 32" using slot_pos [OF assms(1,2), of 3] by linarith
    ultimately have "\<not> unat (slot d' i' + of_nat k - slot d i) < 4" by (rule apart_diff)
    then show ?thesis by (simp only: store32_def if_False)
  qed
  have "load32 (store32 m (slot d i) v) (slot d' i') = load32 m (slot d' i')"
    by (rule load32_cong) (rule keep)
  with False show ?thesis unfolding ent_def by (simp only: if_False)
qed (simp add: ent_def load32_store32_same)

text \<open>The frame that holds a byte, and memories that agree outside a set of frames.\<close>

definition frame_of :: "u32 \<Rightarrow> nat" where
  "frame_of x = unat (V2P x) div 4096"

definition kept :: "nat set \<Rightarrow> mem \<Rightarrow> mem \<Rightarrow> bool" where
  "kept F m m' \<longleftrightarrow> (\<forall>x. frame_of x \<notin> F \<longrightarrow> m' x = m x)"

lemma kept_refl [simp]: "kept F m m"
  by (simp add: kept_def)

lemma kept_trans: "kept F m m' \<Longrightarrow> kept G m' m'' \<Longrightarrow> kept (F \<union> G) m m''"
  by (simp add: kept_def)

lemma kept_mono: "kept F m m' \<Longrightarrow> F \<subseteq> G \<Longrightarrow> kept G m m'"
  by (auto simp: kept_def)

lemma frame_of_window: "k < 2 ^ 32 \<Longrightarrow> frame_of (P2V (of_nat k)) = k div 4096"
  by (simp add: frame_of_def unsigned_of_nat take_bit_nat_eq_self)

lemma frame_of_slot:
  assumes "d < 2 ^ 20" "i < 1024" "k < 4"
  shows "frame_of (slot d i + of_nat k) = d"
proof -
  have "frame_of (slot d i + of_nat k) = (4096 * d + 4 * i + k) div 4096"
    unfolding slot_window by (rule frame_of_window [OF slot_pos [OF assms]])
  also have "\<dots> = d" using assms(2,3) by (intro div_nat_eqI) simp_all
  finally show ?thesis .
qed

lemma ent_kept:
  assumes "kept F m m'" "d < 2 ^ 20" "i < 1024" "d \<notin> F"
  shows "ent m' d i = ent m d i"
  unfolding ent_def
proof (rule load32_cong)
  fix k :: nat assume "k < 4"
  from frame_of_slot [OF assms(2,3) this] assms(1,4)
  show "m' (slot d i + of_nat k) = m (slot d i + of_nat k)" by (simp add: kept_def)
qed

lemma kept_store:
  assumes "d < 2 ^ 20" "i < 1024"
  shows "kept {d} m (store32 m (slot d i) v)"
  unfolding kept_def
proof (intro allI impI)
  fix x assume x: "frame_of x \<notin> {d}"
  show "store32 m (slot d i) v x = m x"
  proof (cases "unat (x - slot d i) < 4")
    case True
    have "x = slot d i + of_nat (unat (x - slot d i))" by simp
    with frame_of_slot [OF assms True] x show ?thesis by simp
  qed (simp add: store32_def)
qed

lemma frame_of_page:
  assumes "a < 2 ^ 20"
  shows "unat (x - P2V (frame_addr a)) < 4096 \<longleftrightarrow> frame_of x = a"
proof -
  obtain k where k: "x = P2V (of_nat k)" "k < 2 ^ 32"
  proof
    show "x = P2V (of_nat (unat (V2P x)))" by simp
    show "unat (V2P x) < 2 ^ 32" using unsigned_less [where 'a = nat, of "V2P x"] by simp
  qed
  have a: "4096 * a < 2 ^ 32" "P2V (frame_addr a) = P2V (of_nat (4096 * a))"
    using assms by (simp_all add: frame_addr_def)
  have u: "unat (x - P2V (frame_addr a)) = (if 4096 * a \<le> k then k - 4096 * a else 2 ^ 32 + k - 4096 * a)"
    unfolding k(1) a(2) by (rule window_diff [OF k(2) a(1)])
  have f: "frame_of x = k div 4096" unfolding k(1) by (rule frame_of_window [OF k(2)])
  show ?thesis
  proof
    assume "unat (x - P2V (frame_addr a)) < 4096"
    moreover have "4096 * a + 4096 \<le> 2 ^ 32" using assms by simp
    ultimately have "4096 * a \<le> k" "k < 4096 * Suc a" using u by (auto split: if_splits)
    then show "frame_of x = a" unfolding f by (intro div_nat_eqI) simp_all
  next
    assume "frame_of x = a"
    then have "4096 * a \<le> k" "k - 4096 * a < 4096" unfolding f by auto
    with u show "unat (x - P2V (frame_addr a)) < 4096" by simp
  qed
qed

section \<open>Making and reading entries\<close>

lemma unat_bits: "bit (unat (w :: 'a::len word)) n \<longleftrightarrow> bit w n"
  using bit_imp_le_length [of w n] by (auto simp: bit_unsigned_iff)

lemma entry_frame_drop: "entry_frame e = unat (drop_bit 12 e)"
  by (simp add: entry_frame_def drop_bit_eq_div unat_div)

lemma entry_frame_less: "entry_frame e < 2 ^ 20"
  using unsigned_less [where 'a = nat, of e] by (simp add: entry_frame_def less_mult_imp_div_less)

lemma frame_addr_bits: "bit (frame_addr a) n \<longleftrightarrow> 12 \<le> n \<and> n < 32 \<and> bit a (n - 12)"
proof -
  have "frame_addr a = push_bit 12 (of_nat a)" by (simp add: frame_addr_def push_bit_eq_mult)
  then show ?thesis by (auto simp: bit_simps)
qed

lemma small_bits: "unat (x :: u32) < 2 ^ k \<Longrightarrow> bit x n \<Longrightarrow> n < k"
proof -
  assume a: "unat x < 2 ^ k" "bit x n"
  have "take_bit k x = x"
    using a(1) by (simp add: word_unat_eq_iff unsigned_take_bit_eq take_bit_nat_eq_self)
  with a(2) show "n < k" by (metis bit_take_bit_iff)
qed

lemma no_high_bits:
  fixes w :: u32
  assumes "\<And>n. bit w n \<Longrightarrow> n < k"
  shows "unat w < 2 ^ k"
proof -
  have "take_bit k w = w"
    by (rule bit_word_eqI) (auto simp: bit_take_bit_iff assms)
  then have "unat w = take_bit k (unat w)"
    using unsigned_take_bit_eq [of k w] by simp
  then show ?thesis using take_bit_nat_less_exp [of k "unat w"] by simp
qed

lemma flag_bits:
  "bit PAGE_PRESENT n \<longleftrightarrow> n = 0" "bit PAGE_RW n \<longleftrightarrow> n = 1" "bit PAGE_USER n \<longleftrightarrow> n = 2"
  "bit PAGE_WRITE_THROUGH n \<longleftrightarrow> n = 3" "bit PAGE_NO_CACHE n \<longleftrightarrow> n = 4" "bit PAGE_SIZE_4MB n \<longleftrightarrow> n = 7"
proof -
  have p: "bit (2 ^ k :: u32) n \<longleftrightarrow> n = k" if "k < 32" for k using that by (auto simp: bit_exp_iff)
  show "bit PAGE_PRESENT n \<longleftrightarrow> n = 0" "bit PAGE_RW n \<longleftrightarrow> n = 1" "bit PAGE_USER n \<longleftrightarrow> n = 2"
    "bit PAGE_WRITE_THROUGH n \<longleftrightarrow> n = 3" "bit PAGE_NO_CACHE n \<longleftrightarrow> n = 4" "bit PAGE_SIZE_4MB n \<longleftrightarrow> n = 7"
    using p [of 0] p [of 1] p [of 2] p [of 3] p [of 4] p [of 7] by (simp_all add: page_flag_defs)
qed

lemma entry_make:
  assumes "a < 2 ^ 20" "unat x < 4096"
  shows "entry_frame (frame_addr a OR x) = a" "n < 12 \<Longrightarrow> bit (frame_addr a OR x) n \<longleftrightarrow> bit x n"
proof -
  have x: "bit x n \<Longrightarrow> n < 12" for n using small_bits [of x 12 n] assms(2) by simp
  have a: "bit a n \<Longrightarrow> n < 20" for n
  proof -
    have "take_bit 20 a = a" using assms(1) by (simp add: take_bit_nat_eq_self)
    then show "bit a n \<Longrightarrow> n < 20" by (metis bit_take_bit_iff)
  qed
  show "n < 12 \<Longrightarrow> bit (frame_addr a OR x) n \<longleftrightarrow> bit x n"
    by (simp add: bit_simps frame_addr_bits)
  show "entry_frame (frame_addr a OR x) = a"
    unfolding entry_frame_drop
  proof (rule bit_eqI)
    fix n
    show "bit (unat (drop_bit 12 (frame_addr a OR x))) n \<longleftrightarrow> bit a n"
      unfolding unat_bits using x [of "12 + n"] a [of n] by (auto simp: bit_simps frame_addr_bits)
  qed
qed

lemma entry_mask: "e AND PAGE_MASK = frame_addr (entry_frame e)"
proof (rule bit_word_eqI)
  fix n assume "n < LENGTH(32)"
  then have n: "n < 32" by simp
  have m: "PAGE_MASK = NOT (mask 12)" by (simp add: PAGE_MASK_def mask_eq_exp_minus_1)
  have "bit (e AND PAGE_MASK) n \<longleftrightarrow> bit e n \<and> 12 \<le> n" unfolding m using n by (auto simp: bit_simps)
  also have "\<dots> \<longleftrightarrow> bit (frame_addr (entry_frame e)) n"
    unfolding frame_addr_bits entry_frame_drop unat_bits using n by (auto simp: bit_simps)
  finally show "bit (e AND PAGE_MASK) n \<longleftrightarrow> bit (frame_addr (entry_frame e)) n" .
qed

lemma present_and: "e AND PAGE_PRESENT = 0 \<longleftrightarrow> \<not> present e"
  by (simp add: PAGE_PRESENT_def present_def and_one_eq bit_0 even_iff_mod_2_eq_zero)


section \<open>Directories\<close>

definition flag_ok :: "u32 \<Rightarrow> bool" where
  "flag_ok flag \<longleftrightarrow> bit flag 0 \<and> unat flag < 0x80"

text \<open>An entry under which pages with the given flags can be mapped: absent, or a table with at
  least the rights asked for.\<close>

definition pde_ok :: "u32 \<Rightarrow> u32 \<Rightarrow> bool" where
  "pde_ok flag e \<longleftrightarrow> \<not> present e \<or> is_table e \<and> bit e 1 \<and> (bit flag 2 \<longrightarrow> bit e 2)"

definition tables :: "mem \<Rightarrow> nat \<Rightarrow> nat set" where
  "tables m d = {entry_frame (ent m d i) | i. i < 1024 \<and> is_table (ent m d i)}"

definition dir_wf :: "mem \<Rightarrow> nat \<Rightarrow> bool" where
  "dir_wf m d \<longleftrightarrow> d < 2 ^ 20 \<and> d \<notin> tables m d \<and>
     (\<forall>i<1024. \<forall>j<1024. is_table (ent m d i) \<longrightarrow> is_table (ent m d j) \<longrightarrow>
       entry_frame (ent m d i) = entry_frame (ent m d j) \<longrightarrow> i = j)"

lemma dir_wfD:
  assumes "dir_wf m d"
  shows "d < 2 ^ 20" "i < 1024 \<Longrightarrow> is_table (ent m d i) \<Longrightarrow> entry_frame (ent m d i) \<noteq> d"
    "i < 1024 \<Longrightarrow> j < 1024 \<Longrightarrow> is_table (ent m d i) \<Longrightarrow> is_table (ent m d j) \<Longrightarrow>
      entry_frame (ent m d i) = entry_frame (ent m d j) \<Longrightarrow> i = j"
  using assms unfolding dir_wf_def tables_def by auto

lemma tablesI: "i < 1024 \<Longrightarrow> is_table (ent m d i) \<Longrightarrow> entry_frame (ent m d i) \<in> tables m d"
  by (auto simp: tables_def)

text \<open>Only the entries of the directory and of its tables matter.\<close>

lemma walk_cong:
  assumes "n < 2 ^ 20" "ent m' d (n div 1024) = ent m d (n div 1024)"
    "is_table (ent m d (n div 1024)) \<Longrightarrow>
      ent m' (entry_frame (ent m d (n div 1024))) (n mod 1024) = ent m (entry_frame (ent m d (n div 1024))) (n mod 1024)"
  shows "walk m' d n = walk m d n"
  using assms unfolding walk_def Let_def is_table_def by simp

text \<open>Replacing a directory entry that is not a table after, or whose table is new.\<close>

lemma dir_wf_update:
  assumes wf: "dir_wf m d" and i: "i < 1024"
    and others: "\<And>j. j < 1024 \<Longrightarrow> j \<noteq> i \<Longrightarrow> ent m' d j = ent m d j"
    and new: "is_table (ent m' d i) \<Longrightarrow> entry_frame (ent m' d i) \<notin> insert d (tables m d)"
  shows "dir_wf m' d" "tables m' d \<subseteq> tables m d \<union> (if is_table (ent m' d i) then {entry_frame (ent m' d i)} else {})"
proof -
  have sub: "x \<in> tables m d \<or> is_table (ent m' d i) \<and> x = entry_frame (ent m' d i)" if "x \<in> tables m' d" for x
  proof -
    from that obtain j where "j < 1024" "is_table (ent m' d j)" "x = entry_frame (ent m' d j)"
      by (auto simp: tables_def)
    with others [of j] show ?thesis by (cases "j = i") (auto simp: tables_def)
  qed
  then show "tables m' d \<subseteq> tables m d \<union> (if is_table (ent m' d i) then {entry_frame (ent m' d i)} else {})"
    by auto
  have "d \<notin> tables m' d"
  proof
    assume "d \<in> tables m' d"
    with sub [of d] new wf show False by (auto simp: dir_wf_def)
  qed
  moreover have "j = k" if "j < 1024" "k < 1024" "is_table (ent m' d j)" "is_table (ent m' d k)"
    "entry_frame (ent m' d j) = entry_frame (ent m' d k)" for j k
  proof (cases "j = i \<or> k = i")
    case True
    have old: "entry_frame (ent m' d l) \<in> tables m d" if "l < 1024" "l \<noteq> i" "is_table (ent m' d l)" for l
      using that others [of l] tablesI [of l m d] by simp
    from True show ?thesis using that new old [of j] old [of k] by (cases "j = i"; cases "k = i") auto
  next
    case False
    then show ?thesis using that dir_wfD(3) [OF wf that(1,2)] others [of j] others [of k] by auto
  qed
  ultimately show "dir_wf m' d" using wf by (auto simp: dir_wf_def)
qed


section \<open>One page at a time\<close>

lemma flags_small:
  assumes "\<And>n. bit f n \<Longrightarrow> n < 12" "flag_ok flag"
  shows "unat (f OR flag) < 4096"
proof -
  have "unat (f OR flag) < 2 ^ 12"
  proof (rule no_high_bits)
    fix n assume "bit (f OR flag) n"
    then consider "bit f n" | "bit flag n" by (auto simp: bit_or_iff)
    then show "n < 12"
      using assms(1) [of n] small_bits [of flag 7 n] assms(2) by cases (auto simp: flag_ok_def)
  qed
  then show ?thesis by simp
qed

text \<open>The entry installed for a new table.\<close>

lemma table_entry:
  assumes "x < 2 ^ 20" "flag_ok flag"
  defines "v \<equiv> frame_addr x OR PAGE_PRESENT OR PAGE_RW OR flag"
  shows "is_table v" "entry_frame v = x" "pde_ok flag v"
proof -
  let ?f = "PAGE_PRESENT OR PAGE_RW OR flag"
  have f: "unat ?f < 4096"
    unfolding or.assoc [symmetric] by (rule flags_small [OF _ assms(2)]) (auto simp: bit_or_iff flag_bits)
  have v: "v = frame_addr x OR ?f" by (simp add: v_def or.assoc)
  have bits: "bit v n \<longleftrightarrow> n = 0 \<or> n = 1 \<or> bit flag n" if "n < 12" for n
    unfolding v entry_make(2) [OF assms(1) f that] by (auto simp: bit_or_iff flag_bits)
  have "\<not> bit flag 7" using small_bits [of flag 7 7] assms(2) by (auto simp: flag_ok_def)
  then show "is_table v" "pde_ok flag v"
    by (simp_all add: is_table_def pde_ok_def present_def is_4mb_def bits)
  show "entry_frame v = x" unfolding v by (rule entry_make(1) [OF assms(1) f])
qed

text \<open>A directory whose structures all lie outside the free frames \<open>F\<close>, and what a page mapped with
  the given flags looks like.\<close>

definition dir_space :: "nat set \<Rightarrow> nat \<Rightarrow> mem \<Rightarrow> bool" where
  "dir_space F d m \<longleftrightarrow> dir_wf m d \<and> d \<notin> F \<and> tables m d \<inter> F = {}"

definition page_mapping :: "u32 \<Rightarrow> nat \<Rightarrow> mapping" where
  "page_mapping flag p = \<lparr>frame = p, writable = bit flag 1, user = bit flag 2\<rparr>"

text \<open>Where page tables come from: an allocator of frames with its own state. A fresh frame was
  free before, only its own bytes may change when it is handed out, and it is cleared if the
  allocator says so.\<close>

locale frame_source =
  fixes inv :: "'s \<Rightarrow> bool"
    and free :: "'s \<Rightarrow> nat set"
    and alloc :: "'s frame_alloc"
    and zeroed :: bool
  assumes alloc_ok: "inv s \<Longrightarrow> free s \<noteq> {} \<Longrightarrow> alloc (m, s) = Inr (a, m', s') \<Longrightarrow>
      inv s' \<and> (\<exists>x\<in>free s. x < 2 ^ 20 \<and> a = frame_addr x \<and> free s' = free s - {x} \<and> kept {x} m m' \<and>
        (zeroed \<longrightarrow> (\<forall>j<1024. ent m' x j = 0)))"
    and alloc_total: "inv s \<Longrightarrow> free s \<noteq> {} \<Longrightarrow> \<exists>r. alloc (m, s) = Inr r"
    and finite_free: "inv s \<Longrightarrow> finite (free s)"
begin

definition space_ok :: "nat \<Rightarrow> mem \<Rightarrow> 's \<Rightarrow> bool" where
  "space_ok d m s \<longleftrightarrow> inv s \<and> dir_space (free s) d m"

lemma alloc_frame:
  assumes "inv s" "free s \<noteq> {}"
  obtains x m' s' where "alloc (m, s) = Inr (frame_addr x, m', s')" "inv s'" "x \<in> free s" "x < 2 ^ 20"
    "free s' = free s - {x}" "kept {x} m m'" "zeroed \<longrightarrow> (\<forall>j<1024. ent m' x j = 0)"
proof -
  from alloc_total [OF assms] obtain r where r: "alloc (m, s) = Inr r" by blast
  obtain a m' s' where "r = (a, m', s')" by (cases r) auto
  with alloc_ok [OF assms] r that show thesis by blast
qed

lemma get_table_ok:
  assumes ok: "space_ok d m s" and i: "i < 1024" and e: "pde_ok flag (ent m d i)"
    and flag: "flag_ok flag" and free: "free s \<noteq> {}"
  obtains x m' s' where
    "get_table alloc (P2V (frame_addr d)) (of_nat i) flag (m, s) = Inr (P2V (frame_addr x), m', s')"
    "space_ok d m' s'" "is_table (ent m' d i)" "entry_frame (ent m' d i) = x" "pde_ok flag (ent m' d i)"
    "\<forall>j<1024. j \<noteq> i \<longrightarrow> ent m' d j = ent m d j"
    "kept (insert d (free s)) m m'" "free s' \<subseteq> free s" "card (free s) \<le> Suc (card (free s'))"
    "present (ent m d i) \<longrightarrow> m' = m \<and> s' = s"
    "\<not> present (ent m d i) \<longrightarrow> x \<in> free s \<and> (zeroed \<longrightarrow> (\<forall>j<1024. ent m' x j = 0))"
proof -
  have wf: "inv s" "dir_wf m d" "d \<notin> free s" "tables m d \<inter> free s = {}"
    using ok by (simp_all add: space_ok_def dir_space_def)
  have d: "d < 2 ^ 20" using dir_wfD(1) [OF wf(2)] .
  have slot: "P2V (frame_addr d) + 4 * of_nat i = slot d i" by (simp add: slot_def)
  note g = get_table_def [of alloc "P2V (frame_addr d)" "of_nat i" flag "(m, s)", unfolded slot fst_conv
      present_and ent_def [symmetric]]
  show thesis
  proof (cases "present (ent m d i)")
    case True
    then have "is_table (ent m d i)" using e by (simp add: pde_ok_def)
    moreover have "get_table alloc (P2V (frame_addr d)) (of_nat i) flag (m, s) =
        Inr (P2V (frame_addr (entry_frame (ent m d i))), m, s)"
      unfolding g using True by (simp add: entry_mask)
    ultimately show thesis using that [of _ m s] ok e True by auto
  next
    case False
    obtain x m1 s' where x: "alloc (m, s) = Inr (frame_addr x, m1, s')" "inv s'" "x \<in> free s" "x < 2 ^ 20"
      "free s' = free s - {x}" "kept {x} m m1" "zeroed \<longrightarrow> (\<forall>j<1024. ent m1 x j = 0)"
      by (rule alloc_frame [OF wf(1) free, of m])
    define v where "v = frame_addr x OR PAGE_PRESENT OR PAGE_RW OR flag"
    define m' where "m' = store32 m1 (slot d i) v"
    note v = table_entry [OF x(4) flag, folded v_def]
    have xd: "x \<noteq> d" "x \<notin> tables m d" using x(3) wf(3,4) by auto
    have mi: "ent m' d i = v" unfolding m'_def using ent_store [OF d i d i] by simp
    have mj: "ent m' d j = ent m d j" if "j < 1024" "j \<noteq> i" for j
      unfolding m'_def using ent_store [OF d i d that(1)] that ent_kept [OF x(6) d that(1)] xd(1) by simp
    have "is_table (ent m' d i) \<Longrightarrow> entry_frame (ent m' d i) \<notin> insert d (tables m d)"
      unfolding mi v using xd by simp
    note upd = dir_wf_update [OF wf(2) i mj this]
    have k: "kept (insert d (free s)) m m'"
      using kept_trans [OF x(6) kept_store [OF d i, of m1 v]] unfolding m'_def [symmetric]
      by (rule kept_mono) (use x(3) in auto)
    have c: "card (free s) \<le> Suc (card (free s'))"
      using finite_free [OF wf(1)] x(3,5) by (simp add: card_Diff_singleton)
    have z: "zeroed \<longrightarrow> (\<forall>j<1024. ent m' x j = 0)"
      unfolding m'_def using x(7) ent_store [OF d i x(4)] xd(1) by simp
    have "get_table alloc (P2V (frame_addr d)) (of_nat i) flag (m, s) = Inr (P2V (frame_addr x), m', s')"
      unfolding g using False x(1) mi v(2)
      by (simp add: v_def [symmetric] slot m'_def [symmetric] ent_def [symmetric] entry_mask)
    moreover have "space_ok d m' s'"
      using upd x(2,5) wf(3,4) xd unfolding space_ok_def dir_space_def mi v by (auto split: if_splits)
    ultimately show thesis
      using that [of x m' s'] k c z mi v mj x(3,5) False by auto
  qed
qed

lemma space_ok_cong:
  assumes "space_ok d m s" "\<And>j. j < 1024 \<Longrightarrow> ent m' d j = ent m d j"
  shows "space_ok d m' s" "tables m' d = tables m d"
proof -
  show t: "tables m' d = tables m d" unfolding tables_def by (rule Collect_cong) (metis assms(2))
  have "dir_wf m' d \<longleftrightarrow> dir_wf m d" unfolding dir_wf_def t using assms(2) by auto
  with assms(1) t show "space_ok d m' s" by (simp add: space_ok_def dir_space_def)
qed

lemma get_table_walk:
  assumes ok: "space_ok d m s" and i: "i < 1024" and n: "n < 2 ^ 20"
    and others: "\<forall>j<1024. j \<noteq> i \<longrightarrow> ent m' d j = ent m d j"
    and kept: "kept (insert d (free s)) m m'"
    and same: "present (ent m d i) \<longrightarrow> m' = m"
    and new: "\<not> present (ent m d i) \<longrightarrow> zeroed \<longrightarrow> (\<forall>j<1024. ent m' x j = 0)"
    and t: "is_table (ent m' d i)" "entry_frame (ent m' d i) = x"
    and c: "zeroed \<or> present (ent m d i) \<or> n div 1024 \<noteq> i"
  shows "walk m' d n = walk m d n"
proof -
  have wf: "dir_wf m d" "d \<notin> free s" "tables m d \<inter> free s = {}" using ok by (simp_all add: space_ok_def dir_space_def)
  have i': "n div 1024 < 1024" "n mod 1024 < 1024" using n by (simp_all add: less_mult_imp_div_less)
  consider "present (ent m d i)" | "n div 1024 \<noteq> i" | "\<not> present (ent m d i)" "n div 1024 = i" zeroed
    using c by blast
  then show ?thesis
  proof cases
    case 1
    with same show ?thesis by simp
  next
    case 2
    show ?thesis
    proof (rule walk_cong [OF n])
      show "ent m' d (n div 1024) = ent m d (n div 1024)" using others i' 2 by simp
      assume t': "is_table (ent m d (n div 1024))"
      have "entry_frame (ent m d (n div 1024)) \<notin> insert d (free s)"
        using dir_wfD(2) [OF wf(1) i'(1) t'] tablesI [OF i'(1) t'] wf(3) by blast
      from ent_kept [OF kept entry_frame_less i'(2) this]
      show "ent m' (entry_frame (ent m d (n div 1024))) (n mod 1024) =
          ent m (entry_frame (ent m d (n div 1024))) (n mod 1024)" .
    qed
  next
    case 3
    then have "ent m' x (n mod 1024) = 0" using new i'(2) by simp
    then have "walk m' d n = None" using t 3 by (simp add: walk_def Let_def is_table_def present_def)
    moreover have "walk m d n = None" using 3 by (simp add: walk_def Let_def)
    ultimately show ?thesis by simp
  qed
qed

lemma store_pte_walk:
  assumes ok: "space_ok d m s" and i: "i < 1024" and j: "j < 1024" and p: "p < 2 ^ 20"
    and flag: "flag_ok flag" and t: "is_table (ent m d i)" "entry_frame (ent m d i) = x" "pde_ok flag (ent m d i)"
  defines "m' \<equiv> store32 m (slot x j) (frame_addr p OR flag)"
  shows "space_ok d m' s" "\<And>k. k < 1024 \<Longrightarrow> ent m' d k = ent m d k"
    "walk m' d (1024 * i + j) = Some (page_mapping flag p)"
    "\<And>n. n < 2 ^ 20 \<Longrightarrow> n \<noteq> 1024 * i + j \<Longrightarrow> walk m' d n = walk m d n"
    "kept {x} m m'"
proof -
  have wf: "dir_wf m d" using ok by (simp add: space_ok_def dir_space_def)
  have d: "d < 2 ^ 20" by (rule dir_wfD(1) [OF wf])
  have x: "x < 2 ^ 20" "x \<noteq> d" using t(2) entry_frame_less dir_wfD(2) [OF wf i t(1)] by auto
  have f: "unat flag < 4096" using flag by (simp add: flag_ok_def)
  have st: "ent m' y k = (if y = x \<and> k = j then frame_addr p OR flag else ent m y k)"
    if "y < 2 ^ 20" "k < 1024" for y k
    unfolding m'_def by (rule ent_store [OF x(1) j that])
  show e: "ent m' d k = ent m d k" if "k < 1024" for k using st [OF d that] x(2) by simp
  show "space_ok d m' s" by (rule space_ok_cong(1) [OF ok e])
  show "kept {x} m m'" unfolding m'_def by (rule kept_store [OF x(1) j])
  have div: "(1024 * i + j) div 1024 = i" "(1024 * i + j) mod 1024 = j" using j by simp_all
  show "walk m' d (1024 * i + j) = Some (page_mapping flag p)"
    using t flag unfolding walk_def Let_def div e [OF i] page_mapping_def
    by (auto simp: is_table_def pde_ok_def present_def flag_ok_def t(2) st [OF x(1) j] entry_make [OF p f])
  show "walk m' d n = walk m d n" if n: "n < 2 ^ 20" "n \<noteq> 1024 * i + j" for n
  proof (rule walk_cong [OF n(1)])
    have i': "n div 1024 < 1024" "n mod 1024 < 1024" using n(1) by (simp_all add: less_mult_imp_div_less)
    show "ent m' d (n div 1024) = ent m d (n div 1024)" by (rule e [OF i'(1)])
    assume t': "is_table (ent m d (n div 1024))"
    have "\<not> (entry_frame (ent m d (n div 1024)) = x \<and> n mod 1024 = j)"
    proof
      assume a: "entry_frame (ent m d (n div 1024)) = x \<and> n mod 1024 = j"
      then have "n div 1024 = i" using dir_wfD(3) [OF wf i'(1) i t' t(1)] t(2) by simp
      with a n(2) show False using mult_div_mod_eq [of 1024 n] by simp
    qed
    then show "ent m' (entry_frame (ent m d (n div 1024))) (n mod 1024) =
        ent m (entry_frame (ent m d (n div 1024))) (n mod 1024)"
      unfolding st [OF entry_frame_less i'(2)] by (simp only: if_False)
  qed
qed

end

end
