(* ===== verification/Paging_Loop.thy ===== *)
theory Paging_Loop
  imports Paging_Walk
begin

text \<open>
  The mapping loop as a whole: after \<open>map_frames\<close> every page of the range is mapped to its frame
  with the rights asked for, and no other page has changed. The proof is done once for any source
  of frames, and the two sources of the kernel are shown to be such.
\<close>

section \<open>The counters of the loop\<close>

lemma map_loop_done [simp]: "map_loop alloc pd flag pde pte pt paddr vaddr 0 (m, s) = Inr (m, s)"
  by (subst map_loop.simps) simp

lemma u32_of_nat_eq: "k < 2 ^ 32 \<Longrightarrow> j < 2 ^ 32 \<Longrightarrow> (of_nat k :: u32) = of_nat j \<longleftrightarrow> k = j"
  by (simp add: word_unat_eq_iff unsigned_of_nat take_bit_nat_eq_self)

lemma u32_of_nat_0: "k < 2 ^ 32 \<Longrightarrow> (of_nat k :: u32) = 0 \<longleftrightarrow> k = 0"
  using u32_of_nat_eq [of k 0] by simp

lemma u32_of_nat_ge: "k < 2 ^ 32 \<Longrightarrow> 1024 \<le> (of_nat k :: u32) \<longleftrightarrow> 1024 \<le> k"
  by (simp add: word_le_nat_alt unsigned_of_nat take_bit_nat_eq_self)

lemma unat_frame_addr: "n < 2 ^ 20 \<Longrightarrow> unat (frame_addr n) = 4096 * n"
proof -
  assume "n < 2 ^ 20"
  then have "4096 * n < 2 ^ 32" by simp
  moreover have "frame_addr n = of_nat (4096 * n)" by (simp add: frame_addr_def)
  ultimately show "unat (frame_addr n) = 4096 * n"
    by (simp add: unsigned_of_nat take_bit_nat_eq_self del: of_nat_mult)
qed

lemma aligned_4mb: "n < 2 ^ 20 \<Longrightarrow> IS_ALIGNED (frame_addr n) FOUR_MB \<longleftrightarrow> n mod 1024 = 0"
proof -
  assume n: "n < 2 ^ 20"
  have f: "FOUR_MB = 2 ^ 22" by (simp add: FOUR_MB_def)
  have "(2 :: nat) ^ 22 = 4096 * 1024" by simp
  then have "IS_ALIGNED (frame_addr n) FOUR_MB \<longleftrightarrow> 4096 * 1024 dvd 4096 * n"
    unfolding f IS_ALIGNED_dvd unat_frame_addr [OF n] by (simp only:)
  also have "\<dots> \<longleftrightarrow> 1024 dvd n" by (rule nat_mult_dvd_cancel1) simp
  finally show "IS_ALIGNED (frame_addr n) FOUR_MB \<longleftrightarrow> n mod 1024 = 0" by (simp add: dvd_eq_mod_eq_0)
qed

lemma next_frame: "frame_addr p + 0x1000 = frame_addr (Suc p)" "frame_addr p + FOUR_MB = frame_addr (p + 1024)"
  by (simp_all add: frame_addr_def FOUR_MB_def algebra_simps)

lemma next_pte: "(of_nat (n mod 1024) + 1) AND (1024 - 1) = (of_nat (Suc n mod 1024) :: u32)"
proof -
  have "(1024 - 1 :: u32) = mask 10" by (simp add: mask_eq_exp_minus_1)
  then have "(of_nat (n mod 1024) + 1) AND (1024 - 1) = (take_bit 10 (of_nat (Suc (n mod 1024))) :: u32)"
    by (simp only: take_bit_eq_mask) (simp add: ac_simps)
  also have "\<dots> = of_nat (take_bit 10 (Suc (n mod 1024)))" by (simp only: take_bit_of_nat)
  also have "take_bit 10 (Suc (n mod 1024)) = Suc n mod 1024" by (simp add: take_bit_eq_mod mod_Suc_eq)
  finally show ?thesis .
qed

lemma next_pte_0: "(of_nat (Suc n mod 1024) :: u32) = 0 \<longleftrightarrow> Suc n mod 1024 = 0"
proof -
  have "Suc n mod 1024 < 1024" by simp
  also have "(1024 :: nat) < 2 ^ 32" by simp
  finally show ?thesis by (rule u32_of_nat_0)
qed

lemma next_pde: "(if Suc n mod 1024 = 0 then of_nat (n div 1024) + 1 else of_nat (n div 1024)) =
    (of_nat (Suc n div 1024) :: u32)"
  by (simp add: div_Suc)

lemma vaddr_fields:
  assumes "n < 2 ^ 20"
  shows "drop_bit 22 (frame_addr n) AND 0x3FF = of_nat (n div 1024)"
    "drop_bit 12 (frame_addr n) AND 0x3FF = of_nat (n mod 1024)"
proof -
  have m: "(0x3FF :: u32) = mask 10" by (simp add: mask_eq_exp_minus_1)
  have f: "frame_addr n = of_nat (4096 * n)" by (simp add: frame_addr_def)
  have u: "unat (of_nat (4096 * n) :: u32) = 4096 * n"
    using unat_frame_addr [OF assms] unfolding f .
  have t32: "take_bit 32 (4096 * n) = 4096 * n" using assms by (intro take_bit_nat_eq_self) simp
  have "unat (drop_bit 22 (frame_addr n) AND 0x3FF) = take_bit 10 (drop_bit 22 (4096 * n))"
    unfolding m f take_bit_eq_mask [symmetric] unsigned_take_bit_eq unsigned_drop_bit_eq u by (simp add: t32)
  also have "\<dots> = n div 1024"
  proof -
    have "drop_bit 22 (4096 * n) = n div 1024"
      by (simp add: drop_bit_eq_div div_mult2_eq [of "4096 * n" 4096 1024, simplified])
    moreover have "n div 1024 < 2 ^ 10" using assms by (simp add: less_mult_imp_div_less)
    ultimately show ?thesis by (simp add: take_bit_nat_eq_self)
  qed
  finally have "unat (drop_bit 22 (frame_addr n) AND 0x3FF) = n div 1024" .
  then show "drop_bit 22 (frame_addr n) AND 0x3FF = of_nat (n div 1024)"
    by (metis of_nat_unat ucast_id)
  have "unat (drop_bit 12 (frame_addr n) AND 0x3FF) = take_bit 10 (drop_bit 12 (4096 * n))"
    unfolding m f take_bit_eq_mask [symmetric] unsigned_take_bit_eq unsigned_drop_bit_eq u by (simp add: t32)
  also have "\<dots> = n mod 1024" by (simp add: drop_bit_eq_div take_bit_eq_mod)
  finally show "drop_bit 12 (frame_addr n) AND 0x3FF = of_nat (n mod 1024)"
    by (metis of_nat_unat ucast_id)
qed

section \<open>Touched entries\<close>

definition touched :: "nat \<Rightarrow> nat \<Rightarrow> nat \<Rightarrow> bool" where
  "touched n k i \<longleftrightarrow> 0 < k \<and> n < 1024 * Suc i \<and> 1024 * i < n + k"

definition covered :: "nat \<Rightarrow> nat \<Rightarrow> nat \<Rightarrow> bool" where
  "covered n k i \<longleftrightarrow> n \<le> 1024 * i \<and> 1024 * Suc i \<le> n + k"

lemma touched_first: "0 < k \<Longrightarrow> touched n k (n div 1024)"
proof -
  assume "0 < k"
  have "n < 1024 * Suc (n div 1024)" using dividend_less_times_div [of 1024 n] by simp
  moreover have "1024 * (n div 1024) \<le> n" by (rule times_div_less_eq_dividend)
  ultimately show ?thesis using \<open>0 < k\<close> by (simp add: touched_def)
qed

lemma touched_rest:
  assumes "l \<le> k" "touched (n + l) (k - l) i"
  shows "touched n k i"
  using assms by (auto simp: touched_def)

lemma touched_split:
  assumes "touched n k i" "i \<noteq> n div 1024" "l \<le> k" "n + l \<le> 1024 * Suc (n div 1024)"
  shows "touched (n + l) (k - l) i"
proof -
  have "n div 1024 \<le> i"
    using assms(1) by (auto simp: touched_def less_mult_imp_div_less mult.commute intro: less_Suc_eq_le [THEN iffD1])
  then have "Suc (n div 1024) \<le> i" using assms(2) by simp
  then have "1024 * Suc (n div 1024) \<le> 1024 * i" by (rule mult_le_mono2)
  with assms show ?thesis by (auto simp: touched_def)
qed

lemma touched_less: "touched n k i \<Longrightarrow> n + k \<le> 2 ^ 20 \<Longrightarrow> i < 1024"
  by (simp add: touched_def)

lemma covered_rest: "l \<le> k \<Longrightarrow> covered (n + l) (k - l) i \<Longrightarrow> covered n k i"
  by (auto simp: covered_def)

section \<open>What a run of the loop achieves\<close>

text \<open>\<open>maps z d flag n p k m m'\<close>: between the memories \<open>m\<close> and \<open>m'\<close>, the \<open>k\<close> pages from \<open>n\<close> on have been
  mapped to the frames from \<open>p\<close> on in directory \<open>d\<close>. Pages outside the range are as before; when new
  tables are not cleared (\<open>z\<close> false) this holds only where there was a table before.\<close>

definition maps :: "bool \<Rightarrow> nat \<Rightarrow> u32 \<Rightarrow> nat \<Rightarrow> nat \<Rightarrow> nat \<Rightarrow> mem \<Rightarrow> mem \<Rightarrow> bool" where
  "maps z d flag n p k m m' \<longleftrightarrow>
     (\<forall>j<k. walk m' d (n + j) = Some (page_mapping flag (p + j))) \<and>
     (\<forall>q<2 ^ 20. q \<notin> {n..<n + k} \<longrightarrow> z \<or> present (ent m d (q div 1024)) \<or> \<not> touched n k (q div 1024) \<longrightarrow>
        walk m' d q = walk m d q) \<and>
     (\<forall>i<1024. \<not> touched n k i \<longrightarrow> ent m' d i = ent m d i) \<and>
     (\<forall>i<1024. touched n k i \<longrightarrow> pde_ok flag (ent m' d i) \<or> covered n k i)"

lemma maps_0: "maps z d flag n p 0 m m"
  by (auto simp: maps_def touched_def)

lemma maps_step:
  assumes l: "0 < l" "l \<le> k" "n + l \<le> 1024 * Suc (n div 1024)" "n + k \<le> 2 ^ 20"
    and here: "\<forall>j<l. walk m1 d (n + j) = Some (page_mapping flag (p + j))"
    and there: "\<forall>q<2 ^ 20. q \<notin> {n..<n + l} \<longrightarrow> z \<or> present (ent m d (n div 1024)) \<or> q div 1024 \<noteq> n div 1024 \<longrightarrow>
        walk m1 d q = walk m d q"
    and ents: "\<forall>i<1024. i \<noteq> n div 1024 \<longrightarrow> ent m1 d i = ent m d i"
    and pres: "present (ent m1 d (n div 1024))"
    and first: "pde_ok flag (ent m1 d (n div 1024)) \<or> covered n k (n div 1024)"
    and rest: "maps z d flag (n + l) (p + l) (k - l) m1 m'"
  shows "maps z d flag n p k m m'"
proof -
  note r = rest [unfolded maps_def]
  show ?thesis
    unfolding maps_def
  proof (intro conjI allI impI)
    fix j assume j: "j < k"
    show "walk m' d (n + j) = Some (page_mapping flag (p + j))"
    proof (cases "j < l")
      case False
      then have "j - l < k - l" "n + l + (j - l) = n + j" "p + l + (j - l) = p + j" using j l by auto
      with r show ?thesis by metis
    next
      case True
      have "n + j < 2 ^ 20" "n + j \<notin> {n + l..<n + l + (k - l)}" using j l True by auto
      moreover have "(n + j) div 1024 = n div 1024"
        using True l(3) times_div_less_eq_dividend [of 1024 n] by (intro div_nat_eqI) auto
      ultimately have "walk m' d (n + j) = walk m1 d (n + j)" using r pres by simp
      with here True show ?thesis by simp
    qed
  next
    fix q :: nat
    assume q: "q < 2 ^ 20" "q \<notin> {n..<n + k}" "z \<or> present (ent m d (q div 1024)) \<or> \<not> touched n k (q div 1024)"
    have "q \<notin> {n + l..<n + l + (k - l)}" "q \<notin> {n..<n + l}" using q(2) l by auto
    moreover have "z \<or> present (ent m1 d (q div 1024)) \<or> \<not> touched (n + l) (k - l) (q div 1024)"
      using q(3) touched_rest [OF l(2)] pres ents less_mult_imp_div_less [of q 1024 1024] q(1)
      by (cases "q div 1024 = n div 1024") auto
    moreover have "z \<or> present (ent m d (n div 1024)) \<or> q div 1024 \<noteq> n div 1024"
      using q(3) touched_first [of k n] l by auto
    ultimately show "walk m' d q = walk m d q" using r there q(1) by metis
  next
    fix i :: nat
    assume i: "i < 1024" "\<not> touched n k i"
    then have "i \<noteq> n div 1024" "\<not> touched (n + l) (k - l) i"
      using touched_first [of k n] touched_rest [OF l(2)] l by auto
    with i(1) r ents show "ent m' d i = ent m d i" by metis
  next
    fix i :: nat
    assume i: "i < 1024" "touched n k i"
    show "pde_ok flag (ent m' d i) \<or> covered n k i"
    proof (cases "touched (n + l) (k - l) i")
      case True
      with r i(1) covered_rest [OF l(2), of n i] show ?thesis by blast
    next
      case False
      then have "i = n div 1024" using touched_split [OF i(2) _ l(2,3)] by blast
      moreover have "ent m' d i = ent m1 d i" using r i(1) False by blast
      ultimately show ?thesis using first by simp
    qed
  qed
qed

lemma big_entry:
  assumes "p < 2 ^ 20" "flag_ok flag"
  defines "v \<equiv> frame_addr p OR PAGE_SIZE_4MB OR flag"
  shows "present v" "is_4mb v" "entry_frame v = p" "bit v 1 \<longleftrightarrow> bit flag 1" "bit v 2 \<longleftrightarrow> bit flag 2"
proof -
  let ?f = "PAGE_SIZE_4MB OR flag"
  have f: "unat ?f < 4096"
    by (rule flags_small [OF _ assms(2)]) (simp add: flag_bits)
  have v: "v = frame_addr p OR ?f" by (simp add: v_def or.assoc)
  have bits: "bit v n \<longleftrightarrow> n = 7 \<or> bit flag n" if "n < 12" for n
    unfolding v entry_make(2) [OF assms(1) f that] by (auto simp: bit_or_iff flag_bits)
  show "present v" "is_4mb v" "bit v 1 \<longleftrightarrow> bit flag 1" "bit v 2 \<longleftrightarrow> bit flag 2"
    using assms(2) by (simp_all add: present_def is_4mb_def bits flag_ok_def)
  show "entry_frame v = p" unfolding v by (rule entry_make(1) [OF assms(1) f])
qed

lemma region_cong:
  fixes q n :: nat
  assumes "1024 * i = n" "q \<notin> {n..<n + 1024}"
  shows "q div 1024 \<noteq> i"
proof
  assume "q div 1024 = i"
  then have "q = n + q mod 1024" using assms(1) mult_div_mod_eq [of 1024 q] by simp
  moreover have "q mod 1024 < 1024" by simp
  ultimately show False using assms(2) by auto
qed

context frame_source
begin

lemma big_page_ok:
  assumes ok: "space_ok d m s" and i: "i < 1024" and p: "p < 2 ^ 20" "p mod 1024 = 0" and flag: "flag_ok flag"
  defines "m' \<equiv> store32 m (slot d i) (frame_addr p OR PAGE_SIZE_4MB OR flag)"
  shows "space_ok d m' s" "\<forall>j<1024. j \<noteq> i \<longrightarrow> ent m' d j = ent m d j" "present (ent m' d i)"
    "\<forall>j<1024. walk m' d (1024 * i + j) = Some (page_mapping flag (p + j))"
    "\<forall>q<2 ^ 20. q div 1024 \<noteq> i \<longrightarrow> walk m' d q = walk m d q"
    "tables m' d \<subseteq> tables m d" "kept {d} m m'"
proof -
  have wf: "dir_wf m d" using ok by (simp add: space_ok_def dir_space_def)
  have d: "d < 2 ^ 20" by (rule dir_wfD(1) [OF wf])
  note v = big_entry [OF p(1) flag]
  have st: "ent m' y k = (if y = d \<and> k = i then frame_addr p OR PAGE_SIZE_4MB OR flag else ent m y k)"
    if "y < 2 ^ 20" "k < 1024" for y k
    unfolding m'_def by (rule ent_store [OF d i that])
  have mi: "ent m' d i = frame_addr p OR PAGE_SIZE_4MB OR flag" using st [OF d i] by simp
  have mj: "ent m' d j = ent m d j" if "j < 1024" "j \<noteq> i" for j using st [OF d that(1)] that(2) by simp
  then show "\<forall>j<1024. j \<noteq> i \<longrightarrow> ent m' d j = ent m d j" by blast
  show "present (ent m' d i)" unfolding mi by (rule v(1))
  have nt: "\<not> is_table (ent m' d i)" unfolding mi is_table_def using v by simp
  then have "is_table (ent m' d i) \<Longrightarrow> entry_frame (ent m' d i) \<notin> insert d (tables m d)" by blast
  note upd = dir_wf_update [OF wf i mj this]
  then show t: "tables m' d \<subseteq> tables m d" using nt by simp
  with upd(1) ok show "space_ok d m' s" by (auto simp: space_ok_def dir_space_def)
  show "kept {d} m m'" unfolding m'_def by (rule kept_store [OF d i])
  have "p div 1024 * 1024 = p" using p(2) by auto
  then show "\<forall>j<1024. walk m' d (1024 * i + j) = Some (page_mapping flag (p + j))"
    using v by (auto simp: walk_def Let_def mi page_mapping_def)
  show "\<forall>q<2 ^ 20. q div 1024 \<noteq> i \<longrightarrow> walk m' d q = walk m d q"
  proof (intro allI impI)
    fix q :: nat assume q: "q < 2 ^ 20" "q div 1024 \<noteq> i"
    then have q': "q div 1024 < 1024" "q mod 1024 < 1024" by (simp_all add: less_mult_imp_div_less)
    show "walk m' d q = walk m d q"
    proof (rule walk_cong [OF q(1) mj [OF q'(1) q(2)]])
      assume "is_table (ent m d (q div 1024))"
      with dir_wfD(2) [OF wf q'(1)] st [OF entry_frame_less q'(2)]
      show "ent m' (entry_frame (ent m d (q div 1024))) (q mod 1024) =
        ent m (entry_frame (ent m d (q div 1024))) (q mod 1024)" by simp
    qed
  qed
qed

lemma small_page_ok:
  assumes ok: "space_ok d m s" and i: "i < 1024" and j: "j < 1024" and e: "pde_ok flag (ent m d i)"
    and flag: "flag_ok flag" and free: "free s \<noteq> {}" and p: "p < 2 ^ 20"
  obtains x m1 s' m' where
    "get_table alloc (P2V (frame_addr d)) (of_nat i) flag (m, s) = Inr (P2V (frame_addr x), m1, s')"
    "m' = store32 m1 (slot x j) (frame_addr p OR flag)"
    "present (ent m d i) \<longrightarrow> m1 = m \<and> s' = s \<and> x = entry_frame (ent m d i)"
    "space_ok d m' s'" "\<forall>k<1024. k \<noteq> i \<longrightarrow> ent m' d k = ent m d k"
    "is_table (ent m' d i)" "entry_frame (ent m' d i) = x" "pde_ok flag (ent m' d i)"
    "walk m' d (1024 * i + j) = Some (page_mapping flag p)"
    "\<forall>q<2 ^ 20. q \<noteq> 1024 * i + j \<longrightarrow> zeroed \<or> present (ent m d i) \<or> q div 1024 \<noteq> i \<longrightarrow> walk m' d q = walk m d q"
    "tables m' d \<subseteq> tables m d \<union> free s" "kept (insert d (free s \<union> tables m d)) m m'"
    "free s' \<subseteq> free s" "card (free s) \<le> Suc (card (free s'))"
proof -
  obtain x m1 s' where g:
    "get_table alloc (P2V (frame_addr d)) (of_nat i) flag (m, s) = Inr (P2V (frame_addr x), m1, s')"
    "space_ok d m1 s'" "is_table (ent m1 d i)" "entry_frame (ent m1 d i) = x" "pde_ok flag (ent m1 d i)"
    "\<forall>j<1024. j \<noteq> i \<longrightarrow> ent m1 d j = ent m d j"
    "kept (insert d (free s)) m m1" "free s' \<subseteq> free s" "card (free s) \<le> Suc (card (free s'))"
    "present (ent m d i) \<longrightarrow> m1 = m \<and> s' = s"
    "\<not> present (ent m d i) \<longrightarrow> x \<in> free s \<and> (zeroed \<longrightarrow> (\<forall>j<1024. ent m1 x j = 0))"
    by (rule get_table_ok [OF ok i e flag free])
  define m' where "m' = store32 m1 (slot x j) (frame_addr p OR flag)"
  note st = store_pte_walk [OF g(2) i j p flag g(3,4,5), folded m'_def]
  have x: "x \<in> free s \<union> tables m d"
    using g(4,10,11) tablesI [OF i, of m d] g(3) by (cases "present (ent m d i)") auto
  have t1: "tables m1 d \<subseteq> tables m d \<union> free s"
  proof
    fix y assume "y \<in> tables m1 d"
    then obtain k where k: "k < 1024" "is_table (ent m1 d k)" "y = entry_frame (ent m1 d k)"
      by (auto simp: tables_def)
    show "y \<in> tables m d \<union> free s"
    proof (cases "k = i")
      case True
      with k g(4) x show ?thesis by auto
    next
      case False
      with k g(6) tablesI [OF k(1), of m d] show ?thesis by auto
    qed
  qed
  have t: "tables m' d = tables m1 d" by (rule space_ok_cong(2) [OF g(2) st(2)])
  have "walk m1 d q = walk m d q" if "q < 2 ^ 20" "zeroed \<or> present (ent m d i) \<or> q div 1024 \<noteq> i" for q
    by (rule get_table_walk [OF ok i that(1) g(6,7) _ _ g(3,4) that(2)]) (use g(10,11) in auto)
  with st(4) have w: "\<forall>q<2 ^ 20. q \<noteq> 1024 * i + j \<longrightarrow> zeroed \<or> present (ent m d i) \<or> q div 1024 \<noteq> i \<longrightarrow>
      walk m' d q = walk m d q" by metis
  have "kept (insert d (free s) \<union> {x}) m m'" by (rule kept_trans [OF g(7) st(5)])
  then have k: "kept (insert d (free s \<union> tables m d)) m m'" by (rule kept_mono) (use x in auto)
  have pr: "present (ent m d i) \<longrightarrow> m1 = m \<and> s' = s \<and> x = entry_frame (ent m d i)" using g(4,10) by auto
  have es: "\<forall>k<1024. k \<noteq> i \<longrightarrow> ent m' d k = ent m d k" using st(2) g(6) by auto
  have mi: "ent m' d i = ent m1 d i" by (rule st(2) [OF i])
  show thesis
    by (rule that [OF g(1) m'_def pr st(1) es _ _ _ st(3) w _ k g(8,9)]) (use mi g(3-5) t t1 in simp_all)
qed

text \<open>The table cached by the loop is the one of the current directory entry.\<close>

definition cached :: "nat \<Rightarrow> mem \<Rightarrow> nat \<Rightarrow> u32 \<Rightarrow> bool" where
  "cached d m n pt \<longleftrightarrow> n mod 1024 \<noteq> 0 \<longrightarrow> pt \<noteq> 0 \<longrightarrow>
     is_table (ent m d (n div 1024)) \<and> pt = P2V (frame_addr (entry_frame (ent m d (n div 1024))))"

lemma map_loop_step:
  assumes "0 < k" "k < 2 ^ 32" "n < 2 ^ 20" "p < 2 ^ 20"
  shows "map_loop alloc pd flag (of_nat (n div 1024)) (of_nat (n mod 1024)) pt (frame_addr p) (frame_addr n)
      (of_nat k) (m, s) =
    (if n mod 1024 = 0 \<and> p mod 1024 = 0 \<and> 1024 \<le> k
     then map_loop alloc pd flag (of_nat (n div 1024) + 1) (of_nat (n mod 1024)) pt
            (frame_addr (p + 1024)) (frame_addr (n + 1024)) (of_nat k - 1024)
            (store32 m (pd + 4 * of_nat (n div 1024)) (frame_addr p OR PAGE_SIZE_4MB OR flag), s)
     else bnd (if n mod 1024 = 0 \<or> pt = 0 then get_table alloc pd (of_nat (n div 1024)) flag (m, s)
               else Inr (pt, m, s))
       (\<lambda>(pt, m, s). map_loop alloc pd flag (of_nat (Suc n div 1024)) (of_nat (Suc n mod 1024)) pt
          (frame_addr (Suc p)) (frame_addr (Suc n)) (of_nat k - 1)
          (store32 m (pt + 4 * of_nat (n mod 1024)) (frame_addr p OR flag), s)))"
proof -
  have "n mod 1024 < 2 ^ 32" by (rule less_trans [of _ 1024]) simp_all
  note z = u32_of_nat_0 [OF this]
  show ?thesis
    unfolding map_loop.simps [of alloc pd flag "of_nat (n div 1024)" "of_nat (n mod 1024)" pt "frame_addr p"
        "frame_addr n" "of_nat k" m s] Let_def next_pte next_pte_0 next_pde next_frame z
      u32_of_nat_0 [OF assms(2)] u32_of_nat_ge [OF assms(2)] aligned_4mb [OF assms(3)] aligned_4mb [OF assms(4)]
    using assms(1) by (simp only: neq0_conv [symmetric] if_False)
qed

lemma map_loop_big:
  assumes "0 < k" "k < 2 ^ 32" "n < 2 ^ 20" "p < 2 ^ 20" "n mod 1024 = 0" "p mod 1024 = 0" "1024 \<le> k"
  shows "map_loop alloc pd flag (of_nat (n div 1024)) (of_nat (n mod 1024)) pt (frame_addr p) (frame_addr n)
      (of_nat k) (m, s) =
    map_loop alloc pd flag (of_nat ((n + 1024) div 1024)) (of_nat ((n + 1024) mod 1024)) pt
      (frame_addr (p + 1024)) (frame_addr (n + 1024)) (of_nat (k - 1024))
      (store32 m (pd + 4 * of_nat (n div 1024)) (frame_addr p OR PAGE_SIZE_4MB OR flag), s)"
proof -
  have "(n + 1024) div 1024 = Suc (n div 1024)" by simp
  then have "of_nat (n div 1024) + 1 = (of_nat ((n + 1024) div 1024) :: u32)" by (simp only:) simp
  moreover have "(n + 1024) mod 1024 = n mod 1024" by simp
  moreover have "of_nat k - 1024 = (of_nat (k - 1024) :: u32)" using assms(7) by (simp add: of_nat_diff)
  ultimately show ?thesis
    unfolding map_loop_step [OF assms(1-4)] using assms(5-7) by (simp only: simp_thms if_True)
qed

lemma map_loop_small:
  assumes "0 < k" "k < 2 ^ 32" "n < 2 ^ 20" "p < 2 ^ 20" "\<not> (n mod 1024 = 0 \<and> p mod 1024 = 0 \<and> 1024 \<le> k)"
    "(if n mod 1024 = 0 \<or> pt = 0 then get_table alloc pd (of_nat (n div 1024)) flag (m, s) else Inr (pt, m, s)) =
      Inr (pt', m1, s1)"
  shows "map_loop alloc pd flag (of_nat (n div 1024)) (of_nat (n mod 1024)) pt (frame_addr p) (frame_addr n)
      (of_nat k) (m, s) =
    map_loop alloc pd flag (of_nat (Suc n div 1024)) (of_nat (Suc n mod 1024)) pt'
      (frame_addr (Suc p)) (frame_addr (Suc n)) (of_nat (k - 1))
      (store32 m1 (pt' + 4 * of_nat (n mod 1024)) (frame_addr p OR flag), s1)"
proof -
  have "of_nat k - 1 = (of_nat (k - 1) :: u32)" using assms(1) by (simp add: of_nat_diff)
  then show ?thesis
    unfolding map_loop_step [OF assms(1-4)] assms(6) bnd_simps using assms(5)
    by (simp only: if_False prod.case)
qed

text \<open>What a run from \<open>(m, s)\<close> that maps \<open>k\<close> pages ends with, and when it can start.\<close>

definition run_ok :: "nat \<Rightarrow> u32 \<Rightarrow> nat \<Rightarrow> nat \<Rightarrow> nat \<Rightarrow> mem \<Rightarrow> 's \<Rightarrow> (mem \<times> 's) res \<Rightarrow> bool" where
  "run_ok d flag n p k m s r \<longleftrightarrow> (\<exists>m' s'. r = Inr (m', s') \<and> space_ok d m' s' \<and> maps zeroed d flag n p k m m' \<and>
     kept (insert d (free s \<union> tables m d)) m m' \<and> free s' \<subseteq> free s \<and> tables m' d \<subseteq> tables m d \<union> free s \<and>
     card (free s) \<le> card (free s') + k)"

definition startable :: "nat \<Rightarrow> u32 \<Rightarrow> nat \<Rightarrow> nat \<Rightarrow> nat \<Rightarrow> mem \<Rightarrow> 's \<Rightarrow> bool" where
  "startable d flag n p k m s \<longleftrightarrow> space_ok d m s \<and> flag_ok flag \<and> n + k \<le> 2 ^ 20 \<and> p + k \<le> 2 ^ 20 \<and>
     k \<le> card (free s) \<and> (\<forall>i<1024. touched n k i \<longrightarrow> pde_ok flag (ent m d i))"

lemma startableD:
  assumes "startable d flag n p k m s" "0 < k"
  shows "space_ok d m s" "flag_ok flag" "n + k \<le> 2 ^ 20" "p + k \<le> 2 ^ 20" "k \<le> card (free s)" "k < 2 ^ 32"
    "n < 2 ^ 20" "p < 2 ^ 20" "n div 1024 < 1024" "free s \<noteq> {}" "pde_ok flag (ent m d (n div 1024))"
    "\<And>i. i < 1024 \<Longrightarrow> touched n k i \<Longrightarrow> pde_ok flag (ent m d i)"
proof -
  show a: "space_ok d m s" "flag_ok flag" "n + k \<le> 2 ^ 20" "p + k \<le> 2 ^ 20" "k \<le> card (free s)"
    "\<And>i. i < 1024 \<Longrightarrow> touched n k i \<Longrightarrow> pde_ok flag (ent m d i)"
    using assms(1) by (simp_all add: startable_def)
  show "k < 2 ^ 32" "n < 2 ^ 20" "p < 2 ^ 20" using a(3,4) assms(2) by simp_all
  then show i: "n div 1024 < 1024" by (simp add: less_mult_imp_div_less)
  show "free s \<noteq> {}" using a(5) assms(2) by auto
  show "pde_ok flag (ent m d (n div 1024))" by (rule a(6) [OF i touched_first [OF assms(2)]])
qed

text \<open>One 4 MB page, then the rest.\<close>

lemma big_step:
  assumes st: "startable d flag n p k m s" and t: "n mod 1024 = 0" "p mod 1024 = 0" "1024 \<le> k"
  defines "m1 \<equiv> store32 m (slot d (n div 1024)) (frame_addr p OR PAGE_SIZE_4MB OR flag)"
  shows "startable d flag (n + 1024) (p + 1024) (k - 1024) m1 s"
    "run_ok d flag (n + 1024) (p + 1024) (k - 1024) m1 s r \<Longrightarrow> run_ok d flag n p k m s r"
proof -
  have k: "0 < k" using t(3) by simp
  note D = startableD [OF st k]
  let ?i = "n div 1024"
  have n0: "1024 * ?i = n" using t(1) mult_div_mod_eq [of 1024 n] by linarith
  note b = big_page_ok [OF D(1,9,8) t(2) D(2), folded m1_def]
  have "pde_ok flag (ent m1 d i')" if i': "i' < 1024" "touched (n + 1024) (k - 1024) i'" for i'
  proof -
    have "touched n k i'" "i' \<noteq> ?i" using touched_rest [OF t(3) i'(2)] i'(2) n0 by (auto simp: touched_def)
    with b(2) D(12) i'(1) show ?thesis by simp
  qed
  then show "startable d flag (n + 1024) (p + 1024) (k - 1024) m1 s"
    using b(1) D(2-5) t(3) by (simp add: startable_def)
  assume "run_ok d flag (n + 1024) (p + 1024) (k - 1024) m1 s r"
  then obtain m' s' where r: "r = Inr (m', s')" "space_ok d m' s'"
    "maps zeroed d flag (n + 1024) (p + 1024) (k - 1024) m1 m'" "kept (insert d (free s \<union> tables m1 d)) m1 m'"
    "free s' \<subseteq> free s" "tables m' d \<subseteq> tables m1 d \<union> free s" "card (free s) \<le> card (free s') + (k - 1024)"
    unfolding run_ok_def by blast
  have c: "card (free s) \<le> card (free s') + k" using r(7) by simp
  have "maps zeroed d flag n p k m m'"
  proof (rule maps_step [OF _ t(3) _ D(3) _ _ b(2,3) _ r(3)])
    show "n + 1024 \<le> 1024 * Suc ?i" using n0 by simp
    show "\<forall>j<1024. walk m1 d (n + j) = Some (page_mapping flag (p + j))" using b(4) n0 by simp
    show "\<forall>q<2 ^ 20. q \<notin> {n..<n + 1024} \<longrightarrow> zeroed \<or> present (ent m d ?i) \<or> q div 1024 \<noteq> ?i \<longrightarrow>
        walk m1 d q = walk m d q"
      using b(5) region_cong [OF n0] by blast
    show "pde_ok flag (ent m1 d ?i) \<or> covered n k ?i" using n0 t(3) by (simp add: covered_def)
  qed simp
  moreover have "kept (insert d (free s \<union> tables m d)) m m'"
    by (rule kept_mono [OF kept_trans [OF b(7) r(4)]]) (use b(6) in auto)
  ultimately show "run_ok d flag n p k m s r" unfolding run_ok_def using r(1,2,5,6) b(6) c by blast
qed

text \<open>One 4 KB page, then the rest.\<close>

lemma small_step:
  assumes st: "startable d flag n p k m s" and k: "0 < k" and c: "cached d m n pt"
  obtains x m1 s1 m2 where
    "(if n mod 1024 = 0 \<or> pt = 0 then get_table alloc (P2V (frame_addr d)) (of_nat (n div 1024)) flag (m, s)
      else Inr (pt, m, s)) = Inr (P2V (frame_addr x), m1, s1)"
    "m2 = store32 m1 (slot x (n mod 1024)) (frame_addr p OR flag)"
    "startable d flag (Suc n) (Suc p) (k - 1) m2 s1" "cached d m2 (Suc n) (P2V (frame_addr x))"
    "\<forall>r. run_ok d flag (Suc n) (Suc p) (k - 1) m2 s1 r \<longrightarrow> run_ok d flag n p k m s r"
proof -
  note D = startableD [OF st k]
  let ?i = "n div 1024" and ?j = "n mod 1024"
  have nij: "1024 * ?i + ?j = n" by simp
  have j: "?j < 1024" by simp
  obtain x m1 s1 m2 where g:
    "get_table alloc (P2V (frame_addr d)) (of_nat ?i) flag (m, s) = Inr (P2V (frame_addr x), m1, s1)"
    "m2 = store32 m1 (slot x ?j) (frame_addr p OR flag)"
    "present (ent m d ?i) \<longrightarrow> m1 = m \<and> s1 = s \<and> x = entry_frame (ent m d ?i)"
    "space_ok d m2 s1" "\<forall>k<1024. k \<noteq> ?i \<longrightarrow> ent m2 d k = ent m d k"
    "is_table (ent m2 d ?i)" "entry_frame (ent m2 d ?i) = x" "pde_ok flag (ent m2 d ?i)"
    "walk m2 d (1024 * ?i + ?j) = Some (page_mapping flag p)"
    "\<forall>q<2 ^ 20. q \<noteq> 1024 * ?i + ?j \<longrightarrow> zeroed \<or> present (ent m d ?i) \<or> q div 1024 \<noteq> ?i \<longrightarrow> walk m2 d q = walk m d q"
    "tables m2 d \<subseteq> tables m d \<union> free s" "kept (insert d (free s \<union> tables m d)) m m2"
    "free s1 \<subseteq> free s" "card (free s) \<le> Suc (card (free s1))"
    by (rule small_page_ok [OF D(1,9) j D(11,2,10,8)])
  have get: "(if ?j = 0 \<or> pt = 0 then get_table alloc (P2V (frame_addr d)) (of_nat ?i) flag (m, s)
      else Inr (pt, m, s)) = Inr (P2V (frame_addr x), m1, s1)"
  proof (cases "?j = 0 \<or> pt = 0")
    case False
    then have "is_table (ent m d ?i)" "pt = P2V (frame_addr (entry_frame (ent m d ?i)))"
      using c by (auto simp: cached_def)
    with g(3) False show ?thesis by (simp add: is_table_def)
  qed (simp add: g(1))
  have "pde_ok flag (ent m2 d i')" if "i' < 1024" "touched (Suc n) (k - 1) i'" for i'
    using that g(5,8) D(12) touched_rest [of 1 k n i'] k by (cases "i' = ?i") auto
  then have start: "startable d flag (Suc n) (Suc p) (k - 1) m2 s1"
    using g(4,14) D(2-5) k by (simp add: startable_def)
  have cache: "cached d m2 (Suc n) (P2V (frame_addr x))"
    using g(6,7) by (auto simp: cached_def div_Suc)
  have rest: "run_ok d flag n p k m s r" if run: "run_ok d flag (Suc n) (Suc p) (k - 1) m2 s1 r" for r
  proof -
    from run obtain m' s' where r: "r = Inr (m', s')" "space_ok d m' s'"
      "maps zeroed d flag (Suc n) (Suc p) (k - 1) m2 m'" "kept (insert d (free s1 \<union> tables m2 d)) m2 m'"
      "free s' \<subseteq> free s1" "tables m' d \<subseteq> tables m2 d \<union> free s1" "card (free s1) \<le> card (free s') + (k - 1)"
      unfolding run_ok_def by blast
    have c: "card (free s) \<le> card (free s') + k" using r(7) g(14) k by simp
    have "maps zeroed d flag n p k m m'"
    proof (rule maps_step [where l = 1, OF _ _ _ D(3) _ _ g(5)])
      show "maps zeroed d flag (n + 1) (p + 1) (k - 1) m2 m'" using r(3) by simp
      show "n + 1 \<le> 1024 * Suc ?i" using dividend_less_times_div [of 1024 n] by simp
      show "\<forall>j<1. walk m2 d (n + j) = Some (page_mapping flag (p + j))" using g(9) nij by simp
      show "\<forall>q<2 ^ 20. q \<notin> {n..<n + 1} \<longrightarrow> zeroed \<or> present (ent m d ?i) \<or> q div 1024 \<noteq> ?i \<longrightarrow>
          walk m2 d q = walk m d q"
        using g(10) unfolding nij by simp
    qed (use k g(6,8) in \<open>simp_all add: is_table_def\<close>)
    moreover have "kept (insert d (free s \<union> tables m d)) m m'"
      by (rule kept_mono [OF kept_trans [OF g(12) r(4)]]) (use g(11,13) in auto)
    ultimately show ?thesis unfolding run_ok_def using r(1,2,5,6) g(11,13) c by blast
  qed
  show thesis by (rule that [OF get g(2) start cache]) (use rest in blast)
qed

lemma map_loop_ok:
  assumes "startable d flag n p k m s" "cached d m n pt"
  shows "run_ok d flag n p k m s (map_loop alloc (P2V (frame_addr d)) flag (of_nat (n div 1024)) (of_nat (n mod 1024)) pt
      (frame_addr p) (frame_addr n) (of_nat k) (m, s))"
  using assms
proof (induction k arbitrary: n p m s pt rule: less_induct)
  case (less k)
  let ?pd = "P2V (frame_addr d)"
  show ?case
  proof (cases "k = 0")
    case True
    then show ?thesis
      using less.prems(1) maps_0 by (auto simp: map_loop.simps run_ok_def startable_def)
  next
    case False
    then have k: "0 < k" by simp
    note D = startableD [OF less.prems(1) k]
    show ?thesis
    proof (cases "n mod 1024 = 0 \<and> p mod 1024 = 0 \<and> 1024 \<le> k")
      case True
      then have t: "n mod 1024 = 0" "p mod 1024 = 0" "1024 \<le> k" by simp_all
      have "cached d m' (n + 1024) pt" for m' using t(1) by (simp add: cached_def)
      with less.IH [OF _ big_step(1) [OF less.prems(1) t]] k show ?thesis
        unfolding map_loop_big [OF k D(6-8) t] slot_def [symmetric]
        by (intro big_step(2) [OF less.prems(1) t]) simp
    next
      case False
      obtain x m1 s1 m2 where s:
        "(if n mod 1024 = 0 \<or> pt = 0 then get_table alloc ?pd (of_nat (n div 1024)) flag (m, s)
          else Inr (pt, m, s)) = Inr (P2V (frame_addr x), m1, s1)"
        "m2 = store32 m1 (slot x (n mod 1024)) (frame_addr p OR flag)"
        "startable d flag (Suc n) (Suc p) (k - 1) m2 s1" "cached d m2 (Suc n) (P2V (frame_addr x))"
        "\<forall>r. run_ok d flag (Suc n) (Suc p) (k - 1) m2 s1 r \<longrightarrow> run_ok d flag n p k m s r"
        by (rule small_step [OF less.prems(1) k less.prems(2)])
      from less.IH [OF _ s(3,4)] s(5) k show ?thesis
        unfolding map_loop_small [OF k D(6-8) False s(1)] slot_def [symmetric] s(2) [symmetric] by simp
    qed
  qed
qed

lemma map_frames_ok:
  assumes "startable d flag n p k m s"
  shows "run_ok d flag n p k m s
    (map_frames alloc (P2V (frame_addr d)) (frame_addr p) (frame_addr n) (of_nat k) flag (m, s))"
proof (cases "k = 0")
  case True
  then show ?thesis
    using assms maps_0 by (auto simp: map_frames_def map_loop.simps run_ok_def startable_def)
next
  case False
  note D = startableD [OF assms False [unfolded neq0_conv]]
  have i: "drop_bit 22 (frame_addr n) AND 0x3FF = of_nat (n div 1024)"
    and j: "drop_bit 12 (frame_addr n) AND 0x3FF = of_nat (n mod 1024)"
    using vaddr_fields [OF D(7)] by simp_all
  have "cached d m n 0" by (simp add: cached_def)
  from map_loop_ok [OF assms this] show ?thesis unfolding map_frames_def i j .
qed

end

section \<open>The two sources of frames\<close>

definition bump_inv :: "u32 \<Rightarrow> bool" where
  "bump_inv pa \<longleftrightarrow> 4096 dvd unat pa"

definition bump_free :: "u32 \<Rightarrow> nat set" where
  "bump_free pa = {unat pa div 4096..<2 ^ 20 - 1}"

lemma bump_frame_eq:
  "bump_frame (m, pa) = Inr (pa, kmemset m (P2V pa) 0 0x1000, pa + 0x1000)"
  by (simp add: bump_frame_def bump_alloc_def Let_def)

lemma load32_zero: "(\<And>k. k < 4 \<Longrightarrow> m (a + of_nat k) = 0) \<Longrightarrow> load32 m a = 0"
proof -
  assume z: "\<And>k. k < 4 \<Longrightarrow> m (a + of_nat k) = 0"
  show "load32 m a = 0" using z [of 0] z [of 1] z [of 2] z [of 3] by (simp add: load32_def)
qed

lemma kmemset_page:
  assumes "x < 2 ^ 20"
  shows "kept {x} m (kmemset m (P2V (frame_addr x)) v 0x1000)"
    "\<forall>j<1024. ent (kmemset m (P2V (frame_addr x)) 0 0x1000) x j = 0"
proof -
  have k: "kmemset m (P2V (frame_addr x)) v 0x1000 y = (if frame_of y = x then v else m y)" for v y
    unfolding kmemset_at using frame_of_page [OF assms, of y] by simp
  show "kept {x} m (kmemset m (P2V (frame_addr x)) v 0x1000)" by (simp add: kept_def k)
  show "\<forall>j<1024. ent (kmemset m (P2V (frame_addr x)) 0 0x1000) x j = 0"
    unfolding ent_def by (intro allI impI load32_zero) (simp add: k frame_of_slot [OF assms])
qed

interpretation bumpf: frame_source bump_inv bump_free bump_frame True
proof (unfold_locales, goal_cases)
  case (1 s m a m' s')
  define x where "x = unat s div 4096"
  have x: "x < 2 ^ 20 - 1" using 1(2) by (simp add: bump_free_def x_def)
  have u: "unat s = 4096 * x" using 1(1) by (simp add: bump_inv_def x_def)
  then have "s = frame_addr x"
    using x by (simp add: word_unat_eq_iff unat_frame_addr)
  moreover have "a = s" "m' = kmemset m (P2V s) 0 0x1000" "s' = s + 0x1000"
    using 1(3) by (auto simp: bump_frame_eq)
  ultimately have e: "a = frame_addr x" "m' = kmemset m (P2V (frame_addr x)) 0 0x1000" "s' = frame_addr (Suc x)"
    by (simp_all add: next_frame)
  have u': "unat s' = 4096 * Suc x" unfolding e(3) by (rule unat_frame_addr) (use x in simp)
  have inv: "bump_inv s'" unfolding bump_inv_def u' by simp
  have "bump_free s' = bump_free s - {x}"
    unfolding bump_free_def u u' by auto
  moreover have "x \<in> bump_free s" using x by (simp add: bump_free_def x_def)
  moreover have x20: "x < 2 ^ 20" using x by simp
  ultimately show ?case
    using kmemset_page [OF x20, of m] inv e by auto
next
  case (2 s m)
  then show ?case by (simp add: bump_frame_eq)
next
  case (3 s)
  then show ?case by (simp add: bump_free_def)
qed

text \<open>Frames of the page allocator are not cleared.\<close>

lemma frame_addr_real: "page_map_real x = frame_addr x"
  by (simp add: page_map_real_def frame_addr_def)

interpretation pmmf: frame_source buddy_inv free_pages pmm_frame False
proof (unfold_locales, goal_cases)
  case (1 s m a m' s')
  then have a: "buddy_alloc_pages s 0 = Inr (a, s')" "m' = m"
    by (auto simp: pmm_frame_def pmm_alloc_def)
  from pmm.alloc_ok [OF 1(1) a(1)] show ?case unfolding frame_addr_real a(2) by (auto simp: dblock_def)
next
  case (2 s m)
  then obtain x where "x \<in> free_pages s" by blast
  then have "dblock x 0 \<subseteq> free_pages s" by (simp add: dblock_def)
  from pmm.alloc_total [OF 2(1) _ _ this] show ?case by (auto simp: pmm_frame_def pmm_alloc_def)
next
  case (3 s)
  then have "buddy_wf s" by (simp add: buddy_inv_def)
  from pages_bounded(1) [OF this] show ?case by (rule finite_subset) simp
qed

end
