(* ===== verification/Paging_Init.thy ===== *)
theory Paging_Init
  imports Paging_Loop
begin

text \<open>
  The address space \<open>paging_init\<close> builds. Its nine calls map disjoint ranges of physical pages at
  the same distance above \<open>KERNEL_VIRTUAL_BASE\<close>; \<open>kmap\<close> describes the space after some of them by
  the flags each physical page is mapped with.
\<close>

section \<open>The space after some of the calls\<close>

text \<open>\<open>WINDOW\<close> is the number of the first kernel page, \<open>0xC0000000 / 4096\<close>; the window has \<open>2 ^ 18\<close>
  pages.\<close>

definition WINDOW :: nat where "WINDOW = 0xC0000"

definition kmap :: "nat \<Rightarrow> (nat \<Rightarrow> u32 option) \<Rightarrow> nat \<Rightarrow> boot \<Rightarrow> bool" where
  "kmap d X c s \<longleftrightarrow> bumpf.space_ok d (bmem s) (placement_addr s) \<and>
     c \<le> card (bump_free (placement_addr s)) \<and>
     (\<forall>q<WINDOW. walk (bmem s) d q = None) \<and>
     (\<forall>p<2 ^ 18. walk (bmem s) d (WINDOW + p) = map_option (\<lambda>f. page_mapping f p) (X p)) \<and>
     (\<forall>i<1024. pde_ok PAGE_PRESENT (ent (bmem s) d i) \<or>
        (\<forall>q. 1024 * i \<le> q \<and> q < 1024 * Suc i \<longrightarrow> WINDOW \<le> q \<and> X (q - WINDOW) \<noteq> None))"

definition add_range :: "(nat \<Rightarrow> u32 option) \<Rightarrow> nat \<Rightarrow> nat \<Rightarrow> u32 \<Rightarrow> nat \<Rightarrow> u32 option" where
  "add_range X p k flag = (\<lambda>q. if p \<le> q \<and> q < p + k then Some flag else X q)"

lemma P2V_frame: "P2V (frame_addr p) = frame_addr (WINDOW + p)"
  by (simp add: P2V_def frame_addr_def KERNEL_VIRTUAL_BASE_def WINDOW_def algebra_simps)

lemma pde_ok_kernel: "\<not> bit flag 2 \<Longrightarrow> pde_ok flag e = pde_ok PAGE_PRESENT e"
  by (simp add: pde_ok_def flag_bits)

lemma kmap_startable:
  assumes km: "kmap d X c s" and flag: "flag_ok flag" "\<not> bit flag 2" and k: "k \<le> c" "p + k \<le> 2 ^ 18"
    and new: "\<And>q. p \<le> q \<Longrightarrow> q < p + k \<Longrightarrow> X q = None"
  shows "bumpf.startable d flag (WINDOW + p) p k (bmem s) (placement_addr s)"
proof -
  have "pde_ok flag (ent (bmem s) d i)" if i: "i < 1024" "touched (WINDOW + p) k i" for i
  proof -
    define q where "q = max (WINDOW + p) (1024 * i)"
    have q: "1024 * i \<le> q" "q < 1024 * Suc i" "WINDOW + p \<le> q" "q < WINDOW + p + k"
      using i(2) by (auto simp: q_def touched_def)
    then have "X (q - WINDOW) = None" by (intro new) linarith+
    then have "pde_ok PAGE_PRESENT (ent (bmem s) d i)"
      using km i(1) q(1,2) unfolding kmap_def by blast
    then show ?thesis by (simp add: pde_ok_kernel [OF flag(2)])
  qed
  then show ?thesis
    using km flag k unfolding kmap_def bumpf.startable_def by (simp add: WINDOW_def)
qed

lemma kmap_maps:
  assumes km: "kmap d X c s" and k: "k \<le> c" "p + k \<le> 2 ^ 18" and flag: "\<not> bit flag 2"
    and sp: "bumpf.space_ok d (bmem s') (placement_addr s')"
    and mp: "maps True d flag (WINDOW + p) p k (bmem s) (bmem s')"
    and card: "card (bump_free (placement_addr s)) \<le> card (bump_free (placement_addr s')) + k"
  shows "kmap d (add_range X p k flag) (c - k) s'"
proof -
  have here: "walk (bmem s') d (WINDOW + p + j) = Some (page_mapping flag (p + j))" if "j < k" for j
    using mp that unfolding maps_def by blast
  have there: "walk (bmem s') d q = walk (bmem s) d q" if "q < 2 ^ 20" "q \<notin> {WINDOW + p..<WINDOW + p + k}" for q
    using mp that unfolding maps_def by blast
  have low: "walk (bmem s') d q = None" if "q < WINDOW" for q
    using there [of q] that km unfolding kmap_def WINDOW_def by simp
  have high: "walk (bmem s') d (WINDOW + q) = map_option (\<lambda>f. page_mapping f q) (add_range X p k flag q)"
    if q: "q < 2 ^ 18" for q
  proof (cases "p \<le> q \<and> q < p + k")
    case True
    then obtain j where "q = p + j" "j < k" using le_Suc_ex [of p q] by auto
    with here [of j] show ?thesis by (simp add: add_range_def add.assoc)
  next
    case False
    then have "walk (bmem s') d (WINDOW + q) = walk (bmem s) d (WINDOW + q)"
      using q by (intro there) (auto simp: WINDOW_def)
    also have "\<dots> = map_option (\<lambda>f. page_mapping f q) (X q)" using km q unfolding kmap_def by blast
    finally show ?thesis using False by (simp only: add_range_def if_False)
  qed
  have dirs: "pde_ok PAGE_PRESENT (ent (bmem s') d i) \<or>
      (\<forall>q. 1024 * i \<le> q \<and> q < 1024 * Suc i \<longrightarrow> WINDOW \<le> q \<and> add_range X p k flag (q - WINDOW) \<noteq> None)"
    if i: "i < 1024" for i
  proof (cases "touched (WINDOW + p) k i")
    case True
    then consider "pde_ok flag (ent (bmem s') d i)" | "covered (WINDOW + p) k i"
      using mp i unfolding maps_def by blast
    then show ?thesis
    proof cases
      case 1
      then show ?thesis by (simp add: pde_ok_kernel [OF flag])
    next
      case 2
      then show ?thesis by (auto simp: covered_def add_range_def)
    qed
  next
    case False
    then have "ent (bmem s') d i = ent (bmem s) d i" using mp i unfolding maps_def by blast
    moreover have "pde_ok PAGE_PRESENT (ent (bmem s) d i) \<or>
        (\<forall>q. 1024 * i \<le> q \<and> q < 1024 * Suc i \<longrightarrow> WINDOW \<le> q \<and> X (q - WINDOW) \<noteq> None)"
      using km i unfolding kmap_def by blast
    moreover have "X q \<noteq> None \<Longrightarrow> add_range X p k flag q \<noteq> None" for q by (simp add: add_range_def)
    ultimately show ?thesis by metis
  qed
  have c: "c \<le> card (bump_free (placement_addr s))" using km by (simp add: kmap_def)
  show ?thesis
    unfolding kmap_def
  proof (intro conjI allI impI)
    show "c - k \<le> card (bump_free (placement_addr s'))" using c card by linarith
  qed (fact sp low high dirs)+
qed

lemma kmap_call:
  assumes km: "kmap d X c s" and flag: "flag_ok flag" "\<not> bit flag 2" and k: "k \<le> c" "p + k \<le> 2 ^ 18"
    and new: "\<And>q. p \<le> q \<Longrightarrow> q < p + k \<Longrightarrow> X q = None"
  obtains s' where "early_map_range (P2V (frame_addr d)) (frame_addr p) (P2V (frame_addr p)) (of_nat k) flag s = Inr s'"
    "kmap d (add_range X p k flag) (c - k) s'"
proof -
  note st = kmap_startable [OF km flag k new]
  from bumpf.map_frames_ok [OF st] obtain m' pa where r:
    "map_frames bump_frame (P2V (frame_addr d)) (frame_addr p) (frame_addr (WINDOW + p)) (of_nat k) flag
      (bmem s, placement_addr s) = Inr (m', pa)" "bumpf.space_ok d m' pa"
    "maps True d flag (WINDOW + p) p k (bmem s) m'"
    "card (bump_free (placement_addr s)) \<le> card (bump_free pa) + k"
    unfolding bumpf.run_ok_def by blast
  show thesis
  proof (rule that)
    show "early_map_range (P2V (frame_addr d)) (frame_addr p) (P2V (frame_addr p)) (of_nat k) flag s =
        Inr (s\<lparr>bmem := m', placement_addr := pa\<rparr>)"
      unfolding early_map_range_def P2V_frame [of p] r(1) by simp
    show "kmap d (add_range X p k flag) (c - k) (s\<lparr>bmem := m', placement_addr := pa\<rparr>)"
      by (rule kmap_maps [OF km k flag(2)]) (use r in simp_all)
  qed
qed

section \<open>The layout of physical memory\<close>

text \<open>The page numbers of the kernel image, of the end of memory and of the ACPI tables, and what
  \<open>paging_init\<close> makes of them: the flags a physical page is mapped with.\<close>

record layout =
  l_dir :: nat
  l_ro :: nat
  l_ro_end :: nat
  l_rw :: nat
  l_rw_end :: nat
  l_end :: nat
  l_ram :: nat
  l_acpi :: nat
  l_acpi_n :: nat

definition layout_ok :: "link_map \<Rightarrow> (nat \<Rightarrow> memory_map_t) \<Rightarrow> layout \<Rightarrow> bool" where
  "layout_ok lk mm l \<longleftrightarrow>
     kernel_page_directory lk = P2V (frame_addr (l_dir l)) \<and> l_dir l < 2 ^ 20 \<and>
     V2P (ro_start lk) = frame_addr (l_ro l) \<and> V2P (ro_end lk) = frame_addr (l_ro_end l) \<and>
     V2P (rw_start lk) = frame_addr (l_rw l) \<and> V2P (rw_end lk) = frame_addr (l_rw_end l) \<and>
     V2P (kernel_end lk) = frame_addr (l_end l) \<and>
     0x100 \<le> l_ro l \<and> l_ro l \<le> l_ro_end l \<and> l_ro_end l \<le> l_rw l \<and> l_rw l \<le> l_rw_end l \<and>
     l_rw_end l \<le> l_end l \<and> l_end l \<le> l_ram l \<and> l_ram l \<le> l_acpi l \<and> l_acpi l + l_acpi_n l \<le> 2 ^ 18 \<and>
     unat (0x100000 + mm_size (mm 3)) < 2 ^ 32 \<and> unat (0x100000 + mm_size (mm 3)) div 4096 = l_ram l \<and>
     unat (mm_addr (mm 4)) = 4096 * l_acpi l \<and> unat (mm_size (mm 4)) div 4096 = l_acpi_n l"

definition kernel_space :: "layout \<Rightarrow> nat \<Rightarrow> u32 option" where
  "kernel_space l p =
     (if p < 0x1 then Some PAGE_PRESENT
      else if p < 0x80 then Some (PAGE_PRESENT OR PAGE_RW)
      else if p < 0xA0 then Some PAGE_PRESENT
      else if p < 0xC0 then Some (PAGE_PRESENT OR PAGE_RW OR PAGE_NO_CACHE OR PAGE_WRITE_THROUGH)
      else if p < 0x100 then Some (PAGE_PRESENT OR PAGE_NO_CACHE)
      else if l_ro l \<le> p \<and> p < l_ro_end l then Some PAGE_PRESENT
      else if l_rw l \<le> p \<and> p < l_rw_end l then Some (PAGE_PRESENT OR PAGE_RW)
      else if l_end l \<le> p \<and> p < l_ram l then Some (PAGE_PRESENT OR PAGE_RW)
      else if l_acpi l \<le> p \<and> p < l_acpi l + l_acpi_n l then Some PAGE_PRESENT
      else None)"

lemma kernel_flags:
  "flag_ok PAGE_PRESENT" "\<not> bit PAGE_PRESENT 2"
  "flag_ok (PAGE_PRESENT OR PAGE_RW)" "\<not> bit (PAGE_PRESENT OR PAGE_RW) 2"
  "flag_ok (PAGE_PRESENT OR PAGE_NO_CACHE)" "\<not> bit (PAGE_PRESENT OR PAGE_NO_CACHE) 2"
  "flag_ok (PAGE_PRESENT OR PAGE_RW OR PAGE_NO_CACHE OR PAGE_WRITE_THROUGH)"
  "\<not> bit (PAGE_PRESENT OR PAGE_RW OR PAGE_NO_CACHE OR PAGE_WRITE_THROUGH) 2"
  by (simp_all add: flag_ok_def bit_or_iff flag_bits) (simp_all add: page_flag_defs)

section \<open>Sizes in pages\<close>

lemma pages_between:
  assumes "a \<le> b" "b < 2 ^ 20"
  shows "(frame_addr b - frame_addr a) div 0x1000 = of_nat (b - a)"
proof -
  have "frame_addr b - frame_addr a = frame_addr (b - a)"
    using assms(1) by (simp add: frame_addr_def of_nat_diff algebra_simps)
  then have "unat ((frame_addr b - frame_addr a) div 0x1000) = b - a"
    using assms by (simp add: unat_div unat_frame_addr)
  then show ?thesis by (metis of_nat_unat ucast_id)
qed

lemma pages_to_ram:
  assumes "4096 * e \<le> unat w" "unat w < 2 ^ 32"
  shows "(ucast (w :: u64) - frame_addr e) div 0x1000 = (of_nat (unat w div 4096 - e) :: u32)"
proof -
  have e: "e < 2 ^ 20" using assms by simp
  have w: "unat (ucast w :: u32) = unat w"
    using assms(2) by (simp add: unsigned_ucast_eq take_bit_nat_eq_self)
  have "frame_addr e \<le> ucast w"
    unfolding word_le_nat_alt w unat_frame_addr [OF e] by (rule assms(1))
  then have "unat (ucast w - frame_addr e) = unat w - 4096 * e"
    by (simp only: unat_sub w unat_frame_addr [OF e])
  then have "unat ((ucast w - frame_addr e) div 0x1000) = unat w div 4096 - e"
    by (simp add: unat_div)
  then show ?thesis by (metis of_nat_unat ucast_id)
qed

lemma acpi_words:
  assumes "unat (a :: u64) = 4096 * n" "n < 2 ^ 20" "unat (sz :: u64) div 4096 = k" "k < 2 ^ 20"
  shows "ucast a = frame_addr n" "(ucast (sz div 0x1000) :: u32) = of_nat k"
proof -
  have "unat (ucast a :: u32) = 4096 * n"
    using assms(1,2) by (simp add: unsigned_ucast_eq take_bit_nat_eq_self)
  then show "ucast a = frame_addr n" by (simp add: word_unat_eq_iff unat_frame_addr [OF assms(2)])
  have "unat (sz div 0x1000) = k" using assms(3) by (simp add: unat_div)
  then have "unat (ucast (sz div 0x1000) :: u32) = k"
    using assms(4) by (simp add: unsigned_ucast_eq take_bit_nat_eq_self)
  then show "(ucast (sz div 0x1000) :: u32) = of_nat k" by (metis of_nat_unat ucast_id)
qed

section \<open>The calls in order\<close>

lemma kmap_empty:
  assumes "d < 2 ^ 20" "bump_inv (placement_addr s)" "4096 * d < unat (placement_addr s)"
    "c \<le> card (bump_free (placement_addr s))"
  shows "kmap d (\<lambda>_. None) c (s\<lparr>bmem := kmemset (bmem s) (P2V (frame_addr d)) 0 (4 * 1024)\<rparr>)"
proof -
  let ?m = "kmemset (bmem s) (P2V (frame_addr d)) 0 (4 * 1024)"
  have z: "ent ?m d i = 0" if "i < 1024" for i using kmemset_page(2) [OF assms(1), of "bmem s"] that by simp
  then have t: "tables ?m d = {}" by (auto simp: tables_def is_table_def present_def)
  have "d \<notin> bump_free (placement_addr s)"
    using assms(2,3) by (auto simp: bump_free_def bump_inv_def)
  then have "bumpf.space_ok d ?m (placement_addr s)"
    using assms(1,2) t z by (simp add: bumpf.space_ok_def dir_space_def dir_wf_def is_table_def present_def)
  moreover have "walk ?m d q = None" if "q < 2 ^ 20" for q
    using z [of "q div 1024"] that by (simp add: walk_def Let_def present_def less_mult_imp_div_less)
  ultimately show ?thesis
    using assms(4) z by (simp add: kmap_def WINDOW_def pde_ok_def present_def)
qed

definition bios_space :: "nat \<Rightarrow> u32 option" where
  "bios_space = add_range (add_range (add_range (add_range (add_range (\<lambda>_. None)
     0 1 PAGE_PRESENT) 0x1 0x7F (PAGE_PRESENT OR PAGE_RW)) 0x80 0x20 PAGE_PRESENT)
     0xA0 0x20 (PAGE_PRESENT OR PAGE_RW OR PAGE_NO_CACHE OR PAGE_WRITE_THROUGH))
     0xC0 0x40 (PAGE_PRESENT OR PAGE_NO_CACHE)"

lemma map_bios_ok:
  assumes km: "kmap d (\<lambda>_. None) c s" and c: "0x100 \<le> c" and lk: "kernel_page_directory lk = P2V (frame_addr d)"
  obtains s' where "map_bios lk s = Inr s'" "kmap d bios_space (c - 0x100) s'"
proof -
  have f: "0 = frame_addr 0" "0x1000 = frame_addr 0x1" "0x80000 = frame_addr 0x80" "0xA0000 = frame_addr 0xA0"
    "0xC0000 = frame_addr 0xC0" by (simp_all add: frame_addr_def)
  let ?X = "add_range (add_range (add_range (\<lambda>_. None)
     0 1 PAGE_PRESENT) 0x1 0x7F (PAGE_PRESENT OR PAGE_RW)) 0x80 0x20 PAGE_PRESENT"
  let ?pd = "P2V (frame_addr d)"
  obtain s1 where s1: "early_map_range ?pd (frame_addr 0) (P2V (frame_addr 0)) (of_nat 1) PAGE_PRESENT s = Inr s1"
    "kmap d (add_range (\<lambda>_. None) 0 1 PAGE_PRESENT) (c - 1) s1"
    by (rule kmap_call [OF km kernel_flags(1,2), of 1 0]) (use c in simp_all)
  obtain s2 where s2: "early_map_range ?pd (frame_addr 0x1) (P2V (frame_addr 0x1)) (of_nat 0x7F)
      (PAGE_PRESENT OR PAGE_RW) s1 = Inr s2"
    "kmap d (add_range (add_range (\<lambda>_. None) 0 1 PAGE_PRESENT) 0x1 0x7F (PAGE_PRESENT OR PAGE_RW)) (c - 1 - 0x7F) s2"
    by (rule kmap_call [OF s1(2) kernel_flags(3,4), of "0x7F" "0x1"]) (use c in \<open>simp_all add: add_range_def\<close>)
  obtain s3 where s3: "early_map_range ?pd (frame_addr 0x80) (P2V (frame_addr 0x80)) (of_nat 0x20) PAGE_PRESENT s2 = Inr s3"
    "kmap d ?X (c - 1 - 0x7F - 0x20) s3"
    by (rule kmap_call [OF s2(2) kernel_flags(1,2), of "0x20" "0x80"]) (use c in \<open>simp_all add: add_range_def\<close>)
  obtain s4 where s4: "early_map_range ?pd (frame_addr 0xA0) (P2V (frame_addr 0xA0)) (of_nat 0x20)
      (PAGE_PRESENT OR PAGE_RW OR PAGE_NO_CACHE OR PAGE_WRITE_THROUGH) s3 = Inr s4"
    "kmap d (add_range ?X 0xA0 0x20 (PAGE_PRESENT OR PAGE_RW OR PAGE_NO_CACHE OR PAGE_WRITE_THROUGH))
      (c - 1 - 0x7F - 0x20 - 0x20) s4"
    by (rule kmap_call [OF s3(2) kernel_flags(7,8), of "0x20" "0xA0"]) (use c in \<open>simp_all add: add_range_def\<close>)
  obtain s5 where s5: "early_map_range ?pd (frame_addr 0xC0) (P2V (frame_addr 0xC0)) (of_nat 0x40)
      (PAGE_PRESENT OR PAGE_NO_CACHE) s4 = Inr s5" "kmap d bios_space (c - 1 - 0x7F - 0x20 - 0x20 - 0x40) s5"
    unfolding bios_space_def
    by (rule kmap_call [OF s4(2) kernel_flags(5,6), of "0x40" "0xC0"]) (use c in \<open>simp_all add: add_range_def\<close>)
  have "map_bios lk s = Inr s5"
    using s1(1) s2(1) s3(1) s4(1) s5(1) unfolding map_bios_def lk Let_def f [symmetric] by simp
  moreover have "kmap d bios_space (c - 0x100) s5" using s5(2) by simp
  ultimately show thesis by (rule that)
qed

lemma bios_space_eq:
  "bios_space p = (if p < 0x1 then Some PAGE_PRESENT
      else if p < 0x80 then Some (PAGE_PRESENT OR PAGE_RW)
      else if p < 0xA0 then Some PAGE_PRESENT
      else if p < 0xC0 then Some (PAGE_PRESENT OR PAGE_RW OR PAGE_NO_CACHE OR PAGE_WRITE_THROUGH)
      else if p < 0x100 then Some (PAGE_PRESENT OR PAGE_NO_CACHE) else None)"
  by (simp add: bios_space_def add_range_def)

definition image_space :: "layout \<Rightarrow> nat \<Rightarrow> u32 option" where
  "image_space l = add_range (add_range bios_space (l_ro l) (l_ro_end l - l_ro l) PAGE_PRESENT)
     (l_rw l) (l_rw_end l - l_rw l) (PAGE_PRESENT OR PAGE_RW)"

lemma map_kernel_ok:
  assumes km: "kmap d bios_space c s" and c: "2 ^ 18 - 0x100 \<le> c" and l: "layout_ok lk mm l" "d = l_dir l"
  obtains s' where "map_kernel lk mm s = Inr s'"
    "kmap d (add_range (add_range (image_space l) (l_end l) (l_ram l - l_end l) (PAGE_PRESENT OR PAGE_RW))
       (l_acpi l) (l_acpi_n l) PAGE_PRESENT) 0 s'"
proof -
  note L = l(1) [unfolded layout_ok_def]
  let ?pd = "P2V (frame_addr d)" and ?w = "0x100000 + mm_size (mm 3)"
  have o: "0x100 \<le> l_ro l" "l_ro l \<le> l_ro_end l" "l_ro_end l \<le> l_rw l" "l_rw l \<le> l_rw_end l"
     "l_rw_end l \<le> l_end l" "l_end l \<le> l_ram l" "l_ram l \<le> l_acpi l" "l_acpi l + l_acpi_n l \<le> 2 ^ 18"
    using L by simp_all
  have n: "(frame_addr (l_ro_end l) - frame_addr (l_ro l)) div 0x1000 = of_nat (l_ro_end l - l_ro l)"
    "(frame_addr (l_rw_end l) - frame_addr (l_rw l)) div 0x1000 = of_nat (l_rw_end l - l_rw l)"
    using o by (intro pages_between; simp)+
  have "4096 * l_end l \<le> 4096 * l_ram l" using o by simp
  also have "4096 * l_ram l \<le> unat ?w" using L times_div_less_eq_dividend [of 4096 "unat ?w"] by simp
  finally have r: "(ucast ?w - frame_addr (l_end l)) div 0x1000 = (of_nat (l_ram l - l_end l) :: u32)"
    using pages_to_ram [of "l_end l" ?w] L by simp
  have a: "ucast (mm_addr (mm 4)) = frame_addr (l_acpi l)" "(ucast (mm_size (mm 4) div 0x1000) :: u32) = of_nat (l_acpi_n l)"
    using acpi_words [of "mm_addr (mm 4)" "l_acpi l" "mm_size (mm 4)" "l_acpi_n l"] L o by simp_all
  have bios: "bios_space q = None" if "0x100 \<le> q" for q using that by (simp add: bios_space_eq)
  obtain s1 where s1: "early_map_range ?pd (frame_addr (l_ro l)) (P2V (frame_addr (l_ro l))) (of_nat (l_ro_end l - l_ro l))
      PAGE_PRESENT s = Inr s1"
    "kmap d (add_range bios_space (l_ro l) (l_ro_end l - l_ro l) PAGE_PRESENT) (c - (l_ro_end l - l_ro l)) s1"
    by (rule kmap_call [OF km kernel_flags(1,2), of "l_ro_end l - l_ro l" "l_ro l"]) (use c o bios in simp_all)
  obtain s2 where s2: "early_map_range ?pd (frame_addr (l_rw l)) (P2V (frame_addr (l_rw l))) (of_nat (l_rw_end l - l_rw l))
      (PAGE_PRESENT OR PAGE_RW) s1 = Inr s2"
    "kmap d (image_space l) (c - (l_ro_end l - l_ro l) - (l_rw_end l - l_rw l)) s2"
    unfolding image_space_def
    by (rule kmap_call [OF s1(2) kernel_flags(3,4), of "l_rw_end l - l_rw l" "l_rw l"])
      (use c o bios in \<open>simp_all add: add_range_def\<close>)
  obtain s3 where s3: "early_map_range ?pd (frame_addr (l_end l)) (P2V (frame_addr (l_end l))) (of_nat (l_ram l - l_end l))
      (PAGE_PRESENT OR PAGE_RW) s2 = Inr s3"
    "kmap d (add_range (image_space l) (l_end l) (l_ram l - l_end l) (PAGE_PRESENT OR PAGE_RW))
      (c - (l_ro_end l - l_ro l) - (l_rw_end l - l_rw l) - (l_ram l - l_end l)) s3"
    by (rule kmap_call [OF s2(2) kernel_flags(3,4), of "l_ram l - l_end l" "l_end l"])
      (use c o bios in \<open>simp_all add: add_range_def image_space_def\<close>)
  obtain s4 where s4: "early_map_range ?pd (frame_addr (l_acpi l)) (P2V (frame_addr (l_acpi l))) (of_nat (l_acpi_n l))
      PAGE_PRESENT s3 = Inr s4"
    "kmap d (add_range (add_range (image_space l) (l_end l) (l_ram l - l_end l) (PAGE_PRESENT OR PAGE_RW))
       (l_acpi l) (l_acpi_n l) PAGE_PRESENT)
      (c - (l_ro_end l - l_ro l) - (l_rw_end l - l_rw l) - (l_ram l - l_end l) - l_acpi_n l) s4"
    by (rule kmap_call [OF s3(2) kernel_flags(1,2), of "l_acpi_n l" "l_acpi l"])
      (use c o bios in \<open>simp_all add: add_range_def image_space_def\<close>)
  have "map_kernel lk mm s = Inr s4"
    using s1(1) s2(1) s3(1) s4(1) L n r a l(2) unfolding map_kernel_def Let_def by simp
  moreover have "kmap d X 0 s" if "kmap d X k s" for X k s using that by (simp add: kmap_def)
  ultimately show thesis using that s4(2) by blast
qed

lemma kernel_space_eq:
  assumes "layout_ok lk mm l"
  shows "add_range (add_range (image_space l) (l_end l) (l_ram l - l_end l) (PAGE_PRESENT OR PAGE_RW))
    (l_acpi l) (l_acpi_n l) PAGE_PRESENT p = kernel_space l p"
  using assms unfolding layout_ok_def image_space_def add_range_def bios_space_eq kernel_space_def by auto

lemma paging_init_space:
  assumes l: "layout_ok lk mm l" and b: "bump_inv (placement_addr s)" "4096 * l_dir l < unat (placement_addr s)"
    and c: "2 ^ 18 \<le> card (bump_free (placement_addr s))"
  obtains s' where "paging_init lk mm s = Inr (s', frame_addr (l_dir l))" "kmap (l_dir l) (kernel_space l) 0 s'"
proof -
  have lk: "kernel_page_directory lk = P2V (frame_addr (l_dir l))" "l_dir l < 2 ^ 20"
    using l by (simp_all add: layout_ok_def)
  obtain s1 where s1: "map_bios lk (s\<lparr>bmem := kmemset (bmem s) (P2V (frame_addr (l_dir l))) 0 (4 * 1024)\<rparr>) = Inr s1"
    "kmap (l_dir l) bios_space (2 ^ 18 - 0x100) s1"
    by (rule map_bios_ok [OF kmap_empty [OF lk(2) b c] _ lk(1)]) simp_all
  obtain s2 where s2: "map_kernel lk mm s1 = Inr s2"
    "kmap (l_dir l) (add_range (add_range (image_space l) (l_end l) (l_ram l - l_end l) (PAGE_PRESENT OR PAGE_RW))
       (l_acpi l) (l_acpi_n l) PAGE_PRESENT) 0 s2"
    by (rule map_kernel_ok [OF s1(2) _ l refl]) simp_all
  have "paging_init lk mm s = Inr (s2, frame_addr (l_dir l))"
    using s1(1) s2(1) unfolding paging_init_def lk(1) Let_def by simp
  moreover have "kmap (l_dir l) (kernel_space l) 0 s2"
    using s2(2) kernel_space_eq [OF l] unfolding kmap_def by simp
  ultimately show thesis by (rule that)
qed

lemma kernel_space_user: "kernel_space l p = Some f \<Longrightarrow> \<not> bit f 2"
  using kernel_flags(2,4,6,8) unfolding kernel_space_def by (auto split: if_splits)

end
