(* ===== verification/Paging_Props.thy ===== *)
theory Paging_Props
  imports Paging_Init Pmm
begin

text \<open>
  Properties of the page tables: the kernel's address space after \<open>paging_init\<close>, what
  \<open>map_range\<close> adds to a directory, and the entries it exposes by not clearing a new table.
\<close>

section \<open>The kernel's address space\<close>

text \<open>
  C31: \<open>paging_init\<close> returns and leaves in \<open>cr3\<close> a directory that maps exactly what it should.
  Nothing is mapped below \<open>0xC0000000\<close>. Above it, physical page \<open>p\<close> is mapped at its fixed distance
  with the rights of its region: the first page and the BIOS read-only, low memory and video memory
  writable, code and constants read-only, data and free memory writable, the ACPI tables read-only,
  and every other page not at all. No page is open to user code.
\<close>
theorem paging_init_correct:
  assumes "layout_ok lk mm l" and "4096 dvd unat (placement_addr s)"
    and "4096 * l_dir l < unat (placement_addr s)" and "unat (placement_addr s) \<le> 2 ^ 31"
  shows "\<exists>s'. paging_init lk mm s = Inr (s', frame_addr (l_dir l)) \<and>
    (\<forall>q<0xC0000. walk (bmem s') (l_dir l) q = None) \<and>
    (\<forall>p<2 ^ 18. walk (bmem s') (l_dir l) (0xC0000 + p) =
       map_option (\<lambda>f. \<lparr>frame = p, writable = bit f 1, user = False\<rparr>) (kernel_space l p))"
proof -
  have "card (bump_free (placement_addr s)) = 2 ^ 20 - 1 - unat (placement_addr s) div 4096"
    by (simp add: bump_free_def)
  moreover have "unat (placement_addr s) div 4096 \<le> 2 ^ 31 div 4096" using assms(4) by (rule div_le_mono)
  ultimately have c: "2 ^ 18 \<le> card (bump_free (placement_addr s))" by simp
  obtain s' where s': "paging_init lk mm s = Inr (s', frame_addr (l_dir l))" "kmap (l_dir l) (kernel_space l) 0 s'"
    by (rule paging_init_space [OF assms(1) _ assms(3) c]) (simp add: bump_inv_def assms(2))
  have "map_option (\<lambda>f. page_mapping f p) (kernel_space l p) =
      map_option (\<lambda>f. \<lparr>frame = p, writable = bit f 1, user = False\<rparr>) (kernel_space l p)" for p
    by (rule option.map_cong0) (auto simp: page_mapping_def kernel_space_user)
  with s' show ?thesis unfolding kmap_def WINDOW_def by auto
qed

text \<open>An image from one megabyte on, with 128 MB of memory and the ACPI tables behind it.\<close>

definition sample_link :: link_map where
  "sample_link = \<lparr>ro_start = 0xC0100000, ro_end = 0xC0108000, rw_start = 0xC0108000, rw_end = 0xC0120000,
     kernel_end = 0xC0120000, kernel_page_directory = 0xC0110000\<rparr>"

definition sample_map :: "nat \<Rightarrow> memory_map_t" where
  "sample_map i = (if i = 3 then \<lparr>mm_addr = 0x100000, mm_size = 0x7EE0000, mm_type = 1, mm_reserved = 0\<rparr>
     else \<lparr>mm_addr = 0x7FE0000, mm_size = 0x20000, mm_type = 3, mm_reserved = 0\<rparr>)"

definition sample_layout :: layout where
  "sample_layout = \<lparr>l_dir = 0x110, l_ro = 0x100, l_ro_end = 0x108, l_rw = 0x108, l_rw_end = 0x120, l_end = 0x120,
     l_ram = 0x7FE0, l_acpi = 0x7FE0, l_acpi_n = 0x20\<rparr>"

definition sample_boot :: boot where
  "sample_boot = \<lparr>placement_addr = 0x200000, bmem = (\<lambda>_. 0)\<rparr>"

theorem paging_init_correct_witness:
  "\<exists>s'. paging_init sample_link sample_map sample_boot = Inr (s', 0x110000) \<and>
    walk (bmem s') 0x110 (0xC0000 + 0x104) = Some \<lparr>frame = 0x104, writable = False, user = False\<rparr>"
proof -
  have "layout_ok sample_link sample_map sample_layout"
    by (simp add: layout_ok_def sample_link_def sample_map_def sample_layout_def frame_addr_def P2V_def V2P_def
        KERNEL_VIRTUAL_BASE_def)
  from paging_init_correct [OF this, of sample_boot] obtain s' where s':
    "paging_init sample_link sample_map sample_boot = Inr (s', frame_addr (l_dir sample_layout))"
    "\<forall>p<2 ^ 18. walk (bmem s') (l_dir sample_layout) (0xC0000 + p) =
       map_option (\<lambda>f. \<lparr>frame = p, writable = bit f 1, user = False\<rparr>) (kernel_space sample_layout p)"
    by (auto simp: sample_boot_def sample_layout_def)
  have "kernel_space sample_layout 0x104 = Some PAGE_PRESENT"
    by (simp add: kernel_space_def sample_layout_def)
  moreover have "l_dir sample_layout = 0x110" by (simp add: sample_layout_def)
  ultimately show ?thesis
    using s' spec [OF s'(2), of "0x104"] by (simp add: frame_addr_def flag_bits)
qed

section \<open>Mapping into a directory\<close>

text \<open>
  C32: \<open>map_range\<close> maps what it is asked to. With enough free frames, and directory entries in the
  range that are absent or tables with sufficient rights, it returns; every page of the range is
  then mapped to its frame with exactly the rights asked for, with 4 KB or 4 MB pages; every other
  page under a table that existed, and every page of the regions not touched, is mapped as before;
  and directory, tables and free frames stay disjoint.
\<close>
theorem map_range_correct:
  assumes "buddy_inv b" and "dir_space (free_pages b) d m" and "flag_ok flag"
    and "n + k \<le> 2 ^ 20" and "p + k \<le> 2 ^ 20" and "k \<le> card (free_pages b)"
    and "\<forall>i<1024. touched n k i \<longrightarrow> pde_ok flag (ent m d i)"
  shows "\<exists>m' b'. map_range (P2V (frame_addr d)) (frame_addr p) (frame_addr n) (of_nat k) flag (m, b) = Inr (m', b') \<and>
    buddy_inv b' \<and> dir_space (free_pages b') d m' \<and>
    (\<forall>j<k. walk m' d (n + j) = Some \<lparr>frame = p + j, writable = bit flag 1, user = bit flag 2\<rparr>) \<and>
    (\<forall>q<2 ^ 20. q \<notin> {n..<n + k} \<longrightarrow> present (ent m d (q div 1024)) \<or> \<not> touched n k (q div 1024) \<longrightarrow>
       walk m' d q = walk m d q)"
proof -
  have "pmmf.startable d flag n p k m b"
    using assms by (simp add: pmmf.startable_def pmmf.space_ok_def)
  from pmmf.map_frames_ok [OF this] obtain m' b' where r:
    "map_frames pmm_frame (P2V (frame_addr d)) (frame_addr p) (frame_addr n) (of_nat k) flag (m, b) = Inr (m', b')"
    "pmmf.space_ok d m' b'" "maps False d flag n p k m m'"
    unfolding pmmf.run_ok_def by blast
  have w: "\<forall>j<k. walk m' d (n + j) = Some \<lparr>frame = p + j, writable = bit flag 1, user = bit flag 2\<rparr>"
    using r(3) unfolding maps_def page_mapping_def by blast
  have o: "\<forall>q<2 ^ 20. q \<notin> {n..<n + k} \<longrightarrow> present (ent m d (q div 1024)) \<or> \<not> touched n k (q div 1024) \<longrightarrow>
      walk m' d q = walk m d q"
    using r(3) unfolding maps_def by blast
  show ?thesis
    using r(1,2) w o unfolding map_range_def pmmf.space_ok_def
    by (intro exI [of _ m'] exI [of _ b']) (intro conjI; simp only:)
qed

lemma zero_dir_space:
  assumes "d < 2 ^ 20" "d \<notin> F"
  shows "dir_space F d (\<lambda>_. 0)" "ent (\<lambda>_. 0) d i = 0"
proof -
  show z: "ent (\<lambda>_. 0) d i = 0" for d i by (simp add: ent_def load32_def)
  show "dir_space F d (\<lambda>_. 0)"
    using assms by (simp add: dir_space_def dir_wf_def tables_def is_table_def present_def z)
qed

theorem map_range_correct_witness:
  "\<exists>m' b'. map_range (P2V (frame_addr 100)) (frame_addr 200) (frame_addr 0x40000) 1
      (PAGE_USER OR PAGE_PRESENT OR PAGE_RW) (\<lambda>_. 0, four_pages) = Inr (m', b') \<and>
    walk m' 100 0x40000 = Some \<lparr>frame = 200, writable = True, user = True\<rparr>"
proof -
  have f: "flag_ok (PAGE_USER OR PAGE_PRESENT OR PAGE_RW)"
    by (simp add: flag_ok_def page_flag_defs)
  have d: "dir_space (free_pages four_pages) 100 (\<lambda>_. 0)"
    by (rule zero_dir_space) (simp_all add: four_pages_sets)
  have c: "1 \<le> card (free_pages four_pages)" by (simp add: four_pages_sets)
  have e: "ent (\<lambda>_. 0) 100 i = 0" for i by (simp add: ent_def load32_def)
  from map_range_correct [OF four_pages_inv d f, of "0x40000" 1 200] c show ?thesis
    by (auto simp: e pde_ok_def present_def bit_or_iff flag_bits)
qed

text \<open>
  C33: A page table that \<open>map_range\<close> takes from the page allocator is not cleared. Mapping one page
  under an absent directory entry therefore also maps, with whatever rights the old contents of the
  frame give, every other page whose slot in that frame happens to look present.
\<close>
theorem map_range_stale_entries:
  assumes "d < 2 ^ 20" and "x < 2 ^ 20" and "x \<noteq> d" and "i < 1024" and "j < 1024" and "j' < 1024" and "j \<noteq> j'"
    and "p < 2 ^ 20" and "flag_ok flag"
    and "pmm_alloc b 0 = Inr (frame_addr x, b')" and "\<not> present (ent m d i)" and "present (ent m x j')"
  shows "walk m d (1024 * i + j') = None \<and>
    (\<exists>m' w u. map_range (P2V (frame_addr d)) (frame_addr p) (frame_addr (1024 * i + j)) 1 flag (m, b) = Inr (m', b') \<and>
      walk m' d (1024 * i + j') = Some \<lparr>frame = entry_frame (ent m x j'), writable = w, user = u\<rparr>)"
proof -
  let ?n = "1024 * i + j" and ?pd = "P2V (frame_addr d)"
  define v where "v = frame_addr x OR PAGE_PRESENT OR PAGE_RW OR flag"
  define m1 where "m1 = store32 m (slot d i) v"
  define m2 where "m2 = store32 m1 (slot x j) (frame_addr p OR flag)"
  note v = table_entry [OF assms(2,9), folded v_def]
  have n: "?n < 2 ^ 20" using assms(4,5) by simp
  have ij: "?n div 1024 = i" "?n mod 1024 = j" "(1024 * i + j') div 1024 = i" "(1024 * i + j') mod 1024 = j'"
    using assms(5,6) by simp_all
  have slot: "?pd + 4 * of_nat i = slot d i" by (simp add: slot_def)
  have m1i: "ent m1 d i = v" unfolding m1_def using ent_store [OF assms(1,4,1,4)] by simp
  have g: "get_table pmm_frame ?pd (of_nat i) flag (m, b) = Inr (P2V (frame_addr x), m1, b')"
    using assms(10,11) m1i v(2) unfolding get_table_def slot fst_conv present_and ent_def [symmetric]
    by (simp add: pmm_frame_def v_def [symmetric] slot m1_def [symmetric] ent_def [symmetric] entry_mask)
  have "map_range ?pd (frame_addr p) (frame_addr ?n) 1 flag (m, b) =
      map_loop pmm_frame ?pd flag (of_nat i) (of_nat j) 0 (frame_addr p) (frame_addr ?n) (of_nat 1) (m, b)"
    unfolding map_range_def map_frames_def vaddr_fields [OF n] ij by simp
  also have "\<dots> = Inr (m2, b')"
    using pmmf.map_loop_small [of 1 ?n p 0 ?pd flag m b "P2V (frame_addr x)" m1 b'] n assms(8) g
    unfolding ij by (simp add: m2_def slot_def)
  finally have r: "map_range ?pd (frame_addr p) (frame_addr ?n) 1 flag (m, b) = Inr (m2, b')" .
  have "ent m2 d i = v"
    unfolding m2_def using ent_store [OF assms(2,5,1,4)] assms(3) m1i by simp
  moreover have "ent m2 x j' = ent m x j'"
    unfolding m2_def m1_def using ent_store [OF assms(2,5,2,6)] ent_store [OF assms(1,4,2,6)] assms(3,7) by simp
  ultimately have "\<exists>w u. walk m2 d (1024 * i + j') = Some \<lparr>frame = entry_frame (ent m x j'), writable = w, user = u\<rparr>"
    using v assms(12) unfolding walk_def Let_def ij by (simp add: is_table_def)
  moreover have "walk m d (1024 * i + j') = None" using assms(11) unfolding walk_def Let_def ij by simp
  ultimately show ?thesis using r by blast
qed

text \<open>A frame full of ones: the page next to the one asked for becomes mapped as well.\<close>

definition ones_in_frame_0 :: mem where
  "ones_in_frame_0 = (\<lambda>a. if frame_of a = 0 then 0xFF else 0)"

theorem map_range_stale_entries_witness:
  "\<exists>m' b' w u. map_range (P2V (frame_addr 100)) (frame_addr 200) (frame_addr 0x40000) 1
      (PAGE_USER OR PAGE_PRESENT OR PAGE_RW) (ones_in_frame_0, four_pages) = Inr (m', b') \<and>
    walk m' 100 0x40001 = Some \<lparr>frame = 0xFFFFF, writable = w, user = u\<rparr>"
proof -
  have f: "flag_ok (PAGE_USER OR PAGE_PRESENT OR PAGE_RW)"
    by (simp add: flag_ok_def page_flag_defs)
  have "map_sum id fst (pmm_alloc four_pages 0) = Inr 0" by code_simp
  then obtain b' where a: "pmm_alloc four_pages 0 = Inr (frame_addr 0, b')"
    by (cases "pmm_alloc four_pages 0") (auto simp: frame_addr_def)
  have e0: "ent ones_in_frame_0 0 1 = 0xFFFFFFFF"
  proof -
    have "ones_in_frame_0 (slot 0 1 + of_nat k) = 0xFF" if "k < 4" for k
      using frame_of_slot [of 0 1 k] that by (simp add: ones_in_frame_0_def)
    from this [of 0] this [of 1] this [of 2] this [of 3] show ?thesis
      by (simp add: ent_def load32_def)
  qed
  have e1: "ent ones_in_frame_0 100 256 = 0"
    unfolding ent_def by (rule load32_zero) (simp add: ones_in_frame_0_def frame_of_slot)
  have p: "\<not> present (ent ones_in_frame_0 100 256)" "present (ent ones_in_frame_0 0 1)"
    unfolding e0 e1 by (simp_all add: present_def bit_0)
  have "entry_frame 0xFFFFFFFF = 0xFFFFF" by (simp add: entry_frame_def)
  with map_range_stale_entries [of 100 0 256 0 1 200 "PAGE_USER OR PAGE_PRESENT OR PAGE_RW" four_pages b' ones_in_frame_0,
      OF _ _ _ _ _ _ _ _ f a p] e0
  show ?thesis by auto
qed

end
