(* ===== verification/Switch.thy ===== *)
theory Switch
  imports Heap_Spec Paging_Loop
begin

text \<open>
  The stack discipline of the kernel: \<open>sched/context_switch.asm\<close> and
  \<open>process/launch_process.asm\<close>.

  The processor is a record of its general registers and the instruction pointer; the stack is in
  byte memory. Each routine is the composition of its instructions. \<open>context_switch\<close> is entered by
  a call: the return address and its two arguments, the addresses of two \<open>esp\<close> members, are on top
  of the stack. \<open>resume m e\<close> is the state of the registers after \<open>popa\<close> and \<open>ret\<close> on the frame at
  \<open>e\<close>; a thread that is not running is such a frame.
\<close>

section \<open>Instructions\<close>

record cpu =
  c_eax :: u32
  c_ecx :: u32
  c_edx :: u32
  c_ebx :: u32
  c_esp :: u32
  c_ebp :: u32
  c_esi :: u32
  c_edi :: u32
  c_eip :: u32

definition push32 :: "u32 \<Rightarrow> u32 \<times> mem \<Rightarrow> u32 \<times> mem" where
  "push32 v em = (fst em - 4, store32 (snd em) (fst em - 4) v)"

definition pusha :: "cpu \<times> mem \<Rightarrow> cpu \<times> mem" where
  "pusha cm = (let (c, m) = cm;
       (e, m) = fold push32 [c_eax c, c_ecx c, c_edx c, c_ebx c, c_esp c, c_ebp c, c_esi c, c_edi c] (c_esp c, m)
     in (c\<lparr>c_esp := e\<rparr>, m))"

text \<open>\<open>popa\<close> skips the stored stack pointer.\<close>

definition popa :: "mem \<Rightarrow> cpu \<Rightarrow> cpu" where
  "popa m c = (let e = c_esp c in
     c\<lparr>c_edi := load32 m e, c_esi := load32 m (e + 4), c_ebp := load32 m (e + 8),
       c_ebx := load32 m (e + 16), c_edx := load32 m (e + 20), c_ecx := load32 m (e + 24),
       c_eax := load32 m (e + 28), c_esp := e + 32\<rparr>)"

definition ret :: "mem \<Rightarrow> cpu \<Rightarrow> cpu" where
  "ret m c = c\<lparr>c_eip := load32 m (c_esp c), c_esp := c_esp c + 4\<rparr>"

section \<open>The routines\<close>

definition context_switch :: "cpu \<times> mem \<Rightarrow> cpu \<times> mem" where
  "context_switch cm =
     (let (c, m) = cm;
          c = c\<lparr>c_ecx := load32 m (c_esp c + 4)\<rparr>;
          c = c\<lparr>c_edx := load32 m (c_esp c + 8)\<rparr>;
          (c, m) = pusha (c, m);
          m = store32 m (c_ecx c) (c_esp c);
          c = c\<lparr>c_esp := load32 m (c_edx c)\<rparr>;
          c = popa m c
      in (ret m c, m))"

text \<open>The segment registers and flags that \<open>launch_process\<close> and its \<open>iret\<close> load, with the registers
  of the process. \<open>iret\<close> changes the privilege level here, so it also pops the stack pointer.\<close>

record user_cpu =
  u_regs :: cpu
  u_ds :: u16
  u_es :: u16
  u_fs :: u16
  u_gs :: u16
  u_cs :: u16
  u_ss :: u16
  u_eflags :: u32

definition USER_DATA_SEGMENT :: u16 where "USER_DATA_SEGMENT = 0x23"

text \<open>The value the flags register holds after \<open>w\<close> is loaded into it: bit 1 is always set, the other
  reserved bits are always clear.\<close>

definition flags_image :: "u32 \<Rightarrow> u32" where
  "flags_image w = (w AND 0x3F7FD7) OR 2"

definition launch_process :: "mem \<Rightarrow> cpu \<Rightarrow> user_cpu" where
  "launch_process m c =
     (let ax = USER_DATA_SEGMENT;
          c = c\<lparr>c_eax := (c_eax c AND 0xFFFF0000) OR ucast ax\<rparr>;
          e = c_esp c
      in \<lparr>u_regs = c\<lparr>c_eip := load32 m e, c_esp := load32 m (e + 12)\<rparr>,
          u_ds = ax, u_es = ax, u_fs = ax, u_gs = ax,
          u_cs = ucast (load32 m (e + 4)), u_ss = ucast (load32 m (e + 16)), u_eflags = flags_image (load32 m (e + 8))\<rparr>)"

section \<open>Words on a stack\<close>

lemma bytes_iff: "n \<le> 2 ^ 32 \<Longrightarrow> x \<in> bytes a n \<longleftrightarrow> unat (x - a) < n"
proof
  assume n: "n \<le> 2 ^ 32"
  show "unat (x - a) < n" if "x \<in> bytes a n"
  proof -
    from that obtain i where "x = a + of_nat i" "i < n" by (auto simp: bytes_def)
    with n show ?thesis by (simp add: unsigned_of_nat take_bit_nat_eq_self)
  qed
  show "x \<in> bytes a n" if "unat (x - a) < n"
    unfolding bytes_def using that by (intro CollectI exI [of _ "unat (x - a)"]) simp
qed

lemma bytes_sub: "j + k \<le> n \<Longrightarrow> bytes (a + of_nat j) k \<subseteq> bytes a n"
proof
  fix x assume "j + k \<le> n" "x \<in> bytes (a + of_nat j) k"
  then obtain i where "x = a + of_nat (j + i)" "j + i < n" by (auto simp: bytes_def)
  then show "x \<in> bytes a n" unfolding bytes_def by blast
qed

lemma bytes_apart:
  assumes "j + k \<le> i \<or> i + l \<le> j" "i + l \<le> 2 ^ 32" "j + k \<le> 2 ^ 32"
  shows "bytes (a + of_nat i) l \<inter> bytes (a + of_nat j) k = {}"
proof (rule equals0I)
  fix x assume "x \<in> bytes (a + of_nat i) l \<inter> bytes (a + of_nat j) k"
  then obtain p q where x: "x = a + of_nat i + of_nat p" "p < l" "x = a + of_nat j + of_nat q" "q < k"
    unfolding bytes_def by blast
  then have "(of_nat (i + p) :: u32) = of_nat (j + q)" by (simp add: add.assoc)
  moreover have "i + p < 2 ^ 32" "j + q < 2 ^ 32" using x assms by linarith+
  ultimately have "i + p = j + q" by (simp only: u32_of_nat_eq)
  with assms(1) x show False by linarith
qed

lemma disjoint_mem: "x \<in> A \<Longrightarrow> B \<inter> A = {} \<Longrightarrow> x \<notin> B"
  by blast

lemma store32_outside: "x \<notin> bytes a 4 \<Longrightarrow> store32 m a v x = m x"
  by (simp add: store32_def bytes_iff)

lemma load32_agree:
  assumes "\<And>x. x \<in> bytes a 4 \<Longrightarrow> m x = m' x"
  shows "load32 m a = load32 m' a"
  by (rule load32_cong) (rule assms, auto simp: bytes_def)

lemma load32_store32_apart: "bytes a 4 \<inter> bytes b 4 = {} \<Longrightarrow> load32 (store32 m b v) a = load32 m a"
  by (rule load32_agree) (auto intro: store32_outside)

text \<open>What a sequence of pushes leaves behind.\<close>

lemma pushes_all:
  assumes "4 * length vs \<le> 2 ^ 32"
  shows "\<exists>e' m'. fold push32 vs (e, m) = (e', m') \<and> e = e' + of_nat (4 * length vs) \<and>
    (\<forall>i<length vs. load32 m' (e' + of_nat (4 * i)) = rev vs ! i) \<and>
    (\<forall>x. x \<notin> bytes e' (4 * length vs) \<longrightarrow> m' x = m x)"
  using assms
proof (induction vs rule: rev_induct)
  case (snoc v vs)
  then obtain e1 m1 where f: "fold push32 vs (e, m) = (e1, m1)" and e: "e = e1 + of_nat (4 * length vs)"
    and l: "\<And>i. i < length vs \<Longrightarrow> load32 m1 (e1 + of_nat (4 * i)) = rev vs ! i"
    and k: "\<And>x. x \<notin> bytes e1 (4 * length vs) \<Longrightarrow> m1 x = m x" by auto
  obtain e2 where e2: "e1 = e2 + 4" by (metis diff_add_cancel)
  have r: "fold push32 (vs @ [v]) (e, m) = (e2, store32 m1 e2 v)" by (simp add: f push32_def e2)
  have "load32 (store32 m1 e2 v) (e2 + of_nat (4 * i)) = rev (vs @ [v]) ! i" if i: "i < length (vs @ [v])" for i
  proof (cases i)
    case 0
    then show ?thesis using load32_store32_same by simp
  next
    case (Suc j)
    have "bytes (e2 + of_nat (4 * i)) 4 \<inter> bytes (e2 + of_nat 0) 4 = {}"
      by (rule bytes_apart) (use Suc i snoc.prems in simp_all)
    then have "load32 (store32 m1 e2 v) (e2 + of_nat (4 * i)) = load32 m1 (e2 + of_nat (4 * i))"
      by (simp add: load32_store32_apart)
    moreover have eq: "e2 + of_nat (4 * i) = e1 + of_nat (4 * j)" using Suc e2 by simp
    ultimately show ?thesis unfolding eq using l [of j] i Suc by simp
  qed
  moreover have "store32 m1 e2 v x = m x" if x: "x \<notin> bytes e2 (4 * length (vs @ [v]))" for x
  proof -
    have "bytes (e2 + of_nat 4) (4 * length vs) \<subseteq> bytes e2 (4 * length (vs @ [v]))"
      "bytes (e2 + of_nat 0) 4 \<subseteq> bytes e2 (4 * length (vs @ [v]))" by (rule bytes_sub; simp)+
    then have "x \<notin> bytes e1 (4 * length vs)" "x \<notin> bytes e2 4" using x e2 by auto
    then show ?thesis using k by (simp add: store32_outside)
  qed
  moreover have "e = e2 + of_nat (4 * length (vs @ [v]))" using e e2 by simp
  ultimately show ?case using r by blast
qed simp

lemma pushes_spec:
  assumes "4 * length vs \<le> 2 ^ 32"
  obtains e' m' where "fold push32 vs (e, m) = (e', m')" and "e = e' + of_nat (4 * length vs)"
    and "\<forall>i<length vs. load32 m' (e' + of_nat (4 * i)) = rev vs ! i"
    and "\<forall>x. x \<notin> bytes e' (4 * length vs) \<longrightarrow> m' x = m x"
  using pushes_all [OF assms, of e m] by blast

section \<open>Switching\<close>

definition resume :: "mem \<Rightarrow> u32 \<Rightarrow> cpu" where
  "resume m e =
     \<lparr>c_eax = load32 m (e + 28), c_ecx = load32 m (e + 24), c_edx = load32 m (e + 20), c_ebx = load32 m (e + 16),
      c_esp = e + 36, c_ebp = load32 m (e + 8), c_esi = load32 m (e + 4), c_edi = load32 m e,
      c_eip = load32 m (e + 32)\<rparr>"

lemma popa_ret: "c_esp c = e \<Longrightarrow> ret m (popa m c) = resume m e"
  by (simp add: ret_def popa_def resume_def Let_def)

lemma resume_agree:
  assumes "\<And>x. x \<in> bytes e 36 \<Longrightarrow> m x = m' x"
  shows "resume m e = resume m' e"
proof -
  have "load32 m (e + of_nat j) = load32 m' (e + of_nat j)" if "j + 4 \<le> 36" for j
    by (rule load32_agree) (use bytes_sub [OF that, of e] assms in blast)
  from this [of 0] this [of 4] this [of 8] this [of 16] this [of 20] this [of 24] this [of 28] this [of 32]
  show ?thesis by (simp add: resume_def)
qed

text \<open>
  A switch stores eight registers below the stack pointer and that address through its first
  argument, and resumes the frame whose address its second argument points to. The frame it leaves
  resumes behind the call, with \<open>ecx\<close> and \<open>edx\<close> as the only registers changed.
\<close>

definition called :: "cpu \<Rightarrow> mem \<Rightarrow> u32 \<Rightarrow> u32 \<Rightarrow> bool" where
  "called c m old new \<longleftrightarrow> load32 m (c_esp c + 4) = old \<and> load32 m (c_esp c + 8) = new"

definition returned :: "cpu \<Rightarrow> mem \<Rightarrow> u32 \<Rightarrow> u32 \<Rightarrow> cpu" where
  "returned c m old new = c\<lparr>c_ecx := old, c_edx := new, c_esp := c_esp c + 4, c_eip := load32 m (c_esp c)\<rparr>"

lemma context_switch_spec:
  assumes "called c m old new" and "bytes old 4 \<inter> bytes (c_esp c - 32) 36 = {}"
  obtains m' where "context_switch (c, m) = (resume m' (load32 m' new), m')"
    and "load32 m' old = c_esp c - 32" and "resume m' (c_esp c - 32) = returned c m old new"
    and "\<forall>x. x \<notin> bytes (c_esp c - 32) 32 \<and> x \<notin> bytes old 4 \<longrightarrow> m' x = m x"
proof -
  define rs where "rs = [c_eax c, old, new, c_ebx c, c_esp c, c_ebp c, c_esi c, c_edi c]"
  have le: "4 * length rs \<le> 2 ^ 32" by (simp add: rs_def)
  obtain e m1 where p: "fold push32 rs (c_esp c, m) = (e, m1)" "c_esp c = e + of_nat (4 * length rs)"
    "\<forall>i<length rs. load32 m1 (e + of_nat (4 * i)) = rev rs ! i" "\<forall>x. x \<notin> bytes e (4 * length rs) \<longrightarrow> m1 x = m x"
    by (rule pushes_spec [OF le])
  have e: "c_esp c - 32 = e" using p(2) by (simp add: rs_def)
  define m2 where "m2 = store32 m1 old e"
  have "pusha (c\<lparr>c_ecx := old, c_edx := new\<rparr>, m) = (c\<lparr>c_ecx := old, c_edx := new, c_esp := e\<rparr>, m1)"
    using p(1) unfolding rs_def by (simp del: fold_simps add: pusha_def)
  then have "context_switch (c, m) = (resume m2 (load32 m2 new), m2)"
    using assms(1) by (simp add: context_switch_def called_def Let_def m2_def popa_ret)
  moreover have "load32 m2 old = e" by (simp add: m2_def load32_store32_same)
  moreover have "resume m2 e = returned c m old new"
  proof -
    have "resume m2 e = resume m1 e"
      unfolding m2_def by (rule resume_agree) (use assms(2) e in \<open>auto intro: store32_outside\<close>)
    moreover have "load32 m1 (e + of_nat 32) = load32 m (e + of_nat 32)"
    proof (rule load32_agree)
      fix x assume "x \<in> bytes (e + of_nat 32) 4"
      moreover have "bytes (e + of_nat 32) 4 \<inter> bytes (e + of_nat 0) 32 = {}" by (rule bytes_apart) simp_all
      ultimately show "m1 x = m x" using spec [OF p(4), of x] by (auto simp: rs_def)
    qed
    moreover have "load32 m1 e = c_edi c" "load32 m1 (e + 4) = c_esi c" "load32 m1 (e + 8) = c_ebp c"
      "load32 m1 (e + 16) = c_ebx c" "load32 m1 (e + 20) = new" "load32 m1 (e + 24) = old" "load32 m1 (e + 28) = c_eax c"
      using spec [OF p(3), of 0] spec [OF p(3), of 1] spec [OF p(3), of 2] spec [OF p(3), of 4] spec [OF p(3), of 5] spec [OF p(3), of 6] spec [OF p(3), of 7]
      by (simp_all add: rs_def)
    moreover have "e + 36 = c_esp c + 4" "e + of_nat 32 = c_esp c" using p(2) by (simp_all add: rs_def)
    ultimately show ?thesis unfolding resume_def returned_def by simp
  qed
  moreover have "m2 x = m x" if "x \<notin> bytes e 32" "x \<notin> bytes old 4" for x
    using that spec [OF p(4), of x] by (simp add: m2_def store32_outside rs_def)
  ultimately show thesis using that unfolding e by blast
qed

text \<open>
  C34: switching away from a thread and back loses nothing. When the thread that called
  \<open>context_switch\<close> is switched to again, by whatever processor state and from whatever memory in
  which its stack frame and its \<open>esp\<close> member still hold what the first switch wrote, it continues
  behind its call: every register is as it was at the call, except for \<open>ecx\<close> and \<open>edx\<close>, which a
  called function may change.
\<close>

theorem context_switch_roundtrip:
  assumes "called c m old new" and "bytes old 4 \<inter> bytes (c_esp c - 32) 36 = {}"
    and "context_switch (c, m) = (c1, m1)"
    and "\<forall>x\<in>bytes old 4 \<union> bytes (c_esp c - 32) 36. m2 x = m1 x"
    and "called c2 m2 old2 old" and "bytes old2 4 \<inter> bytes (c_esp c2 - 32) 36 = {}"
    and "(bytes old2 4 \<union> bytes (c_esp c2 - 32) 32) \<inter> (bytes old 4 \<union> bytes (c_esp c - 32) 36) = {}"
  shows "fst (context_switch (c2, m2)) = c\<lparr>c_ecx := old, c_edx := new, c_esp := c_esp c + 4, c_eip := load32 m (c_esp c)\<rparr>"
proof -
  obtain m' where "context_switch (c, m) = (resume m' (load32 m' new), m')"
    "load32 m' old = c_esp c - 32" "resume m' (c_esp c - 32) = returned c m old new"
    "\<forall>x. x \<notin> bytes (c_esp c - 32) 32 \<and> x \<notin> bytes old 4 \<longrightarrow> m' x = m x"
    by (rule context_switch_spec [OF assms(1,2)])
  with assms(3) have 1: "load32 m1 old = c_esp c - 32" "resume m1 (c_esp c - 32) = returned c m old new" by simp_all
  obtain m3 where 3: "context_switch (c2, m2) = (resume m3 (load32 m3 old), m3)" "load32 m3 old2 = c_esp c2 - 32"
    "resume m3 (c_esp c2 - 32) = returned c2 m2 old2 old" "\<forall>x. x \<notin> bytes (c_esp c2 - 32) 32 \<and> x \<notin> bytes old2 4 \<longrightarrow> m3 x = m2 x"
    by (rule context_switch_spec [OF assms(5,6)])
  have same: "m3 x = m1 x" if "x \<in> bytes old 4 \<union> bytes (c_esp c - 32) 36" for x
  proof -
    have "x \<notin> bytes old2 4 \<union> bytes (c_esp c2 - 32) 32" using that assms(7) by (rule disjoint_mem)
    then show ?thesis using spec [OF 3(4), of x] bspec [OF assms(4) that] by simp
  qed
  have "load32 m3 old = c_esp c - 32" unfolding 1(1) [symmetric] by (rule load32_agree) (simp add: same)
  moreover have "resume m3 (c_esp c - 32) = resume m1 (c_esp c - 32)" by (rule resume_agree) (simp add: same)
  ultimately show ?thesis by (simp add: 3(1) 1(2) returned_def)
qed

text \<open>Two threads: the first calls at \<open>0x1000\<close>, the second at \<open>0x2100\<close>; the \<open>esp\<close> members are at
  \<open>0x5000\<close> and \<open>0x5004\<close>.\<close>

definition switch_mem :: mem where
  "switch_mem = store32 (store32 (store32 (store32 (store32 (\<lambda>_. 0) 0x1000 0x77) 0x1004 0x5000) 0x1008 0x5004)
     0x2104 0x5004) 0x2108 0x5000"

definition switch_cpu :: "u32 \<Rightarrow> cpu" where
  "switch_cpu e = \<lparr>c_eax = 1, c_ecx = 2, c_edx = 3, c_ebx = 4, c_esp = e, c_ebp = 6, c_esi = 7, c_edi = 8, c_eip = 9\<rparr>"

lemma bytes_far:
  assumes "i + l \<le> j \<or> j + k \<le> i" "i + l \<le> 2 ^ 32" "j + k \<le> 2 ^ 32"
  shows "bytes (of_nat i) l \<inter> bytes (of_nat j) k = {}"
  using bytes_apart [of j k i l 0] assms by auto

theorem context_switch_roundtrip_witness:
  "called (switch_cpu 0x1000) switch_mem 0x5000 0x5004 \<and>
   (\<exists>m1. snd (context_switch (switch_cpu 0x1000, switch_mem)) = m1 \<and> called (switch_cpu 0x2100) m1 0x5004 0x5000 \<and>
     c_eip (fst (context_switch (switch_cpu 0x2100, m1))) = 0x77 \<and> c_eax (fst (context_switch (switch_cpu 0x2100, m1))) = 1)"
proof -
  have l: "load32 switch_mem 0x1000 = 0x77" "load32 switch_mem 0x1004 = 0x5000" "load32 switch_mem 0x1008 = 0x5004"
    "load32 switch_mem 0x2104 = 0x5004" "load32 switch_mem 0x2108 = 0x5000"
    by (simp_all add: switch_mem_def load32_def store32_def unsigned_minus_1_eq_mask mask_eq_exp_minus_1)
  then have c: "called (switch_cpu 0x1000) switch_mem 0x5000 0x5004" by (simp add: called_def switch_cpu_def)
  have e: "c_esp (switch_cpu x) = x" for x by (simp add: switch_cpu_def)
  have d: "bytes (0x5000 :: u32) 4 \<inter> bytes (c_esp (switch_cpu 0x1000) - 32) 36 = {}"
    "bytes (0x5004 :: u32) 4 \<inter> bytes (c_esp (switch_cpu 0x2100) - 32) 36 = {}"
    using bytes_far [of "0x5000" 4 "0xFE0" 36] bytes_far [of "0x5004" 4 "0x20E0" 36] by (simp_all add: e)
  obtain m1 where m1: "context_switch (switch_cpu 0x1000, switch_mem) = (resume m1 (load32 m1 0x5004), m1)"
    "load32 m1 0x5000 = c_esp (switch_cpu 0x1000) - 32"
    "resume m1 (c_esp (switch_cpu 0x1000) - 32) = returned (switch_cpu 0x1000) switch_mem 0x5000 0x5004"
    "\<forall>x. x \<notin> bytes (c_esp (switch_cpu 0x1000) - 32) 32 \<and> x \<notin> bytes 0x5000 4 \<longrightarrow> m1 x = switch_mem x"
    by (rule context_switch_spec [OF c d(1)])
  have "load32 m1 a = load32 switch_mem a" if "bytes a 4 \<inter> bytes 0xFE0 32 = {}" "bytes a 4 \<inter> bytes 0x5000 4 = {}" for a
    by (rule load32_agree) (use that m1(4) in \<open>auto simp: e disjoint_iff\<close>)
  from this [of "0x2104"] this [of "0x2108"] have c2: "called (switch_cpu 0x2100) m1 0x5004 0x5000"
    using l bytes_far [of "0x2104" 4 "0xFE0" 32] bytes_far [of "0x2104" 4 "0x5000" 4]
      bytes_far [of "0x2108" 4 "0xFE0" 32] bytes_far [of "0x2108" 4 "0x5000" 4]
    by (simp add: called_def e)
  have "(bytes (0x5004 :: u32) 4 \<union> bytes (c_esp (switch_cpu 0x2100) - 32) 32) \<inter>
      (bytes (0x5000 :: u32) 4 \<union> bytes (c_esp (switch_cpu 0x1000) - 32) 36) = {}"
    using bytes_far [of "0x5004" 4 "0x5000" 4] bytes_far [of "0x5004" 4 "0xFE0" 36]
      bytes_far [of "0x20E0" 32 "0x5000" 4] bytes_far [of "0x20E0" 32 "0xFE0" 36]
    by (simp add: e Int_Un_distrib Int_Un_distrib2)
  from context_switch_roundtrip [OF c d(1) m1(1) _ c2 d(2) this] c c2 m1(1) l(1)
  show ?thesis by (simp add: e) (simp add: switch_cpu_def)
qed

end
