(* ===== verification/Heap_Pages.thy ===== *)
theory Heap_Pages
  imports Heap_Props Paging_Loop
begin

text \<open>
  How the heap and its other users share the page allocator: a page the kernel takes from or returns
  to the page allocator directly counts among the blocks in use and does not disturb the heap, and
  an allocation below the page size takes at most one page.
\<close>

section \<open>Pages a request takes\<close>

lemma pages_upd [simp]:
  "pages (set_used c u s) = pages s" "pages (upd_nodes f s) = pages s" "pages (set_bucket k hp s) = pages s"
  "pages (clear_page p s) = pages s"
  by (simp_all add: set_used_def upd_nodes_def set_bucket_def clear_page_def)

lemma pop_free_chunk_pages: "pop_free_chunk k s = Inr (c, s') \<Longrightarrow> pages s' = pages s"
  by (cases "pop_node (hnodes s) (free_bucket s k)") (auto simp: pop_free_chunk_def split: if_splits)

lemma find_chunk_pages: "find_chunk k s = Inr (c, s') \<Longrightarrow> pages s' = pages s"
proof (induction k s rule: find_chunk.induct)
  case (1 i s)
  show ?case
  proof (cases "i < NUM_SIZES \<and> free_bucket s i = None")
    case True
    with 1 show ?thesis by (simp add: find_chunk.simps [of i s])
  next
    case False
    with 1(2) pop_free_chunk_pages [of i s c s'] show ?thesis by (auto simp: find_chunk.simps [of i s] split: if_splits)
  qed
qed

lemma use_chunk_pages: "pages (snd (use_chunk n c s)) = pages s"
  by (simp add: use_chunk_def Let_def)

lemma create_chunk_pages:
  assumes "create_chunk s = Inr (c, s')"
  shows "\<exists>a. pmm_alloc (pages s) 0 = Inr (a, pages s')"
proof -
  obtain a b where ab: "pmm_alloc (pages s) 0 = Inr (a, b)"
    using assms by (cases "pmm_alloc (pages s) 0") (auto simp: create_chunk_def)
  have d: "deref (to_ptr (P2V a)) = Inr (P2V a)"
    using assms by (cases "P2V a = 0") (simp_all add: create_chunk_def ab to_ptr_def)
  have "pages s' = b"
    using assms by (auto simp: create_chunk_def ab d Let_def deref_def bnd_def split: if_splits option.splits sum.splits)
  with ab show ?thesis by blast
qed

lemma kmalloc_small_pages:
  assumes "kmalloc n s = Inr (p, s')" and "unat n < 4096"
  shows "pages s' = pages s \<or> (\<exists>a. pmm_alloc (pages s) 0 = Inr (a, pages s'))"
proof (cases "n = 0")
  case True
  with assms(1) show ?thesis by (simp add: kmalloc_def)
next
  case False
  define a where "a = ALIGN_UP (if n < MIN_SIZE then MIN_SIZE else n) ALIGN"
  note e = kmalloc_small_eq(6) [OF False assms(2) a_def, of s]
  show ?thesis
  proof (cases "NUM_SIZES \<le> get_alloc_order a")
    case True
    with assms(1) show ?thesis by (simp add: e)
  next
    case big: False
    obtain c1 s1 where f: "find_chunk (get_alloc_order a) s = Inr (c1, s1)"
      using assms(1) big by (cases "find_chunk (get_alloc_order a) s") (auto simp: e)
    have p1: "pages s1 = pages s" by (rule find_chunk_pages [OF f])
    show ?thesis
    proof (cases c1)
      case (Some c)
      with assms(1) big f have "s' = snd (use_chunk a c s1)" by (auto simp: e Let_def split: prod.splits)
      with p1 show ?thesis by (simp add: use_chunk_pages)
    next
      case None
      obtain d s2 where g: "create_chunk s1 = Inr (d, s2)"
        using assms(1) big f None by (cases "create_chunk s1") (auto simp: e)
      obtain c3 s3 where k: "find_chunk (get_alloc_order a) s2 = Inr (c3, s3)"
        using assms(1) big f None g by (cases "find_chunk (get_alloc_order a) s2") (auto simp: e)
      obtain c where c: "c3 = Some c" using assms(1) big f None g k by (cases c3) (auto simp: e)
      have "s' = snd (use_chunk a c s3)" using assms(1) big f None g k c by (auto simp: e Let_def split: prod.splits)
      then have "pages s' = pages s2" using find_chunk_pages [OF k] by (simp add: use_chunk_pages)
      with create_chunk_pages [OF g] p1 show ?thesis by simp
    qed
  qed
qed

lemma pmm_alloc_page:
  assumes "buddy_inv b" and "pmm_alloc b 0 = Inr (a, b')"
  obtains x where "a = frame_addr x" and "x < 2 ^ 20" and "x \<in> free_pages b" and "free_pages b' = free_pages b - {x}"
    and "buddy_inv b'" and "page_n b' = page_n b" and "card (free_pages b) = Suc (card (free_pages b'))"
proof -
  have ab: "buddy_alloc_pages b 0 = Inr (a, b')" using assms(2) by (simp add: pmm_alloc_def)
  from pmm.alloc_ok [OF assms(1) ab] obtain x where
    x: "a = frame_addr x" "x < 2 ^ 20" "x \<in> free_pages b" "free_pages b' = free_pages b - {x}" "buddy_inv b'"
    unfolding frame_addr_real by (auto simp: dblock_def)
  moreover have "page_n b' = page_n b" by (rule alloc_managed(3) [OF assms(1) ab])
  moreover have "card (free_pages b) = Suc (card (free_pages b'))"
    unfolding x(4) using card_Suc_Diff1 [OF pmmf.finite_free [OF assms(1)] x(3)] by simp
  ultimately show thesis using that by blast
qed

lemma page_available: "buddy_inv b \<Longrightarrow> free_pages b \<noteq> {} \<Longrightarrow> \<exists>a b'. pmm_alloc b 0 = Inr (a, b')"
  using pmmf.alloc_total [of b] by (fastforce simp: pmm_frame_def bnd_def split: sum.splits)

lemma kmalloc_small_free:
  assumes "heap_inv s" and "kmalloc n s = Inr (p, s')" and "unat n < 4096"
  shows "card (free_pages (pages s)) \<le> Suc (card (free_pages (pages s')))" and "page_n (pages s') = page_n (pages s)"
    and "free_pages (pages s') \<subseteq> free_pages (pages s)"
proof -
  have inv: "buddy_inv (pages s)" using assms(1) heap_wfD(8) by (fastforce simp: heap_inv_def backed_def)
  from kmalloc_small_pages [OF assms(2,3)] show "card (free_pages (pages s)) \<le> Suc (card (free_pages (pages s')))"
    "page_n (pages s') = page_n (pages s)" "free_pages (pages s') \<subseteq> free_pages (pages s)"
    by (metis Diff_subset inv le_SucI order_refl pmm_alloc_page)+
qed

section \<open>Pages taken past the heap\<close>

text \<open>A page the kernel takes from or returns to the page allocator directly counts among the blocks
  in use, and the heap is not disturbed.\<close>

lemma page_not_small:
  assumes "heap_wf {} h lay" "c \<in> lives (hused h) lay" "x < 2 ^ 20"
  shows "fnode c \<noteq> P2V (page_map_real x)"
proof -
  have "c \<in> chunks lay" using assms(2) by (simp add: lives_def)
  with fnode_not_page [OF heap_wfD(1) [OF assms(1)]] assms(3) show ?thesis by blast
qed

lemma page_block_iff:
  assumes "heap_wf {} h lay" "x < 2 ^ 20"
  shows "(P2V (page_map_real x), n) \<in> live_blocks h \<longleftrightarrow> (\<exists>k. n = 4096 * 2 ^ k \<and> (x, k) \<in> large (pages h) lay)"
proof
  have inv: "buddy_inv (pages h)" using heap_wfD(8) [OF assms(1)] by (simp add: backed_def)
  assume "(P2V (page_map_real x), n) \<in> live_blocks h"
  then have "(P2V (page_map_real x), n) \<in> blocks h lay" unfolding live_blocks_eq [OF assms(1)] .
  then obtain y k where y: "(y, k) \<in> large (pages h) lay" "P2V (page_map_real x) = P2V (page_map_real y)" "n = 4096 * 2 ^ k"
    using page_not_small [OF assms(1) _ assms(2)] by (auto simp: blocks_def) blast
  then have "y < 2 ^ 20" using used_block_page [OF inv] by (auto simp: large_def)
  with y page_inject [OF assms(2)] show "\<exists>k. n = 4096 * 2 ^ k \<and> (x, k) \<in> large (pages h) lay" by auto
next
  assume "\<exists>k. n = 4096 * 2 ^ k \<and> (x, k) \<in> large (pages h) lay"
  then show "(P2V (page_map_real x), n) \<in> live_blocks h"
    unfolding live_blocks_eq [OF assms(1)] by (force simp: blocks_def)
qed

lemma heap_pages_inv: "heap_inv h \<Longrightarrow> buddy_inv (pages h)"
  unfolding heap_inv_def using heap_wfD(8) by (fastforce simp: backed_def)

lemma pmm_alloc_blocks:
  assumes "heap_inv h" and "pmm_alloc (pages h) k = Inr (a, b)"
  obtains x where "a = page_map_real x" and "x < 2 ^ 20" and "heap_inv (h\<lparr>pages := b\<rparr>)"
    and "live_blocks (h\<lparr>pages := b\<rparr>) = insert (P2V a, 4096 * 2 ^ k) (live_blocks h)"
    and "\<forall>n. (P2V a, n) \<notin> live_blocks h"
proof -
  from assms(1) obtain lay where wf: "heap_wf {} h lay" and busy: "busy (hused h) lay" by (auto simp: heap_inv_def)
  from large_alloc [OF heap_wfD(8) [OF wf] assms(2)] obtain x where
    x: "a = page_map_real x" "x < 2 ^ 20" "backed b lay" "large b lay = insert (x, k) (large (pages h) lay)"
      "(x, k) \<notin> large (pages h) lay" .
  have wf': "heap_wf {} (h\<lparr>pages := b\<rparr>) lay" by (rule heap_wf_pages [OF wf x(3)])
  have inv: "heap_inv (h\<lparr>pages := b\<rparr>)" using wf' busy unfolding heap_inv_def by auto
  have live: "live_blocks (h\<lparr>pages := b\<rparr>) = insert (P2V a, 4096 * 2 ^ k) (live_blocks h)"
    unfolding live_blocks_eq [OF wf] live_blocks_eq [OF wf'] by (simp add: blocks_def x(1,4))
  have "(x, l) \<notin> large (pages h) lay" for l
  proof
    assume l: "(x, l) \<in> large (pages h) lay"
    then have "used_block b x l" "used_block b x k" using x(4) by (auto simp: large_def)
    then have "l = k" by (auto simp: used_block_def)
    with l x(5) show False by simp
  qed
  then have "\<forall>n. (P2V a, n) \<notin> live_blocks h" unfolding x(1) page_block_iff [OF wf x(2)] by simp
  with that x(1,2) inv live show thesis by blast
qed

lemma pmm_free_blocks:
  assumes "heap_inv h" and "(P2V (page_map_real x), n) \<in> live_blocks h" and "x < 2 ^ 20"
  obtains b where "pmm_free (pages h) (page_map_real x) = Inr b" and "heap_inv (h\<lparr>pages := b\<rparr>)"
    and "live_blocks (h\<lparr>pages := b\<rparr>) = live_blocks h - {(P2V (page_map_real x), n)}"
proof -
  from assms(1) obtain lay where wf: "heap_wf {} h lay" and busy: "busy (hused h) lay" by (auto simp: heap_inv_def)
  from assms(2) page_block_iff [OF wf assms(3)] obtain k where
    k: "n = 4096 * 2 ^ k" "(x, k) \<in> large (pages h) lay" by blast
  from kfree_large [OF wf busy k(2)] obtain h' where
    h': "kfree (P2V (page_map_real x)) h = Inr h'" "heap_wf {} h' lay" "busy (hused h') lay" "hused h' = hused h"
      "large (pages h') lay = large (pages h) lay - {(x, k)}" "mem_used h' = mem_used h - of_nat (4096 * 2 ^ k)" .
  have al: "IS_ALIGNED (P2V (page_map_real x)) BASE_SIZE"
    using IS_ALIGNED_dvd [of _ 12] P2V_page_base [OF assms(3)] by (simp add: page_base_def BASE_SIZE_def)
  then obtain b where b: "pmm_free (pages h) (page_map_real x) = Inr b" "pages h' = b"
    using h'(1) by (cases "pmm_free (pages h) (page_map_real x)") (auto simp: kfree_def Let_def)
  have "backed b lay" using heap_wfD(8) [OF h'(2)] b(2) by simp
  then have wf': "heap_wf {} (h\<lparr>pages := b\<rparr>) lay" by (rule heap_wf_pages [OF wf])
  have live: "live_blocks (h\<lparr>pages := b\<rparr>) = live_blocks h'"
    unfolding live_blocks_eq [OF wf'] live_blocks_eq [OF h'(2)] by (simp add: blocks_def h'(4) b(2))
  also have "\<dots> = live_blocks h - {(P2V (page_map_real x), n)}" using kfree_spec [OF assms(1,2)] h'(1) by auto
  finally show thesis using that b(1) wf' busy unfolding heap_inv_def by auto
qed

section \<open>A larger memory\<close>

text \<open>One free block of 1024 pages, and the heap set up on it.\<close>

definition many_pages :: buddy where
  "many_pages = \<lparr>page_map = (\<lambda>i. if i = 0 then \<lparr>p_order = 10, p_flags = P_FREE\<rparr>
       else if i < 1024 then \<lparr>p_order = 0, p_flags = P_TAIL\<rparr> else \<lparr>p_order = 0, p_flags = P_KERNEL\<rparr>),
     page_nodes = (\<lambda>_. \<lparr>nxt = None, prv = None\<rparr>), page_n = 1024,
     free_area = (\<lambda>k. if k = 10 then Some 0 else None), free_pages_count = 1024, used_pages_count = 0\<rparr>"

definition heap_many :: heap where
  "heap_many = (case init_kmalloc (heap_bss many_pages) of Inl _ \<Rightarrow> heap_bss many_pages | Inr s \<Rightarrow> s)"

lemma many_pages_blocks:
  "free_block many_pages i k \<longleftrightarrow> i = 0 \<and> k = 10" "\<not> used_block many_pages i k"
  by (auto simp: many_pages_def block_defs)

lemma many_pages_sets: "free_pages many_pages = {0..<1024}" "used_pages many_pages = {}"
  by (auto simp: free_pages_def used_pages_def many_pages_blocks)

lemma many_pages_inv: "buddy_inv many_pages"
proof -
  have "blocks_ok many_pages"
    by (simp add: blocks_ok_def many_pages_blocks block_ok_def) (simp add: many_pages_def MAX_BUDDY_ORDER_def)
  moreover have "lists_ok many_pages"
    unfolding lists_ok_def
    by (intro exI [of _ "\<lambda>k. if k = 10 then [0] else []"])
       (auto simp: many_pages_blocks bucket_lists_def, auto simp: many_pages_def dll_def)
  moreover have "coalesced many_pages"
    by (simp add: coalesced_def many_pages_blocks buddy_of_def) (simp add: looks_free_def many_pages_def)
  moreover have "slack_ok many_pages"
    by (simp add: slack_ok_def looks_free_def many_pages_def)
  ultimately show ?thesis
    by (simp add: buddy_inv_def buddy_wf_def counts_ok_def many_pages_sets) (simp add: many_pages_def)
qed

lemma heap_many_inv:
  "heap_inv heap_many" "live_blocks heap_many = {}" "page_n (pages heap_many) = 1024"
  "card (free_pages (pages heap_many)) = 1023" "free_pages (pages heap_many) \<subseteq> {0..<1024}"
proof -
  have ne: "free_pages many_pages \<noteq> {}" by (simp add: many_pages_sets)
  from page_available [OF many_pages_inv this] obtain a b where ab: "pmm_alloc many_pages 0 = Inr (a, b)" by blast
  from pmm_alloc_page [OF many_pages_inv ab] obtain x where
    x: "a = frame_addr x" "x < 2 ^ 20" "x \<in> free_pages many_pages" "free_pages b = free_pages many_pages - {x}" "buddy_inv b"
      "page_n b = page_n many_pages" "card (free_pages many_pages) = Suc (card (free_pages b))" .
  have "P2V a \<noteq> 0"
  proof
    assume "P2V a = 0"
    then have "a = V2P 0" by (metis V2P_P2V)
    moreover have "unat a = 4096 * x" unfolding x(1) by (rule unat_frame_addr [OF x(2)])
    ultimately show False using x(3) by (simp add: many_pages_sets V2P_def KERNEL_VIRTUAL_BASE_def)
  qed
  from init_kmalloc_spec [OF many_pages_inv ab this] obtain h where
    h: "init_kmalloc (heap_bss many_pages) = Inr h" "heap_inv h"
      "live_blocks h = {(P2V (page_map_real x), 4096 * 2 ^ k) | x k. used_block many_pages x k}" "pages h = b" by blast
  then have "heap_many = h" by (simp add: heap_many_def)
  with h x(4,6,7) show "heap_inv heap_many" "live_blocks heap_many = {}" "page_n (pages heap_many) = 1024"
    "card (free_pages (pages heap_many)) = 1023" "free_pages (pages heap_many) \<subseteq> {0..<1024}"
    by (auto simp: many_pages_sets many_pages_blocks) (simp_all add: many_pages_def)
qed

end
