(* ===== verification/Thread.thy ===== *)
theory Thread
  imports Switch Sched_Run Heap_Pages Isr
begin

text \<open>
  Threads (\<open>sched/thread.c\<close>), the reaper's loop (\<open>kernel/reaper.c\<close>) and the set-up of the scheduler,
  the reaper and the system calls (\<open>sched/sched.c\<close>, \<open>kernel/reaper.c\<close>, \<open>process/syscall.c\<close>).

  \<open>sys\<close> joins what these routines share: byte memory (the stacks), the heap with the page allocator
  below it, the scheduler, the counter of thread identifiers and the interrupt flag. Functions are
  known by their addresses: \<open>stub\<close> is that of \<open>kthread_stub\<close>, \<open>kpd\<close> that of the kernel's page directory.
\<close>

section \<open>State\<close>

record sys =
  kmem :: mem
  heap_st :: heap
  sched_st :: sched
  thread_id :: u32
  intr_flag :: bool

definition sizeof_Thread :: u32 where "sizeof_Thread = 36"

definition sti :: "sys \<Rightarrow> sys" where
  "sti s = s\<lparr>intr_flag := True\<rparr>"

definition sys_pmm_alloc :: "nat \<Rightarrow> sys \<Rightarrow> (u32 \<times> sys) res" where
  "sys_pmm_alloc k s = bnd (pmm_alloc (pages (heap_st s)) k) (\<lambda>(a, b). Inr (a, s\<lparr>heap_st := (heap_st s)\<lparr>pages := b\<rparr>\<rparr>))"

definition sys_kmalloc :: "u32 \<Rightarrow> sys \<Rightarrow> (u32 option \<times> sys) res" where
  "sys_kmalloc n s = bnd (kmalloc n (heap_st s)) (\<lambda>(p, h). Inr (p, s\<lparr>heap_st := h\<rparr>))"

text \<open>The assignments to the members of a new \<open>Thread\<close> and its first queueing, which
  \<open>thread_create\<close> and \<open>create_process\<close> both end with.\<close>

definition start_thread :: "u32 \<Rightarrow> u32 \<Rightarrow> u32 \<Rightarrow> u32 \<Rightarrow> sys \<Rightarrow> sys" where
  "start_thread thread esp stack pd s =
     (let sc = sched_st s;
          t = (threads sc thread)\<lparr>t_esp := esp, t_stack := stack, t_id := thread_id s, t_pd := pd\<rparr>;
          sc = sc\<lparr>threads := (threads sc)(thread := t)\<rparr>
      in s\<lparr>thread_id := thread_id s + 1, sched_st := thread_ready thread sc\<rparr>)"

section \<open>Creation and destruction\<close>

definition thread_create :: "u32 \<Rightarrow> u32 \<Rightarrow> u32 \<Rightarrow> u32 \<Rightarrow> sys \<Rightarrow> (u32 \<times> sys) res" where
  "thread_create stub kpd entry arg s =
     bnd (sys_pmm_alloc 0 s) (\<lambda>(stack, s).
     bnd (sys_kmalloc sizeof_Thread s) (\<lambda>(thread, s).
     let (esp, m) = fold push32 [ptr_val thread, arg, entry, 0x0, stub, 0, 0, 0, 0, 0, 0, 0, 0] (P2V stack + 0x1000, kmem s);
         s = s\<lparr>kmem := m\<rparr>
     in bnd (deref thread) (\<lambda>thread. Inr (thread, start_thread thread esp stack kpd s))))"

definition destroy_thread :: "u32 \<Rightarrow> sys \<Rightarrow> sys res" where
  "destroy_thread thread s =
     bnd (pmm_free (pages (heap_st s)) (t_stack (threads (sched_st s) thread))) (\<lambda>b.
     bnd (kfree thread ((heap_st s)\<lparr>pages := b\<rparr>)) (\<lambda>h. Inr (s\<lparr>heap_st := h\<rparr>)))"

text \<open>The body of every kernel thread. \<open>call\<close> runs the function at an address with its argument; \<open>esp\<close>
  is what \<open>scheduler\<close> saves when it switches away for the last time.\<close>

definition kthread_stub :: "(u32 \<Rightarrow> u32 \<Rightarrow> sys \<Rightarrow> sys res) \<Rightarrow> u32 \<Rightarrow> u32 \<Rightarrow> u32 \<Rightarrow> u32 \<Rightarrow> sys \<Rightarrow> sys res" where
  "kthread_stub call esp entry arg thread s =
     bnd (call entry arg (sti s)) (\<lambda>s.
     bnd (scheduler esp (reaper_add thread (sched_st s))) (\<lambda>sc. Inr (s\<lparr>sched_st := sc\<rparr>)))"

text \<open>One turn of the loop of \<open>reaper_main\<close>, when nothing is added to the queue between its test
  and the removal.\<close>

definition reaper_main :: "u32 \<Rightarrow> sys \<Rightarrow> sys res" where
  "reaper_main esp s =
     bnd (reaper_iter (sched_st s)) (\<lambda>(z, sc).
       case z of
         Some zombie \<Rightarrow> destroy_thread zombie (s\<lparr>sched_st := sc\<rparr>)
       | None \<Rightarrow> bnd (scheduler esp sc) (\<lambda>sc. Inr (s\<lparr>sched_st := sc\<rparr>)))"

section \<open>Set-up\<close>

definition init_sched :: "u32 \<Rightarrow> u32 \<Rightarrow> u32 \<Rightarrow> 'a pit_scheme \<Rightarrow> sys \<Rightarrow> (u32 \<times> 'a pit_scheme \<times> sys) res" where
  "init_sched irq_entry timer_entry kpd k s =
     bnd (init_pit irq_entry 100 timer_entry k) (\<lambda>(rate, k).
     let s = s\<lparr>sched_st := (sched_st s)\<lparr>tick_rate := rate, que := empty_dllist, sleep_que := empty_dllist\<rparr>\<rparr>
     in bnd (sys_kmalloc sizeof_Thread s) (\<lambda>(p, s).
        let sc = (sched_st s)\<lparr>cur_thread := ptr_val p, idle_thread := ptr_val p\<rparr>
        in bnd (deref p) (\<lambda>t.
           Inr (t, k, s\<lparr>sched_st := sc\<lparr>threads := (threads sc)(t := (threads sc t)\<lparr>t_id := 0, t_pd := kpd\<rparr>)\<rparr>\<rparr>))))"

definition init_reaper :: "u32 \<Rightarrow> u32 \<Rightarrow> u32 \<Rightarrow> sys \<Rightarrow> sys res" where
  "init_reaper stub kpd reaper_entry s =
     (let s = s\<lparr>sched_st := (sched_st s)\<lparr>zombie_que := empty_dllist\<rparr>\<rparr>
      in bnd (thread_create stub kpd reaper_entry 0 s) (\<lambda>(t, s).
         Inr (s\<lparr>sched_st := (sched_st s)\<lparr>reaper := t\<rparr>\<rparr>)))"

definition init_syscall :: "u32 \<Rightarrow> 'a kern_scheme \<Rightarrow> 'a kern_scheme" where
  "init_syscall handler_entry k = register_interrupt_handler 0x80 handler_entry k"

end
