(* ===== verification/Thread_Props.thy ===== *)
theory Thread_Props
  imports Thread
begin

text \<open>
  What creating and reaping a kernel thread does to the memory, the heap and the scheduler.
  \<open>owned T K s\<close> says which memory belongs to threads: every thread of \<open>T\<close> and the idle thread is a heap
  block, and every thread of \<open>K\<close> has a page of its own as its stack.
\<close>

section \<open>Ownership\<close>

definition owned :: "u32 set \<Rightarrow> u32 set \<Rightarrow> sys \<Rightarrow> bool" where
  "owned T K s \<longleftrightarrow> K \<subseteq> T \<and>
     (\<forall>t\<in>insert (idle_thread (sched_st s)) T. \<exists>n\<ge>36. (t, n) \<in> live_blocks (heap_st s)) \<and>
     (\<forall>t\<in>insert (idle_thread (sched_st s)) T. \<forall>x<2 ^ 20. t \<noteq> P2V (page_map_real x)) \<and>
     (\<forall>t\<in>K. \<exists>x<2 ^ 20. t_stack (threads (sched_st s) t) = page_map_real x \<and>
        (P2V (page_map_real x), 4096) \<in> live_blocks (heap_st s)) \<and>
     inj_on (\<lambda>t. t_stack (threads (sched_st s) t)) K"

lemma ownedI:
  assumes "K \<subseteq> T" and "\<And>t. t \<in> T \<or> t = idle_thread (sched_st s) \<Longrightarrow> \<exists>n\<ge>36. (t, n) \<in> live_blocks (heap_st s)"
    and "\<And>t x. t \<in> T \<or> t = idle_thread (sched_st s) \<Longrightarrow> x < 2 ^ 20 \<Longrightarrow> t \<noteq> P2V (page_map_real x)"
    and "\<And>t. t \<in> K \<Longrightarrow> \<exists>x<2 ^ 20. t_stack (threads (sched_st s) t) = page_map_real x \<and>
        (P2V (page_map_real x), 4096) \<in> live_blocks (heap_st s)"
    and "inj_on (\<lambda>t. t_stack (threads (sched_st s) t)) K"
  shows "owned T K s"
  using assms unfolding owned_def by blast

lemma ownedD:
  assumes "owned T K s"
  shows "K \<subseteq> T" and "t \<in> T \<or> t = idle_thread (sched_st s) \<Longrightarrow> \<exists>n\<ge>36. (t, n) \<in> live_blocks (heap_st s)"
    and "t \<in> T \<or> t = idle_thread (sched_st s) \<Longrightarrow> x < 2 ^ 20 \<Longrightarrow> t \<noteq> P2V (page_map_real x)"
    and "t \<in> K \<Longrightarrow> \<exists>x<2 ^ 20. t_stack (threads (sched_st s) t) = page_map_real x \<and>
        (P2V (page_map_real x), 4096) \<in> live_blocks (heap_st s)"
    and "inj_on (\<lambda>t. t_stack (threads (sched_st s) t)) K"
  using assms unfolding owned_def by blast+

lemma owned_cong:
  assumes "heap_st s' = heap_st s" and "idle_thread (sched_st s') = idle_thread (sched_st s)"
    and "\<And>t. t_stack (threads (sched_st s') t) = t_stack (threads (sched_st s) t)"
  shows "owned T K s' = owned T K s"
  by (simp add: owned_def assms)

section \<open>Blocks of new threads\<close>

lemma kmalloc_small_not_page:
  assumes "heap_inv h" and "kmalloc n h = Inr (Some a, h')" and "n \<noteq> 0" and "unat n \<le> 2048" and "x < 2 ^ 20"
  shows "a \<noteq> P2V (page_map_real x)"
proof -
  from assms(1) obtain lay where wf: "heap_wf {} h lay" and busy: "busy (hused h) lay" by (auto simp: heap_inv_def)
  show ?thesis
  proof (cases rule: kmalloc_small_cases [OF wf busy assms(3,4)])
    case (1 c t lay')
    then have "heap_wf {} t lay'" by (simp add: served_def)
    from fnode_not_page [OF heap_wfD(1) [OF this] 1(2) assms(5)] 1(1) assms(2) show ?thesis by simp
  qed (use assms(2) in simp_all)
qed

lemma bytes_self: "0 < m \<Longrightarrow> a \<in> bytes a m"
  unfolding bytes_def by (intro CollectI exI [of _ 0]) simp

lemma fresh_address:
  assumes "heap_inv h" and "kmalloc n h = Inr (Some a, h')" and "n \<noteq> 0" and "(b, k) \<in> live_blocks h" and "0 < k"
  shows "a \<noteq> b"
proof
  assume eq: "a = b"
  from kheap.alloc_ok [OF assms(1,2)] obtain m where
    m: "heap_inv h'" "unat n \<le> m" "(a, m) \<notin> live_blocks h" "live_blocks h' = insert (a, m) (live_blocks h)" by blast
  have "unat n \<noteq> 0" using assms(3) by (simp add: unat_eq_zero)
  then have "a \<in> bytes a m" using m(2) by (intro bytes_self) linarith
  moreover have "a \<in> bytes b k" unfolding eq by (rule bytes_self [OF assms(5)])
  moreover have "bytes a m \<inter> bytes b k = {}"
    using kheap.live_disjoint [OF m(1), of "(a, m)" "(b, k)"] m(3,4) assms(4) by fastforce
  ultimately show False by blast
qed

text \<open>What a new thread gets: a page for its stack and a block for its \<open>Thread\<close>.\<close>

lemma thread_memory:
  assumes "heap_inv h" and "2 \<le> card (free_pages (pages h))" and "page_n (pages h) \<le> 0x40000"
  obtains x b t n h' where "pmm_alloc (pages h) 0 = Inr (page_map_real x, b)" and "x < 2 ^ 20"
    and "kmalloc sizeof_Thread (h\<lparr>pages := b\<rparr>) = Inr (Some t, h')" and "heap_inv h'" and "36 \<le> n"
    and "live_blocks h' = insert (t, n) (insert (P2V (page_map_real x), 4096) (live_blocks h))"
    and "\<forall>k. (P2V (page_map_real x), k) \<notin> live_blocks h" and "\<forall>k>0. (t, k) \<notin> live_blocks h"
    and "\<forall>y<2 ^ 20. t \<noteq> P2V (page_map_real y)" and "page_n (pages h') = page_n (pages h)"
    and "card (free_pages (pages h)) \<le> card (free_pages (pages h')) + 2"
proof -
  have inv: "buddy_inv (pages h)" by (rule heap_pages_inv [OF assms(1)])
  have "free_pages (pages h) \<noteq> {}" using assms(2) by auto
  from page_available [OF inv this] obtain a b where ab: "pmm_alloc (pages h) 0 = Inr (a, b)" by blast
  from pmm_alloc_blocks [OF assms(1) ab] obtain x where
    x: "a = page_map_real x" "x < 2 ^ 20" "heap_inv (h\<lparr>pages := b\<rparr>)"
      "live_blocks (h\<lparr>pages := b\<rparr>) = insert (P2V a, 4096 * 2 ^ 0) (live_blocks h)" "\<forall>n. (P2V a, n) \<notin> live_blocks h" .
  have c: "card (free_pages (pages h)) = Suc (card (free_pages b))" "page_n b = page_n (pages h)"
    by (rule pmm_alloc_page [OF inv ab]; simp)+
  then have "free_pages b \<noteq> {}" "page_n b = page_n (pages h)" using assms(2) by auto
  then obtain t h' where t: "kmalloc sizeof_Thread (h\<lparr>pages := b\<rparr>) = Inr (Some t, h')"
    using kmalloc_small_returns [OF x(3), of sizeof_Thread] assms(3) by (auto simp: sizeof_Thread_def)
  from kmalloc_spec [OF x(3) t] obtain n where n: "heap_inv h'" "36 \<le> n"
    "live_blocks h' = insert (t, n) (live_blocks (h\<lparr>pages := b\<rparr>))" by (auto simp: sizeof_Thread_def)
  have "\<forall>k>0. (t, k) \<notin> live_blocks h"
    using fresh_address [OF x(3) t, of t] x(4) by (auto simp: sizeof_Thread_def)
  moreover have "\<forall>y<2 ^ 20. t \<noteq> P2V (page_map_real y)"
    using kmalloc_small_not_page [OF x(3) t] by (simp add: sizeof_Thread_def)
  moreover have "page_n (pages h') = page_n b" "card (free_pages b) \<le> Suc (card (free_pages (pages h')))"
    using kmalloc_small_free [OF x(3) t] by (simp_all add: sizeof_Thread_def)
  ultimately show thesis using that [of x b t h' n] ab x t n c by simp
qed

section \<open>Starting\<close>

text \<open>The frame \<open>thread_create\<close> forges: resuming it enters \<open>stub\<close> with the three arguments of a call
  and a null return address.\<close>

definition enters :: "u32 \<Rightarrow> u32 list \<Rightarrow> mem \<Rightarrow> u32 \<Rightarrow> bool" where
  "enters f args m e \<longleftrightarrow> c_eip (resume m e) = f \<and> load32 m (c_esp (resume m e)) = 0 \<and>
     (\<forall>i<length args. load32 m (c_esp (resume m e) + of_nat (4 * Suc i)) = args ! i)"

lemma forged_frame:
  obtains e m' where "fold push32 [thread, arg, entry, 0, stub, 0, 0, 0, 0, 0, 0, 0, 0] (base + 0x1000, m) = (e, m')"
    and "enters stub [entry, arg, thread] m' e" and "\<forall>x. x \<notin> bytes base 4096 \<longrightarrow> m' x = m x"
proof -
  define vs where "vs = [thread, arg, entry, 0, stub, 0, 0, 0, 0, 0, 0, 0, 0]"
  have le: "4 * length vs \<le> 2 ^ 32" by (simp add: vs_def)
  obtain e m' where p: "fold push32 vs (base + 0x1000, m) = (e, m')" "base + 0x1000 = e + of_nat (4 * length vs)"
    "\<forall>i<length vs. load32 m' (e + of_nat (4 * i)) = rev vs ! i" "\<forall>x. x \<notin> bytes e (4 * length vs) \<longrightarrow> m' x = m x"
    by (rule pushes_spec [OF le])
  have "load32 m' (e + 32) = stub" "load32 m' (e + 36) = 0" "load32 m' (e + 40) = entry" "load32 m' (e + 44) = arg"
    "load32 m' (e + 48) = thread"
    using spec [OF p(3), of 8] spec [OF p(3), of 9] spec [OF p(3), of 10] spec [OF p(3), of 11] spec [OF p(3), of 12]
    by (simp_all add: vs_def)
  then have "enters stub [entry, arg, thread] m' e"
    by (auto simp: enters_def resume_def less_Suc_eq ac_simps)
  moreover have "m' x = m x" if "x \<notin> bytes base 4096" for x
  proof -
    have "e = base + of_nat 4044" using p(2) by (simp add: vs_def algebra_simps)
    then have "bytes e (4 * length vs) \<subseteq> bytes base 4096" using bytes_sub [of 4044 52 4096 base] by (simp add: vs_def)
    with that p(4) show ?thesis by blast
  qed
  ultimately show thesis using that p(1) unfolding vs_def by blast
qed

lemma start_thread_simps [simp]:
  "kmem (start_thread t e st pd s) = kmem s" "heap_st (start_thread t e st pd s) = heap_st s"
  "thread_id (start_thread t e st pd s) = thread_id s + 1"
  "intr_flag (start_thread t e st pd s) = intr_flag s"
  "idle_thread (sched_st (start_thread t e st pd s)) = idle_thread (sched_st s)"
  "threads (sched_st (start_thread t e st pd s)) = (threads (sched_st s))(t := (threads (sched_st s) t)
     \<lparr>t_esp := e, t_stack := st, t_id := thread_id s, t_pd := pd, t_status := RUNNABLE\<rparr>)"
  by (simp_all add: start_thread_def Let_def)

lemma sched_inv_cong:
  assumes "sched_inv T s" and "queues_ok T s Q S Z" and "t \<notin> T" and "t \<noteq> idle_thread s"
    and "s' = s\<lparr>threads := (threads s)(t := u)\<rparr>"
  shows "sched_inv T s'" and "queues_ok T s' Q S Z"
proof -
  note i = sched_invD [OF assms(1)]
  show q: "queues_ok T s' Q S Z" by (rule queues_ok_cong [OF assms(2)]) (use assms(3,5) in auto)
  have st: "x \<in> T \<or> x = idle_thread s \<Longrightarrow> status s' x = status s x" for x using assms(3-5) by auto
  show "sched_inv T s'"
    by (rule sched_invI [OF _ _ _ _ _ _ _ q]) (use i st in \<open>auto simp: assms(5)\<close>)
qed

lemma start_thread_sched:
  assumes "sched_inv T (sched_st s)" and "queues_ok T (sched_st s) Q S Z" and "t \<notin> T" and "t \<noteq> idle_thread (sched_st s)"
  shows "sched_inv (insert t T) (sched_st (start_thread t e st pd s))"
    and "queues_ok (insert t T) (sched_st (start_thread t e st pd s)) (Q @ [t]) S Z"
proof -
  define u where "u = (threads (sched_st s) t)\<lparr>t_esp := e, t_stack := st, t_id := thread_id s, t_pd := pd\<rparr>"
  define v where "v = (sched_st s)\<lparr>threads := (threads (sched_st s))(t := u)\<rparr>"
  have eq: "sched_st (start_thread t e st pd s) = thread_ready t v" by (simp add: start_thread_def Let_def u_def v_def)
  note k = sched_inv_cong [OF assms v_def]
  have "idle_thread v = idle_thread (sched_st s)" by (simp add: v_def)
  then have ne: "t \<noteq> idle_thread v" using assms(4) by simp
  show "sched_inv (insert t T) (sched_st (start_thread t e st pd s))"
    "queues_ok (insert t T) (sched_st (start_thread t e st pd s)) (Q @ [t]) S Z"
    unfolding eq by (rule spawn_spec [OF k assms(3) ne])+
qed

text \<open>Everything \<open>thread_create\<close> does, before the roles of the threads come in.\<close>

lemma thread_create_spec:
  assumes "heap_inv (heap_st s)" and "owned T K s"
    and "2 \<le> card (free_pages (pages (heap_st s)))" and "page_n (pages (heap_st s)) \<le> 0x40000"
  obtains t n x e u s' where "thread_create stub kpd entry arg s = Inr (t, s')" and "t \<notin> T"
    and "t \<noteq> idle_thread (sched_st s)" and "s' = start_thread t e (page_map_real x) kpd u" and "sched_st u = sched_st s"
    and "thread_id u = thread_id s" and "heap_inv (heap_st s')" and "36 \<le> n"
    and "live_blocks (heap_st s') = insert (t, n) (insert (P2V (page_map_real x), 4096) (live_blocks (heap_st s)))"
    and "\<forall>k. (P2V (page_map_real x), k) \<notin> live_blocks (heap_st s)" and "\<forall>k>0. (t, k) \<notin> live_blocks (heap_st s)"
    and "\<forall>y. y \<notin> bytes (P2V (page_map_real x)) 4096 \<longrightarrow> kmem s' y = kmem s y"
    and "owned (insert t T) (insert t K) s'" and "enters stub [entry, arg, t] (kmem s') e"
    and "page_n (pages (heap_st s')) = page_n (pages (heap_st s))"
    and "card (free_pages (pages (heap_st s))) \<le> card (free_pages (pages (heap_st s'))) + 2"
proof -
  obtain x b t n h' where h: "pmm_alloc (pages (heap_st s)) 0 = Inr (page_map_real x, b)" "x < 2 ^ 20"
    "kmalloc sizeof_Thread ((heap_st s)\<lparr>pages := b\<rparr>) = Inr (Some t, h')" "heap_inv h'" "36 \<le> n"
    "live_blocks h' = insert (t, n) (insert (P2V (page_map_real x), 4096) (live_blocks (heap_st s)))"
    "\<forall>k. (P2V (page_map_real x), k) \<notin> live_blocks (heap_st s)" "\<forall>k>0. (t, k) \<notin> live_blocks (heap_st s)"
    "\<forall>y<2 ^ 20. t \<noteq> P2V (page_map_real y)" "page_n (pages h') = page_n (pages (heap_st s))"
    "card (free_pages (pages (heap_st s))) \<le> card (free_pages (pages h')) + 2"
    by (rule thread_memory [OF assms(1,3,4)])
  obtain e m' where f: "fold push32 [t, arg, entry, 0, stub, 0, 0, 0, 0, 0, 0, 0, 0]
      (P2V (page_map_real x) + 0x1000, kmem s) = (e, m')"
    "enters stub [entry, arg, t] m' e" "\<forall>y. y \<notin> bytes (P2V (page_map_real x)) 4096 \<longrightarrow> m' y = kmem s y"
    by (rule forged_frame)
  define u where "u = s\<lparr>heap_st := h', kmem := m'\<rparr>"
  define s' where "s' = start_thread t e (page_map_real x) kpd u"
  note o = ownedD [OF assms(2)]
  have new: "t \<notin> T" "t \<noteq> idle_thread (sched_st s)" using o(2) [of t] h(8) by fastforce+
  have r: "thread_create stub kpd entry arg s = Inr (t, s')"
    using f(1) unfolding thread_create_def sys_pmm_alloc_def sys_kmalloc_def h(1) s'_def u_def
    by (simp del: fold_simps add: h(3) ptr_val_def)
  have mem: "kmem s' = m'" "heap_st s' = h'" "idle_thread (sched_st s') = idle_thread (sched_st s)"
    "threads (sched_st s') = (threads (sched_st s))(t := (threads (sched_st s) t)
       \<lparr>t_esp := e, t_stack := page_map_real x, t_id := thread_id s, t_pd := kpd, t_status := RUNNABLE\<rparr>)"
    by (simp_all add: s'_def u_def)
  have "owned (insert t T) (insert t K) s'"
  proof (rule ownedI)
    show "insert t K \<subseteq> insert t T" using o(1) by blast
    show "\<exists>n\<ge>36. (a, n) \<in> live_blocks (heap_st s')" if "a \<in> insert t T \<or> a = idle_thread (sched_st s')" for a
      using that o(2) [of a] h(5,6) mem(2,3) by auto
    show "a \<noteq> P2V (page_map_real y)" if "a \<in> insert t T \<or> a = idle_thread (sched_st s')" "y < 2 ^ 20" for a y
      using that o(3) [of a y] h(9) mem(3) by auto
    show "\<exists>y<2 ^ 20. t_stack (threads (sched_st s') a) = page_map_real y \<and>
        (P2V (page_map_real y), 4096) \<in> live_blocks (heap_st s')" if "a \<in> insert t K" for a
      using that o(4) [of a] h(2,6) mem(2,4) by (cases "a = t") auto
    have "t_stack (threads (sched_st s) a) \<noteq> page_map_real x \<and> page_map_real x \<noteq> t_stack (threads (sched_st s) a)"
      if "a \<in> K" for a using o(4) [OF that] h(7) by metis
    moreover have "t \<notin> K" using o(1) new(1) by blast
    ultimately show "inj_on (\<lambda>a. t_stack (threads (sched_st s') a)) (insert t K)"
      using o(5) unfolding mem(4) inj_on_def by auto
  qed
  moreover have "sched_st u = sched_st s" "thread_id u = thread_id s" by (simp_all add: u_def)
  ultimately show thesis
    by (intro that [OF r new s'_def]) (use h f(2,3) mem in simp_all)
qed

section \<open>Booting\<close>

text \<open>The idle thread's own status is set by \<open>kmain\<close>.\<close>

definition set_idle :: "u32 \<Rightarrow> sys \<Rightarrow> sys" where
  "set_idle t s = s\<lparr>sched_st := set_status t IDLE (sched_st s)\<rparr>"

lemma init_sched_spec:
  assumes "heap_inv (heap_st s)" and "free_pages (pages (heap_st s)) \<noteq> {}" and "page_n (pages (heap_st s)) \<le> 0x40000"
  obtains i n k' s' where "init_sched irq tmr kpd k s = Inr (i, k', s')" and "init_pit irq 100 tmr k = Inr (11931, k')"
    and "heap_inv (heap_st s')" and "36 \<le> n" and "live_blocks (heap_st s') = insert (i, n) (live_blocks (heap_st s))"
    and "owned {} {} s'" and "cur_thread (sched_st s') = i" and "idle_thread (sched_st s') = i"
    and "que (sched_st s') = empty_dllist" and "sleep_que (sched_st s') = empty_dllist"
    and "tick_rate (sched_st s') = 11931" and "t_pd (threads (sched_st s') i) = kpd" and "kmem s' = kmem s"
    and "page_n (pages (heap_st s')) = page_n (pages (heap_st s))"
    and "card (free_pages (pages (heap_st s))) \<le> card (free_pages (pages (heap_st s'))) + 1"
proof -
  obtain k' where k: "init_pit irq 100 tmr k = Inr (11931, k')" by (simp add: init_pit_def PIT_CRYSTAL32_def)
  from kmalloc_small_returns [OF assms(1) _ _ assms(2,3), of sizeof_Thread] obtain i h' where
    h: "kmalloc sizeof_Thread (heap_st s) = Inr (Some i, h')" by (auto simp: sizeof_Thread_def)
  from kmalloc_spec [OF assms(1) h] obtain n where n: "heap_inv h'" "36 \<le> n"
    "live_blocks h' = insert (i, n) (live_blocks (heap_st s))" by (auto simp: sizeof_Thread_def)
  note f = kmalloc_small_free [OF assms(1) h]
  define sc where "sc = (sched_st s)\<lparr>tick_rate := 11931, que := empty_dllist, sleep_que := empty_dllist,
    cur_thread := i, idle_thread := i\<rparr>"
  define s' where "s' = s\<lparr>heap_st := h', sched_st := sc\<lparr>threads := (threads sc)(i := (threads sc i)\<lparr>t_id := 0, t_pd := kpd\<rparr>)\<rparr>\<rparr>"
  have r: "init_sched irq tmr kpd k s = Inr (i, k', s')"
    by (simp add: init_sched_def k sys_kmalloc_def h ptr_val_def Let_def s'_def sc_def)
  have o: "owned {} {} s'"
    by (rule ownedI) (use n kmalloc_small_not_page [OF assms(1) h] in \<open>auto simp: s'_def sc_def sizeof_Thread_def\<close>)
  show thesis
    by (rule that [OF r k _ n(2) _ o]) (use n f in \<open>simp_all add: s'_def sc_def sizeof_Thread_def\<close>)
qed

lemma boot_threads:
  assumes "heap_inv (heap_st s)" and "3 \<le> card (free_pages (pages (heap_st s)))" and "page_n (pages (heap_st s)) \<le> 0x40000"
  obtains i r k' s1 s2 where "init_sched irq tmr kpd k s = Inr (i, k', s1)" and "init_reaper stub kpd rent s1 = Inr s2"
    and "init_pit irq 100 tmr k = Inr (11931, k')" and "heap_inv (heap_st s2)"
    and "sched_inv {r} (sched_st (set_idle i s2))" and "queues_ok {r} (sched_st (set_idle i s2)) [r] [] []"
    and "owned {r} {r} (set_idle i s2)" and "reaper (sched_st s2) = r" and "cur_thread (sched_st s2) = i"
    and "idle_thread (sched_st s2) = i" and "tick_rate (sched_st s2) = 11931"
    and "enters stub [rent, 0, r] (kmem s2) (t_esp (threads (sched_st s2) r))"
    and "page_n (pages (heap_st s2)) = page_n (pages (heap_st s))"
    and "card (free_pages (pages (heap_st s))) \<le> card (free_pages (pages (heap_st s2))) + 3"
proof -
  have ne: "free_pages (pages (heap_st s)) \<noteq> {}" using assms(2) by auto
  obtain i n k' s1 where 1: "init_sched irq tmr kpd k s = Inr (i, k', s1)" "init_pit irq 100 tmr k = Inr (11931, k')"
    "heap_inv (heap_st s1)" "36 \<le> n" "live_blocks (heap_st s1) = insert (i, n) (live_blocks (heap_st s))"
    "owned {} {} s1" "cur_thread (sched_st s1) = i" "idle_thread (sched_st s1) = i"
    "que (sched_st s1) = empty_dllist" "sleep_que (sched_st s1) = empty_dllist"
    "tick_rate (sched_st s1) = 11931" "t_pd (threads (sched_st s1) i) = kpd" "kmem s1 = kmem s"
    "page_n (pages (heap_st s1)) = page_n (pages (heap_st s))"
    "card (free_pages (pages (heap_st s))) \<le> card (free_pages (pages (heap_st s1))) + 1"
    by (rule init_sched_spec [OF assms(1) ne assms(3)])
  define z where "z = s1\<lparr>sched_st := (sched_st s1)\<lparr>zombie_que := empty_dllist\<rparr>\<rparr>"
  have z: "heap_inv (heap_st z)" "owned {} {} z" "2 \<le> card (free_pages (pages (heap_st z)))" "page_n (pages (heap_st z)) \<le> 0x40000"
    using 1(3,6,14,15) assms(2,3) by (simp_all add: z_def owned_def)
  obtain r n x e u s' where 2: "thread_create stub kpd rent 0 z = Inr (r, s')" "r \<notin> {}" "r \<noteq> idle_thread (sched_st z)"
    "s' = start_thread r e (page_map_real x) kpd u" "sched_st u = sched_st z" "thread_id u = thread_id z"
    "heap_inv (heap_st s')" "36 \<le> n"
    "live_blocks (heap_st s') = insert (r, n) (insert (P2V (page_map_real x), 4096) (live_blocks (heap_st z)))"
    "\<forall>k. (P2V (page_map_real x), k) \<notin> live_blocks (heap_st z)" "\<forall>k>0. (r, k) \<notin> live_blocks (heap_st z)"
    "\<forall>y. y \<notin> bytes (P2V (page_map_real x)) 4096 \<longrightarrow> kmem s' y = kmem z y"
    "owned {r} {r} s'" "enters stub [rent, 0, r] (kmem s') e" "page_n (pages (heap_st s')) = page_n (pages (heap_st z))"
    "card (free_pages (pages (heap_st z))) \<le> card (free_pages (pages (heap_st s'))) + 2"
    by (rule thread_create_spec [OF z])
  define s2 where "s2 = s'\<lparr>sched_st := (sched_st s')\<lparr>reaper := r\<rparr>\<rparr>"
  have r: "init_reaper stub kpd rent s1 = Inr s2" using 2(1) by (simp add: init_reaper_def Let_def z_def s2_def)
  have ri: "r \<noteq> i" using 2(3) 1(8) by (simp add: z_def)
  have q0: "queues_ok {} (sched_st z) [] [] []"
    by (rule queues_okI [where r = "sched_st z"]) (simp_all add: z_def 1(9,10))
  obtain v where v: "sched_st s' = thread_ready r v" "queues_ok {} v [] [] []" "idle_thread v = i" "cur_thread v = i" "tick_rate v = 11931"
  proof -
    define v where "v = (sched_st z)\<lparr>threads := (threads (sched_st z))(r := (threads (sched_st z) r)
      \<lparr>t_esp := e, t_stack := page_map_real x, t_id := thread_id z, t_pd := kpd\<rparr>)\<rparr>"
    have "queues_ok {} v [] [] []" by (rule queues_ok_cong [OF q0]) (simp_all add: v_def)
    moreover have "sched_st s' = thread_ready r v" unfolding 2(4) start_thread_def Let_def 2(5,6) v_def by simp
    ultimately show thesis using that [of v] 1(7,8,11) by (simp add: v_def z_def)
  qed
  have q1: "queues_ok {r} (thread_ready r v) [r] [] []" using ready_queues [OF v(2), of r] by simp
  have q: "queues_ok {r} (sched_st (set_idle i s2)) [r] [] []"
    by (rule queues_okI [where r = v]) (use queues_okD(1-3) [OF q1] ri in \<open>auto simp: s2_def set_idle_def v(1)\<close>)
  have inv: "sched_inv {r} (sched_st (set_idle i s2))"
    by (rule sched_invI [OF _ _ _ _ _ _ _ q]) (use ri in \<open>auto simp: s2_def set_idle_def v(1,3,4)\<close>)
  have o: "owned {r} {r} (set_idle i s2)"
    using 2(13) ri unfolding owned_def by (simp add: s2_def set_idle_def)
  have f: "heap_st s2 = heap_st s'" "reaper (sched_st s2) = r" "cur_thread (sched_st s2) = i" "idle_thread (sched_st s2) = i"
    "tick_rate (sched_st s2) = 11931" "kmem s2 = kmem s'" "heap_st z = heap_st s1"
    by (simp_all add: s2_def z_def v)
  have e: "t_esp (threads (sched_st s2) r) = e" by (simp add: s2_def 2(4))
  have c: "card (free_pages (pages (heap_st s))) \<le> card (free_pages (pages (heap_st s'))) + 3"
    using 1(15) 2(16) unfolding f(7) by linarith
  show thesis
    by (rule that [OF 1(1) r 1(2) _ inv q o f(2-5)], unfold f(1,6) e)
      (rule 2(7) 2(14) 2(15) [unfolded f(7) 1(14)] c)+
qed

section \<open>Destroying\<close>

lemma reaper_iter_keeps:
  assumes "reaper_iter s = Inr (Some z, s')"
  shows "threads s' = threads s" and "idle_thread s' = idle_thread s"
  using assms
  by (cases "list_pop_front (tnodes s) (zombie_que s)"; auto simp: reaper_iter_def split: if_splits)+

lemma destroy_thread_spec:
  assumes "heap_inv (heap_st s)" and "(z, n) \<in> live_blocks (heap_st s)" and "x < 2 ^ 20" and "z \<noteq> P2V (page_map_real x)"
    and "t_stack (threads (sched_st s) z) = page_map_real x" and "(P2V (page_map_real x), 4096) \<in> live_blocks (heap_st s)"
  obtains h where "destroy_thread z s = Inr (s\<lparr>heap_st := h\<rparr>)" and "heap_inv h"
    and "live_blocks h = live_blocks (heap_st s) - {(z, n), (P2V (page_map_real x), 4096)}"
proof -
  obtain b where b: "pmm_free (pages (heap_st s)) (page_map_real x) = Inr b" "heap_inv ((heap_st s)\<lparr>pages := b\<rparr>)"
    "live_blocks ((heap_st s)\<lparr>pages := b\<rparr>) = live_blocks (heap_st s) - {(P2V (page_map_real x), 4096)}"
    by (rule pmm_free_blocks [OF assms(1,6,3)])
  have "(z, n) \<in> live_blocks ((heap_st s)\<lparr>pages := b\<rparr>)" using assms(2,4) b(3) by simp
  from kfree_spec [OF b(2) this] obtain h where h: "kfree z ((heap_st s)\<lparr>pages := b\<rparr>) = Inr h" "heap_inv h"
    "live_blocks h = live_blocks ((heap_st s)\<lparr>pages := b\<rparr>) - {(z, n)}" by blast
  have "destroy_thread z s = Inr (s\<lparr>heap_st := h\<rparr>)" by (simp add: destroy_thread_def assms(5) b(1) h(1))
  with that h b(3) show thesis by blast
qed

lemma owned_remove:
  assumes o: "owned T K s" and inv: "heap_inv (heap_st s)" and z: "z \<in> K" "(z, n) \<in> live_blocks (heap_st s)" "0 < n"
    and x: "t_stack (threads (sched_st s) z) = page_map_real x" "x < 2 ^ 20" and idle: "z \<noteq> idle_thread (sched_st s)"
    and s': "live_blocks (heap_st s') = live_blocks (heap_st s) - {(z, n), (P2V (page_map_real x), 4096)}"
      "threads (sched_st s') = threads (sched_st s)" "idle_thread (sched_st s') = idle_thread (sched_st s)"
  shows "owned (T - {z}) (K - {z}) s'"
proof (rule ownedI, unfold s')
  note d = ownedD [OF o]
  show "K - {z} \<subseteq> T - {z}" using d(1) by blast
  show "a \<noteq> P2V (page_map_real y)" if "a \<in> T - {z} \<or> a = idle_thread (sched_st s)" "y < 2 ^ 20" for a y
    using d(3) that by blast
  show "\<exists>n'\<ge>36. (a, n') \<in> live_blocks (heap_st s) - {(z, n), (P2V (page_map_real x), 4096)}"
    if "a \<in> T - {z} \<or> a = idle_thread (sched_st s)" for a
    using that d(2) [of a] d(3) [of a x] x(2) idle by auto
  show "\<exists>y<2 ^ 20. t_stack (threads (sched_st s) a) = page_map_real y \<and>
      (P2V (page_map_real y), 4096) \<in> live_blocks (heap_st s) - {(z, n), (P2V (page_map_real x), 4096)}"
    if a: "a \<in> K - {z}" for a
  proof -
    from d(4) [of a] a obtain y where y: "y < 2 ^ 20" "t_stack (threads (sched_st s) a) = page_map_real y"
      "(P2V (page_map_real y), 4096) \<in> live_blocks (heap_st s)" by blast
    have "page_map_real y \<noteq> page_map_real x" using inj_onD [OF d(5), of a z] a z(1) y(2) x(1) by auto
    moreover have "P2V (page_map_real y) \<noteq> z" using d(3) [of z y] d(1) z(1) y(1) by blast
    ultimately show ?thesis using y by (intro exI [of _ y]) (auto simp: P2V_inject)
  qed
  show "inj_on (\<lambda>t. t_stack (threads (sched_st s) t)) (K - {z})" using d(5) by (rule inj_on_subset) blast
qed

section \<open>A booted kernel\<close>

definition sys_many :: sys where
  "sys_many = \<lparr>kmem = (\<lambda>_. 0), heap_st = heap_many,
     sched_st = \<lparr>threads = (\<lambda>_. \<lparr>t_esp = 0, t_stack = 0, t_status = RUNNING, t_id = 0, t_wake_at = 0, t_pd = 0\<rparr>),
       tnodes = (\<lambda>_. \<lparr>nxt = None, prv = None\<rparr>), que = empty_dllist, sleep_que = empty_dllist, zombie_que = empty_dllist,
       cur_thread = 0, idle_thread = 0, reaper = 0, ticks = 0, tick_rate = 0, cr3 = 0, tss_esp0 = 0, sp = 0\<rparr>,
     thread_id = 1, intr_flag = False\<rparr>"

lemma booted:
  obtains i r s where "heap_inv (heap_st s)" and "sched_inv {r} (sched_st s)" and "queues_ok {r} (sched_st s) [r] [] []"
    and "owned {r} {r} s" and "reaper (sched_st s) = r" and "idle_thread (sched_st s) = i"
    and "page_n (pages (heap_st s)) = 1024" and "1020 \<le> card (free_pages (pages (heap_st s)))"
proof -
  have a: "heap_inv (heap_st sys_many)" "3 \<le> card (free_pages (pages (heap_st sys_many)))"
    "page_n (pages (heap_st sys_many)) \<le> 0x40000"
    using heap_many_inv by (simp_all add: sys_many_def)
  obtain i r k' s1 s2 where b: "init_sched 0 0 0 (undefined :: pit) sys_many = Inr (i, k', s1)" "init_reaper 0 0 0 s1 = Inr s2"
    "init_pit 0 100 0 (undefined :: pit) = Inr (11931, k')" "heap_inv (heap_st s2)"
    "sched_inv {r} (sched_st (set_idle i s2))" "queues_ok {r} (sched_st (set_idle i s2)) [r] [] []"
    "owned {r} {r} (set_idle i s2)" "reaper (sched_st s2) = r" "cur_thread (sched_st s2) = i"
    "idle_thread (sched_st s2) = i" "tick_rate (sched_st s2) = 11931"
    "enters 0 [0, 0, r] (kmem s2) (t_esp (threads (sched_st s2) r))"
    "page_n (pages (heap_st s2)) = page_n (pages (heap_st sys_many))"
    "card (free_pages (pages (heap_st sys_many))) \<le> card (free_pages (pages (heap_st s2))) + 3"
    by (rule boot_threads [OF a, where k = "undefined :: pit" and irq = 0 and tmr = 0 and kpd = 0 and stub = 0 and rent = 0])
  have h: "heap_st (set_idle i s2) = heap_st s2" "reaper (sched_st (set_idle i s2)) = r"
    "idle_thread (sched_st (set_idle i s2)) = i" using b(8,10) by (simp_all add: set_idle_def)
  have n: "page_n (pages (heap_st s2)) = 1024" "1020 \<le> card (free_pages (pages (heap_st s2)))"
    using b(13,14) heap_many_inv by (simp_all add: sys_many_def)
  show thesis by (rule that [OF _ b(5-7) h(2,3)], unfold h(1)) (rule b(4) n)+
qed

section \<open>Properties\<close>

text \<open>
  C35: creating a kernel thread works whenever two pages are free. The thread gets a page for its
  stack and a block for its \<open>Thread\<close> that nobody else uses, and nothing else in memory changes; it
  is at the end of the ready queue with the next identifier and the kernel's page directory; and
  when it is switched to for the first time, it enters \<open>kthread_stub\<close> with its entry point, its argument
  and itself as arguments. The invariants of the heap, the scheduler and the ownership are kept.
\<close>

theorem thread_create_correct:
  assumes "heap_inv (heap_st s)" and "sched_inv T (sched_st s)" and "queues_ok T (sched_st s) Q S Z" and "owned T K s"
    and "2 \<le> card (free_pages (pages (heap_st s)))" and "page_n (pages (heap_st s)) \<le> 0x40000"
  shows "\<exists>t n x s'. thread_create stub kpd entry arg s = Inr (t, s') \<and> t \<notin> T \<and>
    heap_inv (heap_st s') \<and> 36 \<le> n \<and> t_stack (threads (sched_st s') t) = page_map_real x \<and>
    live_blocks (heap_st s') = insert (t, n) (insert (P2V (page_map_real x), 4096) (live_blocks (heap_st s))) \<and>
    (\<forall>k. (P2V (page_map_real x), k) \<notin> live_blocks (heap_st s)) \<and> (\<forall>k>0. (t, k) \<notin> live_blocks (heap_st s)) \<and>
    (\<forall>y. y \<notin> bytes (P2V (page_map_real x)) 4096 \<longrightarrow> kmem s' y = kmem s y) \<and>
    sched_inv (insert t T) (sched_st s') \<and> queues_ok (insert t T) (sched_st s') (Q @ [t]) S Z \<and>
    owned (insert t T) (insert t K) s' \<and>
    t_id (threads (sched_st s') t) = thread_id s \<and> thread_id s' = thread_id s + 1 \<and>
    t_pd (threads (sched_st s') t) = kpd \<and>
    enters stub [entry, arg, t] (kmem s') (t_esp (threads (sched_st s') t))"
proof -
  obtain t n x e u s' where 1: "thread_create stub kpd entry arg s = Inr (t, s')" "t \<notin> T"
    "t \<noteq> idle_thread (sched_st s)" "s' = start_thread t e (page_map_real x) kpd u" "sched_st u = sched_st s"
    "thread_id u = thread_id s" "heap_inv (heap_st s')" "36 \<le> n"
    "live_blocks (heap_st s') = insert (t, n) (insert (P2V (page_map_real x), 4096) (live_blocks (heap_st s)))"
    "\<forall>k. (P2V (page_map_real x), k) \<notin> live_blocks (heap_st s)" "\<forall>k>0. (t, k) \<notin> live_blocks (heap_st s)"
    "\<forall>y. y \<notin> bytes (P2V (page_map_real x)) 4096 \<longrightarrow> kmem s' y = kmem s y"
    "owned (insert t T) (insert t K) s'" "enters stub [entry, arg, t] (kmem s') e"
    "page_n (pages (heap_st s')) = page_n (pages (heap_st s))"
    "card (free_pages (pages (heap_st s))) \<le> card (free_pages (pages (heap_st s'))) + 2"
    by (rule thread_create_spec [OF assms(1,4-6)])
  have "sched_inv (insert t T) (sched_st s')" "queues_ok (insert t T) (sched_st s') (Q @ [t]) S Z"
    unfolding 1(4) by (rule start_thread_sched; use assms(2,3) 1(2,3,5) in simp)+
  moreover have "t_stack (threads (sched_st s') t) = page_map_real x" "t_esp (threads (sched_st s') t) = e"
    "t_id (threads (sched_st s') t) = thread_id s" "thread_id s' = thread_id s + 1" "t_pd (threads (sched_st s') t) = kpd"
    using 1(6) by (simp_all add: 1(4))
  ultimately show ?thesis using 1
    by (intro exI [of _ t] exI [of _ n] exI [of _ x] exI [of _ s']) (simp only: simp_thms)
qed

theorem thread_create_correct_witness:
  "\<exists>r s. sched_inv {r} (sched_st s) \<and> owned {r} {r} s \<and>
    (\<exists>t s'. thread_create 0x100 0x200 0x300 0x400 s = Inr (t, s') \<and> queues_ok {t, r} (sched_st s') [r, t] [] [] \<and>
      enters 0x100 [0x300, 0x400, t] (kmem s') (t_esp (threads (sched_st s') t)))"
proof -
  obtain i r s where b: "heap_inv (heap_st s)" "sched_inv {r} (sched_st s)" "queues_ok {r} (sched_st s) [r] [] []"
    "owned {r} {r} s" "reaper (sched_st s) = r" "idle_thread (sched_st s) = i"
    "page_n (pages (heap_st s)) = 1024" "1020 \<le> card (free_pages (pages (heap_st s)))"
    by (rule booted)
  have c: "2 \<le> card (free_pages (pages (heap_st s)))" "page_n (pages (heap_st s)) \<le> 0x40000" using b(7,8) by simp_all
  from thread_create_correct [OF b(1-4) c, of "0x100" "0x200" "0x300" "0x400"] b(2,4) show ?thesis by auto
qed

text \<open>
  C36: the reaper gives back what a kernel thread was created with. When it finds an exited kernel
  thread, it returns the thread's stack page to the page allocator and its \<open>Thread\<close> to the heap,
  exactly these two blocks, and takes the thread out of the zombie queue; all other threads keep
  their memory and their places.
\<close>

theorem reaper_destroys_thread:
  assumes "heap_inv (heap_st s)" and "sched_inv T (sched_st s)" and "queues_ok T (sched_st s) Q S (z # Z)"
    and "owned T K s" and "z \<in> K" and "cur_thread (sched_st s) = reaper (sched_st s)"
    and "status (sched_st s) (reaper (sched_st s)) = RUNNING"
  shows "\<exists>n s'. reaper_main esp s = Inr s' \<and> heap_inv (heap_st s') \<and> (z, n) \<in> live_blocks (heap_st s) \<and>
    live_blocks (heap_st s') =
      live_blocks (heap_st s) - {(z, n), (P2V (t_stack (threads (sched_st s) z)), 4096)} \<and>
    sched_inv (T - {z}) (sched_st s') \<and> queues_ok (T - {z}) (sched_st s') Q S Z \<and> owned (T - {z}) (K - {z}) s'"
proof -
  note d = ownedD [OF assms(4)]
  from reaper_iter_spec [OF assms(2,3,6,7)] obtain sc where
    r: "reaper_iter (sched_st s) = Inr (Some z, sc)" "z \<in> T" "sched_inv (T - {z}) sc" "queues_ok (T - {z}) sc Q S Z" by auto
  note k = reaper_iter_keeps [OF r(1)]
  define u where "u = s\<lparr>sched_st := sc\<rparr>"
  from d(2) [of z] r(2) obtain n where n: "36 \<le> n" "(z, n) \<in> live_blocks (heap_st s)" by blast
  from d(4) [OF assms(5)] obtain x where x: "x < 2 ^ 20" "t_stack (threads (sched_st s) z) = page_map_real x"
    "(P2V (page_map_real x), 4096) \<in> live_blocks (heap_st s)" by blast
  have u: "heap_inv (heap_st u)" "(z, n) \<in> live_blocks (heap_st u)" "t_stack (threads (sched_st u) z) = page_map_real x"
    "(P2V (page_map_real x), 4096) \<in> live_blocks (heap_st u)"
    using assms(1) n(2) x(2,3) k(1) by (simp_all add: u_def)
  have zp: "z \<noteq> P2V (page_map_real x)" using d(3) r(2) x(1) by blast
  obtain h where h: "destroy_thread z u = Inr (u\<lparr>heap_st := h\<rparr>)" "heap_inv h"
    "live_blocks h = live_blocks (heap_st u) - {(z, n), (P2V (page_map_real x), 4096)}"
    by (rule destroy_thread_spec [OF u(1,2) x(1) zp u(3,4)])
  have ne: "z \<noteq> idle_thread (sched_st s)" using sched_invD(1) [OF assms(2)] r(2) by metis
  have "owned (T - {z}) (K - {z}) (u\<lparr>heap_st := h\<rparr>)"
    by (rule owned_remove [OF assms(4,1,5) n(2) _ x(2,1) ne]) (use n(1) h(3) k in \<open>simp_all add: u_def\<close>)
  moreover have "reaper_main esp s = Inr (u\<lparr>heap_st := h\<rparr>)" using h(1) by (simp add: reaper_main_def r(1) u_def)
  ultimately show ?thesis using h(2,3) n(2) r(3,4) x(2)
    by (intro exI [of _ n] exI [of _ "u\<lparr>heap_st := h\<rparr>"]) (simp add: u_def)
qed

theorem reaper_destroys_thread_witness:
  "\<exists>r z s. sched_inv {z, r} (sched_st s) \<and> queues_ok {z, r} (sched_st s) [] [] [z] \<and> owned {z, r} {z, r} s \<and>
    (\<exists>s'. reaper_main 0 s = Inr s' \<and> queues_ok ({z, r} - {z}) (sched_st s') [] [] [])"
proof -
  obtain i r s where b: "heap_inv (heap_st s)" "sched_inv {r} (sched_st s)" "queues_ok {r} (sched_st s) [r] [] []"
    "owned {r} {r} s" "reaper (sched_st s) = r" "idle_thread (sched_st s) = i"
    "page_n (pages (heap_st s)) = 1024" "1020 \<le> card (free_pages (pages (heap_st s)))"
    by (rule booted)
  have c: "2 \<le> card (free_pages (pages (heap_st s)))" "page_n (pages (heap_st s)) \<le> 0x40000" using b(7,8) by simp_all
  obtain z n x e u s' where 1: "thread_create 0 0 0 0 s = Inr (z, s')" "z \<notin> {r}"
    "z \<noteq> idle_thread (sched_st s)" "s' = start_thread z e (page_map_real x) 0 u" "sched_st u = sched_st s"
    "thread_id u = thread_id s" "heap_inv (heap_st s')" "36 \<le> n"
    "live_blocks (heap_st s') = insert (z, n) (insert (P2V (page_map_real x), 4096) (live_blocks (heap_st s)))"
    "\<forall>k. (P2V (page_map_real x), k) \<notin> live_blocks (heap_st s)" "\<forall>k>0. (z, k) \<notin> live_blocks (heap_st s)"
    "\<forall>y. y \<notin> bytes (P2V (page_map_real x)) 4096 \<longrightarrow> kmem s' y = kmem s y"
    "owned {z, r} {z, r} s'" "enters 0 [0, 0, z] (kmem s') e"
    "page_n (pages (heap_st s')) = page_n (pages (heap_st s))"
    "card (free_pages (pages (heap_st s))) \<le> card (free_pages (pages (heap_st s'))) + 2"
    by (rule thread_create_spec [OF b(1,4) c])
  define v where "v = set_status r RUNNING ((sched_st s')\<lparr>que := empty_dllist, sleep_que := empty_dllist,
    zombie_que := empty_dllist, cur_thread := r\<rparr>)"
  have roles: "idle_thread (sched_st s') = i" "reaper (sched_st s') = r"
    using 1(5) b(5,6) by (simp_all add: 1(4) start_thread_def Let_def)
  have ne: "z \<noteq> r" "z \<noteq> i" "r \<noteq> i" using 1(2,3) b(6) sched_invD(1) [OF b(2)] by auto
  have q: "queues_ok {r} v [] [] []" by (rule queues_okI [where r = v]) (auto simp: v_def roles)
  obtain h l where hl: "list_push_back (tnodes v) (zombie_que v) z = (h, l)" by fastforce
  define w where "w = (set_status z ZOMBIE v)\<lparr>tnodes := h, zombie_que := l\<rparr>"
  have qw: "queues_ok {z, r} w [] [] [z]" using zombie_queues [OF q _ hl] 1(2) by (simp add: w_def)
  have si: "status (sched_st s') i = IDLE"
    using sched_invD(2) [OF b(2)] b(6) 1(5) ne(2) by (simp add: 1(4))
  have iw: "sched_inv {z, r} w"
    by (rule sched_invI [OF _ _ _ _ _ _ _ qw]) (use ne si in \<open>auto simp: w_def v_def roles\<close>)
  define y where "y = s'\<lparr>sched_st := w\<rparr>"
  have y: "heap_inv (heap_st y)" "sched_inv {z, r} (sched_st y)" "queues_ok {z, r} (sched_st y) [] [] [z]"
    "cur_thread (sched_st y) = reaper (sched_st y)" "status (sched_st y) (reaper (sched_st y)) = RUNNING"
    using 1(7) iw qw ne(1) by (simp_all add: y_def w_def v_def roles)
  have oy: "owned {z, r} {z, r} y" using 1(13) by (subst owned_cong) (simp_all add: y_def w_def v_def)
  from reaper_destroys_thread [OF y(1-3) oy _ y(4,5), of 0] y(2,3) oy show ?thesis by blast
qed

end
