(* ===== verification/Elf.thy ===== *)
theory Elf
  imports Heap_Pages
begin

text \<open>
  The program loader (\<open>process/elf.c\<close>, \<open>process/elf.h\<close>).

  The file is a sequence of bytes in memory; its headers are read at their offsets. The loader works
  on the memory and the state of the page allocator. \<open>load_pages\<close> is the loop of \<open>load_segment\<close>: each
  page of the segment is a new frame, cleared, filled from the file as far as the file goes, and
  mapped.
\<close>

section \<open>File format\<close>

record Elf32_Ehdr =
  e_type :: u16
  e_machine :: u16
  e_version :: u32
  e_entry :: u32
  e_phoff :: u32
  e_shoff :: u32
  e_flags :: u32
  e_ehsize :: u16
  e_phentsize :: u16
  e_phnum :: u16
  e_shentsize :: u16
  e_shnum :: u16
  e_shstrndx :: u16

record Elf32_Phdr =
  p_type :: u32
  p_offset :: u32
  p_vaddr :: u32
  p_paddr :: u32
  p_filesz :: u32
  p_memsz :: u32
  p_segflags :: u32
  p_align :: u32

definition ELF_NIDENT :: u32 where "ELF_NIDENT = 16"
definition SIZEOF_PHDR :: u32 where "SIZEOF_PHDR = 32"
definition PT_LOAD :: u32 where "PT_LOAD = 1"
definition PF_X :: u32 where "PF_X = push_bit 0 1"
definition PF_W :: u32 where "PF_W = push_bit 1 1"
definition PF_R :: u32 where "PF_R = push_bit 2 1"

definition ehdr_at :: "mem \<Rightarrow> u32 \<Rightarrow> Elf32_Ehdr" where
  "ehdr_at m a =
     \<lparr>e_type = load16 m (a + 16), e_machine = load16 m (a + 18), e_version = load32 m (a + 20),
      e_entry = load32 m (a + 24), e_phoff = load32 m (a + 28), e_shoff = load32 m (a + 32),
      e_flags = load32 m (a + 36), e_ehsize = load16 m (a + 40), e_phentsize = load16 m (a + 42),
      e_phnum = load16 m (a + 44), e_shentsize = load16 m (a + 46), e_shnum = load16 m (a + 48),
      e_shstrndx = load16 m (a + 50)\<rparr>"

definition phdr_at :: "mem \<Rightarrow> u32 \<Rightarrow> Elf32_Phdr" where
  "phdr_at m a =
     \<lparr>p_type = load32 m a, p_offset = load32 m (a + 4), p_vaddr = load32 m (a + 8), p_paddr = load32 m (a + 12),
      p_filesz = load32 m (a + 16), p_memsz = load32 m (a + 20), p_segflags = load32 m (a + 24),
      p_align = load32 m (a + 28)\<rparr>"

definition verify :: "u8 list" where
  "verify = [0x7F, 0x45, 0x4C, 0x46]"

section \<open>Loading\<close>

function load_pages :: "u32 \<Rightarrow> u32 \<Rightarrow> u32 \<Rightarrow> u32 \<Rightarrow> u32 \<Rightarrow> u32 \<Rightarrow> u32 \<Rightarrow> mem \<times> buddy \<Rightarrow> (mem \<times> buddy) res" where
  "load_pages pd flags vaddr elf_src_ptr pages_needed i copy_remaining (m, b) =
     (if i < pages_needed then
        bnd (pmm_alloc b 0) (\<lambda>(cur_page, b).
        let kernel_vir_cur_page = P2V cur_page;
            m = kmemset m kernel_vir_cur_page 0 PAGE_SIZE;
            (m, copy_remaining) =
              (if copy_remaining \<noteq> 0 then
                 let copying = (if copy_remaining > PAGE_SIZE then PAGE_SIZE else copy_remaining)
                 in (kmemcpy m kernel_vir_cur_page (elf_src_ptr + push_bit 12 i) copying, copy_remaining - copying)
               else (m, copy_remaining))
        in bnd (map_range pd cur_page (vaddr + push_bit 12 i) 1 flags (m, b)) (\<lambda>st.
           load_pages pd flags vaddr elf_src_ptr pages_needed (i + 1) copy_remaining st))
      else Inr (m, b))"
  by pat_completeness auto
termination
proof (relation "measure (\<lambda>(pd, flags, vaddr, src, needed, i, rem, st). unat needed - unat i)", goal_cases)
  case (2 pd flags vaddr src needed i rem m b)
  then have "unat i < unat needed" by (simp add: word_less_nat_alt)
  moreover from this have "unat (i + 1) = unat i + 1"
    using unat_add_small [of i 1] unsigned_less [where 'a = nat, of needed] by simp
  ultimately show ?case by simp
qed simp

declare load_pages.simps [simp del]

definition seg_flags :: "Elf32_Phdr \<Rightarrow> u32" where
  "seg_flags cur = (let flags = PAGE_PRESENT OR PAGE_USER
     in if p_segflags cur = (PF_R OR PF_W) then flags OR PAGE_RW else flags)"

definition load_segment :: "u32 \<Rightarrow> u32 \<Rightarrow> u32 \<Rightarrow> u32 \<Rightarrow> mem \<times> buddy \<Rightarrow> (u32 \<times> mem \<times> buddy) res" where
  "load_segment idx phdrs pd elf_hdr st =
     (let cur_adr = phdrs + SIZEOF_PHDR * idx;
          cur = phdr_at (fst st) cur_adr
      in if p_type cur \<noteq> PT_LOAD then Inr (0x0, st)
         else
           let pages_needed = drop_bit 12 (ALIGN_UP (p_memsz cur) PAGE_SIZE)
           in bnd (load_pages pd (seg_flags cur) (p_vaddr cur) (elf_hdr + p_offset cur) pages_needed 0 (p_filesz cur) st)
                (\<lambda>st. Inr (p_vaddr (phdr_at (fst st) cur_adr) + push_bit 12 pages_needed, st)))"

text \<open>The loop over the program headers from \<open>i\<close> on, with \<open>n\<close> of them left.\<close>

fun load_segments :: "nat \<Rightarrow> u32 \<Rightarrow> u32 \<Rightarrow> u32 \<Rightarrow> u32 \<Rightarrow> u32 \<Rightarrow> mem \<times> buddy \<Rightarrow> (u32 \<times> mem \<times> buddy) res" where
  "load_segments 0 i phdrs pd elf_hdr last_addr st = Inr (last_addr, st)"
| "load_segments (Suc n) i phdrs pd elf_hdr last_addr st =
     bnd (load_segment i phdrs pd elf_hdr st) (\<lambda>(ends_at, st).
       load_segments n (i + 1) phdrs pd elf_hdr (if ends_at > last_addr then ends_at else last_addr) st)"

definition load_elf :: "u32 \<Rightarrow> u32 \<Rightarrow> mem \<times> buddy \<Rightarrow> (u32 \<times> mem \<times> buddy) res" where
  "load_elf pd elf_hdr st =
     (let m = fst st
      in if map (\<lambda>i. m (elf_hdr + of_nat i)) [0..<4] \<noteq> verify then Inr (0x0, st)
         else load_segments (unat (e_phnum (ehdr_at m elf_hdr))) 0 (elf_hdr + e_phoff (ehdr_at m elf_hdr)) pd elf_hdr 0 st)"

end
