(* ===== verification/Elf_Load.thy ===== *)
theory Elf_Load
  imports Elf
begin

text \<open>
  What adding pages to an address space does. \<open>grows\<close> relates the states before and after \<open>k\<close> pages
  from page \<open>n\<close> on have been added to directory \<open>d\<close>; \<open>holds\<close> says that a page of the address space
  shows given contents with given rights, from a frame that the page allocator and the page tables
  do not use. Growing an address space elsewhere keeps the pages it holds.
\<close>

section \<open>Growing an address space\<close>

text \<open>The frames that mapping pages may write to.\<close>

definition work :: "nat \<Rightarrow> mem \<Rightarrow> buddy \<Rightarrow> nat set" where
  "work d m b = insert d (free_pages b \<union> tables m d)"

definition grows :: "u32 \<Rightarrow> nat \<Rightarrow> nat \<Rightarrow> nat \<Rightarrow> mem \<times> buddy \<Rightarrow> mem \<times> buddy \<Rightarrow> bool" where
  "grows flag d n k st st' \<longleftrightarrow>
     pmmf.space_ok d (fst st') (snd st') \<and> work d (fst st') (snd st') \<subseteq> work d (fst st) (snd st) \<and>
     free_pages (snd st') \<subseteq> free_pages (snd st) \<and> kept (work d (fst st) (snd st)) (fst st) (fst st') \<and>
     card (free_pages (snd st)) \<le> card (free_pages (snd st')) + 2 * k \<and>
     (\<forall>q<2 ^ 20. q \<notin> {n..<n + k} \<longrightarrow> present (ent (fst st) d (q div 1024)) \<or> \<not> touched n k (q div 1024) \<longrightarrow>
        walk (fst st') d q = walk (fst st) d q) \<and>
     (\<forall>i<1024. if touched n k i then present (ent (fst st') d i) \<and> pde_ok flag (ent (fst st') d i)
        else ent (fst st') d i = ent (fst st) d i)"

lemma growsD:
  assumes "grows flag d n k (m, b) (m', b')"
  shows "pmmf.space_ok d m' b'" "work d m' b' \<subseteq> work d m b" "free_pages b' \<subseteq> free_pages b" "kept (work d m b) m m'"
    "card (free_pages b) \<le> card (free_pages b') + 2 * k"
    "q < 2 ^ 20 \<Longrightarrow> q \<notin> {n..<n + k} \<Longrightarrow> present (ent m d (q div 1024)) \<or> \<not> touched n k (q div 1024) \<Longrightarrow>
      walk m' d q = walk m d q"
    "i < 1024 \<Longrightarrow> touched n k i \<Longrightarrow> present (ent m' d i) \<and> pde_ok flag (ent m' d i)"
    "i < 1024 \<Longrightarrow> \<not> touched n k i \<Longrightarrow> ent m' d i = ent m d i"
  using assms unfolding grows_def fst_conv snd_conv by metis+

lemma growsI:
  assumes "pmmf.space_ok d m' b'" "work d m' b' \<subseteq> work d m b" "free_pages b' \<subseteq> free_pages b" "kept (work d m b) m m'"
    "card (free_pages b) \<le> card (free_pages b') + 2 * k"
    "\<And>q. q < 2 ^ 20 \<Longrightarrow> q \<notin> {n..<n + k} \<Longrightarrow> present (ent m d (q div 1024)) \<or> \<not> touched n k (q div 1024) \<Longrightarrow>
      walk m' d q = walk m d q"
    "\<And>i. i < 1024 \<Longrightarrow> touched n k i \<Longrightarrow> present (ent m' d i) \<and> pde_ok flag (ent m' d i)"
    "\<And>i. i < 1024 \<Longrightarrow> \<not> touched n k i \<Longrightarrow> ent m' d i = ent m d i"
  shows "grows flag d n k (m, b) (m', b')"
  unfolding grows_def fst_conv snd_conv using assms by simp

lemma grows_refl: "pmmf.space_ok d m b \<Longrightarrow> grows flag d n 0 (m, b) (m, b)"
  by (rule growsI) (auto simp: touched_def)

lemma touched_add: "touched n (j + k) i \<longleftrightarrow> touched n j i \<or> touched (n + j) k i"
  by (auto simp: touched_def)

lemma grows_trans:
  assumes a: "grows flag d n j (m, b) (m1, b1)" and c: "grows flag d (n + j) k (m1, b1) (m2, b2)"
  shows "grows flag d n (j + k) (m, b) (m2, b2)"
proof (rule growsI)
  note A = growsD [OF a] and C = growsD [OF c]
  show "pmmf.space_ok d m2 b2" "work d m2 b2 \<subseteq> work d m b" "free_pages b2 \<subseteq> free_pages b"
    using A(1-3) C(1-3) by blast+
  show "kept (work d m b) m m2" using kept_trans [OF A(4) kept_mono [OF C(4) A(2)]] by simp
  show "card (free_pages b) \<le> card (free_pages b2) + 2 * (j + k)" using A(5) C(5) by simp
  show "walk m2 d q = walk m d q" if q: "q < 2 ^ 20" "q \<notin> {n..<n + (j + k)}"
    "present (ent m d (q div 1024)) \<or> \<not> touched n (j + k) (q div 1024)" for q
  proof -
    have i: "q div 1024 < 1024" using q(1) by (simp add: less_mult_imp_div_less)
    have "walk m1 d q = walk m d q" using q by (intro A(6)) (auto simp: touched_add)
    moreover have "walk m2 d q = walk m1 d q"
    proof (rule C(6) [OF q(1)])
      show "q \<notin> {n + j..<n + j + k}" using q(2) by auto
      show "present (ent m1 d (q div 1024)) \<or> \<not> touched (n + j) k (q div 1024)"
        using q(3) A(7,8) [OF i] by (cases "touched n j (q div 1024)") (simp_all add: touched_add)
    qed
    ultimately show ?thesis by simp
  qed
  show "present (ent m2 d i) \<and> pde_ok flag (ent m2 d i)" if "i < 1024" "touched n (j + k) i" for i
    using that A(7) [of i] C(7,8) [of i] by (cases "touched (n + j) k i") (auto simp: touched_add)
  show "ent m2 d i = ent m d i" if "i < 1024" "\<not> touched n (j + k) i" for i
    using that A(8) C(8) by (simp add: touched_add)
qed

section \<open>Pages with contents\<close>

definition holds :: "nat \<Rightarrow> nat \<Rightarrow> u32 \<Rightarrow> (nat \<Rightarrow> u8) \<Rightarrow> mem \<times> buddy \<Rightarrow> bool" where
  "holds d q flag c st \<longleftrightarrow> (\<exists>f<2 ^ 20. f \<notin> work d (fst st) (snd st) \<and>
     walk (fst st) d q = Some (page_mapping flag f) \<and>
     (\<forall>j<4096. fst st (P2V (frame_addr f) + of_nat j) = c j))"

lemma frame_of_byte: "f < 2 ^ 20 \<Longrightarrow> j < 4096 \<Longrightarrow> frame_of (P2V (frame_addr f) + of_nat j) = f"
  by (subst frame_of_page [symmetric]) (simp_all add: unsigned_of_nat take_bit_nat_eq_self)

lemma walk_present: "walk m d q = Some z \<Longrightarrow> present (ent m d (q div 1024))"
  by (auto simp: walk_def Let_def split: if_splits)

lemma holds_grows:
  assumes "holds d q c_flag c (m, b)" and "grows flag d n k (m, b) (m', b')" and "q < 2 ^ 20" and "q \<notin> {n..<n + k}"
  shows "holds d q c_flag c (m', b')"
proof -
  note G = growsD [OF assms(2)]
  from assms(1) obtain f where f: "f < 2 ^ 20" "f \<notin> work d m b" "walk m d q = Some (page_mapping c_flag f)"
    "\<forall>j<4096. m (P2V (frame_addr f) + of_nat j) = c j" by (auto simp: holds_def)
  have "walk m' d q = walk m d q" by (rule G(6) [OF assms(3,4)]) (use walk_present [OF f(3)] in simp)
  moreover have "m' (P2V (frame_addr f) + of_nat j) = m (P2V (frame_addr f) + of_nat j)" if "j < 4096" for j
    using G(4) frame_of_byte [OF f(1) that] f(2) by (simp add: kept_def)
  moreover have "f \<notin> work d m' b'" using f(2) G(2) by blast
  ultimately show ?thesis using f by (auto simp: holds_def)
qed

section \<open>Adding one page\<close>

lemma touched_one: "touched n 1 i \<longleftrightarrow> i = n div 1024"
proof
  assume "touched n 1 i"
  then have "1024 * i \<le> n" "n < 1024 * Suc i" by (auto simp: touched_def)
  then show "i = n div 1024" by (intro div_nat_eqI [symmetric]) (simp_all add: mult.commute)
qed (use touched_first [of 1 n] in simp)

lemma map_page_grows:
  assumes ok: "pmmf.space_ok d m b" and flag: "flag_ok flag" and n: "n < 2 ^ 20" and x: "x < 2 ^ 20"
    and free: "free_pages b \<noteq> {}" and pde: "pde_ok flag (ent m d (n div 1024))"
  obtains m' b' where "map_range (P2V (frame_addr d)) (frame_addr x) (frame_addr n) 1 flag (m, b) = Inr (m', b')"
    and "grows flag d n 1 (m, b) (m', b')" and "walk m' d n = Some (page_mapping flag x)"
    and "card (free_pages b) \<le> card (free_pages b') + 1"
proof -
  have inv: "buddy_inv b" using ok by (simp add: pmmf.space_ok_def)
  have "1 \<le> card (free_pages b)" using free pmmf.finite_free [OF inv] by (simp add: Suc_le_eq card_gt_0_iff)
  then have "pmmf.startable d flag n x 1 m b"
    using assms touched_one by (simp add: pmmf.startable_def)
  from pmmf.map_frames_ok [OF this] obtain m' b' where r:
    "map_frames pmm_frame (P2V (frame_addr d)) (frame_addr x) (frame_addr n) (of_nat 1) flag (m, b) = Inr (m', b')"
    "pmmf.space_ok d m' b'" "maps False d flag n x 1 m m'" "kept (work d m b) m m'" "free_pages b' \<subseteq> free_pages b"
    "tables m' d \<subseteq> tables m d \<union> free_pages b" "card (free_pages b) \<le> card (free_pages b') + 1"
    unfolding pmmf.run_ok_def work_def by blast
  have w: "walk m' d n = Some (page_mapping flag x)" using r(3) unfolding maps_def by simp
  have "grows flag d n 1 (m, b) (m', b')"
  proof (rule growsI)
    show "work d m' b' \<subseteq> work d m b" using r(5,6) by (auto simp: work_def)
    show "walk m' d q = walk m d q" if "q < 2 ^ 20" "q \<notin> {n..<n + 1}"
      "present (ent m d (q div 1024)) \<or> \<not> touched n 1 (q div 1024)" for q
      using r(3) that unfolding maps_def by blast
    show "present (ent m' d i) \<and> pde_ok flag (ent m' d i)" if i: "i < 1024" "touched n 1 i" for i
    proof -
      have "\<not> covered n 1 i" by (simp add: covered_def)
      moreover have "i = n div 1024" using i(2) touched_one by simp
      ultimately show ?thesis using r(3) i walk_present [OF w] unfolding maps_def by blast
    qed
    show "ent m' d i = ent m d i" if "i < 1024" "\<not> touched n 1 i" for i using r(3) that unfolding maps_def by blast
  qed (use r in simp_all)
  with that r(1,7) w show thesis by (simp add: map_range_def)
qed

text \<open>A new frame that is filled and then mapped.\<close>

lemma add_page:
  assumes ok: "pmmf.space_ok d m b" and flag: "flag_ok flag" and n: "n < 2 ^ 20" and two: "2 \<le> card (free_pages b)"
    and pde: "pde_ok flag (ent m d (n div 1024))" and al: "pmm_alloc b 0 = Inr (frame_addr x, b1)" "x < 2 ^ 20" "x \<in> free_pages b"
      "free_pages b1 = free_pages b - {x}" "buddy_inv b1"
    and fill: "kept {x} m m1"
  obtains m2 b2 where "map_range (P2V (frame_addr d)) (frame_addr x) (frame_addr n) 1 flag (m1, b1) = Inr (m2, b2)"
    and "grows flag d n 1 (m, b) (m2, b2)" and "holds d n flag (\<lambda>j. m1 (P2V (frame_addr x) + of_nat j)) (m2, b2)"
proof -
  have inv: "buddy_inv b" and sp: "dir_space (free_pages b) d m" using ok by (simp_all add: pmmf.space_ok_def)
  have d: "d < 2 ^ 20" "d \<noteq> x" "x \<notin> tables m d" using sp al(3) by (auto simp: dir_space_def dir_wf_def)
  have e: "ent m1 d i = ent m d i" if "i < 1024" for i using ent_kept [OF fill d(1) that] d(2) by simp
  have t: "entry_frame (ent m d i) \<noteq> x" if "i < 1024" "is_table (ent m d i)" for i using tablesI [OF that] d(3) by blast
  have te: "ent m1 f i = ent m f i" if "f < 2 ^ 20" "i < 1024" "f \<noteq> x" for f i using ent_kept [OF fill that(1,2)] that(3) by simp
  have "pmmf.space_ok d m b1" using ok al(4,5) by (auto simp: pmmf.space_ok_def dir_space_def)
  then have ok1: "pmmf.space_ok d m1 b1" "tables m1 d = tables m d"
    by (rule pmmf.space_ok_cong; simp add: e)+
  have i: "n div 1024 < 1024" using n by (simp add: less_mult_imp_div_less)
  have ne: "free_pages b1 \<noteq> {}"
  proof
    assume "free_pages b1 = {}"
    then have "free_pages b \<subseteq> {x}" using al(4) by blast
    then have "card (free_pages b) \<le> 1" using card_mono [of "{x}"] by simp
    with two show False by simp
  qed
  have pde1: "pde_ok flag (ent m1 d (n div 1024))" using pde e [OF i] by simp
  obtain m2 b2 where r: "map_range (P2V (frame_addr d)) (frame_addr x) (frame_addr n) 1 flag (m1, b1) = Inr (m2, b2)"
    "grows flag d n 1 (m1, b1) (m2, b2)" "walk m2 d n = Some (page_mapping flag x)"
    "card (free_pages b1) \<le> card (free_pages b2) + 1"
    by (rule map_page_grows [OF ok1(1) flag n al(2) ne pde1])
  note G = growsD [OF r(2)]
  have work1: "work d m1 b1 \<subseteq> work d m b" "x \<notin> work d m1 b1" "{x} \<subseteq> work d m b" using al(3,4) ok1(2) d by (auto simp: work_def)
  have wk: "walk m1 d q = walk m d q" if "q < 2 ^ 20" for q
  proof (rule walk_cong [OF that])
    have i: "q div 1024 < 1024" using that by (simp add: less_mult_imp_div_less)
    show "ent m1 d (q div 1024) = ent m d (q div 1024)" by (rule e [OF i])
    show "ent m1 (entry_frame (ent m d (q div 1024))) (q mod 1024) = ent m (entry_frame (ent m d (q div 1024))) (q mod 1024)"
      if "is_table (ent m d (q div 1024))"
      by (rule te [OF entry_frame_less _ t [OF i that]]) simp
  qed
  have "grows flag d n 1 (m, b) (m2, b2)"
  proof (rule growsI)
    show "work d m2 b2 \<subseteq> work d m b" "free_pages b2 \<subseteq> free_pages b" using G(2,3) work1(1) al(4) by blast+
    show "kept (work d m b) m m2" using kept_trans [OF kept_mono [OF fill work1(3)] kept_mono [OF G(4) work1(1)]] by simp
    have "card (free_pages b) = Suc (card (free_pages b1))"
      unfolding al(4) using card_Suc_Diff1 [OF pmmf.finite_free [OF inv] al(3)] by simp
    with r(4) show "card (free_pages b) \<le> card (free_pages b2) + 2 * 1" by simp
    show "walk m2 d q = walk m d q" if "q < 2 ^ 20" "q \<notin> {n..<n + 1}"
      "present (ent m d (q div 1024)) \<or> \<not> touched n 1 (q div 1024)" for q
    proof -
      have "q div 1024 < 1024" using that(1) by (simp add: less_mult_imp_div_less)
      with G(6) [OF that(1,2)] that(3) e wk [OF that(1)] show ?thesis by simp
    qed
    show "present (ent m2 d i) \<and> pde_ok flag (ent m2 d i)" if "i < 1024" "touched n 1 i" for i by (rule G(7) [OF that])
    show "ent m2 d i = ent m d i" if "i < 1024" "\<not> touched n 1 i" for i using G(8) [OF that] e [OF that(1)] by simp
  qed (rule G(1))
  moreover have "holds d n flag (\<lambda>j. m1 (P2V (frame_addr x) + of_nat j)) (m2, b2)"
    unfolding holds_def fst_conv snd_conv
  proof (intro exI [of _ x] conjI allI impI)
    show "x \<notin> work d m2 b2" using work1(2) G(2) by blast
    show "m2 (P2V (frame_addr x) + of_nat j) = m1 (P2V (frame_addr x) + of_nat j)" if "j < 4096" for j
      using G(4) frame_of_byte [OF al(2) that] work1(2) by (simp add: kept_def)
  qed (rule al(2) r(3))+
  ultimately show thesis using that r(1) by blast
qed

section \<open>Filling a page from the file\<close>

text \<open>Byte \<open>c\<close> of page \<open>j\<close> of a segment with \<open>fsz\<close> bytes in the file at \<open>src\<close>.\<close>

definition seg_byte :: "mem \<Rightarrow> u32 \<Rightarrow> nat \<Rightarrow> nat \<Rightarrow> nat \<Rightarrow> u8" where
  "seg_byte m src fsz j c = (if 4096 * j + c < fsz then m (src + of_nat (4096 * j + c)) else 0)"

definition fill_page :: "u32 \<Rightarrow> u32 \<Rightarrow> u32 \<Rightarrow> u32 \<Rightarrow> mem \<Rightarrow> mem \<times> u32" where
  "fill_page page src i rem m =
     (let m = kmemset m page 0 PAGE_SIZE
      in if rem \<noteq> 0 then let copying = (if rem > PAGE_SIZE then PAGE_SIZE else rem)
           in (kmemcpy m page (src + push_bit 12 i) copying, rem - copying)
         else (m, rem))"

lemma load_pages_step:
  "load_pages pd flags vaddr src needed i rem (m, b) =
     (if i < needed then
        bnd (pmm_alloc b 0) (\<lambda>(page, b). let (m, rem) = fill_page (P2V page) src i rem m
          in bnd (map_range pd page (vaddr + push_bit 12 i) 1 flags (m, b)) (load_pages pd flags vaddr src needed (i + 1) rem))
      else Inr (m, b))"
  by (simp add: load_pages.simps [of pd flags vaddr src needed i rem m b] fill_page_def Let_def split_def
      cong: if_cong)

lemma cleared_page:
  "x < 2 ^ 20 \<Longrightarrow> kmemset m (P2V (frame_addr x)) 0 PAGE_SIZE y = (if frame_of y = x then 0 else m y)"
  using frame_of_page [of x y] by (simp add: kmemset_at PAGE_SIZE_def)

lemma fill_page_ok:
  assumes x: "x < 2 ^ 20" and fsz: "fsz < 2 ^ 32" and src: "\<forall>c<fsz. frame_of (src + of_nat c) \<noteq> x"
    and r: "fill_page (P2V (frame_addr x)) src (of_nat i) (of_nat (fsz - 4096 * i)) m = (m', rem')"
  shows "kept {x} m m'" and "j < 4096 \<Longrightarrow> m' (P2V (frame_addr x) + of_nat j) = seg_byte m src fsz i j"
    and "rem' = of_nat (fsz - 4096 * Suc i)"
proof -
  let ?p = "P2V (frame_addr x)" and ?rem = "fsz - 4096 * i"
  define m1 where "m1 = kmemset m ?p 0 PAGE_SIZE"
  have m1: "m1 y = (if frame_of y = x then 0 else m y)" for y unfolding m1_def by (rule cleared_page [OF x])
  define c where "c = min ?rem 4096"
  have u: "unat (of_nat ?rem :: u32) = ?rem" using fsz by (simp add: unsigned_of_nat take_bit_nat_eq_self)
  have cp: "(if (of_nat ?rem :: u32) > PAGE_SIZE then PAGE_SIZE else of_nat ?rem) = of_nat c"
    using u by (auto simp: PAGE_SIZE_def word_less_nat_alt c_def min_def)
  have uc: "unat (of_nat c :: u32) = c" by (simp add: c_def unsigned_of_nat take_bit_nat_eq_self)
  have sh: "src + push_bit 12 (of_nat i) = src + of_nat (4096 * i)" by (simp add: push_bit_eq_mult mult.commute)
  have safe: "copy_safe c ?p (src + of_nat (4096 * i))"
  proof (rule ccontr)
    assume "\<not> copy_safe c ?p (src + of_nat (4096 * i))"
    then have lt: "unat (?p - (src + of_nat (4096 * i))) < c" by (simp add: copy_safe_def)
    define k where "k = unat (?p - (src + of_nat (4096 * i)))"
    have "?p = src + of_nat (4096 * i) + of_nat k" by (simp add: k_def)
    then have p: "?p = src + of_nat (4096 * i + k)" by (simp add: add.assoc)
    have "k < c" using lt by (simp only: k_def)
    then have "4096 * i + k < fsz" unfolding c_def by linarith
    then have "frame_of (src + of_nat (4096 * i + k)) \<noteq> x" using src by blast
    then have "frame_of ?p \<noteq> x" unfolding p .
    then show False using frame_of_byte [OF x, of 0] by simp
  qed
  have m': "m' = copies c ?p (src + of_nat (4096 * i)) m1" and rem': "rem' = of_nat ?rem - of_nat c"
  proof -
    have z: "(of_nat ?rem :: u32) = 0 \<longleftrightarrow> ?rem = 0" using fsz by (intro u32_of_nat_0) simp
    have k: "kmemcpy m1 ?p (src + of_nat (4096 * i)) (of_nat c) = copies c ?p (src + of_nat (4096 * i)) m1"
      using kmemcpy_at [of "of_nat c" ?p "src + of_nat (4096 * i)" m1] safe uc by simp
    show "m' = copies c ?p (src + of_nat (4096 * i)) m1" "rem' = of_nat ?rem - of_nat c"
    proof (atomize (full), cases "?rem = 0")
      case True
      then have "c = 0" by (simp add: c_def)
      then show "m' = copies c ?p (src + of_nat (4096 * i)) m1 \<and> rem' = of_nat ?rem - of_nat c"
        using r True by (auto simp: fill_page_def m1_def copies_def)
    next
      case False
      then show "m' = copies c ?p (src + of_nat (4096 * i)) m1 \<and> rem' = of_nat ?rem - of_nat c"
        using r z unfolding fill_page_def Let_def cp sh m1_def [symmetric] k by (simp only: if_False prod.inject) auto
    qed
  qed
  show "kept {x} m m'"
    unfolding kept_def m' copies_def
  proof (intro allI impI)
    fix y assume "frame_of y \<notin> {x}"
    moreover have "unat (y - ?p) < c \<Longrightarrow> frame_of y = x" using frame_of_page [OF x, of y] by (simp add: c_def)
    ultimately show "(if unat (y - ?p) < c then m1 (src + of_nat (4096 * i) + (y - ?p)) else m1 y) = m y"
      using m1 [of y] by auto
  qed
  show "m' (?p + of_nat j) = seg_byte m src fsz i j" if j: "j < 4096"
  proof -
    have uj: "unat (of_nat j :: u32) = j" using j by (simp add: unsigned_of_nat take_bit_nat_eq_self)
    have "src + of_nat (4096 * i) + of_nat j = src + of_nat (4096 * i + j)" by (simp add: add.assoc)
    moreover have "m1 (src + of_nat (4096 * i + j)) = m (src + of_nat (4096 * i + j))" if "4096 * i + j < fsz"
      using m1 [of "src + of_nat (4096 * i + j)"] src [rule_format, OF that] by simp
    moreover have "m1 (?p + of_nat j) = 0" using m1 frame_of_byte [OF x j] by simp
    moreover have "j < c \<longleftrightarrow> 4096 * i + j < fsz" using j by (auto simp: c_def)
    ultimately show ?thesis using uj by (simp add: m' copies_def seg_byte_def add.assoc)
  qed
  have "?rem = c + (fsz - 4096 * Suc i)" by (auto simp: c_def min_def)
  then have "(of_nat ?rem :: u32) = of_nat c + of_nat (fsz - 4096 * Suc i)" by (simp only: of_nat_add)
  then show "rem' = of_nat (fsz - 4096 * Suc i)" unfolding rem' by (simp only: add_diff_cancel_left')
qed

section \<open>Loading a segment\<close>

lemma seg_byte_cong:
  assumes "\<forall>c<fsz. m' (src + of_nat c) = m (src + of_nat c)"
  shows "seg_byte m' src fsz j = seg_byte m src fsz j"
  by (rule ext) (use assms in \<open>simp add: seg_byte_def del: of_nat_add of_nat_mult\<close>)

lemma load_pages_ok:
  assumes "pmmf.space_ok d m b" and "flag_ok flag" and "n0 + k \<le> 2 ^ 20" and "i \<le> k" and "fsz < 2 ^ 32"
    and "2 * (k - i) \<le> card (free_pages b)" and "\<forall>p<1024. touched (n0 + i) (k - i) p \<longrightarrow> pde_ok flag (ent m d p)"
    and "\<forall>c<fsz. frame_of (src + of_nat c) \<notin> work d m b"
  shows "\<exists>m' b'. load_pages (P2V (frame_addr d)) flag (frame_addr n0) src (of_nat k) (of_nat i) (of_nat (fsz - 4096 * i)) (m, b) =
      Inr (m', b') \<and> grows flag d (n0 + i) (k - i) (m, b) (m', b') \<and>
    (\<forall>j. i \<le> j \<and> j < k \<longrightarrow> holds d (n0 + j) flag (seg_byte m src fsz j) (m', b'))"
  using assms(1,4,6-8)
proof (induction "k - i" arbitrary: i m b)
  case 0
  then have "i = k" by simp
  with grows_refl [OF 0(2)] show ?case by (auto simp: load_pages_step)
next
  case (Suc r)
  then have ik: "i < k" by simp
  have k20: "k < 2 ^ 32" using assms(3) by simp
  have lt: "(of_nat i :: u32) < of_nat k"
    using ik k20 by (simp add: word_less_nat_alt unsigned_of_nat take_bit_nat_eq_self)
  have va: "frame_addr n0 + push_bit 12 (of_nat i) = frame_addr (n0 + i)"
    by (simp add: frame_addr_def push_bit_eq_mult algebra_simps)
  have inv: "buddy_inv b" using Suc.prems(1) by (simp add: pmmf.space_ok_def)
  have two: "2 \<le> card (free_pages b)" using Suc.prems(3) ik by linarith
  then have "free_pages b \<noteq> {}" by auto
  from page_available [OF inv this] obtain a b1 where al: "pmm_alloc b 0 = Inr (a, b1)" by blast
  from pmm_alloc_page [OF inv al] obtain x where x: "a = frame_addr x" "x < 2 ^ 20" "x \<in> free_pages b"
    "free_pages b1 = free_pages b - {x}" "buddy_inv b1" "page_n b1 = page_n b" "card (free_pages b) = Suc (card (free_pages b1))" .
  obtain m1 rem1 where f: "fill_page (P2V (frame_addr x)) src (of_nat i) (of_nat (fsz - 4096 * i)) m = (m1, rem1)" by fastforce
  have nx: "\<forall>c<fsz. frame_of (src + of_nat c) \<noteq> x" using Suc.prems(5) x(3) by (auto simp: work_def)
  note F = fill_page_ok [OF x(2) assms(5) nx f]
  have n: "n0 + i < 2 ^ 20" using ik assms(3) by simp
  have pde: "pde_ok flag (ent m d ((n0 + i) div 1024))"
    using Suc.prems(4) touched_first [of "k - i" "n0 + i"] ik n by (simp add: less_mult_imp_div_less)
  obtain m2 b2 where r: "map_range (P2V (frame_addr d)) (frame_addr x) (frame_addr (n0 + i)) 1 flag (m1, b1) = Inr (m2, b2)"
    "grows flag d (n0 + i) 1 (m, b) (m2, b2)" "holds d (n0 + i) flag (\<lambda>j. m1 (P2V (frame_addr x) + of_nat j)) (m2, b2)"
    by (rule add_page [OF Suc.prems(1) assms(2) n two pde al [unfolded x(1)] x(2-5) F(1)])
  note G = growsD [OF r(2)]
  have same: "m2 (src + of_nat c) = m (src + of_nat c)" if "c < fsz" for c
    using G(4) Suc.prems(5) that by (simp add: kept_def)
  have "r = k - Suc i" "Suc i \<le> k" "2 * (k - Suc i) \<le> card (free_pages b2)" using Suc.hyps(2) ik Suc.prems(3) G(5) by simp_all
  moreover have "\<forall>p<1024. touched (n0 + Suc i) (k - Suc i) p \<longrightarrow> pde_ok flag (ent m2 d p)"
  proof (intro allI impI)
    fix p :: nat assume p: "p < 1024" "touched (n0 + Suc i) (k - Suc i) p"
    show "pde_ok flag (ent m2 d p)"
    proof (cases "touched (n0 + i) 1 p")
      case True
      then show ?thesis using G(7) [OF p(1)] by simp
    next
      case False
      have "touched (n0 + i) (1 + (k - Suc i)) p" unfolding touched_add using p(2) by simp
      then have "touched (n0 + i) (k - i) p" using ik by (simp add: Suc_diff_Suc)
      then show ?thesis using G(8) [OF p(1) False] Suc.prems(4) p(1) by simp
    qed
  qed
  moreover have "\<forall>c<fsz. frame_of (src + of_nat c) \<notin> work d m2 b2" using Suc.prems(5) G(2) by blast
  ultimately obtain m' b' where IH:
    "load_pages (P2V (frame_addr d)) flag (frame_addr n0) src (of_nat k) (of_nat (Suc i)) (of_nat (fsz - 4096 * Suc i)) (m2, b2) = Inr (m', b')"
    "grows flag d (n0 + Suc i) (k - Suc i) (m2, b2) (m', b')"
    "\<forall>j. Suc i \<le> j \<and> j < k \<longrightarrow> holds d (n0 + j) flag (seg_byte m2 src fsz j) (m', b')"
    using Suc.hyps(1) [OF _ G(1)] by blast
  have "load_pages (P2V (frame_addr d)) flag (frame_addr n0) src (of_nat k) (of_nat i) (of_nat (fsz - 4096 * i)) (m, b) = Inr (m', b')"
    unfolding load_pages_step [of _ _ _ _ _ "of_nat i"] al x(1) using lt r(1) F(3) IH(1) by (simp add: f va add.commute)
  moreover have "grows flag d (n0 + i) (k - i) (m, b) (m', b')"
    using grows_trans [OF r(2), of "k - Suc i" m' b'] IH(2) ik by (simp add: Suc_diff_Suc)
  moreover have "holds d (n0 + j) flag (seg_byte m src fsz j) (m', b')" if j: "i \<le> j" "j < k" for j
  proof (cases "j = i")
    case True
    have "holds d (n0 + i) flag (seg_byte m src fsz i) (m2, b2)" using r(3) F(2) unfolding holds_def by simp
    from holds_grows [OF this IH(2) n] show ?thesis using True by simp
  next
    case False
    then have "Suc i \<le> j" using j(1) by simp
    moreover have "seg_byte m2 src fsz j = seg_byte m src fsz j" by (rule seg_byte_cong) (use same in blast)
    ultimately show ?thesis using IH(3) j(2) by metis
  qed
  ultimately show ?case by blast
qed

end
