(* ===== verification/Elf_Image.thy ===== *)
theory Elf_Image
  imports Elf_Load
begin

text \<open>
  Loading a whole program. \<open>image_ok\<close> describes a file the loader can deal with: the headers and the
  file contents are in frames the loader does not write to, the segments start on page boundaries,
  end below the kernel and do not share pages. \<open>extends\<close> relates an address space to what the loader
  makes of it.
\<close>

section \<open>Segments\<close>

definition seg_pages :: "Elf32_Phdr \<Rightarrow> nat" where
  "seg_pages cur = (if p_type cur = PT_LOAD then (unat (p_memsz cur) + 0xFFF) div 0x1000 else 0)"

definition seg_first :: "Elf32_Phdr \<Rightarrow> nat" where
  "seg_first cur = unat (p_vaddr cur) div 0x1000"

definition seg_end :: "Elf32_Phdr \<Rightarrow> nat" where
  "seg_end cur = (if p_type cur = PT_LOAD then seg_first cur + seg_pages cur else 0)"

definition seg_range :: "Elf32_Phdr \<Rightarrow> nat set" where
  "seg_range cur = {seg_first cur..<seg_first cur + seg_pages cur}"

definition KERNEL_PAGE :: nat where "KERNEL_PAGE = 0xC0000"

definition seg_ok :: "Elf32_Phdr \<Rightarrow> bool" where
  "seg_ok cur \<longleftrightarrow> 0x1000 dvd unat (p_vaddr cur) \<and> unat (p_memsz cur) + 0xFFF < 2 ^ 32 \<and>
     seg_first cur + seg_pages cur \<le> KERNEL_PAGE"

text \<open>Directory entries of the user's half: absent, or tables of user pages.\<close>

definition user_half :: "mem \<Rightarrow> nat \<Rightarrow> bool" where
  "user_half m d \<longleftrightarrow> (\<forall>p<768. pde_ok PAGE_USER (ent m d p))"

lemma seg_flags_bits:
  "flag_ok (seg_flags cur)" "bit (seg_flags cur) 2" "bit (seg_flags cur) 1 \<longleftrightarrow> p_segflags cur = 6"
  by (simp_all add: seg_flags_def flag_ok_def page_flag_defs PF_R_def PF_W_def Let_def bit_simps)

lemma pde_ok_user: "bit flag 2 \<Longrightarrow> pde_ok flag e = pde_ok PAGE_USER e"
  by (simp add: pde_ok_def flag_bits)

lemma touched_user: "touched n k p \<Longrightarrow> n + k \<le> KERNEL_PAGE \<Longrightarrow> p < 768"
  by (simp add: touched_def KERNEL_PAGE_def)

section \<open>Extending an address space\<close>

definition extends :: "nat \<Rightarrow> nat set \<Rightarrow> nat \<Rightarrow> mem \<times> buddy \<Rightarrow> mem \<times> buddy \<Rightarrow> bool" where
  "extends d R k st st' \<longleftrightarrow>
     pmmf.space_ok d (fst st') (snd st') \<and> work d (fst st') (snd st') \<subseteq> work d (fst st) (snd st) \<and>
     free_pages (snd st') \<subseteq> free_pages (snd st) \<and> kept (work d (fst st) (snd st)) (fst st) (fst st') \<and>
     card (free_pages (snd st)) \<le> card (free_pages (snd st')) + 2 * k \<and> user_half (fst st') d \<and>
     (\<forall>p<1024. 768 \<le> p \<longrightarrow> ent (fst st') d p = ent (fst st) d p) \<and>
     (\<forall>q<2 ^ 20. KERNEL_PAGE \<le> q \<longrightarrow> walk (fst st') d q = walk (fst st) d q) \<and>
     (\<forall>q<2 ^ 20. \<forall>flag c. q \<notin> R \<longrightarrow> holds d q flag c st \<longrightarrow> holds d q flag c st')"

lemma extendsD:
  assumes "extends d R k (m, b) (m', b')"
  shows "pmmf.space_ok d m' b'" "work d m' b' \<subseteq> work d m b" "free_pages b' \<subseteq> free_pages b" "kept (work d m b) m m'"
    "card (free_pages b) \<le> card (free_pages b') + 2 * k" "user_half m' d"
    "p < 1024 \<Longrightarrow> 768 \<le> p \<Longrightarrow> ent m' d p = ent m d p"
    "q < 2 ^ 20 \<Longrightarrow> KERNEL_PAGE \<le> q \<Longrightarrow> walk m' d q = walk m d q"
    "q < 2 ^ 20 \<Longrightarrow> q \<notin> R \<Longrightarrow> holds d q flag c (m, b) \<Longrightarrow> holds d q flag c (m', b')"
  using assms unfolding extends_def fst_conv snd_conv by metis+

lemma extendsI:
  assumes "pmmf.space_ok d m' b'" "work d m' b' \<subseteq> work d m b" "free_pages b' \<subseteq> free_pages b" "kept (work d m b) m m'"
    "card (free_pages b) \<le> card (free_pages b') + 2 * k" "user_half m' d"
    "\<And>p. p < 1024 \<Longrightarrow> 768 \<le> p \<Longrightarrow> ent m' d p = ent m d p"
    "\<And>q. q < 2 ^ 20 \<Longrightarrow> KERNEL_PAGE \<le> q \<Longrightarrow> walk m' d q = walk m d q"
    "\<And>q flag c. q < 2 ^ 20 \<Longrightarrow> q \<notin> R \<Longrightarrow> holds d q flag c (m, b) \<Longrightarrow> holds d q flag c (m', b')"
  shows "extends d R k (m, b) (m', b')"
  unfolding extends_def fst_conv snd_conv using assms by simp

lemma extends_refl: "pmmf.space_ok d m b \<Longrightarrow> user_half m d \<Longrightarrow> extends d {} 0 (m, b) (m, b)"
  by (rule extendsI) simp_all

lemma extends_trans:
  assumes a: "extends d R j (m, b) (m1, b1)" and c: "extends d R' k (m1, b1) (m2, b2)"
  shows "extends d (R \<union> R') (j + k) (m, b) (m2, b2)"
proof (rule extendsI)
  note A = extendsD [OF a] and C = extendsD [OF c]
  show "pmmf.space_ok d m2 b2" "work d m2 b2 \<subseteq> work d m b" "free_pages b2 \<subseteq> free_pages b"
    using A(1-3) C(1-3) by blast+
  show "kept (work d m b) m m2" using kept_trans [OF A(4) kept_mono [OF C(4) A(2)]] by simp
  show "card (free_pages b) \<le> card (free_pages b2) + 2 * (j + k)" using A(5) C(5) by simp
  show "user_half m2 d" by (rule C(6))
  show "ent m2 d p = ent m d p" if "p < 1024" "768 \<le> p" for p using A(7) [OF that] C(7) [OF that] by simp
  show "walk m2 d q = walk m d q" if "q < 2 ^ 20" "KERNEL_PAGE \<le> q" for q using A(8) [OF that] C(8) [OF that] by simp
  show "holds d q flag c (m2, b2)" if "q < 2 ^ 20" "q \<notin> R \<union> R'" "holds d q flag c (m, b)" for q flag c
    using A(9) [of q flag c] C(9) [of q flag c] that by simp
qed

lemma grows_extends:
  assumes g: "grows flag d n k (m, b) (m', b')" and "bit flag 2" and "n + k \<le> KERNEL_PAGE" and "user_half m d"
  shows "extends d {n..<n + k} k (m, b) (m', b')"
proof (rule extendsI)
  note G = growsD [OF g]
  show "user_half m' d" unfolding user_half_def
  proof (intro allI impI)
    fix p :: nat assume "p < 768"
    then show "pde_ok PAGE_USER (ent m' d p)"
      using G(7,8) [of p] assms(2,4) pde_ok_user [OF assms(2)] by (cases "touched n k p") (auto simp: user_half_def)
  qed
  have far: "\<not> touched n k p" if "768 \<le> p" for p using touched_user [OF _ assms(3), of p] that by linarith
  show "ent m' d p = ent m d p" if "p < 1024" "768 \<le> p" for p using G(8) far that by simp
  show "walk m' d q = walk m d q" if q: "q < 2 ^ 20" "KERNEL_PAGE \<le> q" for q
  proof (rule G(6) [OF q(1)])
    show "q \<notin> {n..<n + k}" using q(2) assms(3) by simp
    have "768 \<le> q div 1024" using q(2) by (simp add: KERNEL_PAGE_def)
    with far show "present (ent m d (q div 1024)) \<or> \<not> touched n k (q div 1024)" by blast
  qed
  show "holds d q f c (m', b')" if "q < 2 ^ 20" "q \<notin> {n..<n + k}" "holds d q f c (m, b)" for q f c
    by (rule holds_grows [OF that(3) g that(1,2)])
qed (rule growsD [OF g])+

section \<open>One segment\<close>

lemma load32_kept:
  assumes "kept W m m'" and "\<forall>c<4. frame_of (a + of_nat c) \<notin> W"
  shows "load32 m' a = load32 m a"
  by (rule load32_cong) (use assms in \<open>simp add: kept_def\<close>)

lemma phdr_kept:
  assumes "kept W m m'" and "\<forall>c<32. frame_of (a + of_nat c) \<notin> W"
  shows "phdr_at m' a = phdr_at m a"
proof -
  have "load32 m' (a + of_nat j) = load32 m (a + of_nat j)" if "j + 4 \<le> 32" for j
  proof (rule load32_kept [OF assms(1)], intro allI impI)
    fix c :: nat assume "c < 4"
    then have "frame_of (a + of_nat (j + c)) \<notin> W" using that by (intro assms(2) [rule_format]) simp
    then show "frame_of (a + of_nat j + of_nat c) \<notin> W" by (simp add: add.assoc)
  qed
  from this [of 0] this [of 4] this [of 8] this [of 12] this [of 16] this [of 20] this [of 24] this [of 28]
  show ?thesis by (simp add: phdr_at_def)
qed

text \<open>Where the loader finds a segment, and that it does not overwrite it.\<close>

definition seg_safe :: "nat \<Rightarrow> mem \<times> buddy \<Rightarrow> u32 \<Rightarrow> u32 \<Rightarrow> bool" where
  "seg_safe d st elf a \<longleftrightarrow>
     (let W = work d (fst st) (snd st); cur = phdr_at (fst st) a
      in (\<forall>c<32. frame_of (a + of_nat c) \<notin> W) \<and>
         (p_type cur = PT_LOAD \<longrightarrow> seg_ok cur \<and> (\<forall>c<unat (p_filesz cur). frame_of (elf + p_offset cur + of_nat c) \<notin> W)))"

text \<open>What a loaded segment looks like in the address space.\<close>

definition seg_loaded :: "nat \<Rightarrow> mem \<Rightarrow> u32 \<Rightarrow> Elf32_Phdr \<Rightarrow> mem \<times> buddy \<Rightarrow> bool" where
  "seg_loaded d m elf cur st \<longleftrightarrow>
     (\<forall>j < seg_pages cur. holds d (seg_first cur + j) (seg_flags cur) (seg_byte m (elf + p_offset cur) (unat (p_filesz cur)) j) st)"

lemma frame_addr_div: "0x1000 dvd unat a \<Longrightarrow> frame_addr (unat a div 0x1000) = a"
proof -
  assume "0x1000 dvd unat a"
  then have "0x1000 * (of_nat (unat a div 0x1000) :: u32) = of_nat (unat a)" by (metis dvd_mult_div_cancel of_nat_mult of_nat_numeral)
  then show ?thesis by (simp add: frame_addr_def)
qed

lemma load_segment_ok:
  assumes ok: "pmmf.space_ok d m b" and uh: "user_half m d" and safe: "seg_safe d (m, b) elf (phdrs + SIZEOF_PHDR * idx)"
    and cur: "cur = phdr_at m (phdrs + SIZEOF_PHDR * idx)" and fr: "2 * seg_pages cur \<le> card (free_pages b)"
  obtains m' b' where "load_segment idx phdrs (P2V (frame_addr d)) elf (m, b) = Inr (frame_addr (seg_end cur), m', b')"
    and "extends d (seg_range cur) (seg_pages cur) (m, b) (m', b')" and "seg_loaded d m elf cur (m', b')"
proof (cases "p_type cur = PT_LOAD")
  case False
  then have "load_segment idx phdrs (P2V (frame_addr d)) elf (m, b) = Inr (frame_addr (seg_end cur), m, b)"
    unfolding load_segment_def Let_def fst_conv cur [symmetric] by (simp add: seg_end_def frame_addr_def)
  moreover have "seg_range cur = {}" "seg_pages cur = 0" using False by (simp_all add: seg_range_def seg_pages_def)
  ultimately show thesis using that [of m b] extends_refl [OF ok uh] by (simp add: seg_loaded_def)
next
  case True
  let ?k = "seg_pages cur" and ?n = "seg_first cur" and ?fsz = "unat (p_filesz cur)"
  have hdr: "\<forall>c<32. frame_of (phdrs + SIZEOF_PHDR * idx + of_nat c) \<notin> work d m b"
    and sok: "seg_ok cur" and src: "\<forall>c<?fsz. frame_of (elf + p_offset cur + of_nat c) \<notin> work d m b"
    using safe True unfolding seg_safe_def Let_def fst_conv snd_conv cur [symmetric] by blast+
  have lim: "?n + ?k \<le> KERNEL_PAGE" "unat (p_memsz cur) + 0xFFF < 2 ^ 32" "frame_addr ?n = p_vaddr cur"
    using sok frame_addr_div [of "p_vaddr cur"] by (simp_all add: seg_ok_def seg_first_def)
  have needed: "drop_bit 12 (ALIGN_UP (p_memsz cur) PAGE_SIZE) = of_nat ?k"
  proof (subst word_unat_eq_iff)
    have "unat (drop_bit 12 (ALIGN_UP (p_memsz cur) PAGE_SIZE)) = unat (ALIGN_UP (p_memsz cur) 0x1000) div 0x1000"
      by (simp add: unat_drop_bit_eq drop_bit_eq_div PAGE_SIZE_def unat_div_distrib)
    also have "\<dots> = ?k" using ALIGN_UP_page [OF lim(2)] True by (simp add: seg_pages_def)
    also have "\<dots> = unat (of_nat ?k :: u32)" using lim(1) by (simp add: unsigned_of_nat take_bit_nat_eq_self KERNEL_PAGE_def)
    finally show "unat (drop_bit 12 (ALIGN_UP (p_memsz cur) PAGE_SIZE)) = unat (of_nat ?k :: u32)" .
  qed
  have pdes: "\<forall>p<1024. touched (?n + 0) (?k - 0) p \<longrightarrow> pde_ok (seg_flags cur) (ent m d p)"
    using uh touched_user [OF _ lim(1)] pde_ok_user [OF seg_flags_bits(2)] by (simp add: user_half_def)
  have "\<exists>m' b'. load_pages (P2V (frame_addr d)) (seg_flags cur) (frame_addr ?n) (elf + p_offset cur) (of_nat ?k) (of_nat 0)
      (of_nat (?fsz - 4096 * 0)) (m, b) = Inr (m', b') \<and> grows (seg_flags cur) d (?n + 0) (?k - 0) (m, b) (m', b') \<and>
    (\<forall>j. 0 \<le> j \<and> j < ?k \<longrightarrow> holds d (?n + j) (seg_flags cur) (seg_byte m (elf + p_offset cur) ?fsz j) (m', b'))"
    by (rule load_pages_ok [OF ok seg_flags_bits(1) _ _ _ _ pdes src])
      (use lim(1) fr unsigned_less [of "p_filesz cur"] in \<open>simp_all add: KERNEL_PAGE_def\<close>)
  then obtain m' b' where l: "load_pages (P2V (frame_addr d)) (seg_flags cur) (p_vaddr cur) (elf + p_offset cur) (of_nat ?k) 0
      (p_filesz cur) (m, b) = Inr (m', b')" "grows (seg_flags cur) d ?n ?k (m, b) (m', b')"
    "\<forall>j<?k. holds d (?n + j) (seg_flags cur) (seg_byte m (elf + p_offset cur) ?fsz j) (m', b')"
    unfolding lim(3) by auto
  have cur': "phdr_at m' (phdrs + SIZEOF_PHDR * idx) = cur"
    unfolding cur by (rule phdr_kept [OF growsD(4) [OF l(2)] hdr])
  have en: "p_vaddr cur + push_bit 12 (of_nat ?k) = frame_addr (?n + ?k)"
    unfolding lim(3) [symmetric] by (simp add: frame_addr_def push_bit_eq_mult algebra_simps)
  have "load_segment idx phdrs (P2V (frame_addr d)) elf (m, b) = Inr (frame_addr (seg_end cur), m', b')"
    unfolding load_segment_def Let_def fst_conv cur [symmetric] needed using True l(1) cur' en by (simp add: seg_end_def)
  moreover have "extends d (seg_range cur) ?k (m, b) (m', b')"
    unfolding seg_range_def by (rule grows_extends [OF l(2) seg_flags_bits(2) lim(1) uh])
  moreover have "seg_loaded d m elf cur (m', b')" using l(3) by (simp add: seg_loaded_def)
  ultimately show thesis using that by blast
qed

section \<open>All segments\<close>

abbreviation phdr_no :: "mem \<Rightarrow> u32 \<Rightarrow> nat \<Rightarrow> Elf32_Phdr" where
  "phdr_no m phdrs j \<equiv> phdr_at m (phdrs + SIZEOF_PHDR * of_nat j)"

definition seg_total :: "mem \<Rightarrow> u32 \<Rightarrow> nat set \<Rightarrow> nat" where
  "seg_total m phdrs J = (\<Sum>j\<in>J. seg_pages (phdr_no m phdrs j))"

definition seg_union :: "mem \<Rightarrow> u32 \<Rightarrow> nat set \<Rightarrow> nat set" where
  "seg_union m phdrs J = (\<Union>j\<in>J. seg_range (phdr_no m phdrs j))"

definition last_page :: "mem \<Rightarrow> u32 \<Rightarrow> nat set \<Rightarrow> nat" where
  "last_page m phdrs J = Max (insert 0 ((\<lambda>j. seg_end (phdr_no m phdrs j)) ` J))"

lemma seg_end_lim: "p_type cur = PT_LOAD \<longrightarrow> seg_ok cur \<Longrightarrow> seg_end cur \<le> KERNEL_PAGE"
  by (auto simp: seg_ok_def seg_end_def)

lemma seg_safe_kept:
  assumes s: "seg_safe d (m, b) elf a" and k: "kept (work d m b) m m'" and w: "work d' m' b' \<subseteq> work d m b"
  shows "seg_safe d' (m', b') elf a" and "phdr_at m' a = phdr_at m a"
proof -
  have h: "\<forall>c<32. frame_of (a + of_nat c) \<notin> work d m b" using s unfolding seg_safe_def Let_def fst_conv snd_conv by blast
  show eq: "phdr_at m' a = phdr_at m a" by (rule phdr_kept [OF k h])
  show "seg_safe d' (m', b') elf a"
    using s w unfolding seg_safe_def Let_def fst_conv snd_conv eq by blast
qed

lemma seg_loaded_kept:
  assumes s: "seg_safe d (m, b) elf a" and k: "kept (work d m b) m m'" and c: "cur = phdr_at m a"
  shows "seg_loaded d' m' elf cur st = seg_loaded d' m elf cur st"
proof (cases "p_type cur = PT_LOAD")
  case True
  then have "\<forall>i<unat (p_filesz cur). frame_of (elf + p_offset cur + of_nat i) \<notin> work d m b"
    using s unfolding seg_safe_def Let_def fst_conv snd_conv c by blast
  then have "\<forall>i<unat (p_filesz cur). m' (elf + p_offset cur + of_nat i) = m (elf + p_offset cur + of_nat i)"
    using k by (simp add: kept_def)
  from seg_byte_cong [OF this] show ?thesis by (simp add: seg_loaded_def)
qed (simp add: seg_loaded_def seg_pages_def)

lemma seg_loaded_extends:
  assumes "seg_loaded d m elf cur (m1, b1)" and "extends d R k (m1, b1) (m2, b2)" and "seg_range cur \<inter> R = {}"
    and "p_type cur = PT_LOAD \<longrightarrow> seg_ok cur"
  shows "seg_loaded d m elf cur (m2, b2)"
  unfolding seg_loaded_def
proof (intro allI impI)
  fix j assume j: "j < seg_pages cur"
  then have "p_type cur = PT_LOAD" by (auto simp: seg_pages_def split: if_splits)
  with assms(4) have "seg_first cur + seg_pages cur \<le> KERNEL_PAGE" by (simp add: seg_ok_def)
  then have q: "seg_first cur + j < 2 ^ 20" using j by (simp add: KERNEL_PAGE_def)
  moreover have "seg_first cur + j \<in> seg_range cur" using j by (simp add: seg_range_def)
  then have "seg_first cur + j \<notin> R" using assms(3) by blast
  ultimately show "holds d (seg_first cur + j) (seg_flags cur) (seg_byte m (elf + p_offset cur) (unat (p_filesz cur)) j) (m2, b2)"
    using extendsD(9) [OF assms(2)] assms(1) j by (simp add: seg_loaded_def)
qed

lemma frame_addr_max:
  assumes "x \<le> KERNEL_PAGE" and "y \<le> KERNEL_PAGE"
  shows "(if frame_addr x > frame_addr y then frame_addr x else frame_addr y) = frame_addr (max y x)"
  using assms by (auto simp: word_less_nat_alt unat_frame_addr KERNEL_PAGE_def max_def)

lemma load_segments_ok:
  assumes "pmmf.space_ok d m b" and "user_half m d" and "\<forall>j\<in>{i..<i + n}. seg_safe d (m, b) elf (phdrs + SIZEOF_PHDR * of_nat j)"
    and "2 * seg_total m phdrs {i..<i + n} \<le> card (free_pages b)" and "l \<le> KERNEL_PAGE"
    and "\<forall>j\<in>{i..<i + n}. \<forall>j'\<in>{i..<i + n}. j \<noteq> j' \<longrightarrow> seg_range (phdr_no m phdrs j) \<inter> seg_range (phdr_no m phdrs j') = {}"
  shows "\<exists>m' b'. load_segments n (of_nat i) phdrs (P2V (frame_addr d)) elf (frame_addr l) (m, b) =
      Inr (frame_addr (max l (last_page m phdrs {i..<i + n})), m', b') \<and>
    extends d (seg_union m phdrs {i..<i + n}) (seg_total m phdrs {i..<i + n}) (m, b) (m', b') \<and>
    (\<forall>j\<in>{i..<i + n}. seg_loaded d m elf (phdr_no m phdrs j) (m', b'))"
  using assms
proof (induction n arbitrary: i m b l)
  case 0
  then show ?case using extends_refl [OF 0(1,2)] by (simp add: seg_union_def seg_total_def last_page_def)
next
  case (Suc n)
  define I where "I = {i..<i + Suc n}"
  define J where "J = {Suc i..<Suc i + n}"
  have split: "I = insert i J" "i \<notin> J" "finite J" by (auto simp: I_def J_def)
  note prems = Suc.prems [folded I_def] and IHyp = Suc.IH [of _ _ "Suc i", folded J_def]
  let ?cur = "phdr_no m phdrs i"
  have safe: "seg_safe d (m, b) elf (phdrs + SIZEOF_PHDR * of_nat i)" using prems(3) split(1) by simp
  have tot: "seg_total m phdrs I = seg_pages ?cur + seg_total m phdrs J"
    unfolding split(1) seg_total_def using split(2,3) by simp
  have fr: "2 * seg_pages ?cur \<le> card (free_pages b)" using prems(4) tot by simp
  obtain m1 b1 where 1: "load_segment (of_nat i) phdrs (P2V (frame_addr d)) elf (m, b) = Inr (frame_addr (seg_end ?cur), m1, b1)"
    "extends d (seg_range ?cur) (seg_pages ?cur) (m, b) (m1, b1)" "seg_loaded d m elf ?cur (m1, b1)"
    by (rule load_segment_ok [OF prems(1,2) safe refl fr])
  note E = extendsD [OF 1(2)]
  have safe1: "\<forall>j\<in>J. seg_safe d (m1, b1) elf (phdrs + SIZEOF_PHDR * of_nat j)"
    and keep: "\<forall>j\<in>J. phdr_no m1 phdrs j = phdr_no m phdrs j"
    using prems(3) split(1) by (simp_all add: seg_safe_kept [OF _ E(4,2), where elf = elf])
  have tot1: "seg_total m1 phdrs J = seg_total m phdrs J" and un1: "seg_union m1 phdrs J = seg_union m phdrs J"
    and la1: "last_page m1 phdrs J = last_page m phdrs J"
    using keep by (simp_all add: seg_total_def seg_union_def last_page_def)
  have sok: "p_type ?cur = PT_LOAD \<longrightarrow> seg_ok ?cur" using safe unfolding seg_safe_def Let_def fst_conv by blast
  have fr1: "2 * seg_total m1 phdrs J \<le> card (free_pages b1)" using prems(4) E(5) unfolding tot tot1 by simp
  have l1: "max l (seg_end ?cur) \<le> KERNEL_PAGE" using prems(5) seg_end_lim [OF sok] by simp
  have dis: "\<forall>j\<in>J. \<forall>j'\<in>J. j \<noteq> j' \<longrightarrow> seg_range (phdr_no m1 phdrs j) \<inter> seg_range (phdr_no m1 phdrs j') = {}"
    using prems(6) keep split(1) by simp
  from IHyp [OF E(1,6) safe1 fr1 l1 dis] obtain m' b' where IH:
    "load_segments n (of_nat (Suc i)) phdrs (P2V (frame_addr d)) elf (frame_addr (max l (seg_end ?cur))) (m1, b1) =
      Inr (frame_addr (max (max l (seg_end ?cur)) (last_page m1 phdrs J)), m', b')"
    "extends d (seg_union m1 phdrs J) (seg_total m1 phdrs J) (m1, b1) (m', b')"
    "\<forall>j\<in>J. seg_loaded d m1 elf (phdr_no m1 phdrs j) (m', b')" by blast
  have la: "last_page m phdrs I = max (seg_end ?cur) (last_page m phdrs J)"
    unfolding split(1) last_page_def image_insert insert_commute [of 0] using split(3) by (subst Max_insert) auto
  have "load_segments (Suc n) (of_nat i) phdrs (P2V (frame_addr d)) elf (frame_addr l) (m, b) =
      Inr (frame_addr (max l (last_page m phdrs I)), m', b')"
    using IH(1) unfolding la la1 load_segments.simps 1(1)
    by (simp add: frame_addr_max [OF seg_end_lim [OF sok] prems(5)] add.commute max.assoc)
  moreover have "extends d (seg_union m phdrs I) (seg_total m phdrs I) (m, b) (m', b')"
    using extends_trans [OF 1(2) IH(2)] unfolding tot1 un1 tot by (simp add: split(1) seg_union_def)
  moreover have "seg_loaded d m elf ?cur (m', b')"
  proof (rule seg_loaded_extends [OF 1(3) IH(2) _ sok])
    have "seg_range ?cur \<inter> seg_range (phdr_no m phdrs j) = {}" if "j \<in> J" for j
      by (rule prems(6) [THEN bspec, THEN bspec, THEN mp]) (use that split(1,2) in auto)
    then show "seg_range ?cur \<inter> seg_union m1 phdrs J = {}" unfolding un1 unfolding seg_union_def Int_UN_distrib by simp
  qed
  moreover have "seg_loaded d m elf (phdr_no m phdrs j) (m', b')" if j: "j \<in> J" for j
  proof -
    have "seg_safe d (m, b) elf (phdrs + SIZEOF_PHDR * of_nat j)" using prems(3) j split(1) by blast
    from seg_loaded_kept [OF this E(4) refl] bspec [OF IH(3) j] bspec [OF keep j] show ?thesis by simp
  qed
  ultimately show ?case unfolding I_def [symmetric]
    by (intro exI [of _ m'] exI [of _ b']) (simp add: split(1))
qed

section \<open>Whole images\<close>

definition hdr_count :: "mem \<Rightarrow> u32 \<Rightarrow> nat" where
  "hdr_count m elf = unat (e_phnum (ehdr_at m elf))"

definition hdr_base :: "mem \<Rightarrow> u32 \<Rightarrow> u32" where
  "hdr_base m elf = elf + e_phoff (ehdr_at m elf)"

definition seg_no :: "mem \<Rightarrow> u32 \<Rightarrow> nat \<Rightarrow> Elf32_Phdr" where
  "seg_no m elf j = phdr_no m (hdr_base m elf) j"

definition image_pages :: "mem \<Rightarrow> u32 \<Rightarrow> nat" where
  "image_pages m elf = (\<Sum>j<hdr_count m elf. seg_pages (seg_no m elf j))"

definition image_end :: "mem \<Rightarrow> u32 \<Rightarrow> nat" where
  "image_end m elf = Max (insert 0 ((\<lambda>j. seg_end (seg_no m elf j)) ` {..<hdr_count m elf}))"

definition image_ok :: "nat \<Rightarrow> mem \<times> buddy \<Rightarrow> u32 \<Rightarrow> bool" where
  "image_ok d st elf \<longleftrightarrow>
     (let m = fst st
      in map (\<lambda>i. m (elf + of_nat i)) [0..<4] = verify \<and>
         (\<forall>c<52. frame_of (elf + of_nat c) \<notin> work d m (snd st)) \<and>
         (\<forall>j<hdr_count m elf. seg_safe d st elf (hdr_base m elf + SIZEOF_PHDR * of_nat j)) \<and>
         (\<forall>j<hdr_count m elf. \<forall>j'<hdr_count m elf. j \<noteq> j' \<longrightarrow> seg_range (seg_no m elf j) \<inter> seg_range (seg_no m elf j') = {}))"

lemma ehdr_kept:
  assumes "kept W m m'" and "\<forall>c<52. frame_of (a + of_nat c) \<notin> W"
  shows "e_phnum (ehdr_at m' a) = e_phnum (ehdr_at m a)" and "e_phoff (ehdr_at m' a) = e_phoff (ehdr_at m a)"
    and "e_entry (ehdr_at m' a) = e_entry (ehdr_at m a)" and "c < 52 \<Longrightarrow> m' (a + of_nat c) = m (a + of_nat c)"
proof -
  have b: "m' (a + of_nat c) = m (a + of_nat c)" if "c < 52" for c using assms that by (simp add: kept_def)
  then show "c < 52 \<Longrightarrow> m' (a + of_nat c) = m (a + of_nat c)" .
  have l: "load32 m' (a + of_nat j) = load32 m (a + of_nat j)" if "j + 4 \<le> 52" for j
  proof (rule load32_cong)
    fix k :: nat assume "k < 4"
    with b [of "j + k"] that show "m' (a + of_nat j + of_nat k) = m (a + of_nat j + of_nat k)" by (simp add: add.assoc)
  qed
  from l [of 24] l [of 28] b [of 44] b [of 45] show "e_phnum (ehdr_at m' a) = e_phnum (ehdr_at m a)"
    "e_phoff (ehdr_at m' a) = e_phoff (ehdr_at m a)" "e_entry (ehdr_at m' a) = e_entry (ehdr_at m a)"
    by (simp_all add: ehdr_at_def load16_def add.assoc)
qed

text \<open>An image stays what it is while only frames outside it change.\<close>

lemma image_kept:
  assumes i: "image_ok d (m, b) elf" and k: "kept (work d m b) m m'" and w: "work d' m' b' \<subseteq> work d m b"
  shows "image_ok d' (m', b') elf" and "hdr_count m' elf = hdr_count m elf"
    and "j < hdr_count m elf \<Longrightarrow> seg_no m' elf j = seg_no m elf j" and "e_entry (ehdr_at m' elf) = e_entry (ehdr_at m elf)"
    and "image_pages m' elf = image_pages m elf" and "image_end m' elf = image_end m elf"
proof -
  note I = i [unfolded image_ok_def Let_def fst_conv snd_conv]
  have h: "\<forall>c<52. frame_of (elf + of_nat c) \<notin> work d m b" and s: "\<forall>j<hdr_count m elf. seg_safe d (m, b) elf (hdr_base m elf + SIZEOF_PHDR * of_nat j)"
    using I by blast+
  note e = ehdr_kept [OF k h]
  show hc: "hdr_count m' elf = hdr_count m elf" by (simp add: hdr_count_def e(1))
  have hb: "hdr_base m' elf = hdr_base m elf" by (simp add: hdr_base_def e(2))
  show "e_entry (ehdr_at m' elf) = e_entry (ehdr_at m elf)" by (rule e(3))
  show sn: "seg_no m' elf j = seg_no m elf j" if "j < hdr_count m elf" for j
    unfolding seg_no_def hb by (rule seg_safe_kept(2) [OF s [rule_format, OF that] k w])
  show "image_pages m' elf = image_pages m elf" "image_end m' elf = image_end m elf"
    using sn by (simp_all add: image_pages_def image_end_def hc cong: image_cong_simp)
  have safe: "\<forall>j<hdr_count m elf. seg_safe d' (m', b') elf (hdr_base m elf + SIZEOF_PHDR * of_nat j)"
    using seg_safe_kept(1) [OF _ k w] s by blast
  have ver: "map (\<lambda>i. m' (elf + of_nat i)) [0..<4] = map (\<lambda>i. m (elf + of_nat i)) [0..<4]"
    by (rule map_cong) (simp_all add: e(4) del: of_nat_add)
  show "image_ok d' (m', b') elf"
    unfolding image_ok_def Let_def fst_conv snd_conv hc hb ver
    using I safe w sn by (simp add: subset_iff) blast
qed

lemma load_elf_ok:
  assumes "pmmf.space_ok d m b" and "user_half m d" and i: "image_ok d (m, b) elf" and "2 * image_pages m elf \<le> card (free_pages b)"
  obtains m' b' where "load_elf (P2V (frame_addr d)) elf (m, b) = Inr (frame_addr (image_end m elf), m', b')"
    and "extends d (\<Union>j<hdr_count m elf. seg_range (seg_no m elf j)) (image_pages m elf) (m, b) (m', b')"
    and "\<forall>j<hdr_count m elf. seg_loaded d m elf (seg_no m elf j) (m', b')"
proof -
  note I = i [unfolded image_ok_def Let_def fst_conv snd_conv]
  have r: "{0..<0 + n} = {..<n}" for n :: nat by auto
  have "\<exists>m' b'. load_segments (hdr_count m elf) (of_nat 0) (hdr_base m elf) (P2V (frame_addr d)) elf (frame_addr 0) (m, b) =
      Inr (frame_addr (max 0 (last_page m (hdr_base m elf) {0..<0 + hdr_count m elf})), m', b') \<and>
    extends d (seg_union m (hdr_base m elf) {0..<0 + hdr_count m elf}) (seg_total m (hdr_base m elf) {0..<0 + hdr_count m elf}) (m, b) (m', b') \<and>
    (\<forall>j\<in>{0..<0 + hdr_count m elf}. seg_loaded d m elf (phdr_no m (hdr_base m elf) j) (m', b'))"
    by (rule load_segments_ok [OF assms(1,2)])
      (use I assms(4) in \<open>simp_all add: seg_total_def image_pages_def seg_no_def atLeast0LessThan\<close>)
  then obtain m' b' where "load_segments (hdr_count m elf) 0 (hdr_base m elf) (P2V (frame_addr d)) elf 0 (m, b) =
      Inr (frame_addr (image_end m elf), m', b')"
    "extends d (\<Union>j<hdr_count m elf. seg_range (seg_no m elf j)) (image_pages m elf) (m, b) (m', b')"
    "\<forall>j<hdr_count m elf. seg_loaded d m elf (seg_no m elf j) (m', b')"
    unfolding r by (auto simp: frame_addr_def last_page_def image_end_def seg_union_def seg_total_def image_pages_def seg_no_def)
  moreover from this(1) I have "load_elf (P2V (frame_addr d)) elf (m, b) = Inr (frame_addr (image_end m elf), m', b')"
    by (simp add: load_elf_def hdr_count_def hdr_base_def)
  ultimately show thesis using that by blast
qed

end
