(* ===== verification/Process.thy ===== *)
theory Process
  imports Thread_Props Elf_Image
begin

text \<open>
  Processes (\<open>process/process.c\<close>): the address space, the user stack, the kernel stack that
  \<open>launch_process\<close> starts from, and the thread. \<open>launch\<close> is the address of \<open>launch_process\<close>.
\<close>

section \<open>Definitions\<close>

record KStackInfo =
  kernel_stack_base :: u32
  kernel_esp :: u32

definition setup_kerenl_stack :: "u32 \<Rightarrow> u32 \<Rightarrow> u32 \<Rightarrow> sys \<Rightarrow> (KStackInfo \<times> sys) res" where
  "setup_kerenl_stack launch entry user_esp s =
     bnd (sys_kmalloc 0x1000 s) (\<lambda>(stack, s).
     bnd (deref stack) (\<lambda>stack.
     let (esp, m) = fold push32
           [push_bit 3 4 OR 0 OR 3, user_esp, push_bit 9 1, push_bit 3 3 OR 0 OR 3, entry, launch, 0, 0, 0, 0, 0, 0, 0, 0]
           (stack + 0x1000, kmem s)
     in Inr (\<lparr>kernel_stack_base = stack, kernel_esp = esp\<rparr>, s\<lparr>kmem := m\<rparr>)))"

text \<open>Calls of routines that work on the memory and the page allocator.\<close>

definition on_pages :: "(mem \<times> buddy \<Rightarrow> ('a \<times> mem \<times> buddy) res) \<Rightarrow> sys \<Rightarrow> ('a \<times> sys) res" where
  "on_pages f s = bnd (f (kmem s, pages (heap_st s))) (\<lambda>(r, m, b). Inr (r, s\<lparr>kmem := m, heap_st := (heap_st s)\<lparr>pages := b\<rparr>\<rparr>))"

definition create_process :: "u32 \<Rightarrow> u32 \<Rightarrow> u32 \<Rightarrow> sys \<Rightarrow> (u32 \<times> sys) res" where
  "create_process launch kpd elf_hdr s =
     bnd (sys_pmm_alloc 0 s) (\<lambda>(a, s).
     let process_pd = P2V a;
         s = s\<lparr>kmem := kmemcpy (kmem s) process_pd kpd 0x1000\<rparr>
     in bnd (on_pages (load_elf process_pd elf_hdr) s) (\<lambda>(stack_base, s).
     bnd (sys_pmm_alloc 0 s) (\<lambda>(user_stack, s).
     let user_esp = stack_base + 0x1000;
         entry = e_entry (ehdr_at (kmem s) elf_hdr)
     in bnd (on_pages (\<lambda>st. bnd (map_range process_pd user_stack stack_base 1 (PAGE_USER OR PAGE_PRESENT OR PAGE_RW) st)
              (\<lambda>st. Inr ((), st))) s) (\<lambda>(_, s).
     bnd (setup_kerenl_stack launch entry user_esp s) (\<lambda>(stack_info, s).
     bnd (sys_kmalloc sizeof_Thread s) (\<lambda>(thread, s).
     bnd (deref thread) (\<lambda>thread.
       Inr (thread, start_thread thread (kernel_esp stack_info) (kernel_stack_base stack_info) process_pd s))))))))"

section \<open>Pages taken while mapping\<close>

definition takes :: "buddy \<Rightarrow> buddy \<Rightarrow> bool" where
  "takes b b' \<longleftrightarrow> (\<exists>a. pmm_alloc b 0 = Inr (a, b'))"

lemma get_table_takes:
  assumes "get_table pmm_frame pd pde flag (m, b) = Inr (pt, m', b')"
  shows "takes\<^sup>*\<^sup>* b b'"
proof (cases "load32 m (pd + 4 * pde) AND PAGE_PRESENT = 0")
  case True
  with assms have "takes b b'"
    by (cases "pmm_alloc b 0") (auto simp: get_table_def pmm_frame_def takes_def)
  then show ?thesis by blast
next
  case False
  with assms show ?thesis by (simp add: get_table_def)
qed

lemma map_loop_takes:
  "map_loop pmm_frame pd flag pde pte pt paddr vaddr sz (m, b) = Inr (m', b') \<Longrightarrow> takes\<^sup>*\<^sup>* b b'"
proof (induction "unat sz" arbitrary: pde pte pt paddr vaddr sz m b rule: less_induct)
  case less
  show ?case
  proof (cases "sz = 0")
    case True
    with less.prems show ?thesis by simp
  next
    case nz: False
    show ?thesis
    proof (cases "IS_ALIGNED vaddr FOUR_MB \<and> IS_ALIGNED paddr FOUR_MB \<and> sz \<ge> 1024")
      case True
      then have "unat (sz - 1024) < unat sz" using nz by (simp add: unat_sub word_le_nat_alt)
      from less.hyps [OF this] less.prems nz True show ?thesis
        by (subst (asm) (2) map_loop.simps) (simp only: if_False if_True simp_thms)
    next
      case False
      have lt: "unat (sz - 1) < unat sz" using nz by (simp add: unat_sub word_le_nat_alt unat_gt_0 Suc_le_eq)
      obtain pt' m1 b1 where g: "(if pte = 0 \<or> pt = 0 then get_table pmm_frame pd pde flag (m, b) else Inr (pt, m, b)) = Inr (pt', m1, b1)"
        using less.prems nz False
        by (subst (asm) map_loop.simps, cases "if pte = 0 \<or> pt = 0 then get_table pmm_frame pd pde flag (m, b) else Inr (pt, m, b)")
          (simp_all only: if_False bnd_simps, auto)
      have "takes\<^sup>*\<^sup>* b b1" using g get_table_takes by (auto split: if_splits)
      moreover have "takes\<^sup>*\<^sup>* b1 b'"
        using less.prems nz False less.hyps [OF lt]
        by (subst (asm) map_loop.simps) (simp only: if_False g bnd_simps prod.case Let_def)
      ultimately show ?thesis by (rule rtranclp_trans)
    qed
  qed
qed

lemma map_range_takes: "map_range pd pa va n flag (m, b) = Inr (m', b') \<Longrightarrow> takes\<^sup>*\<^sup>* b b'"
  unfolding map_range_def map_frames_def by (rule map_loop_takes)

lemma load_pages_takes:
  "load_pages pd flags va src needed i rem (m, b) = Inr (m', b') \<Longrightarrow> takes\<^sup>*\<^sup>* b b'"
proof (induction "unat needed - unat i" arbitrary: i rem m b rule: less_induct)
  case less
  show ?case
  proof (cases "i < needed")
    case False
    with less.prems show ?thesis by (simp add: load_pages_step)
  next
    case True
    then have "unat i < unat needed" by (simp add: word_less_nat_alt)
    then have lt: "unat needed - unat (i + 1) < unat needed - unat i"
      using unat_add_small [of i 1] unsigned_less [where 'a = nat, of needed] by simp
    obtain a b1 where a: "pmm_alloc b 0 = Inr (a, b1)"
      using less.prems True by (cases "pmm_alloc b 0") (auto simp: load_pages_step)
    obtain m1 rem1 where f: "fill_page (P2V a) src i rem m = (m1, rem1)" by fastforce
    obtain m2 b2 where r: "map_range pd a (va + push_bit 12 i) 1 flags (m1, b1) = Inr (m2, b2)"
      using less.prems True a f by (cases "map_range pd a (va + push_bit 12 i) 1 flags (m1, b1)") (auto simp: load_pages_step)
    have "load_pages pd flags va src needed (i + 1) rem1 (m2, b2) = Inr (m', b')"
      using less.prems True a f r by (simp add: load_pages_step [of _ _ _ _ _ i])
    from less.hyps [OF lt this] map_range_takes [OF r] a show ?thesis
      by (meson converse_rtranclp_into_rtranclp rtranclp_trans takes_def)
  qed
qed

lemma load_segment_takes: "load_segment idx phdrs pd elf (m, b) = Inr (e, m', b') \<Longrightarrow> takes\<^sup>*\<^sup>* b b'"
  by (auto simp: load_segment_def Let_def bnd_def dest: load_pages_takes split: if_splits sum.splits)

lemma load_segments_takes: "load_segments n i phdrs pd elf l (m, b) = Inr (e, m', b') \<Longrightarrow> takes\<^sup>*\<^sup>* b b'"
proof (induction n arbitrary: i l m b)
  case (Suc n)
  then obtain e1 m1 b1 where s: "load_segment i phdrs pd elf (m, b) = Inr (e1, m1, b1)"
    by (cases "load_segment i phdrs pd elf (m, b)") auto
  with Suc.prems Suc.IH have "takes\<^sup>*\<^sup>* b1 b'" by simp
  with load_segment_takes [OF s] show ?case by simp
qed simp

lemma load_elf_takes: "load_elf pd elf (m, b) = Inr (e, m', b') \<Longrightarrow> takes\<^sup>*\<^sup>* b b'"
  by (auto simp: load_elf_def dest: load_segments_takes split: if_splits)

text \<open>Taking pages keeps the heap intact and only adds blocks in use.\<close>

lemma takes_heap:
  assumes "takes\<^sup>*\<^sup>* b b'" and "pages h = b" and "heap_inv h"
  shows "heap_inv (h\<lparr>pages := b'\<rparr>) \<and> live_blocks h \<subseteq> live_blocks (h\<lparr>pages := b'\<rparr>) \<and> page_n b' = page_n b"
  using assms(1)
proof induction
  case base
  then show ?case using assms(2,3) by auto
next
  case (step y z)
  then obtain a where a: "pmm_alloc (pages (h\<lparr>pages := y\<rparr>)) 0 = Inr (a, z)" by (auto simp: takes_def)
  have i: "heap_inv (h\<lparr>pages := y\<rparr>)" using step.IH by blast
  obtain x where n: "a = frame_addr x" "x < 2 ^ 20" "x \<in> free_pages (pages (h\<lparr>pages := y\<rparr>))"
    "free_pages z = free_pages (pages (h\<lparr>pages := y\<rparr>)) - {x}" "buddy_inv z"
    "page_n z = page_n (pages (h\<lparr>pages := y\<rparr>))" "card (free_pages (pages (h\<lparr>pages := y\<rparr>))) = Suc (card (free_pages z))"
    by (rule pmm_alloc_page [OF heap_pages_inv [OF i] a])
  obtain x where "a = page_map_real x" "x < 2 ^ 20" "heap_inv (h\<lparr>pages := y\<rparr>\<lparr>pages := z\<rparr>)"
    "live_blocks (h\<lparr>pages := y\<rparr>\<lparr>pages := z\<rparr>) = insert (P2V a, 4096 * 2 ^ 0) (live_blocks (h\<lparr>pages := y\<rparr>))"
    "\<forall>n. (P2V a, n) \<notin> live_blocks (h\<lparr>pages := y\<rparr>)"
    by (rule pmm_alloc_blocks [OF i a])
  then show ?case using step.IH n(6) by auto
qed

section \<open>Writing to frames of one's own\<close>

lemma extends_scratch:
  assumes ok: "pmmf.space_ok d m b" and uh: "user_half m d" and X: "X \<subseteq> free_pages b" "kept X m m1"
    and b1: "buddy_inv b1" "free_pages b1 \<subseteq> free_pages b" "card (free_pages b) \<le> card (free_pages b1) + 2 * k"
  shows "extends d {} k (m, b) (m1, b1)"
proof (rule extendsI)
  have d: "dir_wf m d" "d < 2 ^ 20" "d \<notin> free_pages b" "tables m d \<inter> free_pages b = {}"
    using ok by (auto simp: pmmf.space_ok_def dir_space_def dir_wf_def)
  have e: "ent m1 d i = ent m d i" if "i < 1024" for i using ent_kept [OF X(2) d(2) that] X(1) d(3) by blast
  have "pmmf.space_ok d m b1" using ok b1 by (auto simp: pmmf.space_ok_def dir_space_def)
  then show ok1: "pmmf.space_ok d m1 b1" by (rule pmmf.space_ok_cong(1)) (rule e)
  have t: "tables m1 d = tables m d" by (rule pmmf.space_ok_cong(2) [OF ok]) (rule e)
  show w: "work d m1 b1 \<subseteq> work d m b" using b1(2) by (auto simp: work_def t)
  have Xw: "X \<subseteq> work d m b" using X(1) by (auto simp: work_def)
  show "kept (work d m b) m m1" by (rule kept_mono [OF X(2) Xw])
  show "user_half m1 d" using uh e by (simp add: user_half_def)
  show "ent m1 d p = ent m d p" if "p < 1024" "768 \<le> p" for p by (rule e [OF that(1)])
  have wk: "walk m1 d q = walk m d q" if "q < 2 ^ 20" for q
  proof (rule walk_cong [OF that])
    have i: "q div 1024 < 1024" using that by (simp add: less_mult_imp_div_less)
    show "ent m1 d (q div 1024) = ent m d (q div 1024)" by (rule e [OF i])
    show "ent m1 (entry_frame (ent m d (q div 1024))) (q mod 1024) = ent m (entry_frame (ent m d (q div 1024))) (q mod 1024)"
      if "is_table (ent m d (q div 1024))"
      by (rule ent_kept [OF X(2) entry_frame_less]) (use tablesI [OF i that] d(4) X(1) in auto)
  qed
  then show "walk m1 d q = walk m d q" if "q < 2 ^ 20" "KERNEL_PAGE \<le> q" for q using that by blast
  show "holds d q flag c (m1, b1)" if "q < 2 ^ 20" "q \<notin> {}" "holds d q flag c (m, b)" for q flag c
  proof -
    from that(3) obtain f where f: "f < 2 ^ 20" "f \<notin> work d m b" "walk m d q = Some (page_mapping flag f)"
      "\<forall>j<4096. m (P2V (frame_addr f) + of_nat j) = c j" by (auto simp: holds_def)
    have "m1 (P2V (frame_addr f) + of_nat j) = m (P2V (frame_addr f) + of_nat j)" if "j < 4096" for j
      using X(2) frame_of_byte [OF f(1) that] f(2) Xw by (auto simp: kept_def)
    moreover have "f \<notin> work d m1 b1" using f(2) w by blast
    ultimately show ?thesis using f wk [OF that(1)] by (auto simp: holds_def)
  qed
qed (use b1 in auto)

section \<open>A copy of the kernel's directory\<close>

lemma copy_page:
  assumes "d < 2 ^ 20" and "kd < 2 ^ 20" and "d \<noteq> kd" and "m1 = kmemcpy m (P2V (frame_addr d)) (P2V (frame_addr kd)) 0x1000"
  shows "kept {d} m m1" and "j < 4096 \<Longrightarrow> m1 (P2V (frame_addr d) + of_nat j) = m (P2V (frame_addr kd) + of_nat j)"
proof -
  have "frame_of (P2V (frame_addr d)) = d" using frame_of_byte [OF assms(1), of 0] by simp
  then have "\<not> unat (P2V (frame_addr d) - P2V (frame_addr kd)) < 4096"
    using frame_of_page [OF assms(2), of "P2V (frame_addr d)"] assms(3) by simp
  then have "copy_safe (unat (0x1000 :: u32)) (P2V (frame_addr d)) (P2V (frame_addr kd))" by (simp add: copy_safe_def)
  from kmemcpy_at [OF this] have m1: "m1 = copies 4096 (P2V (frame_addr d)) (P2V (frame_addr kd)) m" using assms(4) by simp
  show "kept {d} m m1" unfolding kept_def
  proof (intro allI impI)
    fix y assume "frame_of y \<notin> {d}"
    then have "\<not> unat (y - P2V (frame_addr d)) < 4096" using frame_of_page [OF assms(1), of y] by simp
    then show "m1 y = m y" unfolding m1 copies_def by simp
  qed
  show "m1 (P2V (frame_addr d) + of_nat j) = m (P2V (frame_addr kd) + of_nat j)" if "j < 4096"
    using that by (simp add: m1 copies_def unsigned_of_nat take_bit_nat_eq_self)
qed

lemma new_directory:
  assumes ok: "pmmf.space_ok kd m b" and uh: "user_half m kd" and d: "d \<in> free_pages b" "d < 2 ^ 20"
    and b1: "free_pages b1 = free_pages b - {d}" "buddy_inv b1"
    and m1: "m1 = kmemcpy m (P2V (frame_addr d)) (P2V (frame_addr kd)) 0x1000"
  shows "kept {d} m m1" and "pmmf.space_ok d m1 b1" and "user_half m1 d" and "work d m1 b1 \<subseteq> work kd m b"
    and "q < 2 ^ 20 \<Longrightarrow> walk m1 d q = walk m kd q"
proof -
  have kd: "dir_wf m kd" "kd < 2 ^ 20" "kd \<notin> free_pages b" "tables m kd \<inter> free_pages b = {}"
    using ok by (auto simp: pmmf.space_ok_def dir_space_def dir_wf_def)
  have ne: "d \<noteq> kd" using d(1) kd(3) by blast
  note c = copy_page [OF d(2) kd(2) ne m1]
  show "kept {d} m m1" by (rule c(1))
  have e: "ent m1 d i = ent m kd i" if "i < 1024" for i
  proof -
    have "m1 (slot d i + of_nat k) = m (slot kd i + of_nat k)" if "k < 4" for k
      using c(2) [of "4 * i + k"] \<open>i < 1024\<close> that by (simp add: slot_def add.assoc)
    from this [of 0] this [of 1] this [of 2] this [of 3] show ?thesis by (simp add: ent_def load32_def)
  qed
  have t: "tables m1 d = tables m kd" unfolding tables_def by (rule Collect_cong) (metis e)
  have "d \<notin> tables m kd" using kd(4) d(1) by blast
  then have "dir_wf m1 d" using kd(1) d(2) e unfolding dir_wf_def t by simp
  then show "pmmf.space_ok d m1 b1" using kd(4) b1 by (auto simp: pmmf.space_ok_def dir_space_def t)
  show "user_half m1 d" using uh e by (simp add: user_half_def)
  show "work d m1 b1 \<subseteq> work kd m b" using d(1) b1(1) by (auto simp: work_def t)
  show "walk m1 d q = walk m kd q" if q: "q < 2 ^ 20"
  proof -
    have i: "q div 1024 < 1024" using q by (simp add: less_mult_imp_div_less)
    have "ent m1 (entry_frame (ent m kd (q div 1024))) (q mod 1024) = ent m (entry_frame (ent m kd (q div 1024))) (q mod 1024)"
      if "is_table (ent m kd (q div 1024))"
      by (rule ent_kept [OF c(1) entry_frame_less]) (use tablesI [OF i that] kd(4) d(1) in auto)
    then show ?thesis unfolding walk_def Let_def e [OF i] is_table_def by simp
  qed
qed

end
