(* ===== verification/Elf_Props.thy ===== *)
theory Elf_Props
  imports Elf_Image
begin

text \<open>
  The property of the program loader, with a small program as the concrete instance: an executable
  segment that is the whole file, to be loaded at \<open>0x400000\<close>.
\<close>

section \<open>Rejected files\<close>

lemma load_elf_bad_magic:
  "map (\<lambda>i. fst st (elf_hdr + of_nat i)) [0..<4] \<noteq> verify \<Longrightarrow> load_elf pd elf_hdr st = Inr (0, st)"
  by (simp add: load_elf_def)

section \<open>A small program\<close>

definition sample_elf :: "u8 list" where
  "sample_elf =
     [0x7F, 0x45, 0x4C, 0x46, 1, 1, 1, 0, 0, 0, 0, 0, 0, 0, 0, 0,
      2, 0, 3, 0, 1, 0, 0, 0, 0x54, 0, 0x40, 0, 52, 0, 0, 0, 0, 0, 0, 0, 0, 0, 0, 0, 52, 0, 32, 0, 1, 0, 40, 0, 0, 0, 0, 0,
      1, 0, 0, 0, 0, 0, 0, 0, 0, 0, 0x40, 0, 0, 0, 0x40, 0, 88, 0, 0, 0, 88, 0, 0, 0, 5, 0, 0, 0, 0, 0x10, 0, 0,
      0xCD, 0x80, 0xEB, 0xFC]"

definition sample_at :: u32 where "sample_at = P2V (frame_addr 3000)"

definition sample_mem :: mem where
  "sample_mem x = (let i = unat (x - sample_at) in if i < 88 then sample_elf ! i else 0)"

lemma sample_outside: "frame_of x \<noteq> 3000 \<Longrightarrow> sample_mem x = 0"
  using frame_of_page [of 3000 x] by (simp add: sample_mem_def sample_at_def Let_def)

lemma sample_ent: "d < 2 ^ 20 \<Longrightarrow> d \<noteq> 3000 \<Longrightarrow> i < 1024 \<Longrightarrow> ent sample_mem d i = 0"
  unfolding ent_def by (rule load32_zero) (simp add: sample_outside frame_of_slot)

lemma sample_dir:
  assumes "d < 2 ^ 20" and "d \<noteq> 3000" and "d \<notin> F"
  shows "dir_space F d sample_mem" and "tables sample_mem d = {}" and "user_half sample_mem d"
  using assms by (auto simp: dir_space_def dir_wf_def tables_def is_table_def present_def sample_ent user_half_def pde_ok_def)

lemma sample_byte: "k < 2 ^ 32 \<Longrightarrow> sample_mem (sample_at + of_nat k) = (if k < 88 then sample_elf ! k else 0)"
  by (simp add: sample_mem_def unsigned_of_nat take_bit_nat_eq_self)

lemma sample_num: "sample_mem (sample_at + numeral k) = (let i = unat (numeral k :: u32) in if i < 88 then sample_elf ! i else 0)"
  by (simp add: sample_mem_def)

lemmas sample_fields = load32_def load16_def add.assoc sample_num Let_def sample_elf_def

lemma sample_ehdr:
  "e_entry (ehdr_at sample_mem sample_at) = 0x400054" "e_phoff (ehdr_at sample_mem sample_at) = 52"
  "hdr_count sample_mem sample_at = 1" "hdr_base sample_mem sample_at = sample_at + 52"
proof -
  show "e_entry (ehdr_at sample_mem sample_at) = 0x400054" and o: "e_phoff (ehdr_at sample_mem sample_at) = 52"
    and "hdr_count sample_mem sample_at = 1"
    by (simp_all add: hdr_count_def ehdr_at_def sample_fields)
  show "hdr_base sample_mem sample_at = sample_at + 52" by (simp add: hdr_base_def o)
qed

lemma sample_phdr:
  "seg_no sample_mem sample_at 0 = \<lparr>p_type = PT_LOAD, p_offset = 0, p_vaddr = 0x400000, p_paddr = 0x400000, p_filesz = 88,
     p_memsz = 88, p_segflags = 5, p_align = 0x1000\<rparr>"
  by (simp add: seg_no_def phdr_at_def PT_LOAD_def sample_ehdr sample_fields)

lemma sample_segments:
  "seg_pages (seg_no sample_mem sample_at 0) = 1" "seg_first (seg_no sample_mem sample_at 0) = 0x400"
  "image_pages sample_mem sample_at = 1" "image_end sample_mem sample_at = 0x401"
  by (simp_all add: image_pages_def image_end_def sample_ehdr(3) sample_phdr seg_pages_def seg_first_def seg_end_def lessThan_Suc)

lemma sample_image:
  assumes "d < 2 ^ 20" and "d \<noteq> 3000" and "free_pages b \<subseteq> {0..<1024}"
  shows "image_ok d (sample_mem, b) sample_at"
proof -
  have w: "3000 \<notin> work d sample_mem b"
    using assms by (auto simp: work_def tables_def is_table_def present_def sample_ent)
  have at: "frame_of (sample_at + of_nat c) = 3000" if "c < 4096" for c
    unfolding sample_at_def using that by (simp add: frame_of_byte)
  have ph: "phdr_at sample_mem (sample_at + 52) = seg_no sample_mem sample_at 0"
    by (simp add: seg_no_def sample_ehdr)
  have "seg_safe d (sample_mem, b) sample_at (sample_at + 52)"
    using at [of "52 + c" for c] at w
    by (simp add: seg_safe_def ph sample_phdr seg_ok_def seg_first_def seg_pages_def KERNEL_PAGE_def add.assoc)
  moreover have "map (\<lambda>i. sample_mem (sample_at + of_nat i)) [0..<4] = verify"
    by (simp add: upt_rec verify_def sample_num Let_def sample_elf_def) (simp add: sample_mem_def sample_elf_def)
  ultimately show ?thesis using at w by (simp add: image_ok_def sample_ehdr(3,4))
qed

text \<open>A page of a loaded segment, as the processor sees it.\<close>

lemma seg_loaded_page:
  assumes "seg_loaded d m elf cur (m', b')" and "i < seg_pages cur"
  shows "\<exists>f<2 ^ 20. f \<notin> free_pages b' \<and>
    walk m' d (seg_first cur + i) = Some \<lparr>frame = f, writable = (p_segflags cur = PF_R OR PF_W), user = True\<rparr> \<and>
    (\<forall>c<4096. m' (P2V (frame_addr f) + of_nat c) =
      (if 4096 * i + c < unat (p_filesz cur) then m (elf + p_offset cur + of_nat (4096 * i + c)) else 0))"
proof -
  have w: "PF_R OR PF_W = 6" by (simp add: PF_R_def PF_W_def)
  from assms have "holds d (seg_first cur + i) (seg_flags cur) (seg_byte m (elf + p_offset cur) (unat (p_filesz cur)) i) (m', b')"
    unfolding seg_loaded_def by blast
  then obtain f where "f < 2 ^ 20" "f \<notin> work d m' b'" "walk m' d (seg_first cur + i) = Some (page_mapping (seg_flags cur) f)"
    "\<forall>c<4096. m' (P2V (frame_addr f) + of_nat c) = seg_byte m (elf + p_offset cur) (unat (p_filesz cur)) i c"
    unfolding holds_def fst_conv snd_conv by blast
  then show ?thesis
    unfolding seg_byte_def w by (intro exI [of _ f]) (simp add: work_def page_mapping_def seg_flags_bits [simplified])
qed

section \<open>Loading a program\<close>

text \<open>
  C37: \<open>load_elf\<close> builds the address space the file asks for. For an ELF file whose loadable segments
  start at page boundaries, stay below the kernel and do not overlap, and with two free frames for
  each page, the load succeeds. Afterwards every page of every loadable segment is mapped for user
  mode and holds the bytes of the file and then zeros up to the end of the page. It is writable
  exactly when the segment's flags are read and write. The kernel's half of the address space is
  unchanged, the allocator's invariant holds, and the result is the address behind the last segment,
  where the user stack goes.
\<close>

theorem load_elf_correct:
  assumes "buddy_inv b" and "dir_space (free_pages b) d m" and "user_half m d" and "image_ok d (m, b) elf"
    and "2 * image_pages m elf \<le> card (free_pages b)"
  shows "\<exists>m' b'. load_elf (P2V (frame_addr d)) elf (m, b) = Inr (frame_addr (image_end m elf), m', b') \<and>
    buddy_inv b' \<and> dir_space (free_pages b') d m' \<and> user_half m' d \<and>
    (\<forall>j<hdr_count m elf. \<forall>i < seg_pages (seg_no m elf j). \<exists>f<2 ^ 20. f \<notin> free_pages b' \<and>
      walk m' d (seg_first (seg_no m elf j) + i) =
        Some \<lparr>frame = f, writable = (p_segflags (seg_no m elf j) = PF_R OR PF_W), user = True\<rparr> \<and>
      (\<forall>c<4096. m' (P2V (frame_addr f) + of_nat c) =
        (if 4096 * i + c < unat (p_filesz (seg_no m elf j))
         then m (elf + p_offset (seg_no m elf j) + of_nat (4096 * i + c)) else 0))) \<and>
    (\<forall>q<2 ^ 20. KERNEL_PAGE \<le> q \<longrightarrow> walk m' d q = walk m d q)"
proof -
  have ok: "pmmf.space_ok d m b" using assms(1,2) by (simp add: pmmf.space_ok_def)
  obtain m' b' where r: "load_elf (P2V (frame_addr d)) elf (m, b) = Inr (frame_addr (image_end m elf), m', b')"
    "extends d (\<Union>j<hdr_count m elf. seg_range (seg_no m elf j)) (image_pages m elf) (m, b) (m', b')"
    "\<forall>j<hdr_count m elf. seg_loaded d m elf (seg_no m elf j) (m', b')"
    by (rule load_elf_ok [OF ok assms(3-5)])
  note x = extendsD [OF r(2)]
  have "\<forall>j<hdr_count m elf. \<forall>i < seg_pages (seg_no m elf j). \<exists>f<2 ^ 20. f \<notin> free_pages b' \<and>
      walk m' d (seg_first (seg_no m elf j) + i) =
        Some \<lparr>frame = f, writable = (p_segflags (seg_no m elf j) = PF_R OR PF_W), user = True\<rparr> \<and>
      (\<forall>c<4096. m' (P2V (frame_addr f) + of_nat c) =
        (if 4096 * i + c < unat (p_filesz (seg_no m elf j))
         then m (elf + p_offset (seg_no m elf j) + of_nat (4096 * i + c)) else 0))"
    by (intro allI impI) (rule seg_loaded_page [OF r(3) [rule_format]])
  with r(1) x show ?thesis
    by (intro exI [of _ m'] exI [of _ b']) (simp add: pmmf.space_ok_def)
qed

theorem load_elf_correct_witness:
  "\<exists>m' b' f. load_elf (P2V (frame_addr 2000)) sample_at (sample_mem, many_pages) = Inr (0x401000, m', b') \<and>
    walk m' 2000 0x400 = Some \<lparr>frame = f, writable = False, user = True\<rparr> \<and>
    m' (P2V (frame_addr f) + of_nat 84) = 0xCD \<and> m' (P2V (frame_addr f) + of_nat 88) = 0"
proof -
  have F: "free_pages many_pages \<subseteq> {0..<1024}" by (auto simp: many_pages_sets)
  then have d: "(2000 :: nat) < 2 ^ 20" "(2000 :: nat) \<noteq> 3000" "2000 \<notin> free_pages many_pages" by auto
  have c: "2 * image_pages sample_mem sample_at \<le> card (free_pages many_pages)"
    by (simp add: sample_segments many_pages_sets)
  from load_elf_correct [OF many_pages_inv sample_dir(1) [OF d] sample_dir(3) [OF d] sample_image [OF d(1,2) F] c]
  obtain m' b' where r: "load_elf (P2V (frame_addr 2000)) sample_at (sample_mem, many_pages) =
      Inr (frame_addr (image_end sample_mem sample_at), m', b')"
    "\<forall>j<hdr_count sample_mem sample_at. \<forall>i < seg_pages (seg_no sample_mem sample_at j). \<exists>f<2 ^ 20. f \<notin> free_pages b' \<and>
      walk m' 2000 (seg_first (seg_no sample_mem sample_at j) + i) =
        Some \<lparr>frame = f, writable = (p_segflags (seg_no sample_mem sample_at j) = PF_R OR PF_W), user = True\<rparr> \<and>
      (\<forall>c<4096. m' (P2V (frame_addr f) + of_nat c) =
        (if 4096 * i + c < unat (p_filesz (seg_no sample_mem sample_at j))
         then sample_mem (sample_at + p_offset (seg_no sample_mem sample_at j) + of_nat (4096 * i + c)) else 0))"
    by blast
  from r(2) have "\<exists>f. walk m' 2000 0x400 = Some \<lparr>frame = f, writable = False, user = True\<rparr> \<and>
      (\<forall>c<4096. m' (P2V (frame_addr f) + of_nat c) = (if c < 88 then sample_mem (sample_at + of_nat c) else 0))"
    unfolding sample_ehdr(3) by (elim allE [of _ 0]) (auto simp: sample_segments, auto simp: sample_phdr PF_R_def PF_W_def)
  then obtain f where f: "walk m' 2000 0x400 = Some \<lparr>frame = f, writable = False, user = True\<rparr>"
    "\<And>c. c < 4096 \<Longrightarrow> m' (P2V (frame_addr f) + of_nat c) = (if c < 88 then sample_mem (sample_at + of_nat c) else 0)"
    by blast
  from f(2) [of 84] f(2) [of 88]
  have "m' (P2V (frame_addr f) + of_nat 84) = 0xCD" "m' (P2V (frame_addr f) + of_nat 88) = 0"
    by (simp_all add: sample_num Let_def sample_elf_def)
  with r(1) f(1) show ?thesis by (simp add: sample_segments(4) frame_addr_def)
qed

end
