(* ===== verification/Process_Props.thy ===== *)
theory Process_Props
  imports Process Elf_Props
begin

text \<open>
  What \<open>create_process\<close> builds: an address space with the program's segments and a stack in the
  user's half and the kernel's mappings in the other half, and a thread that enters the program in
  user mode when it is first switched to.
\<close>

section \<open>The kernel stack of a process\<close>

lemma kmalloc_page:
  "kmalloc 0x1000 h = bnd (pmm_alloc (pages h) 0) (\<lambda>(page, b).
     let s = h\<lparr>pages := b\<rparr>; ptr = to_ptr (P2V page)
     in Inr (ptr, if ptr \<noteq> None then s\<lparr>mem_used := mem_used s + 0x1000\<rparr> else s))"
proof -
  have "log_two 0xFFF = 11" by code_simp
  then show ?thesis by (simp add: kmalloc_def MIN_SIZE_def BASE_SHIFT_def Let_def cong: if_cong)
qed

text \<open>A thread at frame \<open>e\<close> that leaves the kernel through \<open>launch_process\<close>: in user mode, at the
  entry point, on the user's stack, with interrupts enabled.\<close>

definition launches :: "u32 \<Rightarrow> u32 \<Rightarrow> u32 \<Rightarrow> mem \<Rightarrow> u32 \<Rightarrow> bool" where
  "launches launch entry user_esp m e \<longleftrightarrow>
     (let u = launch_process m (resume m e)
      in c_eip (resume m e) = launch \<and> c_eip (u_regs u) = entry \<and> c_esp (u_regs u) = user_esp \<and>
         u_cs u = 0x1B \<and> u_ss u = 0x23 \<and> u_eflags u = 0x202 \<and>
         u_ds u = 0x23 \<and> u_es u = 0x23 \<and> u_fs u = 0x23 \<and> u_gs u = 0x23)"

lemma launch_frame:
  obtains e m' where "fold push32 [push_bit 3 4 OR 0 OR 3, user_esp, push_bit 9 1, push_bit 3 3 OR 0 OR 3, entry, launch, 0, 0, 0, 0, 0, 0, 0, 0]
      (base + 0x1000, m) = (e, m')"
    and "launches launch entry user_esp m' e" and "\<forall>x. x \<notin> bytes base 4096 \<longrightarrow> m' x = m x"
proof -
  define vs :: "u32 list" where
    "vs = [push_bit 3 4 OR 0 OR 3, user_esp, push_bit 9 1, push_bit 3 3 OR 0 OR 3, entry, launch, 0, 0, 0, 0, 0, 0, 0, 0]"
  have le: "4 * length vs \<le> 2 ^ 32" by (simp add: vs_def)
  obtain e m' where p: "fold push32 vs (base + 0x1000, m) = (e, m')" "base + 0x1000 = e + of_nat (4 * length vs)"
    "\<forall>i<length vs. load32 m' (e + of_nat (4 * i)) = rev vs ! i" "\<forall>x. x \<notin> bytes e (4 * length vs) \<longrightarrow> m' x = m x"
    by (rule pushes_spec [OF le])
  have "load32 m' (e + 32) = launch" "load32 m' (e + 36) = entry" "load32 m' (e + 40) = 0x1B" "load32 m' (e + 44) = 0x200"
    "load32 m' (e + 48) = user_esp" "load32 m' (e + 52) = 0x23"
    using spec [OF p(3), of 8] spec [OF p(3), of 9] spec [OF p(3), of 10] spec [OF p(3), of 11] spec [OF p(3), of 12]
      spec [OF p(3), of 13] by (simp_all add: vs_def)
  then have "launches launch entry user_esp m' e"
    by (simp add: launches_def launch_process_def flags_image_def resume_def Let_def USER_DATA_SEGMENT_def add.assoc)
  moreover have "m' x = m x" if "x \<notin> bytes base 4096" for x
  proof -
    have "e = base + of_nat 4040" using p(2) by (simp add: vs_def algebra_simps)
    then have "bytes e (4 * length vs) \<subseteq> bytes base 4096" using bytes_sub [of 4040 56 4096 base] by (simp add: vs_def)
    with that p(4) show ?thesis by blast
  qed
  ultimately show thesis using that p(1) unfolding vs_def by blast
qed

lemma low_page:
  assumes "x < 0x40000"
  shows "P2V (frame_addr x) \<noteq> 0"
proof
  assume "P2V (frame_addr x) = 0"
  then have "frame_addr x = V2P 0" by (metis V2P_P2V)
  moreover have "unat (frame_addr x) = 4096 * x" by (rule unat_frame_addr) (use assms in simp)
  ultimately show False using assms by (simp add: V2P_def KERNEL_VIRTUAL_BASE_def)
qed

lemma bytes_frame: "x < 2 ^ 20 \<Longrightarrow> y \<in> bytes (P2V (frame_addr x)) 4096 \<longleftrightarrow> frame_of y = x"
  using frame_of_page [of x y] by (simp add: bytes_iff)

lemma setup_stack_ok:
  assumes "heap_inv (heap_st s)" and "free_pages (pages (heap_st s)) \<noteq> {}" and "\<forall>x\<in>free_pages (pages (heap_st s)). x < 0x40000"
  obtains x e m' h' where "setup_kerenl_stack launch entry user_esp s =
      Inr (\<lparr>kernel_stack_base = P2V (frame_addr x), kernel_esp = e\<rparr>, s\<lparr>kmem := m', heap_st := h'\<rparr>)"
    and "x \<in> free_pages (pages (heap_st s))" and "x < 2 ^ 20" and "kept {x} (kmem s) m'" and "launches launch entry user_esp m' e"
    and "heap_inv h'" and "live_blocks (heap_st s) \<subseteq> live_blocks h'" and "(P2V (frame_addr x), 4096) \<in> live_blocks h'"
    and "free_pages (pages h') = free_pages (pages (heap_st s)) - {x}" and "buddy_inv (pages h')"
    and "card (free_pages (pages (heap_st s))) = Suc (card (free_pages (pages h')))"
    and "page_n (pages h') = page_n (pages (heap_st s))"
proof -
  let ?h = "heap_st s"
  have inv: "buddy_inv (pages ?h)" by (rule heap_pages_inv [OF assms(1)])
  from page_available [OF inv assms(2)] obtain a b where ab: "pmm_alloc (pages ?h) 0 = Inr (a, b)" by blast
  obtain x where x: "a = frame_addr x" "x < 2 ^ 20" "x \<in> free_pages (pages ?h)" "free_pages b = free_pages (pages ?h) - {x}"
    "buddy_inv b" "page_n b = page_n (pages ?h)" "card (free_pages (pages ?h)) = Suc (card (free_pages b))"
    by (rule pmm_alloc_page [OF inv ab])
  have nz: "P2V a \<noteq> 0" unfolding x(1) by (rule low_page) (use x(3) assms(3) in blast)
  define h' where "h' = ?h\<lparr>pages := b, mem_used := mem_used ?h + 0x1000\<rparr>"
  have k: "kmalloc 0x1000 ?h = Inr (Some (P2V a), h')"
    using nz unfolding kmalloc_page ab by (simp add: to_ptr_def h'_def)
  from kmalloc_spec [OF assms(1) k] obtain n where n: "heap_inv h'" "live_blocks h' = insert (P2V a, n) (live_blocks ?h)" by blast
  have live: "(P2V a, 4096) \<in> live_blocks h'"
  proof -
    from n(1) obtain lay where wf: "heap_wf {} h' lay" by (auto simp: heap_inv_def)
    have "used_block b x 0" using pmm.alloc_ok [OF inv, of 0 a b] ab x(1) frame_addr_real real_page_index_real x(2)
      by (metis pmm_alloc_def frame_addr_real)
    moreover have "(P2V (page_map_real x), n) \<in> live_blocks h'" using n(2) x(1) by (simp add: frame_addr_real)
    ultimately have "n = 4096 * 2 ^ 0"
      using page_block_iff [OF wf x(2), of n] by (auto simp: large_def used_block_def h'_def)
    then show ?thesis using n(2) by simp
  qed
  obtain e m' where f: "fold push32 [push_bit 3 4 OR 0 OR 3, user_esp, push_bit 9 1, push_bit 3 3 OR 0 OR 3, entry, launch, 0, 0, 0, 0, 0, 0, 0, 0]
      (P2V a + 0x1000, kmem s) = (e, m')" "launches launch entry user_esp m' e" "\<forall>y. y \<notin> bytes (P2V a) 4096 \<longrightarrow> m' y = kmem s y"
    by (rule launch_frame)
  have r: "setup_kerenl_stack launch entry user_esp s =
      Inr (\<lparr>kernel_stack_base = P2V (frame_addr x), kernel_esp = e\<rparr>, s\<lparr>kmem := m', heap_st := h'\<rparr>)"
    using f(1) unfolding setup_kerenl_stack_def sys_kmalloc_def k x(1) by (simp del: fold_simps)
  have kp: "kept {x} (kmem s) m'" using f(3) x(1) bytes_frame [OF x(2)] by (auto simp: kept_def)
  have p: "pages h' = b" by (simp add: h'_def)
  show thesis
    by (rule that [OF r x(3,2) kp f(2) n(1)], unfold p)
      (use n(2) live x in \<open>auto\<close>)
qed

section \<open>The address space of a process\<close>

abbreviation stack_flags :: u32 where
  "stack_flags \<equiv> PAGE_USER OR PAGE_PRESENT OR PAGE_RW"

lemma stack_flags_bits: "flag_ok stack_flags" "bit stack_flags 2" "bit stack_flags 1"
  by (simp_all add: flag_ok_def page_flag_defs)

text \<open>Directory \<open>d\<close> shows the segments of the program at \<open>elf\<close>, as it is in memory \<open>m\<close>, a stack page
  behind them, and in the kernel's half what directory \<open>kd\<close> shows in \<open>m\<close>.\<close>

definition process_space :: "nat \<Rightarrow> mem \<Rightarrow> u32 \<Rightarrow> nat \<Rightarrow> mem \<times> buddy \<Rightarrow> bool" where
  "process_space kd m elf d st \<longleftrightarrow> pmmf.space_ok d (fst st) (snd st) \<and> user_half (fst st) d \<and>
     (\<forall>j<hdr_count m elf. seg_loaded d m elf (seg_no m elf j) st) \<and>
     (\<exists>c. holds d (image_end m elf) stack_flags c st) \<and>
     (\<forall>q<2 ^ 20. KERNEL_PAGE \<le> q \<longrightarrow> walk (fst st) d q = walk m kd q)"

lemma process_spaceD:
  assumes "process_space kd m elf d (m', b')"
  shows "pmmf.space_ok d m' b'" "user_half m' d" "j < hdr_count m elf \<Longrightarrow> seg_loaded d m elf (seg_no m elf j) (m', b')"
    "\<exists>c. holds d (image_end m elf) stack_flags c (m', b')"
    "q < 2 ^ 20 \<Longrightarrow> KERNEL_PAGE \<le> q \<Longrightarrow> walk m' d q = walk m kd q"
  using assms unfolding process_space_def fst_conv snd_conv by blast+

lemma seg_type_ok:
  assumes "image_ok kd (m, b) elf" and "j < hdr_count m elf"
  shows "p_type (seg_no m elf j) = PT_LOAD \<longrightarrow> seg_ok (seg_no m elf j)"
proof -
  have "seg_safe kd (m, b) elf (hdr_base m elf + SIZEOF_PHDR * of_nat j)"
    using assms unfolding image_ok_def Let_def fst_conv by blast
  then show ?thesis unfolding seg_safe_def Let_def fst_conv seg_no_def by blast
qed

lemma image_end_ge: "j < hdr_count m elf \<Longrightarrow> seg_end (seg_no m elf j) \<le> image_end m elf"
  unfolding image_end_def by (rule Max_ge) auto

lemma image_end_lim:
  assumes "image_ok kd (m, b) elf"
  shows "image_end m elf \<le> KERNEL_PAGE"
  unfolding image_end_def using seg_end_lim [OF seg_type_ok [OF assms]] by (subst Max_le_iff) auto

lemma range_below_end:
  assumes "j < hdr_count m elf" and "q \<in> seg_range (seg_no m elf j)"
  shows "q < image_end m elf"
proof -
  have "seg_end (seg_no m elf j) = seg_first (seg_no m elf j) + seg_pages (seg_no m elf j)"
    using assms(2) by (auto simp: seg_end_def seg_range_def seg_pages_def split: if_splits)
  with image_end_ge [OF assms(1)] assms(2) show ?thesis by (simp add: seg_range_def)
qed

lemma process_space_extends:
  assumes "process_space kd m elf d (m1, b1)" and "extends d {} k (m1, b1) (m2, b2)" and "image_ok kd (m, b) elf"
    and "image_end m elf < KERNEL_PAGE"
  shows "process_space kd m elf d (m2, b2)"
  unfolding process_space_def fst_conv snd_conv
proof (intro conjI allI impI)
  note P = process_spaceD [OF assms(1)] and E = extendsD [OF assms(2)]
  show "pmmf.space_ok d m2 b2" "user_half m2 d" by (rule E)+
  show "seg_loaded d m elf (seg_no m elf j) (m2, b2)" if "j < hdr_count m elf" for j
    by (rule seg_loaded_extends [OF P(3) [OF that] assms(2) _ seg_type_ok [OF assms(3) that]]) simp
  have "image_end m elf < 2 ^ 20" using assms(4) by (simp add: KERNEL_PAGE_def)
  then show "\<exists>c. holds d (image_end m elf) stack_flags c (m2, b2)" using P(4) E(9) by blast
  show "walk m2 d q = walk m kd q" if "q < 2 ^ 20" "KERNEL_PAGE \<le> q" for q using P(5) [OF that] E(8) [OF that] by simp
qed

section \<open>Adding the stack\<close>

lemma add_stack:
  assumes ok: "pmmf.space_ok d m2 b2" and uh: "user_half m2 d" and n: "n < KERNEL_PAGE" and two: "2 \<le> card (free_pages b2)"
  obtains us b3 m3 b4 where "pmm_alloc b2 0 = Inr (frame_addr us, b3)"
    and "map_range (P2V (frame_addr d)) (frame_addr us) (frame_addr n) 1 stack_flags (m2, b3) = Inr (m3, b4)"
    and "extends d {n..<n + 1} 1 (m2, b2) (m3, b4)" and "\<exists>c. holds d n stack_flags c (m3, b4)"
proof -
  have inv: "buddy_inv b2" using ok by (simp add: pmmf.space_ok_def)
  have "free_pages b2 \<noteq> {}" using two by auto
  from page_available [OF inv this] obtain a b3 where al: "pmm_alloc b2 0 = Inr (a, b3)" by blast
  obtain us where us: "a = frame_addr us" "us < 2 ^ 20" "us \<in> free_pages b2" "free_pages b3 = free_pages b2 - {us}"
    "buddy_inv b3" "page_n b3 = page_n b2" "card (free_pages b2) = Suc (card (free_pages b3))"
    by (rule pmm_alloc_page [OF inv al])
  have n20: "n < 2 ^ 20" and nk: "n + 1 \<le> KERNEL_PAGE" and n768: "n div 1024 < 768" using n by (simp_all add: KERNEL_PAGE_def)
  have pde: "pde_ok stack_flags (ent m2 d (n div 1024))"
    using uh n768 pde_ok_user [OF stack_flags_bits(2)] by (simp add: user_half_def)
  obtain m3 b4 where r: "map_range (P2V (frame_addr d)) (frame_addr us) (frame_addr n) 1 stack_flags (m2, b3) = Inr (m3, b4)"
    "grows stack_flags d n 1 (m2, b2) (m3, b4)" "holds d n stack_flags (\<lambda>j. m2 (P2V (frame_addr us) + of_nat j)) (m3, b4)"
    by (rule add_page [OF ok stack_flags_bits(1) n20 two pde al [unfolded us(1)] us(2-5) kept_refl])
  have "extends d {n..<n + 1} 1 (m2, b2) (m3, b4)" by (rule grows_extends [OF r(2) stack_flags_bits(2) nk uh])
  with that al us(1) r(1,3) show thesis by blast
qed

text \<open>The part of \<open>create_process\<close> that works on the memory and the page allocator.\<close>

lemma build_space:
  assumes ok: "pmmf.space_ok kd m b" and uh: "user_half m kd" and img: "image_ok kd (m, b) elf"
    and lim: "image_end m elf < KERNEL_PAGE" and fr: "2 * image_pages m elf + 3 \<le> card (free_pages b)"
  obtains d b1 m2 b2 us b3 m3 b4 where "pmm_alloc b 0 = Inr (frame_addr d, b1)" and "d \<in> free_pages b" and "d < 2 ^ 20"
    and "load_elf (P2V (frame_addr d)) elf (kmemcpy m (P2V (frame_addr d)) (P2V (frame_addr kd)) 0x1000, b1) =
      Inr (frame_addr (image_end m elf), m2, b2)"
    and "pmm_alloc b2 0 = Inr (frame_addr us, b3)"
    and "map_range (P2V (frame_addr d)) (frame_addr us) (frame_addr (image_end m elf)) 1 stack_flags (m2, b3) = Inr (m3, b4)"
    and "e_entry (ehdr_at m2 elf) = e_entry (ehdr_at m elf)" and "process_space kd m elf d (m3, b4)"
    and "card (free_pages b) \<le> card (free_pages b4) + 2 * image_pages m elf + 3" and "free_pages b4 \<subseteq> free_pages b"
proof -
  have inv: "buddy_inv b" using ok by (simp add: pmmf.space_ok_def)
  have "free_pages b \<noteq> {}" using fr by auto
  from page_available [OF inv this] obtain a b1 where al: "pmm_alloc b 0 = Inr (a, b1)" by blast
  obtain d where d: "a = frame_addr d" "d < 2 ^ 20" "d \<in> free_pages b" "free_pages b1 = free_pages b - {d}"
    "buddy_inv b1" "page_n b1 = page_n b" "card (free_pages b) = Suc (card (free_pages b1))"
    by (rule pmm_alloc_page [OF inv al])
  define m1 where "m1 = kmemcpy m (P2V (frame_addr d)) (P2V (frame_addr kd)) 0x1000"
  note N = new_directory [OF ok uh d(3,2,4,5) m1_def]
  have k1: "kept (work kd m b) m m1" by (rule kept_mono [OF N(1)]) (use d(3) in \<open>simp add: work_def\<close>)
  note I = image_kept [OF img k1 N(4)]
  have fr1: "2 * image_pages m1 elf \<le> card (free_pages b1)" using fr d(7) I(5) by simp
  obtain m2 b2 where l: "load_elf (P2V (frame_addr d)) elf (m1, b1) = Inr (frame_addr (image_end m1 elf), m2, b2)"
    "extends d (\<Union>j<hdr_count m1 elf. seg_range (seg_no m1 elf j)) (image_pages m1 elf) (m1, b1) (m2, b2)"
    "\<forall>j<hdr_count m1 elf. seg_loaded d m1 elf (seg_no m1 elf j) (m2, b2)"
    by (rule load_elf_ok [OF N(2,3) I(1) fr1])
  note E = extendsD [OF l(2)]
  have two: "2 \<le> card (free_pages b2)" using E(5) fr d(7) I(5) by simp
  obtain us b3 m3 b4 where st: "pmm_alloc b2 0 = Inr (frame_addr us, b3)"
    "map_range (P2V (frame_addr d)) (frame_addr us) (frame_addr (image_end m elf)) 1 stack_flags (m2, b3) = Inr (m3, b4)"
    "extends d {image_end m elf..<image_end m elf + 1} 1 (m2, b2) (m3, b4)" "\<exists>c. holds d (image_end m elf) stack_flags c (m3, b4)"
    by (rule add_stack [OF E(1,6) lim two])
  note X = extendsD [OF st(3)]
  have entry: "e_entry (ehdr_at m2 elf) = e_entry (ehdr_at m elf)"
    using image_kept(4) [OF I(1) E(4,2)] I(4) by simp
  have ps: "process_space kd m elf d (m3, b4)"
    unfolding process_space_def fst_conv snd_conv
  proof (intro conjI allI impI)
    show "seg_loaded d m elf (seg_no m elf j) (m3, b4)" if j: "j < hdr_count m elf" for j
    proof (rule seg_loaded_extends [OF _ st(3)])
      have s: "seg_safe kd (m, b) elf (hdr_base m elf + SIZEOF_PHDR * of_nat j)"
        using img j unfolding image_ok_def Let_def fst_conv by blast
      show "seg_loaded d m elf (seg_no m elf j) (m2, b2)"
        using seg_loaded_kept [OF s k1 refl, of d "(m2, b2)"] l(3) I(2,3) j by (simp add: seg_no_def)
      show "seg_range (seg_no m elf j) \<inter> {image_end m elf..<image_end m elf + 1} = {}"
        using range_below_end [OF j] by fastforce
    qed (rule seg_type_ok [OF img j])
    show "walk m3 d q = walk m kd q" if "q < 2 ^ 20" "KERNEL_PAGE \<le> q" for q
      using X(8) [OF that] E(8) [OF that] N(5) [OF that(1)] by simp
  qed (rule X(1) X(6) st(4))+
  have c: "card (free_pages b) \<le> card (free_pages b4) + 2 * image_pages m elf + 3"
    using X(5) E(5) d(7) I(5) by simp
  have f: "free_pages b4 \<subseteq> free_pages b" using X(3) E(3) d(4) by blast
  have l': "load_elf (P2V (frame_addr d)) elf (kmemcpy m (P2V (frame_addr d)) (P2V (frame_addr kd)) 0x1000, b1) =
      Inr (frame_addr (image_end m elf), m2, b2)"
    using l(1) unfolding m1_def [symmetric] I(6) .
  show thesis by (rule that [OF al [unfolded d(1)] d(3,2) l' st(1,2) entry ps c f])
qed

section \<open>Creating a process\<close>

lemma free_page_bound:
  assumes "buddy_inv b" and "x \<in> free_pages b"
  shows "x < page_n b"
proof -
  have "buddy_wf b" using assms(1) by (simp add: buddy_inv_def)
  from pages_bounded(1) [OF this] assms(2) show ?thesis by auto
qed

lemma kmalloc_thread:
  assumes "heap_inv h" and "free_pages (pages h) \<noteq> {}" and "page_n (pages h) \<le> 0x40000"
  obtains t n h' where "kmalloc sizeof_Thread h = Inr (Some t, h')" and "heap_inv h'" and "36 \<le> n"
    and "live_blocks h' = insert (t, n) (live_blocks h)" and "\<forall>k>0. (t, k) \<notin> live_blocks h"
    and "\<forall>y<2 ^ 20. t \<noteq> P2V (page_map_real y)" and "free_pages (pages h') \<subseteq> free_pages (pages h)"
    and "card (free_pages (pages h)) \<le> card (free_pages (pages h')) + 1" and "page_n (pages h') = page_n (pages h)"
proof -
  from kmalloc_small_returns [OF assms(1) _ _ assms(2,3), of sizeof_Thread] obtain t h' where
    t: "kmalloc sizeof_Thread h = Inr (Some t, h')" by (auto simp: sizeof_Thread_def)
  from kmalloc_spec [OF assms(1) t] obtain n where n: "heap_inv h'" "36 \<le> n" "live_blocks h' = insert (t, n) (live_blocks h)"
    by (auto simp: sizeof_Thread_def)
  have new: "\<forall>k>0. (t, k) \<notin> live_blocks h" using fresh_address [OF assms(1) t, of t] by (auto simp: sizeof_Thread_def)
  have np: "\<forall>y<2 ^ 20. t \<noteq> P2V (page_map_real y)"
    using kmalloc_small_not_page [OF assms(1) t] by (simp add: sizeof_Thread_def)
  note f = kmalloc_small_free [OF assms(1) t]
  show thesis by (rule that [OF t n new np]) (use f in \<open>simp_all add: sizeof_Thread_def\<close>)
qed

text \<open>\<open>create_process\<close> as one equation over the results of its parts.\<close>

lemma create_process_eq:
  assumes "pmm_alloc (pages (heap_st s)) 0 = Inr (frame_addr d, b1)"
    and "load_elf (P2V (frame_addr d)) elf (kmemcpy (kmem s) (P2V (frame_addr d)) kpd 0x1000, b1) = Inr (frame_addr n, m2, b2)"
    and "pmm_alloc b2 0 = Inr (us, b3)"
    and "map_range (P2V (frame_addr d)) us (frame_addr n) 1 stack_flags (m2, b3) = Inr (m3, b4)"
    and "setup_kerenl_stack launch (e_entry (ehdr_at m2 elf)) (frame_addr (n + 1)) (s\<lparr>kmem := m3, heap_st := (heap_st s)\<lparr>pages := b4\<rparr>\<rparr>) =
      Inr (info, s\<lparr>kmem := m4, heap_st := h5\<rparr>)"
    and "kmalloc sizeof_Thread h5 = Inr (Some t, h6)"
  shows "create_process launch kpd elf s =
    Inr (t, start_thread t (kernel_esp info) (kernel_stack_base info) (P2V (frame_addr d)) (s\<lparr>kmem := m4, heap_st := h6\<rparr>))"
proof -
  have n: "frame_addr n + 0x1000 = frame_addr (n + 1)" using next_frame(1) [of n] by simp
  show ?thesis
    using assms unfolding create_process_def sys_pmm_alloc_def sys_kmalloc_def on_pages_def
    by (simp add: Let_def n)
qed

lemma create_process_spec:
  assumes heap: "heap_inv (heap_st s)" and ok: "pmmf.space_ok kd (kmem s) (pages (heap_st s))" and uh: "user_half (kmem s) kd"
    and img: "image_ok kd (kmem s, pages (heap_st s)) elf" and lim: "image_end (kmem s) elf < KERNEL_PAGE"
    and fr: "2 * image_pages (kmem s) elf + 5 \<le> card (free_pages (pages (heap_st s)))" and pn: "page_n (pages (heap_st s)) \<le> 0x40000"
  obtains t n d x e u where "create_process launch (P2V (frame_addr kd)) elf s =
      Inr (t, start_thread t e (P2V (frame_addr x)) (P2V (frame_addr d)) u)"
    and "sched_st u = sched_st s" and "thread_id u = thread_id s" and "heap_inv (heap_st u)" and "36 \<le> n"
    and "(t, n) \<in> live_blocks (heap_st u)" and "(P2V (frame_addr x), 4096) \<in> live_blocks (heap_st u)"
    and "live_blocks (heap_st s) \<subseteq> live_blocks (heap_st u)" and "\<forall>k>0. (t, k) \<notin> live_blocks (heap_st s)"
    and "\<forall>y<2 ^ 20. t \<noteq> P2V (page_map_real y)" and "d < 2 ^ 20" and "d \<in> free_pages (pages (heap_st s))"
    and "process_space kd (kmem s) elf d (kmem u, pages (heap_st u))"
    and "launches launch (e_entry (ehdr_at (kmem s) elf)) (frame_addr (image_end (kmem s) elf + 1)) (kmem u) e"
proof -
  let ?m = "kmem s" and ?b = "pages (heap_st s)" and ?n = "image_end (kmem s) elf"
  have fr3: "2 * image_pages ?m elf + 3 \<le> card (free_pages ?b)" using fr by simp
  obtain d b1 m2 b2 us b3 m3 b4 where B: "pmm_alloc ?b 0 = Inr (frame_addr d, b1)" "d \<in> free_pages ?b" "d < 2 ^ 20"
    "load_elf (P2V (frame_addr d)) elf (kmemcpy ?m (P2V (frame_addr d)) (P2V (frame_addr kd)) 0x1000, b1) =
      Inr (frame_addr ?n, m2, b2)" "pmm_alloc b2 0 = Inr (frame_addr us, b3)"
    "map_range (P2V (frame_addr d)) (frame_addr us) (frame_addr ?n) 1 stack_flags (m2, b3) = Inr (m3, b4)"
    "e_entry (ehdr_at m2 elf) = e_entry (ehdr_at ?m elf)" "process_space kd ?m elf d (m3, b4)"
    "card (free_pages ?b) \<le> card (free_pages b4) + 2 * image_pages ?m elf + 3" "free_pages b4 \<subseteq> free_pages ?b"
    by (rule build_space [OF ok uh img lim fr3])
  have "takes ?b b1" "takes b2 b3" using B(1,5) by (auto simp: takes_def)
  with load_elf_takes [OF B(4)] map_range_takes [OF B(6)] have tk: "takes\<^sup>*\<^sup>* ?b b4" by (meson converse_rtranclp_into_rtranclp rtranclp_trans)
  define h4 where "h4 = (heap_st s)\<lparr>pages := b4\<rparr>"
  have H4: "heap_inv h4" "live_blocks (heap_st s) \<subseteq> live_blocks h4" "page_n b4 = page_n ?b"
    using takes_heap [OF tk refl heap] by (simp_all add: h4_def)
  define s4 where "s4 = s\<lparr>kmem := m3, heap_st := h4\<rparr>"
  have s4: "heap_st s4 = h4" "kmem s4 = m3" "pages h4 = b4" by (simp_all add: s4_def h4_def)
  have S: "heap_inv (heap_st s4)" "free_pages (pages (heap_st s4)) \<noteq> {}" "\<forall>x\<in>free_pages (pages (heap_st s4)). x < 0x40000"
    unfolding s4 using H4(1) B(9) fr free_page_bound [OF heap_pages_inv [OF heap]] B(10) pn by (force intro: less_le_trans)+
  obtain x e m4 h5 where K: "setup_kerenl_stack launch (e_entry (ehdr_at ?m elf)) (frame_addr (?n + 1)) s4 =
      Inr (\<lparr>kernel_stack_base = P2V (frame_addr x), kernel_esp = e\<rparr>, s4\<lparr>kmem := m4, heap_st := h5\<rparr>)"
    "x \<in> free_pages (pages (heap_st s4))" "x < 2 ^ 20" "kept {x} (kmem s4) m4"
    "launches launch (e_entry (ehdr_at ?m elf)) (frame_addr (?n + 1)) m4 e"
    "heap_inv h5" "live_blocks (heap_st s4) \<subseteq> live_blocks h5" "(P2V (frame_addr x), 4096) \<in> live_blocks h5"
    "free_pages (pages h5) = free_pages (pages (heap_st s4)) - {x}" "buddy_inv (pages h5)"
    "card (free_pages (pages (heap_st s4))) = Suc (card (free_pages (pages h5)))" "page_n (pages h5) = page_n (pages (heap_st s4))"
    by (rule setup_stack_ok [OF S])
  note K = K [unfolded s4]
  have five: "free_pages (pages h5) \<noteq> {}" "page_n (pages h5) \<le> 0x40000" using B(9) fr K(11,12) H4(3) pn by auto
  obtain t n h6 where T: "kmalloc sizeof_Thread h5 = Inr (Some t, h6)" "heap_inv h6" "36 \<le> n"
    "live_blocks h6 = insert (t, n) (live_blocks h5)" "\<forall>k>0. (t, k) \<notin> live_blocks h5"
    "\<forall>y<2 ^ 20. t \<noteq> P2V (page_map_real y)" "free_pages (pages h6) \<subseteq> free_pages (pages h5)"
    "card (free_pages (pages h5)) \<le> card (free_pages (pages h6)) + 1" "page_n (pages h6) = page_n (pages h5)"
    by (rule kmalloc_thread [OF K(6) five])
  note P = process_spaceD [OF B(8)]
  have "extends d {} 1 (m3, b4) (m4, pages h6)"
    by (rule extends_scratch [OF P(1,2) _ K(4)])
      (use K(2,9,11) T(7,8) heap_pages_inv [OF T(2)] in auto)
  from process_space_extends [OF B(8) this img lim] have ps: "process_space kd ?m elf d (m4, pages h6)" .
  define u where "u = s\<lparr>kmem := m4, heap_st := h6\<rparr>"
  have r: "create_process launch (P2V (frame_addr kd)) elf s = Inr (t, start_thread t e (P2V (frame_addr x)) (P2V (frame_addr d)) u)"
    unfolding u_def
  proof (rule create_process_eq [OF B(1,4,5,6) _ T(1),
        where info = "\<lparr>kernel_stack_base = P2V (frame_addr x), kernel_esp = e\<rparr>", simplified])
    show "setup_kerenl_stack launch (e_entry (ehdr_at m2 elf)) (frame_addr (Suc ?n)) (s\<lparr>kmem := m3, heap_st := (heap_st s)\<lparr>pages := b4\<rparr>\<rparr>) =
        Inr (\<lparr>kernel_stack_base = P2V (frame_addr x), kernel_esp = e\<rparr>, s\<lparr>kmem := m4, heap_st := h5\<rparr>)"
      using K(1) unfolding B(7) by (simp add: s4_def h4_def)
  qed
  have u: "sched_st u = sched_st s" "thread_id u = thread_id s" "heap_st u = h6" "kmem u = m4" by (simp_all add: u_def)
  have nl: "\<forall>k>0. (t, k) \<notin> live_blocks (heap_st s)" using T(5) K(7) H4(2) by blast
  show thesis
    by (rule that [OF r u(1,2) _ T(3) _ _ _ nl T(6) B(3,2)], unfold u)
      (use T(2,4) K(5,7,8) H4(2) ps in auto)
qed

section \<open>Creating a process\<close>

text \<open>
  C38: \<open>create_process\<close> starts a program. Given an ELF file as in \<open>load_elf_correct\<close> that ends below
  the kernel, and enough free pages, it succeeds. The new thread is at the end of the ready queue and
  the other queues and all allocated blocks stay as they were. The thread's page directory was a free
  page. Through it, every page of every loadable segment is a user page with the bytes of the file and
  zeros behind them, the page behind the last segment is a writable user page, the stack, and the
  kernel's half is that of the kernel's directory. A switch to the thread runs \<open>launch_process\<close>, which
  enters user mode with interrupts enabled at the entry point of the file, on top of that stack.
\<close>

theorem create_process_correct:
  assumes "heap_inv (heap_st s)" and "sched_inv T (sched_st s)" and "queues_ok T (sched_st s) Q S Z" and "owned T K s"
    and "dir_space (free_pages (pages (heap_st s))) kd (kmem s)" and "user_half (kmem s) kd"
    and "image_ok kd (kmem s, pages (heap_st s)) elf" and "image_end (kmem s) elf < KERNEL_PAGE"
    and "2 * image_pages (kmem s) elf + 5 \<le> card (free_pages (pages (heap_st s)))" and "page_n (pages (heap_st s)) \<le> 0x40000"
  shows "\<exists>t d s'. create_process launch (P2V (frame_addr kd)) elf s = Inr (t, s') \<and> t \<notin> T \<and>
    heap_inv (heap_st s') \<and> live_blocks (heap_st s) \<subseteq> live_blocks (heap_st s') \<and>
    sched_inv (insert t T) (sched_st s') \<and> queues_ok (insert t T) (sched_st s') (Q @ [t]) S Z \<and>
    owned (insert t T) K s' \<and> (t_stack (threads (sched_st s') t), 4096) \<in> live_blocks (heap_st s') \<and>
    t_id (threads (sched_st s') t) = thread_id s \<and> thread_id s' = thread_id s + 1 \<and>
    d \<in> free_pages (pages (heap_st s)) \<and> t_pd (threads (sched_st s') t) = P2V (frame_addr d) \<and>
    (\<forall>j<hdr_count (kmem s) elf. \<forall>i < seg_pages (seg_no (kmem s) elf j). \<exists>f<2 ^ 20. f \<notin> free_pages (pages (heap_st s')) \<and>
      walk (kmem s') d (seg_first (seg_no (kmem s) elf j) + i) =
        Some \<lparr>frame = f, writable = (p_segflags (seg_no (kmem s) elf j) = PF_R OR PF_W), user = True\<rparr> \<and>
      (\<forall>c<4096. kmem s' (P2V (frame_addr f) + of_nat c) =
        (if 4096 * i + c < unat (p_filesz (seg_no (kmem s) elf j))
         then kmem s (elf + p_offset (seg_no (kmem s) elf j) + of_nat (4096 * i + c)) else 0))) \<and>
    (\<exists>f. walk (kmem s') d (image_end (kmem s) elf) = Some \<lparr>frame = f, writable = True, user = True\<rparr>) \<and>
    (\<forall>q<2 ^ 20. KERNEL_PAGE \<le> q \<longrightarrow> walk (kmem s') d q = walk (kmem s) kd q) \<and>
    launches launch (e_entry (ehdr_at (kmem s) elf)) (frame_addr (image_end (kmem s) elf + 1)) (kmem s')
      (t_esp (threads (sched_st s') t))"
proof -
  note o = ownedD [OF assms(4)]
  have ok: "pmmf.space_ok kd (kmem s) (pages (heap_st s))"
    using heap_pages_inv [OF assms(1)] assms(5) by (simp add: pmmf.space_ok_def)
  obtain t n d x e u where 1: "create_process launch (P2V (frame_addr kd)) elf s =
      Inr (t, start_thread t e (P2V (frame_addr x)) (P2V (frame_addr d)) u)"
    "sched_st u = sched_st s" "thread_id u = thread_id s" "heap_inv (heap_st u)" "36 \<le> n"
    "(t, n) \<in> live_blocks (heap_st u)" "(P2V (frame_addr x), 4096) \<in> live_blocks (heap_st u)"
    "live_blocks (heap_st s) \<subseteq> live_blocks (heap_st u)" "\<forall>k>0. (t, k) \<notin> live_blocks (heap_st s)"
    "\<forall>y<2 ^ 20. t \<noteq> P2V (page_map_real y)" "d < 2 ^ 20" "d \<in> free_pages (pages (heap_st s))"
    "process_space kd (kmem s) elf d (kmem u, pages (heap_st u))"
    "launches launch (e_entry (ehdr_at (kmem s) elf)) (frame_addr (image_end (kmem s) elf + 1)) (kmem u) e"
    by (rule create_process_spec [OF assms(1) ok assms(6-10)])
  define s' where "s' = start_thread t e (P2V (frame_addr x)) (P2V (frame_addr d)) u"
  note p = process_spaceD [OF 1(13)]
  have new: "t \<notin> T" "t \<noteq> idle_thread (sched_st s)" using o(2) [of t] 1(9) by fastforce+
  have tK: "t \<notin> K" using o(1) new(1) by blast
  have mem: "kmem s' = kmem u" "heap_st s' = heap_st u" "idle_thread (sched_st s') = idle_thread (sched_st s)"
    "thread_id s' = thread_id s + 1" "threads (sched_st s') t = (threads (sched_st s) t)
       \<lparr>t_esp := e, t_stack := P2V (frame_addr x), t_id := thread_id s, t_pd := P2V (frame_addr d), t_status := RUNNABLE\<rparr>"
    "a \<noteq> t \<Longrightarrow> threads (sched_st s') a = threads (sched_st s) a" for a
    by (simp_all add: s'_def 1(2,3))
  have q: "sched_inv (insert t T) (sched_st s')" "queues_ok (insert t T) (sched_st s') (Q @ [t]) S Z"
    unfolding s'_def by (rule start_thread_sched; use assms(2,3) new 1(2) in simp)+
  have own: "owned (insert t T) K s'"
  proof (rule ownedI)
    show "K \<subseteq> insert t T" using o(1) by blast
    show "\<exists>n\<ge>36. (a, n) \<in> live_blocks (heap_st s')" if "a \<in> insert t T \<or> a = idle_thread (sched_st s')" for a
      using that o(2) [of a] 1(5,6,8) mem(2,3) by auto
    show "a \<noteq> P2V (page_map_real y)" if "a \<in> insert t T \<or> a = idle_thread (sched_st s')" "y < 2 ^ 20" for a y
      using that o(3) [of a y] 1(10) mem(3) by auto
    have st: "threads (sched_st s') a = threads (sched_st s) a" if "a \<in> K" for a using that tK mem(6) by metis
    show "\<exists>y<2 ^ 20. t_stack (threads (sched_st s') a) = page_map_real y \<and>
        (P2V (page_map_real y), 4096) \<in> live_blocks (heap_st s')" if "a \<in> K" for a
      using o(4) [OF that] 1(8) mem(2) st [OF that] by auto
    show "inj_on (\<lambda>a. t_stack (threads (sched_st s') a)) K" using o(5) st by (simp cong: inj_on_cong)
  qed
  obtain c where "holds d (image_end (kmem s) elf) stack_flags c (kmem u, pages (heap_st u))" using p(4) by blast
  then have stk: "\<exists>f. walk (kmem s') d (image_end (kmem s) elf) = Some \<lparr>frame = f, writable = True, user = True\<rparr>"
    by (auto simp: holds_def mem(1) page_mapping_def stack_flags_bits [simplified])
  have seg: "\<forall>j<hdr_count (kmem s) elf. \<forall>i < seg_pages (seg_no (kmem s) elf j). \<exists>f<2 ^ 20. f \<notin> free_pages (pages (heap_st s')) \<and>
      walk (kmem s') d (seg_first (seg_no (kmem s) elf j) + i) =
        Some \<lparr>frame = f, writable = (p_segflags (seg_no (kmem s) elf j) = PF_R OR PF_W), user = True\<rparr> \<and>
      (\<forall>c<4096. kmem s' (P2V (frame_addr f) + of_nat c) =
        (if 4096 * i + c < unat (p_filesz (seg_no (kmem s) elf j))
         then kmem s (elf + p_offset (seg_no (kmem s) elf j) + of_nat (4096 * i + c)) else 0))"
    unfolding mem(1,2) by (intro allI impI) (rule seg_loaded_page [OF p(3)])
  have krn: "\<forall>q<2 ^ 20. KERNEL_PAGE \<le> q \<longrightarrow> walk (kmem s') d q = walk (kmem s) kd q" using p(5) by (simp add: mem(1))
  show ?thesis
    by (rule exI [of _ t], rule exI [of _ d], rule exI [of _ s'])
      (use 1(1,4,7,8,12,14) new q own stk seg krn mem(1-5) in \<open>simp add: s'_def [symmetric]\<close>)
qed

theorem create_process_correct_witness:
  "\<exists>r s. sched_inv {r} (sched_st s) \<and> kmem s = sample_mem \<and>
    (\<exists>t d s'. create_process 0x100 (P2V (frame_addr 2000)) sample_at s = Inr (t, s') \<and>
      queues_ok {t, r} (sched_st s') [r, t] [] [] \<and> t_pd (threads (sched_st s') t) = P2V (frame_addr d) \<and>
      (\<exists>f. walk (kmem s') d 0x401 = Some \<lparr>frame = f, writable = True, user = True\<rparr>) \<and>
      launches 0x100 0x400054 0x402000 (kmem s') (t_esp (threads (sched_st s') t)))"
proof -
  obtain i r z where b: "heap_inv (heap_st z)" "sched_inv {r} (sched_st z)" "queues_ok {r} (sched_st z) [r] [] []"
    "owned {r} {r} z" "reaper (sched_st z) = r" "idle_thread (sched_st z) = i"
    "page_n (pages (heap_st z)) = 1024" "1020 \<le> card (free_pages (pages (heap_st z)))"
    by (rule booted)
  define s where "s = z\<lparr>kmem := sample_mem\<rparr>"
  have s: "kmem s = sample_mem" "heap_inv (heap_st s)" "sched_inv {r} (sched_st s)" "queues_ok {r} (sched_st s) [r] [] []"
    "page_n (pages (heap_st s)) = 1024" "1020 \<le> card (free_pages (pages (heap_st s)))"
    using b by (simp_all add: s_def)
  have o: "owned {r} {r} s" using b(4) by (subst owned_cong) (simp_all add: s_def)
  have F: "free_pages (pages (heap_st s)) \<subseteq> {0..<1024}"
    using free_page_bound [OF heap_pages_inv [OF s(2)]] s(5) by auto
  then have d: "(2000 :: nat) < 2 ^ 20" "(2000 :: nat) \<noteq> 3000" "2000 \<notin> free_pages (pages (heap_st s))" by auto
  note sp = sample_dir(1,3) [OF d, folded s(1)]
  note im = sample_image [OF d(1,2) F, folded s(1)]
  have c: "image_end (kmem s) sample_at < KERNEL_PAGE" "page_n (pages (heap_st s)) \<le> 0x40000"
    "2 * image_pages (kmem s) sample_at + 5 \<le> card (free_pages (pages (heap_st s)))"
    using s(5,6) by (simp_all add: s(1) sample_segments KERNEL_PAGE_def)
  from create_process_correct [OF s(2-4) o sp im c(1,3,2), of "0x100"] obtain t dd s' f where
    "create_process 0x100 (P2V (frame_addr 2000)) sample_at s = Inr (t, s')"
    "queues_ok {t, r} (sched_st s') ([r] @ [t]) [] []" "t_pd (threads (sched_st s') t) = P2V (frame_addr dd)"
    "walk (kmem s') dd (image_end (kmem s) sample_at) = Some \<lparr>frame = f, writable = True, user = True\<rparr>"
    "launches 0x100 (e_entry (ehdr_at (kmem s) sample_at)) (frame_addr (image_end (kmem s) sample_at + 1)) (kmem s')
      (t_esp (threads (sched_st s') t))"
    by (elim exE conjE) (rule that)
  moreover have "frame_addr (image_end (kmem s) sample_at + 1) = 0x402000" "image_end (kmem s) sample_at = 0x401"
    "e_entry (ehdr_at (kmem s) sample_at) = 0x400054"
    by (simp_all add: s(1) sample_segments sample_ehdr(1)) (simp add: frame_addr_def)
  ultimately show ?thesis using s(1,3)
    by (intro exI [of _ r] exI [of _ s] conjI exI [of _ t] exI [of _ dd] exI [of _ s'] exI [of _ f]) simp_all
qed

end
