(* ===== verification/Entry.thy ===== *)
theory Entry
  imports Switch Isr
begin

text \<open>
  The ways into and out of the kernel in assembly: the interrupt stubs
  (\<open>interrupts/isr_stub.asm\<close>), the reload of the segment registers (\<open>gdt/gdt_flush.asm\<close>), the jump to
  user mode (\<open>kernel/ring3jump.asm\<close>), and the two system calls of a user program
  (\<open>user/syscall.asm\<close>).

  The processor is the record of \<^theory_text>\<open>Switch\<close> with its segment registers and flags. \<open>deliver\<close> and
  \<open>iret\<close> are what the processor itself does when it takes an interrupt through an interrupt gate and
  when it returns from it: coming from user mode it changes to the stack of the task state segment
  and saves the old stack pointer there. \<open>isr_stub\<close> and \<open>isr_wrapper_enter\<close> build the frame that
  \<open>interrupt_handler\<close> gets a pointer to, and \<open>isr_wrapper_leave\<close> unwinds it.
\<close>

section \<open>The processor\<close>

text \<open>The flags an interrupt gate clears: trap, interrupt, nested task, resume, virtual 8086.\<close>

definition GATE_CLEARS :: u32 where "GATE_CLEARS = 0x34300"

definition from_user :: "user_cpu \<Rightarrow> bool" where
  "from_user p \<longleftrightarrow> u_cs p AND 3 \<noteq> 0"

definition u_push :: "u32 list \<Rightarrow> user_cpu \<times> mem \<Rightarrow> user_cpu \<times> mem" where
  "u_push vs pm = (let (p, m) = pm; (e, m) = fold push32 vs (c_esp (u_regs p), m)
     in (p\<lparr>u_regs := (u_regs p)\<lparr>c_esp := e\<rparr>\<rparr>, m))"

definition deliver :: "u32 \<Rightarrow> u16 \<Rightarrow> u32 option \<Rightarrow> u32 \<Rightarrow> user_cpu \<times> mem \<Rightarrow> user_cpu \<times> mem" where
  "deliver esp0 ss0 code gate pm =
     (let (p, m) = pm;
          q = (if from_user p then p\<lparr>u_regs := (u_regs p)\<lparr>c_esp := esp0\<rparr>, u_ss := ss0\<rparr> else p);
          (q, m) = u_push ((if from_user p then [ucast (u_ss p), c_esp (u_regs p)] else []) @
            [u_eflags p, ucast (u_cs p), c_eip (u_regs p)] @ (case code of None \<Rightarrow> [] | Some w \<Rightarrow> [w])) (q, m)
      in (q\<lparr>u_regs := (u_regs q)\<lparr>c_eip := gate\<rparr>, u_cs := 0x08, u_eflags := u_eflags p AND NOT GATE_CLEARS\<rparr>, m))"

definition iret :: "mem \<Rightarrow> user_cpu \<Rightarrow> user_cpu" where
  "iret m p =
     (let e = c_esp (u_regs p);
          q = p\<lparr>u_regs := (u_regs p)\<lparr>c_eip := load32 m e, c_esp := e + 12\<rparr>, u_cs := ucast (load32 m (e + 4)),
                u_eflags := flags_image (load32 m (e + 8))\<rparr>
      in if from_user q
         then q\<lparr>u_regs := (u_regs q)\<lparr>c_esp := load32 m (e + 12)\<rparr>, u_ss := ucast (load32 m (e + 16))\<rparr>
         else q)"

text \<open>The exceptions for which the processor pushes an error code, from its manual: double fault, invalid
  task state, segment not present, stack fault, general protection, page fault, alignment check and
  control protection. No other interrupt pushes one.\<close>

definition pushes_error :: "nat \<Rightarrow> bool" where
  "pushes_error v \<longleftrightarrow> v = 8 \<or> 10 \<le> v \<and> v \<le> 14 \<or> v = 17 \<or> v = 21"

section \<open>The interrupt stubs\<close>

definition KERNEL_DATA_SEL :: u16 where "KERNEL_DATA_SEL = 0x10"

text \<open>The vectors whose stub is made with \<open>isr_err_stub\<close>.\<close>

definition isr_err_stub :: "nat \<Rightarrow> bool" where
  "isr_err_stub v \<longleftrightarrow> v \<in> {8, 10, 11, 12, 13, 14, 17, 21}"

definition isr_stub :: "nat \<Rightarrow> user_cpu \<times> mem \<Rightarrow> user_cpu \<times> mem" where
  "isr_stub v pm = (if isr_err_stub v then u_push [of_nat v] pm else u_push [0, of_nat v] pm)"

definition load_data_segments :: "u16 \<Rightarrow> user_cpu \<Rightarrow> user_cpu" where
  "load_data_segments ax p = p\<lparr>u_ds := ax, u_es := ax, u_fs := ax, u_gs := ax\<rparr>"

definition set_ax :: "u16 \<Rightarrow> cpu \<Rightarrow> cpu" where
  "set_ax ax c = c\<lparr>c_eax := (c_eax c AND 0xFFFF0000) OR ucast ax\<rparr>"

text \<open>Up to \<open>push esp\<close>: the result's stack pointer is the address of the \<open>register_t\<close>, less the
  pushed argument.\<close>

definition isr_wrapper_enter :: "user_cpu \<times> mem \<Rightarrow> user_cpu \<times> mem" where
  "isr_wrapper_enter pm =
     (let (p, m) = pm;
          p = p\<lparr>u_eflags := u_eflags p AND NOT 0x400\<rparr>;
          (c, m) = pusha (u_regs p, m);
          p = p\<lparr>u_regs := set_ax (u_ds p) c\<rparr>;
          (p, m) = u_push [c_eax (u_regs p)] (p, m);
          p = load_data_segments KERNEL_DATA_SEL (p\<lparr>u_regs := set_ax KERNEL_DATA_SEL (u_regs p)\<rparr>)
      in u_push [c_esp (u_regs p)] (p, m))"

text \<open>From behind the call: the function has its own stack pointer back, and may have changed
  \<open>eax\<close>, \<open>ecx\<close>, \<open>edx\<close> and memory.\<close>

definition isr_wrapper_leave :: "mem \<Rightarrow> user_cpu \<Rightarrow> user_cpu" where
  "isr_wrapper_leave m p =
     (let p = p\<lparr>u_regs := (u_regs p)\<lparr>c_esp := c_esp (u_regs p) + 4\<rparr>\<rparr>;
          p = p\<lparr>u_regs := (u_regs p)\<lparr>c_eax := load32 m (c_esp (u_regs p)), c_esp := c_esp (u_regs p) + 4\<rparr>\<rparr>;
          p = load_data_segments (ucast (c_eax (u_regs p))) p;
          p = p\<lparr>u_regs := popa m (u_regs p)\<rparr>;
          p = p\<lparr>u_regs := (u_regs p)\<lparr>c_esp := c_esp (u_regs p) + 8\<rparr>\<rparr>
      in iret m p)"

text \<open>The \<open>register_t\<close> at an address.\<close>

definition register_at :: "mem \<Rightarrow> u32 \<Rightarrow> register_t" where
  "register_at m a =
     \<lparr>r_ds = load32 m a, r_edi = load32 m (a + 4), r_esi = load32 m (a + 8), r_ebp = load32 m (a + 12),
      r_esp = load32 m (a + 16), r_ebx = load32 m (a + 20), r_edx = load32 m (a + 24), r_ecx = load32 m (a + 28),
      r_eax = load32 m (a + 32), r_interrupt = load32 m (a + 36), r_error_code = load32 m (a + 40),
      r_eip = load32 m (a + 44), r_cs = load32 m (a + 48), r_eflags = load32 m (a + 52),
      r_useresp = load32 m (a + 56), r_ss = load32 m (a + 60)\<rparr>"

section \<open>Other routines\<close>

text \<open>\<open>gdt_flush\<close> is called with the address of the new table register; the second result is what
  \<open>lgdt\<close> loads.\<close>

definition gdt_flush :: "mem \<Rightarrow> user_cpu \<Rightarrow> user_cpu \<times> u16 \<times> u32" where
  "gdt_flush m p =
     (let c = (u_regs p)\<lparr>c_eax := load32 m (c_esp (u_regs p) + 4)\<rparr>;
          table = (load16 m (c_eax c), load32 m (c_eax c + 2));
          p = p\<lparr>u_cs := 0x08\<rparr>;
          p = load_data_segments 0x10 (p\<lparr>u_regs := set_ax 0x10 c\<rparr>);
          p = p\<lparr>u_ss := 0x10\<rparr>
      in (p\<lparr>u_regs := ret m (u_regs p)\<rparr>, table))"

definition jump_usermode :: "mem \<Rightarrow> user_cpu \<Rightarrow> user_cpu" where
  "jump_usermode m p =
     (let p = p\<lparr>u_regs := (u_regs p)\<lparr>c_ebx := load32 m (c_esp (u_regs p) + 4)\<rparr>\<rparr>;
          p = load_data_segments 0x23 (p\<lparr>u_regs := set_ax 0x23 (u_regs p)\<rparr>);
          p = p\<lparr>u_regs := (u_regs p)\<lparr>c_esp := c_ebx (u_regs p)\<rparr>\<rparr>
      in iret m p)"

text \<open>The system calls, with the effect of \<open>int 0x80\<close> as \<open>trap\<close>.\<close>

definition user_exit :: "(cpu \<times> mem \<Rightarrow> cpu \<times> mem) \<Rightarrow> cpu \<times> mem \<Rightarrow> cpu \<times> mem" where
  "user_exit trap cm =
     (let (c, m) = cm; (c, m) = trap (c\<lparr>c_eax := 0\<rparr>, m) in (ret m c, m))"

definition user_sleep :: "(cpu \<times> mem \<Rightarrow> cpu \<times> mem) \<Rightarrow> cpu \<times> mem \<Rightarrow> cpu \<times> mem" where
  "user_sleep trap cm =
     (let (c, m) = cm;
          (e, m) = push32 (c_ebx c) (c_esp c, m);
          c = c\<lparr>c_esp := e\<rparr>;
          c = c\<lparr>c_ebx := load32 m (c_esp c + 8)\<rparr>;
          c = c\<lparr>c_eax := 1\<rparr>;
          (c, m) = trap (c, m);
          c = c\<lparr>c_ebx := load32 m (c_esp c), c_esp := c_esp c + 4\<rparr>
      in (ret m c, m))"

section \<open>The frame of an interrupt\<close>

text \<open>The table of stubs agrees with the processor.\<close>

lemma stubs_match: "isr_err_stub v = pushes_error v"
  by (auto simp: isr_err_stub_def pushes_error_def)

lemma u_push_append: "u_push ws (u_push vs pm) = u_push (vs @ ws) pm"
  by (cases pm) (simp add: u_push_def Let_def split: prod.splits)

lemma u_push_eq: "fold push32 vs (c_esp (u_regs p), m) = (e, m') \<Longrightarrow>
    u_push vs (p, m) = (p\<lparr>u_regs := (u_regs p)\<lparr>c_esp := e\<rparr>\<rparr>, m')"
  by (simp add: u_push_def)

text \<open>What is on the stack above the address of the \<open>register_t\<close>, in the order of the pushes.\<close>

definition saved :: "user_cpu \<Rightarrow> u32 \<Rightarrow> nat \<Rightarrow> u32 \<Rightarrow> u32 list" where
  "saved p err v esp =
     (if from_user p then [ucast (u_ss p), c_esp (u_regs p)] else []) @
     [u_eflags p, ucast (u_cs p), c_eip (u_regs p), err, of_nat v,
      c_eax (u_regs p), c_ecx (u_regs p), c_edx (u_regs p), c_ebx (u_regs p), esp, c_ebp (u_regs p), c_esi (u_regs p), c_edi (u_regs p),
      (c_eax (u_regs p) AND 0xFFFF0000) OR ucast (u_ds p)]"

definition kernel_top :: "u32 \<Rightarrow> user_cpu \<Rightarrow> u32" where
  "kernel_top esp0 p = (if from_user p then esp0 else c_esp (u_regs p))"

definition err_word :: "u32 option \<Rightarrow> u32" where
  "err_word code = (case code of None \<Rightarrow> 0 | Some w \<Rightarrow> w)"

definition frame_size :: "user_cpu \<Rightarrow> nat" where
  "frame_size p = (if from_user p then 64 else 56)"

lemma length_saved: "4 * length (saved p err v esp) = frame_size p"
  by (simp add: saved_def frame_size_def)

lemma fold_push32_top: "fst (fold push32 vs (e, m)) = e - of_nat (4 * length vs)"
  by (induction vs arbitrary: e m) (simp_all add: push32_def)

lemma fold_push32_pair: "fold push32 vs (e, m) = (e - of_nat (4 * length vs), snd (fold push32 vs (e, m)))"
  using fold_push32_top [of vs e m] by (simp add: prod_eq_iff)

lemma fold_append_eq: "fold f vs s = t \<Longrightarrow> fold f (vs @ ws) s = fold f ws t"
  by simp

text \<open>The part of the frame the processor and the stub push.\<close>

definition pushed :: "user_cpu \<Rightarrow> u32 option \<Rightarrow> nat \<Rightarrow> u32 list" where
  "pushed p code v = (if from_user p then [ucast (u_ss p), c_esp (u_regs p)] else []) @
     [u_eflags p, ucast (u_cs p), c_eip (u_regs p), err_word code, of_nat v]"

definition gated :: "u32 \<Rightarrow> u16 \<Rightarrow> u32 \<Rightarrow> u32 \<Rightarrow> user_cpu \<Rightarrow> user_cpu" where
  "gated e ss0 esp0 gate p =
     p\<lparr>u_regs := (u_regs p)\<lparr>c_esp := e, c_eip := gate\<rparr>, u_cs := 0x08, u_eflags := u_eflags p AND NOT GATE_CLEARS,
       u_ss := (if from_user p then ss0 else u_ss p)\<rparr>"

lemma stub_pushes:
  assumes "(code \<noteq> None) = isr_err_stub v" and "fold push32 (pushed p code v) (kernel_top esp0 p, m) = (e, m')"
  shows "isr_stub v (deliver esp0 ss0 code gate (p, m)) = (gated e ss0 esp0 gate p, m')"
  using assms
  by (cases code; cases "from_user p")
    (simp_all add: isr_stub_def deliver_def u_push_def Let_def pushed_def gated_def kernel_top_def err_word_def push32_def)

lemma enter_pushes:
  assumes "(code \<noteq> None) = isr_err_stub v"
  obtains esp q where "isr_wrapper_enter (isr_stub v (deliver esp0 ss0 code gate (p, m))) =
      (q, snd (fold push32 (saved p (err_word code) v esp @ [kernel_top esp0 p - of_nat (frame_size p)]) (kernel_top esp0 p, m)))"
    and "c_esp (u_regs q) = kernel_top esp0 p - of_nat (frame_size p) - 4" and "u_ds q = 0x10" and "u_es q = 0x10"
    and "u_fs q = 0x10" and "u_gs q = 0x10" and "u_cs q = 0x08" and "u_eflags q AND 0x200 = 0"
    and "u_ss q = (if from_user p then ss0 else u_ss p)"
    and "c_ebx (u_regs q) = c_ebx (u_regs p)" and "c_esi (u_regs q) = c_esi (u_regs p)"
    and "c_edi (u_regs q) = c_edi (u_regs p)" and "c_ebp (u_regs q) = c_ebp (u_regs p)"
proof -
  obtain e1 m1 where 1: "fold push32 (pushed p code v) (kernel_top esp0 p, m) = (e1, m1)" by fastforce
  define rs where "rs = [c_eax (u_regs p), c_ecx (u_regs p), c_edx (u_regs p), c_ebx (u_regs p), e1, c_ebp (u_regs p), c_esi (u_regs p), c_edi (u_regs p)]"
  define ds where "ds = (c_eax (u_regs p) AND 0xFFFF0000) OR ucast (u_ds p)"
  obtain e2 m2 where 2: "fold push32 rs (e1, m1) = (e2, m2)" by fastforce
  obtain e3 m3 where 3: "fold push32 [ds] (e2, m2) = (e3, m3)" by fastforce
  obtain e4 m4 where 4: "fold push32 [e3] (e3, m3) = (e4, m4)" by fastforce
  define g where "g = gated e1 ss0 esp0 gate p"
  have sv: "saved p (err_word code) v e1 = pushed p code v @ rs @ [ds]" by (simp add: saved_def pushed_def rs_def ds_def)
  have s3: "fold push32 (saved p (err_word code) v e1) (kernel_top esp0 p, m) = (e3, m3)"
    unfolding sv using 1 2 3 by simp
  have e: "e3 = kernel_top esp0 p - of_nat (frame_size p)" "e4 = e3 - 4"
    using fold_push32_top [of "saved p (err_word code) v e1" "kernel_top esp0 p" m] s3 4
    unfolding length_saved by (simp_all add: push32_def)
  have all: "fold push32 (saved p (err_word code) v e1 @ [e3]) (kernel_top esp0 p, m) = (e4, m4)"
    using s3 4 by simp
  define q where "q = g\<lparr>u_eflags := u_eflags g AND NOT 0x400, u_regs := set_ax 0x10 (set_ax (u_ds p) ((u_regs g)\<lparr>c_esp := e4\<rparr>)),
    u_ds := 0x10, u_es := 0x10, u_fs := 0x10, u_gs := 0x10\<rparr>"
  have pa: "pusha (u_regs g, m1) = ((u_regs g)\<lparr>c_esp := e2\<rparr>, m2)"
    using 2 by (simp del: fold_simps add: pusha_def g_def gated_def rs_def)
  have ax: "c_eax (set_ax (u_ds p) ((u_regs g)\<lparr>c_esp := e2\<rparr>)) = ds" by (simp add: set_ax_def g_def gated_def ds_def)
  have r: "isr_wrapper_enter (isr_stub v (deliver esp0 ss0 code gate (p, m))) = (q, m4)"
    unfolding stub_pushes [OF assms 1] g_def [symmetric]
    using 3 4 pa ax
    by (simp del: fold_simps add: isr_wrapper_enter_def u_push_def q_def load_data_segments_def KERNEL_DATA_SEL_def set_ax_def Let_def)
      (simp add: g_def gated_def)
  have 5: "c_esp (u_regs q) = kernel_top esp0 p - of_nat (frame_size p) - 4" "u_ds q = 0x10" "u_es q = 0x10"
    "u_fs q = 0x10" "u_gs q = 0x10" "u_cs q = 0x08" "u_ss q = (if from_user p then ss0 else u_ss p)"
    "c_ebx (u_regs q) = c_ebx (u_regs p)" "c_esi (u_regs q) = c_esi (u_regs p)"
    "c_edi (u_regs q) = c_edi (u_regs p)" "c_ebp (u_regs q) = c_ebp (u_regs p)"
    "u_eflags q = (u_eflags p AND NOT GATE_CLEARS) AND NOT 0x400"
    using e by (simp_all add: q_def g_def gated_def set_ax_def)
  have 6: "u_eflags q AND 0x200 = 0"
    unfolding 5(12) GATE_CLEARS_def by (simp add: and.assoc)
  have "isr_wrapper_enter (isr_stub v (deliver esp0 ss0 code gate (p, m))) =
      (q, snd (fold push32 (saved p (err_word code) v e1 @ [kernel_top esp0 p - of_nat (frame_size p)]) (kernel_top esp0 p, m)))"
    unfolding e(1) [symmetric] all r by simp
  then show thesis by (rule that [OF _ 5(1-6) 6 5(7-11)])
qed

section \<open>Returning\<close>

lemma u16_u32_u16: "ucast (ucast (w :: u16) :: u32) = w"
  by (rule bit_word_eqI) (simp add: bit_simps)

lemma low_half: "ucast ((x AND 0xFFFF0000) OR ucast (w :: u16) :: u32) = w"
proof -
  have h: "(0xFFFF0000 :: u32) = NOT (mask 16)" by (simp add: mask_eq_exp_minus_1)
  show ?thesis unfolding h by (rule bit_word_eqI) (simp add: bit_simps)
qed

lemma length_saved_if: "length (saved p err v esp) = (if from_user p then 16 else 14)"
  by (simp add: saved_def)

lemma rev_saved: "rev (saved p err v esp) =
    [(c_eax (u_regs p) AND 0xFFFF0000) OR ucast (u_ds p), c_edi (u_regs p), c_esi (u_regs p), c_ebp (u_regs p), esp, c_ebx (u_regs p),
     c_edx (u_regs p), c_ecx (u_regs p), c_eax (u_regs p), of_nat v, err, c_eip (u_regs p), ucast (u_cs p), u_eflags p] @
    (if from_user p then [c_esp (u_regs p), ucast (u_ss p)] else [])"
  by (simp add: saved_def)

text \<open>Leaving through a frame with the contents \<open>saved\<close>.\<close>

lemma leave_frame:
  assumes "\<forall>i<length (saved p err v esp). load32 m (a + of_nat (4 * i)) = rev (saved p err v esp) ! i"
    and "c_esp (u_regs q) = a - 4" and "u_ss q = (if from_user p then ss0 else u_ss p)"
    and "\<not> from_user p \<longrightarrow> c_esp (u_regs p) = a + 56" and "flags_image (u_eflags p) = u_eflags p"
  shows "isr_wrapper_leave m q = p\<lparr>u_es := u_ds p, u_fs := u_ds p, u_gs := u_ds p\<rparr>"
proof -
  note l = assms(1) [rule_format, unfolded length_saved_if rev_saved]
  have k: "load32 m a = (c_eax (u_regs p) AND 0xFFFF0000) OR ucast (u_ds p)" "load32 m (a + 4) = c_edi (u_regs p)"
    "load32 m (a + 8) = c_esi (u_regs p)" "load32 m (a + 12) = c_ebp (u_regs p)" "load32 m (a + 20) = c_ebx (u_regs p)"
    "load32 m (a + 24) = c_edx (u_regs p)" "load32 m (a + 28) = c_ecx (u_regs p)" "load32 m (a + 32) = c_eax (u_regs p)"
    "load32 m (a + 44) = c_eip (u_regs p)" "load32 m (a + 48) = ucast (u_cs p)" "load32 m (a + 52) = u_eflags p"
    using l [of 0] l [of 1] l [of 2] l [of 3] l [of 5] l [of 6] l [of 7] l [of 8] l [of 11] l [of 12] l [of 13]
    by simp_all
  have u: "load32 m (a + 56) = c_esp (u_regs p)" "load32 m (a + 60) = ucast (u_ss p)" if "from_user p"
    using that l [of 14] l [of 15] by simp_all
  note ds = low_half [of "c_eax (u_regs p)" "u_ds p"]
  define r where "r = q\<lparr>u_ds := u_ds p, u_es := u_ds p, u_fs := u_ds p, u_gs := u_ds p,
    u_regs := (u_regs p)\<lparr>c_eip := c_eip (u_regs q), c_esp := a + 44\<rparr>\<rparr>"
  have "popa m ((u_regs q)\<lparr>c_eax := x, c_esp := a + 4\<rparr>) = (u_regs p)\<lparr>c_eip := c_eip (u_regs q), c_esp := a + 36\<rparr>" for x
    by (rule cpu.equality) (simp_all add: popa_def Let_def add.assoc k)
  then have "isr_wrapper_leave m q = iret m r"
    by (simp add: isr_wrapper_leave_def load_data_segments_def Let_def assms(2) k(1) ds r_def add.commute)
  also have "\<dots> = p\<lparr>u_es := u_ds p, u_fs := u_ds p, u_gs := u_ds p\<rparr>"
  proof (cases "from_user p")
    case True
    then show ?thesis
      by (intro user_cpu.equality cpu.equality) (simp_all add: iret_def Let_def r_def add.assoc k u from_user_def u16_u32_u16 assms(5))
  next
    case False
    then show ?thesis using assms(3,4)
      by (intro user_cpu.equality cpu.equality) (simp_all add: iret_def Let_def r_def add.assoc k from_user_def u16_u32_u16 assms(5))
  qed
  finally show ?thesis .
qed

text \<open>
  C39: an interrupt is transparent to the code it interrupts, up to three segment registers. For each
  of the 256 vectors, from kernel and from user mode, with an error code exactly for the exceptions
  for which the processor pushes one, the stub hands \<open>interrupt_handler\<close> a pointer to a \<open>register_t\<close>
  with the vector, the error code (0 if there is none) and the interrupted registers, with the
  kernel's data segments loaded and interrupts disabled. When the handler returns, having changed
  any memory but that frame, and the registers a function may change, the general registers,
  the instruction and stack pointer, \<open>cs\<close>, \<open>ss\<close>, \<open>ds\<close> and the flags (any value the flags register can
  hold) are as they were; \<open>es\<close>, \<open>fs\<close> and \<open>gs\<close> are not saved and become equal to \<open>ds\<close>.
\<close>

theorem interrupt_transparent:
  assumes "v < 256" and "(code \<noteq> None) = pushes_error v" and "flags_image (u_eflags p) = u_eflags p"
    and "isr_wrapper_enter (isr_stub v (deliver esp0 ss0 code gate (p, m))) = (q, m1)"
    and "\<forall>x\<in>bytes (c_esp (u_regs q) + 4) (if from_user p then 64 else 56). m2 x = m1 x"
  shows "load32 m1 (c_esp (u_regs q)) = c_esp (u_regs q) + 4 \<and>
    (let r = register_at m1 (c_esp (u_regs q) + 4)
     in r_interrupt r = of_nat v \<and> r_error_code r = (case code of None \<Rightarrow> 0 | Some w \<Rightarrow> w) \<and>
        r_eax r = c_eax (u_regs p) \<and> r_ebx r = c_ebx (u_regs p) \<and> r_ecx r = c_ecx (u_regs p) \<and> r_edx r = c_edx (u_regs p) \<and>
        r_esi r = c_esi (u_regs p) \<and> r_edi r = c_edi (u_regs p) \<and> r_ebp r = c_ebp (u_regs p) \<and>
        r_eip r = c_eip (u_regs p) \<and> r_cs r = ucast (u_cs p) \<and> r_eflags r = u_eflags p \<and>
        (from_user p \<longrightarrow> r_useresp r = c_esp (u_regs p) \<and> r_ss r = ucast (u_ss p))) \<and>
    u_ds q = 0x10 \<and> u_es q = 0x10 \<and> u_eflags q AND 0x200 = 0 \<and>
    isr_wrapper_leave m2 (q\<lparr>u_regs := (u_regs q)\<lparr>c_eax := a, c_ecx := c, c_edx := d\<rparr>, u_eflags := f\<rparr>) =
      p\<lparr>u_es := u_ds p, u_fs := u_ds p, u_gs := u_ds p\<rparr>"
proof -
  obtain esp q0 where e: "isr_wrapper_enter (isr_stub v (deliver esp0 ss0 code gate (p, m))) =
      (q0, snd (fold push32 (saved p (err_word code) v esp @ [kernel_top esp0 p - of_nat (frame_size p)]) (kernel_top esp0 p, m)))"
    "c_esp (u_regs q0) = kernel_top esp0 p - of_nat (frame_size p) - 4" "u_ds q0 = 0x10" "u_es q0 = 0x10"
    "u_fs q0 = 0x10" "u_gs q0 = 0x10" "u_cs q0 = 0x08" "u_eflags q0 AND 0x200 = 0"
    "u_ss q0 = (if from_user p then ss0 else u_ss p)"
    "c_ebx (u_regs q0) = c_ebx (u_regs p)" "c_esi (u_regs q0) = c_esi (u_regs p)"
    "c_edi (u_regs q0) = c_edi (u_regs p)" "c_ebp (u_regs q0) = c_ebp (u_regs p)"
    by (rule enter_pushes [OF assms(2) [folded stubs_match]])
  have q: "q0 = q" using assms(4) e(1) by simp
  define S where "S = saved p (err_word code) v esp"
  define t where "t = kernel_top esp0 p - of_nat (frame_size p)"
  have le: "4 * length (S @ [t]) \<le> 2 ^ 32" using length_saved [of p "err_word code" v esp] by (simp add: S_def frame_size_def)
  obtain e' m' where 1: "fold push32 (S @ [t]) (kernel_top esp0 p, m) = (e', m')" "kernel_top esp0 p = e' + of_nat (4 * length (S @ [t]))"
    "\<forall>i<length (S @ [t]). load32 m' (e' + of_nat (4 * i)) = rev (S @ [t]) ! i"
    "\<forall>x. x \<notin> bytes e' (4 * length (S @ [t])) \<longrightarrow> m' x = m x"
    by (rule pushes_spec [OF le])
  have m1: "m' = m1" using assms(4) e(1) 1(1) by (simp add: S_def t_def)
  have e': "e' = t - 4" using 1(2) length_saved [of p "err_word code" v esp] by (simp add: S_def t_def algebra_simps)
  have a: "c_esp (u_regs q) = t - 4" using e(2) by (simp add: q t_def)
  have arg: "load32 m1 (c_esp (u_regs q)) = t" using spec [OF 1(3), of 0] by (simp add: m1 e' a)
  have fr: "load32 m1 (t + of_nat (4 * i)) = rev S ! i" if "i < length S" for i
    using spec [OF 1(3), of "Suc i"] that by (simp add: m1 e' algebra_simps)
  have fs: "4 * length S = (if from_user p then 64 else 56)" by (simp add: S_def length_saved frame_size_def)
  have m2: "load32 m2 (t + of_nat (4 * i)) = rev S ! i" if "i < length S" for i
  proof -
    have "bytes (t + of_nat (4 * i)) 4 \<subseteq> bytes t (4 * length S)" by (rule bytes_sub) (use that in simp)
    then have "load32 m2 (t + of_nat (4 * i)) = load32 m1 (t + of_nat (4 * i))"
      using assms(5) unfolding a fs by (intro load32_agree) auto
    with fr [OF that] show ?thesis by simp
  qed
  have len: "length S = (if from_user p then 16 else 14)" using fs by auto
  let ?q = "q\<lparr>u_regs := (u_regs q)\<lparr>c_eax := a, c_ecx := c, c_edx := d\<rparr>, u_eflags := f\<rparr>"
  have lv: "isr_wrapper_leave m2 ?q = p\<lparr>u_es := u_ds p, u_fs := u_ds p, u_gs := u_ds p\<rparr>"
    by (rule leave_frame [of p "err_word code" v esp m2 t ?q ss0])
      (use m2 e(9) assms(3) in \<open>simp_all add: S_def a q t_def kernel_top_def frame_size_def\<close>)
  note fr' = fr [unfolded S_def length_saved_if rev_saved]
  have rg: "let r = register_at m1 t
     in r_interrupt r = of_nat v \<and> r_error_code r = (case code of None \<Rightarrow> 0 | Some w \<Rightarrow> w) \<and>
        r_eax r = c_eax (u_regs p) \<and> r_ebx r = c_ebx (u_regs p) \<and> r_ecx r = c_ecx (u_regs p) \<and> r_edx r = c_edx (u_regs p) \<and>
        r_esi r = c_esi (u_regs p) \<and> r_edi r = c_edi (u_regs p) \<and> r_ebp r = c_ebp (u_regs p) \<and>
        r_eip r = c_eip (u_regs p) \<and> r_cs r = ucast (u_cs p) \<and> r_eflags r = u_eflags p \<and>
        (from_user p \<longrightarrow> r_useresp r = c_esp (u_regs p) \<and> r_ss r = ucast (u_ss p))"
    using fr' [of 1] fr' [of 2] fr' [of 3] fr' [of 5] fr' [of 6] fr' [of 7] fr' [of 8] fr' [of 9] fr' [of 10] fr' [of 11]
      fr' [of 12] fr' [of 13] fr' [of 14] fr' [of 15]
    by (simp add: register_at_def Let_def err_word_def)
  show ?thesis using arg rg lv e(3,4,8) by (simp add: a q)
qed

text \<open>The system call of a process whose stack pointer is \<open>0x402000\<close>, on the kernel stack that ends at
  \<open>0xC0005000\<close>.\<close>

definition trapped :: user_cpu where
  "trapped = \<lparr>u_regs = \<lparr>c_eax = 1, c_ecx = 2, c_edx = 3, c_ebx = 10, c_esp = 0x402000, c_ebp = 6, c_esi = 7, c_edi = 8, c_eip = 0x400056\<rparr>,
     u_ds = 0x23, u_es = 0x23, u_fs = 0x23, u_gs = 0x23, u_cs = 0x1B, u_ss = 0x23, u_eflags = 0x202\<rparr>"

theorem interrupt_transparent_witness:
  "\<exists>q m1. isr_wrapper_enter (isr_stub 0x80 (deliver 0xC0005000 0x10 None 0xC0100000 (trapped, \<lambda>_. 0))) = (q, m1) \<and>
    r_eax (register_at m1 (c_esp (u_regs q) + 4)) = 1 \<and> r_ebx (register_at m1 (c_esp (u_regs q) + 4)) = 10 \<and>
    isr_wrapper_leave m1 q = trapped"
proof -
  obtain q m1 where e: "isr_wrapper_enter (isr_stub 0x80 (deliver 0xC0005000 0x10 None 0xC0100000 (trapped, \<lambda>_. 0))) = (q, m1)"
    by fastforce
  have c: "(None \<noteq> (None :: u32 option)) = pushes_error 0x80" by (simp add: pushes_error_def)
  have f: "flags_image (u_eflags trapped) = u_eflags trapped" by (simp add: trapped_def flags_image_def)
  have "trapped\<lparr>u_es := u_ds trapped, u_fs := u_ds trapped, u_gs := u_ds trapped\<rparr> = trapped" by (simp add: trapped_def)
  moreover have "q\<lparr>u_regs := (u_regs q)\<lparr>c_eax := c_eax (u_regs q), c_ecx := c_ecx (u_regs q), c_edx := c_edx (u_regs q)\<rparr>,
      u_eflags := u_eflags q\<rparr> = q" by simp
  ultimately show ?thesis
    using interrupt_transparent [OF _ c f e, where ?m2.0 = m1 and a = "c_eax (u_regs q)" and c = "c_ecx (u_regs q)" and d = "c_edx (u_regs q)" and
        f = "u_eflags q"] e
    by (auto simp: Let_def) (simp_all add: trapped_def)
qed

section \<open>The system calls of a program\<close>

text \<open>When the trap returns with memory and registers as they were, as interrupts do, \<open>sleep\<close> is an
  ordinary function: the kernel sees the number of the call in \<open>eax\<close> and the argument in \<open>ebx\<close>, and the
  caller gets \<open>ebx\<close> back.\<close>

lemma user_sleep_call:
  assumes "c1 = c\<lparr>c_esp := c_esp c - 4, c_ebx := load32 m (c_esp c + 4), c_eax := 1\<rparr>"
    and "m1 = store32 m (c_esp c - 4) (c_ebx c)" and "trap (c1, m1) = (c1, m1)"
  shows "user_sleep trap (c, m) = (c\<lparr>c_eax := 1, c_esp := c_esp c + 4, c_eip := load32 m (c_esp c)\<rparr>, m1)"
proof -
  define e where "e = c_esp c - 4"
  have e: "c_esp c = e + 4" by (simp add: e_def)
  have "bytes (e + of_nat i) 4 \<inter> bytes (e + of_nat 0) 4 = {}" if "4 \<le> i" "i < 16" for i
    by (rule bytes_apart) (use that in simp_all)
  from this [of 4] this [of 8] have l: "load32 m1 (e + 4) = load32 m (e + 4)" "load32 m1 (8 + e) = load32 m (8 + e)" "load32 m1 e = c_ebx c"
    by (simp_all add: assms(2) e load32_store32_apart load32_store32_same add.commute)
  have c1: "c1 = c\<lparr>c_esp := e, c_ebx := load32 m1 (8 + e), c_eax := 1\<rparr>" using assms(1) l(2) by (simp add: e add.commute)
  have "user_sleep trap (c, m) = (case trap (c1, m1) of (c, m) \<Rightarrow> (ret m (c\<lparr>c_ebx := load32 m (c_esp c), c_esp := c_esp c + 4\<rparr>), m))"
    unfolding user_sleep_def push32_def Let_def c1 using assms(2) by (simp add: e add.commute)
  also have "\<dots> = (c\<lparr>c_eax := 1, c_esp := c_esp c + 4, c_eip := load32 m (c_esp c)\<rparr>, m1)"
    unfolding assms(3) using l by (simp add: c1 ret_def e)
  finally show ?thesis .
qed

lemma user_exit_call:
  "trap (c\<lparr>c_eax := 0\<rparr>, m) = (c\<lparr>c_eax := 0\<rparr>, m) \<Longrightarrow>
    user_exit trap (c, m) = (c\<lparr>c_eax := 0, c_esp := c_esp c + 4, c_eip := load32 m (c_esp c)\<rparr>, m)"
  by (simp add: user_exit_def ret_def)

end
