(* ===== verification/Krand.thy ===== *)
theory Krand
  imports Prelude
begin

text \<open>
  The pseudo-random generator (\<open>lib/random.c\<close>). \<open>unsigned long\<close> has 32 bits here, so the state is a
  word and its arithmetic wraps.
\<close>

definition krand :: "u32 \<Rightarrow> u32 \<times> u32" where
  "krand next = (let next = next * 1103515245 + 12345 in ((next div 65536) mod 32768, next))"

definition ksrand :: "u32 \<Rightarrow> u32 \<Rightarrow> u32" where
  "ksrand seed next = seed"

lemma krand_range: "unat (fst (krand next)) < 32768"
  by (simp add: krand_def Let_def unat_mod)

text \<open>The state advances by an injective map, since the multiplier is odd: different seeds give
  different states after any number of calls.\<close>

lemma krand_state_inj: "inj (\<lambda>next. snd (krand next))"
proof (rule injI)
  fix x y :: u32
  assume "snd (krand x) = snd (krand y)"
  then have "x * 1103515245 = y * 1103515245" by (simp add: krand_def Let_def)
  then have "x * 1103515245 * 0xEEB9EB65 = y * 1103515245 * 0xEEB9EB65" by (rule arg_cong)
  moreover have "(1103515245 :: u32) * 0xEEB9EB65 = 1" by code_simp
  ultimately show "x = y" by (simp only: mult.assoc mult_1_right)
qed

lemma krand_state_iterated_inj: "inj ((\<lambda>next. snd (krand next)) ^^ n)"
  by (rule inj_fn [OF krand_state_inj])

end
