(* ===== verification/Kernel.thy ===== *)
theory Kernel
  imports Process_Props Entry Krand Idt Gdt Serial
begin

text \<open>
  The start of the kernel: \<open>kernel/kernel_entry.asm\<close> up to the call of \<open>kmain\<close>, and \<open>kmain\<close> of
  \<open>kernel/kernel.c\<close>.

  \<open>machine\<close> joins the states of the components. The bump allocator and the page tables work on the
  memory of \<open>boot_st\<close>, threads and processes on that of \<open>sys_st\<close>; \<open>kmain\<close> hands the memory over where
  it leaves the one group for the other. The addresses of functions and tables that the linker
  chooses are in \<open>kernel_image\<close>.

  The loop over the tags of the boot information advances by the size each tag states, so it need
  not end; it is a \<open>partial_function\<close> with value \<open>None\<close> for a run that does not.
\<close>

section \<open>The first instructions\<close>

definition KERNEL_VIRTUAL_ADDR :: u32 where "KERNEL_VIRTUAL_ADDR = 0xC0000000"
definition PAGE_DIR_IDX :: nat where "PAGE_DIR_IDX = unat (drop_bit 22 KERNEL_VIRTUAL_ADDR)"

text \<open>The page directory in the data section.\<close>

definition boot_page_directory :: "u32 list" where
  "boot_page_directory = [0x83] @ replicate (PAGE_DIR_IDX - 1) 0 @ [0x83] @ replicate (1024 - PAGE_DIR_IDX - 1) 0"

record ctrl_cpu =
  k_regs :: cpu
  k_cr0 :: u32
  k_cr3 :: u32
  k_cr4 :: u32

text \<open>\<open>pd\<close>, \<open>higher_half\<close> and \<open>stack_top\<close> are the addresses of these labels. The first part runs at
  physical addresses.\<close>

definition start_paging :: "u32 \<Rightarrow> u32 \<Rightarrow> ctrl_cpu \<Rightarrow> ctrl_cpu" where
  "start_paging pd higher_half p =
     (let c = k_regs p;
          c = c\<lparr>c_esi := c_eax c\<rparr>;
          c = c\<lparr>c_edi := c_ebx c\<rparr>;
          c = c\<lparr>c_ecx := pd - KERNEL_VIRTUAL_ADDR\<rparr>;
          p = p\<lparr>k_cr3 := c_ecx c\<rparr>;
          c = c\<lparr>c_eax := k_cr4 p OR 0x00000010\<rparr>;
          p = p\<lparr>k_cr4 := c_eax c\<rparr>;
          c = c\<lparr>c_eax := k_cr0 p OR 0x80010000\<rparr>;
          p = p\<lparr>k_cr0 := c_eax c\<rparr>;
          c = c\<lparr>c_eax := higher_half\<rparr>
      in p\<lparr>k_regs := c\<lparr>c_eip := c_eax c\<rparr>\<rparr>)"

text \<open>The second part, with the effect of \<open>init_gdt\<close> on registers and memory as an argument, up to the entry of \<open>kmain\<close>: the stack holds the
  return address \<open>back\<close> and the two arguments.\<close>

definition higher_half_start :: "u32 \<Rightarrow> u32 \<Rightarrow> u32 \<Rightarrow> u32 \<Rightarrow> (cpu \<times> mem \<Rightarrow> cpu \<times> mem) \<Rightarrow> cpu \<times> mem \<Rightarrow> cpu \<times> mem" where
  "higher_half_start pd stack_top kmain_at back load_gdt cm =
     (let (c, m) = cm;
          c = c\<lparr>c_esp := stack_top\<rparr>;
          c = c\<lparr>c_ebp := c_esp c\<rparr>;
          (c, m) = load_gdt (c, m);
          m = store32 m pd 0x0;
          (e, m) = fold push32 [c_edi c, c_esi c, back] (c_esp c, m)
      in (c\<lparr>c_esp := e, c_eip := kmain_at\<rparr>, m))"

section \<open>The boot information\<close>

definition tag_type :: "mem \<Rightarrow> u32 \<Rightarrow> u32" where "tag_type m a = load32 m a"
definition tag_size :: "mem \<Rightarrow> u32 \<Rightarrow> u32" where "tag_size m a = load32 m (a + 4)"
definition mmap_entries :: "u32 \<Rightarrow> u32" where "mmap_entries a = a + 16"
definition module_start :: "mem \<Rightarrow> u32 \<Rightarrow> u32" where "module_start m a = load32 m (a + 8)"
definition module_end :: "mem \<Rightarrow> u32 \<Rightarrow> u32" where "module_end m a = load32 m (a + 12)"

text \<open>The array of memory regions at an address.\<close>

definition load64 :: "mem \<Rightarrow> u32 \<Rightarrow> u64" where
  "load64 m a = ucast (load32 m a) OR push_bit 32 (ucast (load32 m (a + 4)))"

definition memory_map_at :: "mem \<Rightarrow> u32 \<Rightarrow> nat \<Rightarrow> memory_map_t" where
  "memory_map_at m p i = (let a = p + 24 * of_nat i
     in \<lparr>mm_addr = load64 m a, mm_size = load64 m (a + 8), mm_type = load32 m (a + 16), mm_reserved = load32 m (a + 20)\<rparr>)"

record boot_info =
  memory_map :: u32
  user_module :: u32
  placement :: u32

definition see_tag :: "mem \<Rightarrow> u32 \<Rightarrow> boot_info \<Rightarrow> boot_info" where
  "see_tag m tag i =
     (if tag_type m tag = 6 then i\<lparr>memory_map := mmap_entries tag\<rparr>
      else if tag_type m tag = 3 then
        let i = i\<lparr>user_module := tag\<rparr>
        in if module_end m tag > placement i then i\<lparr>placement := module_end m tag\<rparr> else i
      else i)"

partial_function (option) tag_loop :: "mem \<Rightarrow> u32 \<Rightarrow> u32 \<Rightarrow> boot_info \<Rightarrow> boot_info option" where
  "tag_loop m header current_adr i =
     (if current_adr < header + load32 m header then
        if tag_type m current_adr = 0 \<and> tag_size m current_adr = 8 then Some i
        else tag_loop m header (current_adr + ((tag_size m current_adr + 7) AND NOT 7)) (see_tag m current_adr i)
      else Some i)"

definition read_tags :: "u32 \<Rightarrow> u32 \<Rightarrow> mem \<Rightarrow> boot_info \<Rightarrow> boot_info option" where
  "read_tags kernel_start mbi_ptr m i =
     (let header = P2V mbi_ptr;
          i = i\<lparr>placement := V2P kernel_start\<rparr>;
          i = (if mbi_ptr + load32 m header > placement i then i\<lparr>placement := mbi_ptr + load32 m header\<rparr> else i)
      in tag_loop m header (header + 8) i)"

section \<open>kmain\<close>

record kernel_image =
  link_syms :: link_map
  kernel_start :: u32
  idt_at :: u32
  isr_stub_table :: "nat \<Rightarrow> u32"
  pit_irq_at :: u32
  timer_at :: u32
  kthread_stub_at :: u32
  reaper_main_at :: u32
  syscall_at :: u32
  launch_at :: u32

record machine = pit +
  boot_st :: boot
  idt_st :: "idt_entry list \<times> idt_ptr"
  cr3_st :: u32
  mask_st :: u16
  seg_st :: segments
  sys_st :: sys
  info_st :: boot_info

text \<open>A call that may fault or not return.\<close>

definition run :: "'a res option \<Rightarrow> ('a \<Rightarrow> 'b res option) \<Rightarrow> 'b res option" where
  "run x f = (case x of None \<Rightarrow> None | Some (Inl e) \<Rightarrow> Some (Inl e) | Some (Inr a) \<Rightarrow> f a)"

definition say :: "(u32 \<Rightarrow> u8 list option) \<Rightarrow> string \<Rightarrow> machine \<Rightarrow> machine res option" where
  "say strs msg k = Some (bnd (print strs (bytes_of msg @ [10]) [] (con k)) (\<lambda>s. Inr (k\<lparr>con := s\<rparr>)))"

definition boot_console :: "device \<Rightarrow> machine \<Rightarrow> machine res option" where
  "boot_console dev k =
     Some (bnd (seriel_init dev (vga_io (con k))) (\<lambda>tr. Inr (k\<lparr>con := vga_clear ((con k)\<lparr>vga_io := tr\<rparr>)\<rparr>)))"

definition boot_tags :: "kernel_image \<Rightarrow> u32 \<Rightarrow> machine \<Rightarrow> machine res option" where
  "boot_tags img mbi_ptr k =
     map_option (\<lambda>i. Inr (k\<lparr>info_st := i, boot_st := init_bump (placement i) (boot_st k)\<rparr>))
       (read_tags (kernel_start img) mbi_ptr (bmem (boot_st k)) (info_st k))"

definition boot_paging :: "kernel_image \<Rightarrow> machine \<Rightarrow> machine res option" where
  "boot_paging img k =
     Some (bnd (paging_init (link_syms img) (memory_map_at (bmem (boot_st k)) (memory_map (info_st k))) (boot_st k))
       (\<lambda>(b, cr3). Inr (k\<lparr>boot_st := b, cr3_st := cr3\<rparr>)))"

definition boot_pmm :: "machine \<Rightarrow> machine res option" where
  "boot_pmm k =
     map_option (\<lambda>(b, p). Inr (k\<lparr>boot_st := b, sys_st := (sys_st k)\<lparr>kmem := bmem b, heap_st := (heap_st (sys_st k))\<lparr>pages := p\<rparr>\<rparr>\<rparr>))
       (pmm_init (memory_map_at (bmem (boot_st k)) (memory_map (info_st k))) (boot_st k) (pages (heap_st (sys_st k))))"

definition boot_heap :: "machine \<Rightarrow> machine res option" where
  "boot_heap k = Some (bnd (init_kmalloc (heap_st (sys_st k))) (\<lambda>h. Inr (k\<lparr>sys_st := (sys_st k)\<lparr>heap_st := h\<rparr>\<rparr>)))"

definition boot_pic :: "device \<Rightarrow> machine \<Rightarrow> machine" where
  "boot_pic dev k = (let p = init_pic dev \<lparr>pic_mask = mask_st k, pic_io = vga_io (con k)\<rparr>
     in k\<lparr>mask_st := pic_mask p, con := (con k)\<lparr>vga_io := pic_io p\<rparr>\<rparr>)"

definition boot_sched :: "kernel_image \<Rightarrow> machine \<Rightarrow> (u32 \<times> machine) res option" where
  "boot_sched img k =
     Some (bnd (init_sched (pit_irq_at img) (timer_at img) (kernel_page_directory (link_syms img)) k (sys_st k))
       (\<lambda>(t, k, s). Inr (t, k\<lparr>sys_st := s\<rparr>)))"

definition boot_reaper :: "kernel_image \<Rightarrow> machine \<Rightarrow> machine res option" where
  "boot_reaper img k =
     Some (bnd (init_reaper (kthread_stub_at img) (kernel_page_directory (link_syms img)) (reaper_main_at img) (sys_st k))
       (\<lambda>s. Inr (k\<lparr>sys_st := s\<rparr>)))"

definition boot_process :: "kernel_image \<Rightarrow> machine \<Rightarrow> machine res option" where
  "boot_process img k =
     Some (bnd (create_process (launch_at img) (kernel_page_directory (link_syms img))
         (P2V (module_start (kmem (sys_st k)) (user_module (info_st k)))) (sys_st k))
       (\<lambda>(_, s). Inr (k\<lparr>sys_st := s\<rparr>)))"

definition kmain :: "device \<Rightarrow> (u32 \<Rightarrow> u8 list option) \<Rightarrow> kernel_image \<Rightarrow> u32 \<Rightarrow> u32 \<Rightarrow> machine \<Rightarrow> machine res option" where
  "kmain dev strs img magic mbi_ptr k =
     run (boot_console dev k) (\<lambda>k.
     if magic \<noteq> 0x36d76289 then Some (Inl (Panic ''Invalid Multiboot2 Magic number''))
     else
       run (boot_tags img mbi_ptr k) (\<lambda>k.
       let k = k\<lparr>idt_st := init_idt (idt_at img) (isr_stub_table img)\<rparr>
       in run (say strs ''IDT initialized.'' k) (\<lambda>k.
       run (boot_paging img k) (\<lambda>k.
       run (say strs ''Paging initialized.'' k) (\<lambda>k.
       run (boot_pmm k) (\<lambda>k.
       run (say strs ''PMM initialized'' k) (\<lambda>k.
       run (boot_heap k) (\<lambda>k.
       let k = boot_pic dev k
       in run (say strs ''PIC initialized.'' k) (\<lambda>k.
       let k = k\<lparr>seg_st := init_tss (seg_st k)\<rparr>
       in run (boot_sched img k) (\<lambda>(main_thread, k).
       run (boot_reaper img k) (\<lambda>k.
       let k = init_syscall (syscall_at img) k
       in run (boot_process img k) (\<lambda>k.
       Some (Inr (k\<lparr>sys_st := sti (set_idle main_thread (sys_st k))\<rparr>))))))))))))))"

section \<open>The boot directory\<close>

lemma PAGE_DIR_IDX_val: "PAGE_DIR_IDX = 768"
  by (simp add: PAGE_DIR_IDX_def KERNEL_VIRTUAL_ADDR_def drop_bit_eq_div)

lemma boot_directory_nth:
  "i < 1024 \<Longrightarrow> boot_page_directory ! i = (if i = 0 \<or> i = 768 then 0x83 else 0)"
  by (auto simp: boot_page_directory_def PAGE_DIR_IDX_val nth_append nth_Cons split: nat.splits)

text \<open>The directory maps the first four megabytes at their own addresses and at the start of the
  kernel's half; without its first entry, in the kernel's half only.\<close>

lemma boot_directory_walk:
  assumes "\<forall>i<1024. ent m d i = boot_page_directory ! i" and "q < 2 ^ 20"
  shows "walk m d q =
    (if q < 0x400 then Some \<lparr>frame = q, writable = True, user = False\<rparr>
     else if 0xC0000 \<le> q \<and> q < 0xC0400 then Some \<lparr>frame = q - 0xC0000, writable = True, user = False\<rparr> else None)"
proof -
  have q: "q div 1024 < 1024" using assms(2) by (simp add: less_mult_imp_div_less)
  have e: "ent m d (q div 1024) = (if q div 1024 = 0 \<or> q div 1024 = 768 then 0x83 else 0)"
    using assms(1) q boot_directory_nth by simp
  have r: "q = 1024 * (q div 1024) + q mod 1024" "q mod 1024 < 1024" by simp_all
  consider "q < 0x400" | "0xC0000 \<le> q" "q < 0xC0400" | "0x400 \<le> q" "q < 0xC0000 \<or> 0xC0400 \<le> q" by linarith
  then show ?thesis
  proof cases
    case 1
    then have "q div 1024 = 0" "q mod 1024 = q" by simp_all
    with 1 e show ?thesis by (simp add: walk_def Let_def present_def is_4mb_def entry_frame_def)
  next
    case 2
    then have d: "q div 1024 = 768" by (intro div_nat_eqI) simp_all
    then have "q mod 1024 = q - 0xC0000" using r(1) by linarith
    with 2 d e show ?thesis by (simp add: walk_def Let_def present_def is_4mb_def entry_frame_def)
  next
    case 3
    then have "q div 1024 \<noteq> 0" "q div 1024 \<noteq> 768" using r by linarith+
    with 3 e show ?thesis by (auto simp: walk_def Let_def present_def)
  qed
qed

section \<open>Reading the boot information\<close>

text \<open>The tags of a well-formed boot information, by their addresses: each is followed by the next at
  a multiple of eight bytes, and the last by the end tag, inside the size the header states.\<close>

definition tag_step :: "mem \<Rightarrow> u32 \<Rightarrow> u32" where
  "tag_step m a = a + ((tag_size m a + 7) AND NOT 7)"

fun tags_at :: "mem \<Rightarrow> u32 \<Rightarrow> u32 \<Rightarrow> u32 list \<Rightarrow> bool" where
  "tags_at m lim a [] \<longleftrightarrow> a < lim \<and> tag_type m a = 0 \<and> tag_size m a = 8"
| "tags_at m lim a (t # ts) \<longleftrightarrow> t = a \<and> a < lim \<and> (tag_type m a = 0 \<longrightarrow> tag_size m a \<noteq> 8) \<and> tags_at m lim (tag_step m a) ts"

lemma tag_loop_tags:
  "tags_at m (header + load32 m header) a ts \<Longrightarrow> tag_loop m header a i = Some (fold (see_tag m) ts i)"
proof (induction ts arbitrary: a i)
  case Nil
  then show ?case by (subst tag_loop.simps) simp
next
  case (Cons t ts)
  then show ?case by (subst tag_loop.simps) (auto simp: tag_step_def)
qed

definition modules :: "mem \<Rightarrow> u32 list \<Rightarrow> u32 list" where
  "modules m ts = filter (\<lambda>t. tag_type m t = 3) ts"

definition maps_seen :: "mem \<Rightarrow> u32 list \<Rightarrow> u32 list" where
  "maps_seen m ts = filter (\<lambda>t. tag_type m t = 6) ts"

lemma see_tags:
  "memory_map (fold (see_tag m) ts i) = (if maps_seen m ts = [] then memory_map i else last (maps_seen m ts) + 16)"
  "user_module (fold (see_tag m) ts i) = (if modules m ts = [] then user_module i else last (modules m ts))"
  "placement (fold (see_tag m) ts i) = Max (insert (placement i) (module_end m ` set (modules m ts)))"
proof (induction ts arbitrary: i)
  case (Cons t ts)
  { case 1 show ?case using Cons(1) by (simp add: see_tag_def maps_seen_def mmap_entries_def Let_def) }
  { case 2 show ?case using Cons(2) by (simp add: see_tag_def modules_def Let_def) }
  { case 3
    have "placement (see_tag m t i) = (if tag_type m t = 3 then max (placement i) (module_end m t) else placement i)"
      by (auto simp: see_tag_def Let_def max_def)
    moreover have "set (modules m (t # ts)) = (if tag_type m t = 3 then insert t (set (modules m ts)) else set (modules m ts))"
      by (auto simp: modules_def)
    moreover have "Max (insert (max a b) S) = Max (insert a (insert b S))" if "finite S" for a b :: u32 and S
      using that by (cases "S = {}") (simp_all add: max.assoc)
    ultimately show ?case using Cons(3) by simp }
qed (simp_all add: maps_seen_def modules_def)

text \<open>A tag of size zero that is not the end tag is read for ever.\<close>

lemma tag_loop_stuck:
  assumes "a < header + load32 m header" and "tag_size m a = 0"
  shows "tag_loop m header a i = None"
proof (rule ccontr)
  assume "tag_loop m header a i \<noteq> None"
  then obtain y where "tag_loop m header a i = Some y" by blast
  then have "\<not> (a < header + load32 m header \<and> tag_size m a = 0)"
    by (rule tag_loop.raw_induct [rotated]) (auto split: if_splits)
  with assms show False by simp
qed

text \<open>
  C40: \<open>kmain\<close> finds the memory map and the program in the boot information. For every information
  structure whose tags form a finite chain to an end tag inside the structure, the loop over the tags
  ends; \<open>memory_map\<close> then points to the entries of the last memory map tag and
  \<open>user_module\<close> to the last module tag, and the address from which memory is handed out is the largest
  of the start of the kernel image, the end of the information structure and the ends of the
  modules. (It need not lie behind the kernel image, only behind its start.)
\<close>

theorem read_tags_correct:
  assumes "tags_at m (P2V mbi_ptr + load32 m (P2V mbi_ptr)) (P2V mbi_ptr + 8) ts"
  shows "\<exists>i'. read_tags kstart mbi_ptr m i = Some i' \<and>
    memory_map i' = (if maps_seen m ts = [] then memory_map i else last (maps_seen m ts) + 16) \<and>
    user_module i' = (if modules m ts = [] then user_module i else last (modules m ts)) \<and>
    placement i' = Max (insert (V2P kstart) (insert (mbi_ptr + load32 m (P2V mbi_ptr)) (module_end m ` set (modules m ts))))"
proof -
  let ?e = "mbi_ptr + load32 m (P2V mbi_ptr)"
  define j where "j = i\<lparr>placement := max (V2P kstart) ?e\<rparr>"
  have "read_tags kstart mbi_ptr m i = tag_loop m (P2V mbi_ptr) (P2V mbi_ptr + 8) j"
    by (auto simp: read_tags_def Let_def j_def max_def)
  then have "read_tags kstart mbi_ptr m i = Some (fold (see_tag m) ts j)" using tag_loop_tags [OF assms] by simp
  moreover have "Max (insert (max a b) S) = Max (insert a (insert b S))" if "finite S" for a b :: u32 and S
    using that by (cases "S = {}") (simp_all add: max.assoc)
  ultimately show ?thesis by (simp add: see_tags) (simp add: j_def max.assoc)
qed

text \<open>An information structure of 80 bytes at \<open>0x9000\<close>: a memory map without entries, a module, the end.\<close>

definition sample_info :: mem where
  "sample_info = store32 (store32 (store32 (store32 (store32 (store32 (store32 (store32 (store32 (\<lambda>_. 0)
     0xC0009000 80) 0xC0009008 6) 0xC000900C 16) 0xC0009018 3) 0xC000901C 17) 0xC0009020 0x300000) 0xC0009024 0x301000)
     0xC0009030 0) 0xC0009034 8"

theorem read_tags_correct_witness:
  "tags_at sample_info (P2V 0x9000 + load32 sample_info (P2V 0x9000)) (P2V 0x9000 + 8) [0xC0009008, 0xC0009018] \<and>
   (\<exists>i'. read_tags 0xC0100000 0x9000 sample_info \<lparr>memory_map = 0, user_module = 0, placement = 0\<rparr> = Some i' \<and>
     memory_map i' = 0xC0009018 \<and> user_module i' = 0xC0009018 \<and> placement i' = 0x301000)"
proof -
  have l: "load32 sample_info 0xC0009000 = 80" "load32 sample_info 0xC0009008 = 6" "load32 sample_info 0xC000900C = 16"
    "load32 sample_info 0xC0009018 = 3" "load32 sample_info 0xC000901C = 17" "load32 sample_info 0xC0009024 = 0x301000"
    "load32 sample_info 0xC0009030 = 0" "load32 sample_info 0xC0009034 = 8"
    by (simp_all add: sample_info_def load32_def store32_def unsigned_minus_1_eq_mask mask_eq_exp_minus_1)
  have p: "P2V 0x9000 = 0xC0009000" by (simp add: P2V_def KERNEL_VIRTUAL_BASE_def)
  have t: "tags_at sample_info (P2V 0x9000 + load32 sample_info (P2V 0x9000)) (P2V 0x9000 + 8) [0xC0009008, 0xC0009018]"
    by (simp add: p l tag_type_def tag_size_def tag_step_def)
  have "maps_seen sample_info [0xC0009008, 0xC0009018] = [0xC0009008]" "modules sample_info [0xC0009008, 0xC0009018] = [0xC0009018]"
    "module_end sample_info 0xC0009018 = 0x301000" "V2P 0xC0100000 = 0x100000"
    by (simp_all add: maps_seen_def modules_def tag_type_def module_end_def l V2P_def KERNEL_VIRTUAL_BASE_def)
  with read_tags_correct [OF t, of "0xC0100000" "\<lparr>memory_map = 0, user_module = 0, placement = 0\<rparr>"] t
  show ?thesis by (auto simp: p l)
qed

end
