(* ===== verification/Spec2Isabelle.thy ===== *)
theory Spec2Isabelle
  imports Pmm Sched_Props Reaper_Race Heap_Props Device_Props Paging_Props Process_Props Kernel
begin

text \<open>
  Verification of the x86OS kernel: the root of the development.

  \<^bold>\<open>The program.\<close> x86OS is a 32-bit kernel. GRUB enters \<open>kernel_entry.asm\<close>, which turns paging on
  and calls \<open>kmain\<close> (\<open>kernel/kernel.c\<close>). \<open>kmain\<close> reads the boot information, places a bump allocator
  behind the boot data (\<open>mm/bump.c\<close>), installs the interrupt table (\<open>interrupts/\<close>), builds the kernel
  page tables (\<open>mm/paging.c\<close>), hands the rest of memory to a buddy allocator (\<open>mm/buddy/buddy.c\<close>) and
  a heap on top of it (\<open>mm/heap/heap.c\<close>), and starts the scheduler (\<open>sched/\<close>), the reaper
  (\<open>kernel/reaper.c\<close>) and the first process (\<open>process/\<close>). From then on timer interrupts and system
  calls enter the kernel through \<open>interrupts/isr_stub.asm\<close> and leave it through the scheduler.

  \<^bold>\<open>Conventions.\<close> C integers are words of their width, so arithmetic wraps. A routine that can
  dereference a null pointer, run out of an array or panic returns \<open>fault + 'a\<close> (type \<open>'a res\<close>,
  sequenced by \<open>bnd\<close>). State is passed explicitly, one record for each component. Memory is a function
  from kernel-virtual addresses to bytes. Objects that are reached only through pointers of one kind
  (list nodes, threads, page descriptors, heap chunks) are kept in stores indexed by their address.
  Functions and tables placed by the linker, the devices behind the ports, and the effect of a
  function called through a pointer are arguments. A loop that might not end is a
  \<open>partial_function (option)\<close>, and that it ends is then part of what is proved; there is no fuel in the
  development.

  \<^bold>\<open>Foundations.\<close>
  \<^item> \<open>Prelude\<close>: machine words, faults, result sequencing, the macros of \<open>layout.h\<close> and \<open>utils.h\<close>.
  \<^item> \<open>Memory\<close>: byte memory and \<open>lib/string.c\<close>, whose inline assembly is shown to set and copy
    exactly the bytes asked for.
  \<^item> \<open>Nodes\<close>: the intrusive doubly linked lists of \<open>mm/node.c\<close> and the interface \<open>intrusive_list\<close>.
  \<^item> \<open>Krand\<close>: \<open>lib/random.c\<close>.

  \<^bold>\<open>Page allocator\<close> (\<open>mm/bump.c\<close>, \<open>mm/buddy/buddy.c\<close>, \<open>mm/pmm.h\<close>).
  \<^item> \<open>Bump\<close>: the boot-time allocator. \<open>Dyadic\<close>: aligned blocks of \<open>2 ^ k\<close> pages.
  \<^item> \<open>Buddy\<close>: data and operations; \<open>page_map s i\<close> is \<open>page_map[i]\<close>, \<open>free_area s k\<close> the head of a free
    list. \<open>Buddy_Inv\<close>: the invariant \<open>buddy_inv\<close>. \<open>Buddy_Correct\<close>: splitting and merging.
    \<open>Buddy_Spec\<close>: the contract \<open>page_allocator\<close> and its interpretation \<open>pmm\<close>. \<open>Buddy_Init\<close>: the page map
    and its first free lists.
  \<^item> \<open>Pmm\<close>: the properties. Allocation hands out an aligned free block and fails exactly when there is
    none; release gives it back and merges; no history of calls loses or duplicates a page.

  \<^bold>\<open>Kernel heap\<close> (\<open>mm/heap/heap.c\<close>).
  \<^item> \<open>Heap\<close>: data and operations. \<open>Heap_Lay\<close>, \<open>Heap_Inv\<close>: the layout of pages into chunks and the
    invariant \<open>heap_inv\<close>. \<open>Heap_Correct\<close>, \<open>Heap_Ops\<close>, \<open>Heap_Page\<close>, \<open>Heap_Alloc\<close>, \<open>Heap_Free\<close>: what each
    routine does to the layout. \<open>Heap_Spec\<close>: the contract \<open>block_allocator\<close> and its interpretation
    \<open>kheap\<close>. \<open>Heap_Props\<close>: the properties: blocks handed out are disjoint, released blocks come back,
    the byte counters are exact. \<open>Heap_Pages\<close>: the heap and direct page allocations side by side.

  \<^bold>\<open>Scheduling\<close> (\<open>sched/\<close>, \<open>kernel/reaper.c\<close>, \<open>process/syscall.c\<close>).
  \<^item> \<open>Queue\<close>: \<open>sched/queue.c\<close> and the interface \<open>fifo\<close>.
  \<^item> \<open>Sched\<close>: the scheduler, the timer, sleeping, the zombie queue and the system calls. \<open>Sched_Inv\<close>:
    the invariant \<open>sched_inv\<close>, with the queues as lists (\<open>queues_ok\<close>). \<open>Sched_Correct\<close>: every operation
    ends and keeps it. \<open>Sched_Run\<close>: the kernel as a transition system, with the removal of a zombie as
    one transition.
  \<^item> \<open>Reaper_Race\<close>: the removal from the zombie queue that \<open>reaper_main\<close> does outside its critical
    section, cut in two, with the corruption that an exit of another thread in between causes.
    \<open>Sched_Split\<close>: the transition system with the reaper's test and the two halves of its removal as
    separate steps; while no thread exits between the halves, it refines the one of \<open>Sched_Run\<close>.
    \<open>Sched_Props\<close>: the properties: where each thread is and that no operation faults, over the steps of
    \<open>Sched_Split\<close>; round robin, no starvation, wake-up in time, no dead thread runs.
  \<^item> \<open>Switch\<close>: \<open>context_switch.asm\<close> and \<open>launch_process.asm\<close> on registers and stack. \<open>Thread\<close>,
    \<open>Thread_Props\<close>: creation, exit and destruction of kernel threads, and which memory they own.

  \<^bold>\<open>Devices\<close> (\<open>drivers/\<close>, \<open>lib/\<close>, \<open>gdt/\<close>, \<open>interrupts/\<close>).
  \<^item> \<open>Ports\<close>, \<open>Pic\<close>, \<open>Vga\<close>, \<open>Serial\<close>, \<open>Kprintf\<close>, \<open>Isr\<close> (dispatch and timer), \<open>Gdt\<close>, \<open>Idt\<close>: one theory for
    each driver; port accesses are a trace. \<open>Device_Props\<close>: the properties, among them that \<open>kprintf\<close>
    prints what its format says and that the video driver refines a scrolling terminal.
  \<^item> \<open>Entry\<close>: the interrupt stubs, which save and restore the interrupted state except for \<open>es\<close>, \<open>fs\<close> and \<open>gs\<close>; the reload of the
    segment registers, the jump to user mode and the system calls of user programs.

  \<^bold>\<open>Address spaces and processes\<close> (\<open>mm/paging.c\<close>, \<open>process/\<close>).
  \<^item> \<open>Paging\<close>: the mapping loops, and \<open>walk\<close>, what the processor makes of the tables. \<open>Paging_Walk\<close>: one
    step of a loop seen through \<open>walk\<close>. \<open>Paging_Loop\<close>: the whole loop, once for any source of page tables
    (\<open>frame_source\<close>, interpreted by the bump and the page allocator). \<open>Paging_Init\<close>: the kernel's
    address space. \<open>Paging_Props\<close>: the properties.
  \<^item> \<open>Elf\<close>: the loader. \<open>Elf_Load\<close>: adding pages to an address space. \<open>Elf_Image\<close>: whole files.
    \<open>Elf_Props\<close>: the property.
  \<^item> \<open>Process\<close>, \<open>Process_Props\<close>: \<open>create_process\<close>, and that it starts the program of the file.

  \<^bold>\<open>Start\<close> (\<open>kernel/kernel_entry.asm\<close>, \<open>kernel/kernel.c\<close>).
  \<^item> \<open>Kernel\<close>: the boot page directory, the first instructions, the reading of the boot information
    and \<open>kmain\<close> as the composition of all initialisations.

  \<^bold>\<open>Bounds.\<close> Physical memory is assumed below \<open>2 ^ 18\<close> pages where it has to fit the kernel's window
  of one gigabyte (\<open>page_n \<le> 0x40000\<close>), and below \<open>2 ^ 20\<close> pages elsewhere. Mapping \<open>k\<close> pages is given
  \<open>k\<close> free frames for page tables and loading a program of \<open>k\<close> pages \<open>2 * k\<close>, which is more than it can
  need. Files are loaded when their segments start on page boundaries.

  \<^bold>\<open>Not modelled.\<close> The translation look-aside buffer, caches and timing. Undefined behaviour of C other
  than null dereferences and array bounds where the code can reach them. Code in user mode: a user
  program appears only through its system calls. Preemption inside a routine that runs with
  interrupts enabled, except inside the reaper's removal. Page faults of the kernel: byte memory is
  total, so a boot-time access above the first four megabytes, which the boot page directory does not
  map, does not fault in the model. The bytes the heap writes into its own pages: chunk headers are
  kept in a store of their own, and neither they nor the clearing of a new heap page show in
  the byte memory that threads and processes use; which bytes belong to the heap is tracked instead.
  The messages that \<open>add_pages\<close> prints when no block fits at the end of a region and the system call
  handler for an unknown number. The self tests of
  the allocators, which the kernel does not call, and the build and linker scripts, whose choices
  are arguments of the model.
\<close>

end
